(* ===== verification/Prelude.thy ===== *)
theory Prelude
  imports Main "HOL-Library.Word" "HOL-Library.Multiset"
begin

text \<open>
  Shared vocabulary of the development: the machine-integer types of the C sources, the bit
  operations on bit 63 that the queue uses as its \<open>closed\<close> and \<open>unsafe\<close> marks, the masking of a
  ticket to a ring slot, and the collections of facts that the component theories extend:
  \<^item> \<open>word_nat\<close>: rules that move a statement about unsigned C integers to \<^typ>\<open>nat\<close>;
  \<^item> \<open>step_simps\<close>: the one-step equations of a component's operations.
\<close>

named_theorems word_nat \<open>unsigned machine integers read as natural numbers\<close>
named_theorems step_simps \<open>one-step equations of the operations\<close>

unbundle bit_operations_syntax

type_synonym u64 = "64 word"
type_synonym u32 = "32 word"

section \<open>Unsigned arithmetic below the wrap-around\<close>

lemma unat_less_64: "unat (x :: u64) < 2 ^ 64"
  using unsigned_less [of x] by simp

lemma unat_add_64 [word_nat]:
  "unat (x + y) = unat x + unat y" if "unat x + unat y < 2 ^ 64" for x y :: u64
  using that by (simp add: unat_word_ariths)

lemma unat_Suc_64 [word_nat]:
  "unat (x + 1) = Suc (unat x)" if "unat x < 2 ^ 64 - 1" for x :: u64
  using that by (simp add: unat_word_ariths)

lemma unat_diff_64 [word_nat]:
  "unat (x - y) = unat x - unat y" if "unat y \<le> unat x" for x y :: u64
  using that by (simp add: unat_sub word_le_nat_alt)

lemma word_less_unat [word_nat]: "x < y \<longleftrightarrow> unat x < unat y" for x y :: u64
  by (rule word_less_nat_alt)

lemma word_le_unat [word_nat]: "x \<le> y \<longleftrightarrow> unat x \<le> unat y" for x y :: u64
  by (rule word_le_nat_alt)

lemma word_eq_unat: "x = y \<longleftrightarrow> unat x = unat y" for x y :: u64
  by (simp add: word_unat_eq_iff)

lemma unat_minus_1_64: "unat (- 1 :: u64) = 2 ^ 64 - 1"
  by (simp add: unsigned_minus_1_eq_mask mask_eq_exp_minus_1)

lemma unat_ucast_32: "unat (ucast (x :: u64) :: u32) = unat x mod 2 ^ 32"
  by (simp only: unsigned_ucast_eq take_bit_eq_mod len_num1 len_bit0) simp

lemma unat_ucast_64: "unat (ucast (x :: u32) :: u64) = unat x"
proof -
  have "unat x < 2 ^ 32" using unsigned_less [of x] by simp
  then show ?thesis by (simp only: unsigned_ucast_eq take_bit_eq_mod len_num1 len_bit0) simp
qed

lemma unat_of_nat_64: "n < 2 ^ 64 \<Longrightarrow> unat (of_nat n :: u64) = n"
  by (simp add: unat_of_nat)

lemma unat_of_nat_32: "n < 2 ^ 32 \<Longrightarrow> unat (of_nat n :: u32) = n"
  by (simp add: unat_of_nat)

section \<open>Bit 63\<close>

text \<open>The mask \<open>1ull << 63\<close> that \<open>ELCRQ.h\<close> and \<open>primitives.h\<close> write out at each use.\<close>

definition bit63 :: u64 where
  "bit63 = push_bit 63 1"

lemma bit63_eq: "bit63 = 9223372036854775808"
  by (simp add: bit63_def push_bit_of_1)

lemma unat_bit63: "unat bit63 = 2 ^ 63"
  by (simp add: bit63_eq)

lemma bit_bit63_iff [simp]: "bit bit63 n \<longleftrightarrow> n = 63"
  unfolding bit63_def bit_push_bit_iff by (auto simp: bit_1_iff)

lemma bit_63_iff: "bit x 63 \<longleftrightarrow> 2 ^ 63 \<le> unat x" for x :: u64
proof -
  have "bit x 63 = bit (unat x) 63"
    by (simp add: bit_unsigned_iff)
  also have "\<dots> = odd (unat x div 2 ^ 63)"
    by (rule bit_iff_odd)
  also have "unat x div 2 ^ 63 < 2"
    using unat_less_64 [of x] by simp
  then have "odd (unat x div 2 ^ 63) \<longleftrightarrow> unat x div 2 ^ 63 \<noteq> 0"
    by (auto simp: less_2_cases_iff)
  also have "\<dots> \<longleftrightarrow> 2 ^ 63 \<le> unat x"
    by (simp add: div_eq_0_iff not_less)
  finally show ?thesis .
qed

lemma and_not_bit63: "x AND NOT bit63 = take_bit 63 x"
  by (rule bit_word_eqI) (auto simp: bit_and_iff bit_not_iff bit_take_bit_iff)

lemma unat_and_not_bit63 [word_nat]: "unat (x AND NOT bit63) = unat x mod 2 ^ 63"
  unfolding and_not_bit63 unsigned_take_bit_eq by (rule take_bit_eq_mod)

lemma and_bit63: "x AND bit63 = (if 2 ^ 63 \<le> unat x then bit63 else 0)"
  by (rule bit_word_eqI) (auto simp: bit_and_iff bit_63_iff)

lemma bit63_neq_0 [simp]: "bit63 \<noteq> 0"
  by (simp add: bit63_eq)

lemma and_bit63_eq_0 [simp]: "x AND bit63 = 0 \<longleftrightarrow> unat x < 2 ^ 63"
  by (simp add: and_bit63)

lemma or_bit63_eq: "x OR bit63 = x + bit63" if "unat x < 2 ^ 63"
proof -
  have "x AND bit63 = 0" using that by simp
  then show ?thesis by (simp add: disjunctive_add_eq_or)
qed

lemma unat_or_bit63:
  "unat (x OR bit63) = unat x + 2 ^ 63" if "unat x < 2 ^ 63"
  using that by (simp add: or_bit63_eq unat_add_64 unat_bit63)

lemma or_bit63_idem: "x OR bit63 = x" if "2 ^ 63 \<le> unat x"
  by (rule bit_word_eqI) (use that in \<open>auto simp: bit_or_iff bit_63_iff\<close>)

section \<open>Ring slots\<close>

text \<open>\<open>t & (RING_SIZE - 1)\<close> with \<open>RING_SIZE = 1ull << RING_POW\<close> is the remainder of the ticket.\<close>

lemma unat_and_mask [word_nat]:
  "unat (x AND (push_bit n 1 - 1)) = unat x mod 2 ^ n" for x :: u64
proof -
  have "x AND (push_bit n 1 - 1) = take_bit n x"
    by (simp add: push_bit_of_1 take_bit_eq_mask mask_eq_exp_minus_1)
  then have "unat (x AND (push_bit n 1 - 1)) = take_bit n (unat x)"
    by (simp only: unsigned_take_bit_eq)
  then show ?thesis by (simp only: take_bit_eq_mod)
qed

lemma unat_push_bit_1: "unat (push_bit n 1 :: u64) = 2 ^ n" if "n < 64"
proof -
  have "(2 :: nat) ^ n < 2 ^ 64" using that by (rule power_strict_increasing) simp
  then have "unat (of_nat (2 ^ n) :: u64) = 2 ^ n" by (simp only: unat_of_nat) simp
  then show ?thesis by (simp add: push_bit_of_1)
qed

text \<open>Tickets in a window of the ring's length fall into different slots.\<close>

lemma mod_window_inj:
  "i = j" if "i mod N = j mod N" "a \<le> i" "i < a + N" "a \<le> j" "j < a + N" for i j N :: nat
proof -
  have "i < j + N" "j < i + N" using that by linarith+
  moreover have "\<not> i < j" "\<not> j < i"
    using that(1) calculation
    by (metis add.commute add_diff_inverse_nat dvd_imp_le less_imp_le_nat mod_eq_dvd_iff_nat
        not_less zero_less_diff nat_add_left_cancel_less)+
  ultimately show ?thesis by simp
qed

end
