(* ===== verification/Primitives.thy ===== *)
theory Primitives
  imports Prelude
begin

text \<open>
  The atomic read-modify-write operations of \<open>src/c/primitives.h\<close> and the test-and-set of
  \<open>src/c/malloc.h\<close>, as functions on the value of the memory cell they act on. Each returns the
  result of the macro together with the new value of the cell; one application is one atomic
  step of the machine. Memory-order arguments have no counterpart here: the step relations
  that use the operations interleave them one at a time.
\<close>

section \<open>64-bit cells\<close>

text \<open>\<open>FAA64(ptr, inc)\<close> and \<open>FAA\<close>, \<open>FAAcs\<close>, \<open>FAAra\<close>: the old value; the cell wraps around.\<close>

definition FAA64 :: "u64 \<Rightarrow> u64 \<Rightarrow> u64 \<times> u64" where
  "FAA64 cell inc = (cell, cell + inc)"

text \<open>\<open>CAS64(ptr, old, new)\<close> and \<open>CASPTR\<close>: whether the swap took place.\<close>

definition CAS64 :: "'a \<Rightarrow> 'a \<Rightarrow> 'a \<Rightarrow> bool \<times> 'a" where
  "CAS64 cell old new = (if cell = old then (True, new) else (False, cell))"

text \<open>
  \<open>CAS2(ptr, o1, o2, n1, n2)\<close>: \<open>lock cmpxchg16b\<close> compares both words of the pair at \<open>ptr\<close> and
  writes both or neither.
\<close>

definition CAS2 :: "u64 \<times> u64 \<Rightarrow> u64 \<Rightarrow> u64 \<Rightarrow> u64 \<Rightarrow> u64 \<Rightarrow> bool \<times> (u64 \<times> u64)" where
  "CAS2 cell o1 o2 n1 n2 = (if cell = (o1, o2) then (True, (n1, n2)) else (False, cell))"

text \<open>
  \<open>BIT_TEST_AND_SET(ptr, b)\<close>: the assembly is \<open>lock btsq $63; setnc\<close>, so bit 63 is set whatever
  \<open>b\<close> is, and the result tells whether the bit was clear before.
\<close>

definition BIT_TEST_AND_SET :: "u64 \<Rightarrow> nat \<Rightarrow> bool \<times> u64" where
  "BIT_TEST_AND_SET cell b = (cell AND bit63 = 0, cell OR bit63)"

section \<open>Byte test-and-set\<close>

text \<open>\<open>SWAPB(m, v)\<close> is \<open>xchg\<close> on a byte; \<open>TAS(m)\<close> is \<open>SWAPB(m, 1)\<close>.\<close>

type_synonym TAS_t = "8 word"

definition SWAPB :: "TAS_t \<Rightarrow> TAS_t \<Rightarrow> TAS_t \<times> TAS_t" where
  "SWAPB m v = (m, v)"

definition TAS :: "TAS_t \<Rightarrow> TAS_t \<times> TAS_t" where
  "TAS m = SWAPB m 1"

lemmas prim_defs [step_simps] = FAA64_def CAS64_def CAS2_def BIT_TEST_AND_SET_def SWAPB_def TAS_def

end
