(* ===== verification/Ring.thy ===== *)
theory Ring
  imports Primitives
begin

text \<open>
  One circular ring of the queue (a CRQ): \<open>RingNode\<close>, \<open>RingQueue\<close>, the bit helpers, \<open>init_ring\<close>,
  \<open>fixState\<close> and \<open>close_crq\<close> of \<open>src/c/ELCRQ.h\<close>. \<open>RING_POW\<close> is a compile-time macro that a build
  may override (\<open>#ifndef RING_POW\<close>), so it is the argument \<open>rp\<close> of the definitions; the default
  is 17. \<open>head\<close> and \<open>tail\<close> are \<open>int64_t\<close> in the source, but every use assigns them to or compares
  them with a \<open>uint64_t\<close>, so they are 64-bit words read as unsigned. Padding and alignment are
  left out.

  The second half defines the shape of a ring between two complete operations (\<open>ring_ok\<close>) and
  the list of values it holds (\<open>ring_contents\<close>), and shows what each kind of cell access does to
  them. The queue theory composes these facts along the chain of rings.
\<close>

section \<open>Data\<close>

record RingNode =
  rn_val :: u64
  rn_idx :: u64

text \<open>A \<open>RingQueue *\<close> is the number of the ring in order of allocation; NULL is \<^const>\<open>None\<close>.\<close>

type_synonym ring_ptr = nat

record RingQueue =
  rq_head :: u64
  rq_tail :: u64
  rq_next :: "ring_ptr option"
  rq_array :: "RingNode list"

definition RING_SIZE :: "nat \<Rightarrow> u64" where
  "RING_SIZE rp = push_bit rp 1"

definition EMPTY :: u64 where
  "EMPTY = - 1"

section \<open>Helpers\<close>

definition is_empty :: "u64 \<Rightarrow> bool" where
  "is_empty v = (v = - 1)"

definition node_index :: "u64 \<Rightarrow> u64" where
  "node_index i = i AND NOT bit63"

definition set_unsafe :: "u64 \<Rightarrow> u64" where
  "set_unsafe i = i OR bit63"

definition node_unsafe :: "u64 \<Rightarrow> u64" where
  "node_unsafe i = i AND bit63"

definition tail_index :: "u64 \<Rightarrow> u64" where
  "tail_index t = t AND NOT bit63"

definition crq_is_closed :: "u64 \<Rightarrow> bool" where
  "crq_is_closed t = (t AND bit63 \<noteq> 0)"

text \<open>\<open>&rq->array[t & (RING_SIZE-1)]\<close>: the slot of a ticket, and the cell there.\<close>

definition slot :: "nat \<Rightarrow> u64 \<Rightarrow> nat" where
  "slot rp t = unat (t AND (RING_SIZE rp - 1))"

definition cell_at :: "nat \<Rightarrow> RingQueue \<Rightarrow> u64 \<Rightarrow> RingNode" where
  "cell_at rp r t = rq_array r ! slot rp t"

definition set_cell :: "nat \<Rightarrow> u64 \<Rightarrow> u64 \<times> u64 \<Rightarrow> RingQueue \<Rightarrow> RingQueue" where
  "set_cell rp t vi r = r\<lparr>rq_array := (rq_array r)[slot rp t := \<lparr>rn_val = fst vi, rn_idx = snd vi\<rparr>]\<rparr>"

text \<open>\<open>CAS2\<close> on the value and index words of the cell of ticket \<open>t\<close>.\<close>

definition cell_CAS2 :: "nat \<Rightarrow> u64 \<Rightarrow> u64 \<Rightarrow> u64 \<Rightarrow> u64 \<Rightarrow> u64 \<Rightarrow> RingQueue \<Rightarrow> bool \<times> RingQueue" where
  "cell_CAS2 rp t o1 o2 n1 n2 r =
     (let c = cell_at rp r t; (ok, vi) = CAS2 (rn_val c, rn_idx c) o1 o2 n1 n2
      in (ok, set_cell rp t vi r))"

section \<open>Operations on one ring\<close>

text \<open>\<open>init_ring\<close>: the loop over the cells, then head, tail and next.\<close>

fun init_cells :: "nat \<Rightarrow> RingNode list \<Rightarrow> RingNode list" where
  "init_cells 0 a = a"
| "init_cells (Suc i) a = (init_cells i a)[i := \<lparr>rn_val = - 1, rn_idx = of_nat i\<rparr>]"

definition init_ring :: "nat \<Rightarrow> RingQueue \<Rightarrow> RingQueue" where
  "init_ring rp r = r\<lparr>rq_array := init_cells (2 ^ rp) (rq_array r),
                      rq_tail := 0, rq_head := 0, rq_next := None\<rparr>"

text \<open>\<open>fixState\<close>, run with no other thread writing the ring.\<close>

partial_function (option) fixState :: "RingQueue \<Rightarrow> RingQueue option" where
  "fixState rq =
     (let (t, tl) = FAA64 (rq_tail rq) 0; rq1 = rq\<lparr>rq_tail := tl\<rparr>;
          (h, hd) = FAA64 (rq_head rq1) 0; rq2 = rq1\<lparr>rq_head := hd\<rparr>
      in if rq_tail rq2 \<noteq> t then fixState rq2
         else if h > t then
           (let (ok, tl') = CAS64 (rq_tail rq2) t h; rq3 = rq2\<lparr>rq_tail := tl'\<rparr>
            in if ok then Some rq3 else fixState rq3)
         else Some rq2)"

definition close_crq :: "RingQueue \<Rightarrow> u64 \<Rightarrow> nat \<Rightarrow> bool \<times> RingQueue" where
  "close_crq rq t tries =
     (let (ok, tl) = (if tries < 10 then CAS64 (rq_tail rq) (t + 1) ((t + 1) OR bit63)
                      else BIT_TEST_AND_SET (rq_tail rq) 63)
      in (ok, rq\<lparr>rq_tail := tl\<rparr>))"

section \<open>Reading the helpers as natural numbers\<close>

lemma unat_node_index [word_nat]: "unat (node_index i) = unat i mod 2 ^ 63"
  unfolding node_index_def by (rule unat_and_not_bit63)

lemma unat_tail_index [word_nat]: "unat (tail_index t) = unat t mod 2 ^ 63"
  unfolding tail_index_def by (rule unat_and_not_bit63)

lemma crq_is_closed_iff [word_nat]: "crq_is_closed t \<longleftrightarrow> 2 ^ 63 \<le> unat t"
  unfolding crq_is_closed_def and_bit63_eq_0 by (rule not_less)

lemma node_unsafe_eq_0 [word_nat]: "node_unsafe i = 0 \<longleftrightarrow> unat i < 2 ^ 63"
  unfolding node_unsafe_def by (rule and_bit63_eq_0)

lemma unat_slot [word_nat]: "slot rp t = unat t mod 2 ^ rp"
  unfolding slot_def RING_SIZE_def by (rule unat_and_mask)

lemma unat_RING_SIZE: "rp < 64 \<Longrightarrow> unat (RING_SIZE rp) = 2 ^ rp"
  unfolding RING_SIZE_def by (rule unat_push_bit_1)

lemma node_index_small: "unat i < 2 ^ 63 \<Longrightarrow> node_index i = i"
  by (simp add: word_eq_unat unat_node_index)

lemma node_index_set_unsafe: "node_index (set_unsafe i) = node_index i"
  unfolding node_index_def set_unsafe_def
  by (rule bit_word_eqI) (auto simp: bit_and_iff bit_or_iff bit_not_iff)

lemma set_unsafe_node_unsafe: "node_unsafe (set_unsafe i) \<noteq> 0"
  unfolding node_unsafe_def set_unsafe_def
  using bit_63_iff [of "i OR bit63"] by (simp add: bit_or_iff)

lemma idx_split: "node_unsafe i OR node_index i = i"
  unfolding node_index_def node_unsafe_def
  by (rule bit_word_eqI) (auto simp: bit_and_iff bit_or_iff bit_not_iff)

section \<open>The ring between two operations\<close>

text \<open>
  \<open>cell_no\<close> is the cell of a ticket given as a number. The values of a ring sit in the cells of
  the tickets from \<open>head\<close> up to \<open>live_end\<close>: the tail index of an open ring; one less in a closed
  ring, whose last ticket was drawn by the enqueue that found it full.
\<close>

definition cell_no :: "nat \<Rightarrow> RingQueue \<Rightarrow> nat \<Rightarrow> RingNode" where
  "cell_no rp r i = rq_array r ! (i mod 2 ^ rp)"

definition live_end :: "RingQueue \<Rightarrow> nat" where
  "live_end r = (if crq_is_closed (rq_tail r) then unat (tail_index (rq_tail r)) - 1
                 else unat (rq_tail r))"

definition ring_contents :: "nat \<Rightarrow> RingQueue \<Rightarrow> u64 list" where
  "ring_contents rp r = map (\<lambda>i. rn_val (cell_no rp r i)) [unat (rq_head r)..<live_end r]"

definition live_cell :: "RingNode \<Rightarrow> nat \<Rightarrow> bool" where
  "live_cell c i \<longleftrightarrow> rn_val c \<noteq> EMPTY \<and> rn_idx c = of_nat i"

definition free_cell :: "RingNode \<Rightarrow> nat \<Rightarrow> bool" where
  "free_cell c i \<longleftrightarrow> rn_val c = EMPTY \<and> rn_idx c = of_nat i"

definition cells_ok :: "nat \<Rightarrow> nat \<Rightarrow> nat \<Rightarrow> RingQueue \<Rightarrow> bool" where
  "cells_ok rp H L r \<longleftrightarrow>
     (\<forall>i \<in> {H..<L}. live_cell (cell_no rp r i) i) \<and>
     (\<forall>i \<in> {max H L..<H + 2 ^ rp}. free_cell (cell_no rp r i) i)"

definition ring_ok :: "nat \<Rightarrow> RingQueue \<Rightarrow> bool" where
  "ring_ok rp r \<longleftrightarrow>
     length (rq_array r) = 2 ^ rp \<and>
     live_end r \<le> unat (rq_head r) + 2 ^ rp \<and>
     (crq_is_closed (rq_tail r) \<longrightarrow> 0 < unat (tail_index (rq_tail r))) \<and>
     (\<not> crq_is_closed (rq_tail r) \<longrightarrow> unat (rq_head r) \<le> live_end r) \<and>
     cells_ok rp (unat (rq_head r)) (live_end r) r"

text \<open>The counters are far from the wrap-around; \<open>B\<close> bounds the number of tickets drawn so far.\<close>

definition ring_below :: "nat \<Rightarrow> RingQueue \<Rightarrow> bool" where
  "ring_below B r \<longleftrightarrow> unat (rq_head r) \<le> B \<and> unat (tail_index (rq_tail r)) \<le> B"

lemma cell_at_no: "cell_at rp r t = cell_no rp r (unat t)"
  by (simp add: cell_at_def cell_no_def unat_slot)

lemma cell_no_set_cell:
  "cell_no rp (set_cell rp t vi r) i =
     (if i mod 2 ^ rp = unat t mod 2 ^ rp then \<lparr>rn_val = fst vi, rn_idx = snd vi\<rparr>
      else cell_no rp r i)" if "length (rq_array r) = 2 ^ rp"
  using that by (simp add: cell_no_def set_cell_def unat_slot nth_list_update)

lemma set_cell_simps [simp]:
  "rq_head (set_cell rp t vi r) = rq_head r"
  "rq_tail (set_cell rp t vi r) = rq_tail r"
  "rq_next (set_cell rp t vi r) = rq_next r"
  "length (rq_array (set_cell rp t vi r)) = length (rq_array r)"
  by (simp_all add: set_cell_def)

lemma cell_no_upd [simp]:
  "cell_no rp (r\<lparr>rq_head := h\<rparr>) i = cell_no rp r i"
  "cell_no rp (r\<lparr>rq_tail := t\<rparr>) i = cell_no rp r i"
  "cell_no rp (r\<lparr>rq_next := n\<rparr>) i = cell_no rp r i"
  by (simp_all add: cell_no_def)

lemma ring_next_upd [simp]:
  "live_end (r\<lparr>rq_next := n\<rparr>) = live_end r"
  "live_end (r\<lparr>rq_head := h\<rparr>) = live_end r"
  "live_end (set_cell rp t vi r) = live_end r"
  "cells_ok rp H L (r\<lparr>rq_next := n\<rparr>) = cells_ok rp H L r"
  "cells_ok rp H L (r\<lparr>rq_head := h\<rparr>) = cells_ok rp H L r"
  "cells_ok rp H L (r\<lparr>rq_tail := t\<rparr>) = cells_ok rp H L r"
  "ring_contents rp (r\<lparr>rq_next := n\<rparr>) = ring_contents rp r"
  "ring_ok rp (r\<lparr>rq_next := n\<rparr>) = ring_ok rp r"
  "ring_below B (r\<lparr>rq_next := n\<rparr>) = ring_below B r"
  by (simp_all add: live_end_def cells_ok_def ring_contents_def ring_ok_def ring_below_def)

lemma ring_below_mono: "ring_below B r \<Longrightarrow> B \<le> B' \<Longrightarrow> ring_below B' r"
  by (auto simp: ring_below_def)

section \<open>What the accesses do to a well-formed ring\<close>

lemma length_init_cells [simp]: "length (init_cells n a) = length a"
  by (induction n) auto

lemma init_cells_nth:
  "i < n \<Longrightarrow> n \<le> length a \<Longrightarrow> init_cells n a ! i = \<lparr>rn_val = - 1, rn_idx = of_nat i\<rparr>"
proof (induction n)
  case (Suc n)
  then show ?case by (cases "i = n") (auto simp: nth_list_update)
qed simp

lemma init_ring_simps [simp]:
  "rq_head (init_ring rp r) = 0" "rq_tail (init_ring rp r) = 0" "rq_next (init_ring rp r) = None"
  "length (rq_array (init_ring rp r)) = length (rq_array r)"
  by (simp_all add: init_ring_def)

lemma cell_no_init_ring:
  "cell_no rp (init_ring rp r) i = \<lparr>rn_val = - 1, rn_idx = of_nat (i mod 2 ^ rp)\<rparr>"
  if "length (rq_array r) = 2 ^ rp"
  using that by (simp add: cell_no_def init_ring_def init_cells_nth)

text \<open>With no writer in between, one round of \<open>fixState\<close> decides.\<close>

lemma fixState_solo [step_simps]:
  "fixState r = Some (if rq_head r > rq_tail r then r\<lparr>rq_tail := rq_head r\<rparr> else r)"
  by (subst fixState.simps) (simp add: prim_defs)

lemma cells_ok_advance:
  assumes ok: "cells_ok rp H L r" and len: "length (rq_array r) = 2 ^ rp" and "L \<le> H + 2 ^ rp"
    and t: "unat t = H" and x: "x = of_nat (H + 2 ^ rp)"
  shows "cells_ok rp (Suc H) (if H < L then L else Suc H) (set_cell rp t (EMPTY, x) r)"
proof -
  have same: "i mod 2 ^ rp = H mod 2 ^ rp \<longleftrightarrow> i = H + 2 ^ rp"
    if "Suc H \<le> i" "i < Suc H + 2 ^ rp" for i
    using mod_window_inj [of i "2 ^ rp" "H + 2 ^ rp" "Suc H"] that by auto
  have upd: "cell_no rp (set_cell rp t (EMPTY, x) r) i =
      (if i = H + 2 ^ rp then \<lparr>rn_val = EMPTY, rn_idx = x\<rparr> else cell_no rp r i)"
    if "Suc H \<le> i" "i < Suc H + 2 ^ rp" for i
    using that len t by (simp add: cell_no_set_cell same)
  have "live_cell (cell_no rp (set_cell rp t (EMPTY, x) r) i) i" if "Suc H \<le> i" "i < L" for i
    using that assms(3) ok by (simp add: upd cells_ok_def)
  moreover have "free_cell (cell_no rp (set_cell rp t (EMPTY, x) r) i) i"
    if i: "Suc H \<le> i" "L \<le> i" "i < Suc H + 2 ^ rp" for i
  proof (cases "i = H + 2 ^ rp")
    case True
    then have "cell_no rp (set_cell rp t (EMPTY, x) r) i = \<lparr>rn_val = EMPTY, rn_idx = x\<rparr>"
      using upd [OF i(1,3)] by simp
    then show ?thesis using True x by (simp add: free_cell_def)
  next
    case False
    then show ?thesis using i ok upd [OF i(1,3)] by (simp add: cells_ok_def)
  qed
  ultimately show ?thesis by (auto simp: cells_ok_def)
qed

lemma cells_ok_extend:
  assumes ok: "cells_ok rp H L r" and len: "length (rq_array r) = 2 ^ rp"
    and "H \<le> L" "L < H + 2 ^ rp" and t: "unat t = L" and "v \<noteq> EMPTY"
  shows "cells_ok rp H (Suc L) (set_cell rp t (v, t) r)"
proof -
  have upd: "cell_no rp (set_cell rp t (v, t) r) i =
      (if i = L then \<lparr>rn_val = v, rn_idx = t\<rparr> else cell_no rp r i)"
    if "H \<le> i" "i < H + 2 ^ rp" for i
    using mod_window_inj [of i "2 ^ rp" L H] that assms(3,4) len t
    by (auto simp: cell_no_set_cell)
  have "live_cell (cell_no rp (set_cell rp t (v, t) r) i) i" if "H \<le> i" "i < Suc L" for i
  proof (cases "i = L")
    case True
    then show ?thesis using that assms(4,6) t by (auto simp: upd live_cell_def)
  next
    case False
    then show ?thesis using that assms(4) ok by (simp add: upd cells_ok_def)
  qed
  moreover have "free_cell (cell_no rp (set_cell rp t (v, t) r) i) i"
    if "Suc L \<le> i" "i < H + 2 ^ rp" for i
    using that assms(3) ok by (simp add: upd cells_ok_def)
  ultimately show ?thesis using assms(3) by (auto simp: cells_ok_def)
qed

text \<open>A freshly initialised ring is open and holds nothing.\<close>

lemma ring_ok_init:
  assumes "length (rq_array r) = 2 ^ rp"
  shows "ring_ok rp (init_ring rp r)" and "ring_contents rp (init_ring rp r) = []"
    and "ring_below 0 (init_ring rp r)"
  using assms
  by (auto simp: ring_ok_def ring_contents_def cells_ok_def live_end_def free_cell_def EMPTY_def
      cell_no_init_ring ring_below_def crq_is_closed_iff unat_tail_index)

text \<open>The cell that an enqueue draws: free while the ring has room, occupied when it is full.\<close>

lemma enq_cell_free:
  "free_cell (cell_at rp r (rq_tail r)) (unat (rq_tail r))"
  if "ring_ok rp r" "\<not> crq_is_closed (rq_tail r)" "live_end r < unat (rq_head r) + 2 ^ rp"
  using that by (auto simp: ring_ok_def cells_ok_def cell_at_no live_end_def)

lemma enq_cell_full:
  "rn_val (cell_at rp r (rq_tail r)) \<noteq> EMPTY"
  if "ring_ok rp r" "\<not> crq_is_closed (rq_tail r)" "\<not> live_end r < unat (rq_head r) + 2 ^ rp"
proof -
  have tl: "unat (rq_tail r) = unat (rq_head r) + 2 ^ rp"
    using that by (auto simp: ring_ok_def live_end_def)
  then have "cell_at rp r (rq_tail r) = cell_no rp r (unat (rq_head r))"
    by (simp add: cell_at_no cell_no_def)
  moreover have "live_cell (cell_no rp r (unat (rq_head r))) (unat (rq_head r))"
    using that tl by (auto simp: ring_ok_def cells_ok_def live_end_def)
  ultimately show ?thesis by (simp add: live_cell_def)
qed

text \<open>The effect of a successful enqueue on a ring with room.\<close>

lemma ring_put:
  assumes ok: "ring_ok rp r" and op: "\<not> crq_is_closed (rq_tail r)"
    and room: "live_end r < unat (rq_head r) + 2 ^ rp" and lim: "live_end r < 2 ^ 63 - 1"
    and v: "v \<noteq> EMPTY"
  defines "r' \<equiv> set_cell rp (rq_tail r) (v, rq_tail r) (r\<lparr>rq_tail := rq_tail r + 1\<rparr>)"
  shows "ring_ok rp r'" and "ring_contents rp r' = ring_contents rp r @ [v]"
    and "\<not> crq_is_closed (rq_tail r')" and "live_end r' = Suc (live_end r)"
proof -
  have L: "live_end r = unat (rq_tail r)" using op by (simp add: live_end_def)
  have T: "unat (rq_tail r + 1) = Suc (unat (rq_tail r))"
    using lim L by (intro unat_Suc_64) simp
  show cl: "\<not> crq_is_closed (rq_tail r')"
    using lim L T by (simp add: r'_def crq_is_closed_iff)
  show le: "live_end r' = Suc (live_end r)"
    using cl T L by (simp add: live_end_def r'_def)
  have len: "length (rq_array r) = 2 ^ rp" and HL: "unat (rq_head r) \<le> live_end r"
    and cells: "cells_ok rp (unat (rq_head r)) (live_end r) r"
    using ok op by (auto simp: ring_ok_def)
  have "cells_ok rp (unat (rq_head r)) (Suc (live_end r))
      (set_cell rp (rq_tail r) (v, rq_tail r) (r\<lparr>rq_tail := rq_tail r + 1\<rparr>))"
    by (rule cells_ok_extend) (use cells len HL room v L in simp_all)
  then show "ring_ok rp r'"
    using len HL room cl le by (simp add: ring_ok_def r'_def)
  have "rn_val (cell_no rp r' i) = (if i = live_end r then v else rn_val (cell_no rp r i))"
    if "unat (rq_head r) \<le> i" "i < Suc (live_end r)" for i
    using mod_window_inj [of i "2 ^ rp" "live_end r" "unat (rq_head r)"] that HL room len L
    by (auto simp: r'_def cell_no_set_cell)
  then show "ring_contents rp r' = ring_contents rp r @ [v]"
    using HL le by (simp add: ring_contents_def r'_def)
qed

text \<open>Closing a full ring at the next tail keeps what it holds.\<close>

lemma ring_close:
  assumes ok: "ring_ok rp r" and op: "\<not> crq_is_closed (rq_tail r)" and lim: "live_end r < 2 ^ 63 - 1"
  defines "r' \<equiv> r\<lparr>rq_tail := (rq_tail r + 1) OR bit63\<rparr>"
  shows "ring_ok rp r'" and "ring_contents rp r' = ring_contents rp r"
    and "crq_is_closed (rq_tail r')" and "live_end r' = live_end r"
    and "unat (tail_index (rq_tail r')) = Suc (live_end r)"
proof -
  have L: "live_end r = unat (rq_tail r)" using op by (simp add: live_end_def)
  have T: "unat (rq_tail r + 1) = Suc (unat (rq_tail r))"
    using lim L by (intro unat_Suc_64) simp
  have T': "unat ((rq_tail r + 1) OR bit63) = Suc (unat (rq_tail r)) + 2 ^ 63"
    using unat_or_bit63 [of "rq_tail r + 1"] lim L T by simp
  show cl: "crq_is_closed (rq_tail r')"
    by (simp add: r'_def crq_is_closed_iff T')
  show ti: "unat (tail_index (rq_tail r')) = Suc (live_end r)"
  proof -
    have "unat (tail_index ((rq_tail r + 1) OR bit63)) = (Suc (unat (rq_tail r)) + 2 ^ 63) mod 2 ^ 63"
      by (simp only: unat_tail_index T')
    also have "\<dots> = Suc (unat (rq_tail r))"
      using lim L by (subst mod_add_self2) simp
    finally show ?thesis by (simp add: r'_def L)
  qed
  then show le: "live_end r' = live_end r"
    unfolding live_end_def [of r'] using cl by simp
  show "ring_contents rp r' = ring_contents rp r"
    unfolding ring_contents_def le by (simp add: r'_def)
  show "ring_ok rp r'"
    using ok cl le ti by (simp add: ring_ok_def) (simp add: r'_def)
qed

text \<open>The cell that a dequeue draws, and the new index it writes there.\<close>

lemma deq_cell_live:
  "live_cell (cell_at rp r (rq_head r)) (unat (rq_head r))"
  if "ring_ok rp r" "unat (rq_head r) < live_end r"
  using that by (auto simp: ring_ok_def cells_ok_def cell_at_no)

lemma deq_cell_free:
  "free_cell (cell_at rp r (rq_head r)) (unat (rq_head r))"
  if "ring_ok rp r" "\<not> unat (rq_head r) < live_end r"
  using that by (auto simp: ring_ok_def cells_ok_def cell_at_no)

definition ring_take :: "nat \<Rightarrow> RingQueue \<Rightarrow> RingQueue" where
  "ring_take rp r = set_cell rp (rq_head r) (EMPTY, rq_head r + RING_SIZE rp)
     (r\<lparr>rq_head := rq_head r + 1\<rparr>)"

lemma ring_take_simps [simp]:
  "rq_head (ring_take rp r) = rq_head r + 1" "rq_tail (ring_take rp r) = rq_tail r"
  "rq_next (ring_take rp r) = rq_next r" "live_end (ring_take rp r) = live_end r"
  "length (rq_array (ring_take rp r)) = length (rq_array r)"
  by (simp_all add: ring_take_def)

lemma ring_take_cells:
  assumes "ring_ok rp r"
  shows "cells_ok rp (Suc (unat (rq_head r)))
    (if unat (rq_head r) < live_end r then live_end r else Suc (unat (rq_head r))) (ring_take rp r)"
  unfolding ring_take_def
proof (rule cells_ok_advance)
  show "rq_head r + RING_SIZE rp = of_nat (unat (rq_head r) + 2 ^ rp)"
    by (simp add: RING_SIZE_def push_bit_of_1)
qed (use assms in \<open>simp_all add: ring_ok_def\<close>)

lemma ring_take_ok:
  assumes ok: "ring_ok rp r" and lim: "unat (rq_head r) < 2 ^ 63"
    and live: "unat (rq_head r) < live_end r \<or> crq_is_closed (rq_tail r)"
  shows "ring_ok rp (ring_take rp r)"
    and "ring_contents rp (ring_take rp r) = tl (ring_contents rp r)"
proof -
  have H: "unat (rq_head r + 1) = Suc (unat (rq_head r))"
    using lim by (intro unat_Suc_64) simp
  have cells: "cells_ok rp (Suc (unat (rq_head r))) (live_end r) (ring_take rp r)"
    using ring_take_cells [OF ok] by (auto simp: cells_ok_def split: if_splits)
  then show "ring_ok rp (ring_take rp r)"
    using ok live H by (auto simp: ring_ok_def)
  show "ring_contents rp (ring_take rp r) = tl (ring_contents rp r)"
  proof (cases "unat (rq_head r) < live_end r")
    case False
    then show ?thesis by (simp add: ring_contents_def H)
  next
    case True
    have "cell_no rp (ring_take rp r) i = cell_no rp r i"
      if "Suc (unat (rq_head r)) \<le> i" "i < live_end r" for i
    proof -
      have "live_end r \<le> unat (rq_head r) + 2 ^ rp" using ok by (simp add: ring_ok_def)
      then have "i mod 2 ^ rp \<noteq> unat (rq_head r) mod 2 ^ rp"
        using mod_window_inj [of i "2 ^ rp" "unat (rq_head r)" "unat (rq_head r)"] that by auto
      then show ?thesis using ok by (simp add: ring_take_def cell_no_set_cell ring_ok_def)
    qed
    moreover have "tl [unat (rq_head r)..<live_end r] = [Suc (unat (rq_head r))..<live_end r]"
      using True by (simp add: upt_conv_Cons)
    ultimately show ?thesis by (simp add: ring_contents_def H map_tl [symmetric])
  qed
qed

text \<open>A dequeue that finds the open ring empty moves the tail along with the head.\<close>

lemma ring_skip_open:
  assumes ok: "ring_ok rp r" and op: "\<not> crq_is_closed (rq_tail r)"
    and emp: "\<not> unat (rq_head r) < live_end r" and lim: "unat (rq_head r) < 2 ^ 63 - 1"
  defines "r' \<equiv> (ring_take rp r)\<lparr>rq_tail := rq_head r + 1\<rparr>"
  shows "ring_ok rp r'" and "ring_contents rp r' = []" and "\<not> crq_is_closed (rq_tail r')"
proof -
  have H: "unat (rq_head r + 1) = Suc (unat (rq_head r))"
    using lim by (intro unat_Suc_64) simp
  show cl: "\<not> crq_is_closed (rq_tail r')"
    using lim by (simp add: r'_def crq_is_closed_iff H)
  then have le: "live_end r' = Suc (unat (rq_head r))"
    by (simp add: live_end_def) (simp add: r'_def H)
  have "cells_ok rp (Suc (unat (rq_head r))) (Suc (unat (rq_head r))) (ring_take rp r)"
    using ring_take_cells [OF ok] emp by simp
  then show "ring_ok rp r'"
    using ok cl le H by (simp add: ring_ok_def) (simp add: r'_def H)
  show "ring_contents rp r' = []"
    unfolding ring_contents_def le by (simp add: r'_def H)
qed

lemma ring_contents_Nil_iff: "ring_contents rp r = [] \<longleftrightarrow> \<not> unat (rq_head r) < live_end r"
  by (auto simp: ring_contents_def)

lemma hd_ring_contents:
  "unat (rq_head r) < live_end r \<Longrightarrow>
     hd (ring_contents rp r) = rn_val (cell_at rp r (rq_head r))"
  by (simp add: ring_contents_def hd_map cell_at_no)

end
