(* ===== verification/Lcrq.thy ===== *)
theory Lcrq
  imports Ring
begin

text \<open>
  The list of rings: \<open>getMemory\<close>, \<open>enq\<close> and \<open>deq\<close> of \<open>src/c/ELCRQ.h\<close>, run by one thread with no
  interference. The loops \<open>while (1)\<close> of \<open>enq\<close> and of the cell access in \<open>deq\<close> are
  \<^theory_text>\<open>partial_function (option)\<close>: \<^const>\<open>None\<close> is a call that never returns, so a theorem that says
  \<^const>\<open>Some\<close> is a theorem of termination. The outer loop of \<open>deq\<close> has a fuel argument, the number of
  its iterations: one per ring of the chain is enough on a queue that has been used, and on one
  that has not, no number below the ticket range is (\<open>deq_unused_spins\<close>).

  Memory is the list of the rings handed out so far and the blocks that \<open>shm_malloc\<close> will hand
  out next, with whatever they contain; an empty supply is \<open>shm_malloc\<close> returning NULL, which
  the code dereferences (the fault \<open>Segv\<close>). The parameters \<open>tail\<close> of \<open>enq\<close> and \<open>head\<close> of \<open>deq\<close> are
  passed by value in the source, so \<open>CASPTR(&tail, rq, next)\<close> updates the local variable only.
\<close>

section \<open>Memory\<close>

datatype fault = Segv

record mem =
  rings :: "RingQueue list"
  pool :: "RingQueue list"

definition ring_at :: "mem \<Rightarrow> ring_ptr \<Rightarrow> RingQueue" where
  "ring_at m p = rings m ! p"

definition set_ring :: "ring_ptr \<Rightarrow> RingQueue \<Rightarrow> mem \<Rightarrow> mem" where
  "set_ring p r m = m\<lparr>rings := (rings m)[p := r]\<rparr>"

definition getMemory :: "mem \<Rightarrow> (ring_ptr \<times> mem) option" where
  "getMemory m = (case pool m of [] \<Rightarrow> None
     | b # bs \<Rightarrow> Some (length (rings m), m\<lparr>rings := rings m @ [b], pool := bs\<rparr>))"

section \<open>Enqueue\<close>

text \<open>
  The code at the label \<open>alloc\<close>: allocate the thread's spare ring \<open>nrq\<close> if it has none, store the
  argument in its first cell, and link it behind \<open>rq\<close>. The result tells whether the link was
  made (the call returns) or lost (the loop continues).
\<close>

definition new_ring :: "nat \<Rightarrow> ring_ptr option \<Rightarrow> mem \<Rightarrow> (ring_ptr \<times> mem) option" where
  "new_ring rp nrq m =
     (case nrq of Some p \<Rightarrow> Some (p, m)
      | None \<Rightarrow> (case getMemory m of None \<Rightarrow> None
                 | Some (p, m') \<Rightarrow> Some (p, set_ring p (init_ring rp (ring_at m' p)) m')))"

definition solo_enqueue :: "u64 \<Rightarrow> RingQueue \<Rightarrow> RingQueue" where
  "solo_enqueue arg r = r\<lparr>rq_tail := 1, rq_array := (rq_array r)[0 := \<lparr>rn_val = arg, rn_idx = 0\<rparr>]\<rparr>"

definition enq_alloc ::
  "nat \<Rightarrow> u64 \<Rightarrow> ring_ptr \<Rightarrow> ring_ptr option \<Rightarrow> mem \<Rightarrow> fault + (bool \<times> ring_ptr option \<times> mem)" where
  "enq_alloc rp arg rq nrq m =
     (case new_ring rp nrq m of None \<Rightarrow> Inl Segv
      | Some (p, m1) \<Rightarrow>
          let m2 = set_ring p (solo_enqueue arg (ring_at m1 p)) m1;
              (ok, nx) = CAS64 (rq_next (ring_at m2 rq)) None (Some p);
              m3 = set_ring rq ((ring_at m2 rq)\<lparr>rq_next := nx\<rparr>) m2
          in if ok then Inr (True, None, m3) else Inr (False, Some p, m3))"

partial_function (option) enq ::
  "nat \<Rightarrow> u64 \<Rightarrow> ring_ptr \<Rightarrow> nat \<Rightarrow> ring_ptr option \<Rightarrow> mem \<Rightarrow> (fault + (ring_ptr option \<times> mem)) option" where
  "enq rp arg tail try_close nrq m =
     (let rq = tail in
      case rq_next (ring_at m rq) of
        Some nxt \<Rightarrow> enq rp arg (snd (CAS64 tail rq nxt)) try_close nrq m
      | None \<Rightarrow>
          let (t, tl) = FAA64 (rq_tail (ring_at m rq)) 1;
              m1 = set_ring rq ((ring_at m rq)\<lparr>rq_tail := tl\<rparr>) m
          in if crq_is_closed t then
               (case enq_alloc rp arg rq nrq m1 of
                  Inl f \<Rightarrow> Some (Inl f)
                | Inr (done, nrq', m2) \<Rightarrow>
                    if done then Some (Inr (nrq', m2)) else enq rp arg tail try_close nrq' m2)
             else
               let idx = rn_idx (cell_at rp (ring_at m1 rq) t);
                   val = rn_val (cell_at rp (ring_at m1 rq) t);
                   (ok, r2) = (if is_empty val \<and> node_index idx \<le> t \<and>
                                  (node_unsafe idx = 0 \<or> rq_head (ring_at m1 rq) < t)
                               then cell_CAS2 rp t (- 1) idx arg t (ring_at m1 rq)
                               else (False, ring_at m1 rq));
                   m2 = set_ring rq r2 m1
               in if ok then Some (Inr (nrq, m2))
                  else
                    let h = rq_head (ring_at m2 rq)
                    in if t - h \<ge> RING_SIZE rp then
                         let (closed, r3) = close_crq (ring_at m2 rq) t (try_close + 1);
                             m3 = set_ring rq r3 m2
                         in if closed then
                              (case enq_alloc rp arg rq nrq m3 of
                                 Inl f \<Rightarrow> Some (Inl f)
                               | Inr (done, nrq', m4) \<Rightarrow>
                                   if done then Some (Inr (nrq', m4))
                                   else enq rp arg tail (try_close + 1) nrq' m4)
                            else enq rp arg tail (try_close + 1) nrq m3
                       else enq rp arg tail try_close nrq m2)"

section \<open>Dequeue\<close>

text \<open>
  The inner loop on one cell. \<open>tt\<close> is the local copy of the tail, read again whenever the low
  ten bits of the spin counter \<open>r\<close> are zero. The result is the value to return, or \<^const>\<open>None\<close>
  for \<open>break\<close>.
\<close>

partial_function (option) deq_cell ::
  "nat \<Rightarrow> u64 \<Rightarrow> u64 \<Rightarrow> nat \<Rightarrow> RingQueue \<Rightarrow> (u64 option \<times> RingQueue) option" where
  "deq_cell rp h tt r rq =
     (let cell_idx = rn_idx (cell_at rp rq h);
          unsafe = node_unsafe cell_idx;
          idx = node_index cell_idx;
          val = rn_val (cell_at rp rq h)
      in if idx > h then Some (None, rq)
         else if \<not> is_empty val then
           (if idx = h then
              (let (ok, rq') = cell_CAS2 rp h val cell_idx (- 1) (unsafe OR (h + RING_SIZE rp)) rq
               in if ok then Some (Some val, rq') else deq_cell rp h tt r rq')
            else
              (let (ok, rq') = cell_CAS2 rp h val cell_idx val (set_unsafe idx) rq
               in if ok then Some (None, rq') else deq_cell rp h tt r rq'))
         else
           (let tt' = (if of_nat r AND (push_bit 10 1 - 1) = (0 :: u64) then rq_tail rq else tt);
                crq_closed = crq_is_closed tt';
                t = tail_index tt'
            in if unsafe \<noteq> 0 then
                 (let (ok, rq') = cell_CAS2 rp h val cell_idx val (unsafe OR (h + RING_SIZE rp)) rq
                  in if ok then Some (None, rq') else deq_cell rp h tt' r rq')
               else if t - 1 \<le> h \<or> r > 200000 \<or> crq_closed then
                 (let (ok, rq') = cell_CAS2 rp h val idx val (h + RING_SIZE rp) rq
                  in if ok then Some (None, rq') else deq_cell rp h tt' r rq')
               else deq_cell rp h tt' (r + 1) rq))"

fun deq :: "nat \<Rightarrow> nat \<Rightarrow> ring_ptr \<Rightarrow> mem \<Rightarrow> (u64 \<times> mem) option" where
  "deq rp 0 head m = None"
| "deq rp (Suc fuel) head m =
     (let rq = head;
          (h, hd') = FAA64 (rq_head (ring_at m rq)) 1;
          m1 = set_ring rq ((ring_at m rq)\<lparr>rq_head := hd'\<rparr>) m
      in case deq_cell rp h 0 0 (ring_at m1 rq) of
           None \<Rightarrow> None
         | Some (Some val, r2) \<Rightarrow> Some (val, set_ring rq r2 m1)
         | Some (None, r2) \<Rightarrow>
             let m2 = set_ring rq r2 m1
             in if tail_index (rq_tail (ring_at m2 rq)) - 1 \<le> h then
                  (case fixState (ring_at m2 rq) of
                     None \<Rightarrow> None
                   | Some r3 \<Rightarrow>
                       let m3 = set_ring rq r3 m2
                       in case rq_next (ring_at m3 rq) of
                            None \<Rightarrow> Some (EMPTY, m3)
                          | Some nxt \<Rightarrow> deq rp fuel (snd (CAS64 head rq nxt)) m3)
                else deq rp fuel head m2)"

declare deq.simps(2) [simp del]

section \<open>The chain of rings between two operations\<close>

text \<open>
  Rings are linked in order of allocation; every ring but the last is closed, the last is open
  and has no successor. A ring that was linked behind another has been used: its tail is not 0.
  The queue's value is the concatenation of what the rings hold.
\<close>

definition last_ptr :: "mem \<Rightarrow> ring_ptr" where
  "last_ptr m = length (rings m) - 1"

definition used :: "mem \<Rightarrow> bool" where
  "used m \<longleftrightarrow> rq_tail (ring_at m (last_ptr m)) \<noteq> 0"

definition chain_ok :: "nat \<Rightarrow> mem \<Rightarrow> bool" where
  "chain_ok rp m \<longleftrightarrow>
     rings m \<noteq> [] \<and> (1 < length (rings m) \<longrightarrow> used m) \<and>
     (\<forall>p < length (rings m).
        ring_ok rp (ring_at m p) \<and>
        rq_next (ring_at m p) = (if Suc p < length (rings m) then Some (Suc p) else None) \<and>
        crq_is_closed (rq_tail (ring_at m p)) = (Suc p < length (rings m))) \<and>
     (\<forall>b \<in> set (pool m). length (rq_array b) = 2 ^ rp)"

definition queue_contents :: "nat \<Rightarrow> mem \<Rightarrow> u64 list" where
  "queue_contents rp m = concat (map (ring_contents rp) (rings m))"

definition mem_below :: "nat \<Rightarrow> mem \<Rightarrow> bool" where
  "mem_below B m \<longleftrightarrow> (\<forall>r \<in> set (rings m). ring_below B r)"

lemma set_ring_simps [simp]:
  "pool (set_ring p r m) = pool m"
  "length (rings (set_ring p r m)) = length (rings m)"
  "set_ring p r (set_ring p r' m) = set_ring p r m"
  "(set_ring p r m)\<lparr>rings := rs\<rparr> = m\<lparr>rings := rs\<rparr>"
  "p < length (rings m) \<Longrightarrow> ring_at (set_ring p r m) p = r"
  "p \<noteq> q \<Longrightarrow> ring_at (set_ring p r m) q = ring_at m q"
  by (simp_all add: set_ring_def ring_at_def)

lemma rings_set_ring: "rings (set_ring p r m) = (rings m)[p := r]"
  by (simp add: set_ring_def)

lemma cell_at_upd [simp]:
  "cell_at rp (r\<lparr>rq_head := h\<rparr>) t = cell_at rp r t"
  "cell_at rp (r\<lparr>rq_tail := l\<rparr>) t = cell_at rp r t"
  by (simp_all add: cell_at_def)

lemma cell_CAS2_hit [step_simps]:
  "cell_CAS2 rp t o1 o2 n1 n2 r = (True, set_cell rp t (n1, n2) r)"
  if "rn_val (cell_at rp r t) = o1" "rn_idx (cell_at rp r t) = o2"
  using that by (simp add: cell_CAS2_def CAS2_def)

section \<open>Enqueue on the chain\<close>

text \<open>A ring that has a successor is passed over without being written.\<close>

lemma enq_next:
  "rq_next (ring_at m p) = Some k \<Longrightarrow> enq rp arg p tc nrq m = enq rp arg k tc nrq m"
  by (subst enq.simps) (simp add: CAS64_def)

lemma enq_room:
  assumes p: "p < length (rings m)" and nx: "rq_next (ring_at m p) = None"
    and ok: "ring_ok rp (ring_at m p)" and op: "\<not> crq_is_closed (rq_tail (ring_at m p))"
    and room: "live_end (ring_at m p) < unat (rq_head (ring_at m p)) + 2 ^ rp"
  defines "r \<equiv> ring_at m p"
  shows "enq rp arg p tc nrq m = Some (Inr (nrq,
     set_ring p (set_cell rp (rq_tail r) (arg, rq_tail r) (r\<lparr>rq_tail := rq_tail r + 1\<rparr>)) m))"
proof -
  have "free_cell (cell_at rp r (rq_tail r)) (unat (rq_tail r))"
    unfolding r_def using ok op room by (rule enq_cell_free)
  then have "rn_val (cell_at rp r (rq_tail r)) = - 1" "rn_idx (cell_at rp r (rq_tail r)) = rq_tail r"
    by (simp_all add: free_cell_def EMPTY_def)
  moreover have "unat (rq_tail r) < 2 ^ 63"
    using op by (simp add: crq_is_closed_iff r_def)
  moreover have "node_index (rq_tail r) = rq_tail r" "node_unsafe (rq_tail r) = 0"
    using calculation by (simp_all add: node_index_small node_unsafe_eq_0)
  ultimately show ?thesis
    using p nx op
    by (subst enq.simps) (simp add: r_def [symmetric] FAA64_def is_empty_def cell_CAS2_hit Let_def)
qed

lemma close_crq_solo:
  "close_crq r t n = (True, r\<lparr>rq_tail := (t + 1) OR bit63\<rparr>)"
  if "rq_tail r = t + 1" "unat (t + 1) < 2 ^ 63"
  using that by (simp add: close_crq_def CAS64_def BIT_TEST_AND_SET_def)

lemma enq_full:
  assumes p: "p < length (rings m)" and nx: "rq_next (ring_at m p) = None" and rp: "rp < 64"
    and ok: "ring_ok rp (ring_at m p)" and op: "\<not> crq_is_closed (rq_tail (ring_at m p))"
    and full: "\<not> live_end (ring_at m p) < unat (rq_head (ring_at m p)) + 2 ^ rp"
    and lim: "live_end (ring_at m p) < 2 ^ 63 - 1"
  defines "r \<equiv> ring_at m p"
  defines "m' \<equiv> set_ring p (r\<lparr>rq_tail := (rq_tail r + 1) OR bit63\<rparr>) m"
  shows "enq rp arg p tc nrq m =
    (case enq_alloc rp arg p nrq m' of Inl f \<Rightarrow> Some (Inl f)
     | Inr (done, nrq', m2) \<Rightarrow>
         if done then Some (Inr (nrq', m2)) else enq rp arg p (tc + 1) nrq' m2)"
proof -
  have tl: "unat (rq_tail r) = unat (rq_head r) + 2 ^ rp"
    using full ok op by (auto simp: r_def ring_ok_def live_end_def)
  have "rn_val (cell_at rp r (rq_tail r)) \<noteq> EMPTY"
    unfolding r_def using ok op full by (rule enq_cell_full)
  then have occ: "\<not> is_empty (rn_val (cell_at rp r (rq_tail r)))"
    by (simp add: is_empty_def EMPTY_def)
  have dist: "RING_SIZE rp \<le> rq_tail r - rq_head r"
    using tl rp by (simp add: word_le_unat unat_diff_64 unat_RING_SIZE)
  have "unat (rq_tail r + 1) < 2 ^ 63"
    using lim op by (subst unat_Suc_64) (auto simp: r_def live_end_def)
  then have cl: "close_crq (r\<lparr>rq_tail := rq_tail r + 1\<rparr>) (rq_tail r) n =
      (True, r\<lparr>rq_tail := (rq_tail r + 1) OR bit63\<rparr>)" for n
    by (simp add: close_crq_solo)
  show ?thesis
    using p nx op occ dist
    by (subst enq.simps) (simp add: r_def [symmetric] m'_def FAA64_def cl)
qed

section \<open>Dequeue on one ring\<close>

lemma deq_cell_take:
  "deq_cell rp (rq_head r) tt 0 (r\<lparr>rq_head := rq_head r + 1\<rparr>) =
     Some (Some (rn_val (cell_at rp r (rq_head r))), ring_take rp r)"
  if "live_cell (cell_at rp r (rq_head r)) (unat (rq_head r))" "unat (rq_head r) < 2 ^ 63"
proof -
  have "rn_idx (cell_at rp r (rq_head r)) = rq_head r"
    "\<not> is_empty (rn_val (cell_at rp r (rq_head r)))"
    using that(1) by (simp_all add: live_cell_def is_empty_def EMPTY_def)
  then show ?thesis
    using that(2)
    by (subst deq_cell.simps)
       (simp add: Let_def node_index_small node_unsafe_eq_0 [THEN iffD2] cell_CAS2_hit
          ring_take_def EMPTY_def)
qed

text \<open>
  An empty cell is given to the next lap at once when the ring is closed or the tail, read at
  the first iteration, shows that no enqueue is on its way.
\<close>

lemma deq_cell_skip:
  "deq_cell rp (rq_head r) tt 0 (r\<lparr>rq_head := rq_head r + 1\<rparr>) = Some (None, ring_take rp r)"
  if "free_cell (cell_at rp r (rq_head r)) (unat (rq_head r))" "unat (rq_head r) < 2 ^ 63"
    and "tail_index (rq_tail r) - 1 \<le> rq_head r \<or> crq_is_closed (rq_tail r)"
proof -
  have "rn_idx (cell_at rp r (rq_head r)) = rq_head r"
    "is_empty (rn_val (cell_at rp r (rq_head r)))" "rn_val (cell_at rp r (rq_head r)) = - 1"
    using that(1) by (simp_all add: free_cell_def is_empty_def EMPTY_def)
  then show ?thesis
    using that(2,3)
    by (subst deq_cell.simps)
       (auto simp add: Let_def node_index_small node_unsafe_eq_0 [THEN iffD2] cell_CAS2_hit
          ring_take_def EMPTY_def)
qed

lemma deq_live:
  assumes "p < length (rings m)" "ring_ok rp (ring_at m p)" "unat (rq_head (ring_at m p)) < 2 ^ 63"
    and "unat (rq_head (ring_at m p)) < live_end (ring_at m p)"
  shows "deq rp (Suc n) p m = Some (rn_val (cell_at rp (ring_at m p) (rq_head (ring_at m p))),
    set_ring p (ring_take rp (ring_at m p)) m)"
  using assms deq_cell_live [OF assms(2,4)]
  by (simp add: deq.simps FAA64_def deq_cell_take)

lemma tail_passed:
  "tail_index (rq_tail r) - 1 \<le> rq_head r"
  if "ring_ok rp r" "\<not> unat (rq_head r) < live_end r" "0 < unat (tail_index (rq_tail r))"
proof -
  have "unat (tail_index (rq_tail r) - 1) = unat (tail_index (rq_tail r)) - 1"
    using that(3) by (subst unat_diff_64) auto
  moreover have "unat (tail_index (rq_tail r)) - 1 \<le> unat (rq_head r)"
    using that by (auto simp: live_end_def unat_tail_index crq_is_closed_iff split: if_splits)
  ultimately show ?thesis by (simp add: word_le_unat)
qed

lemma deq_drained:
  assumes p: "p < length (rings m)" and ok: "ring_ok rp (ring_at m p)"
    and lim: "unat (rq_head (ring_at m p)) < 2 ^ 63 - 1"
    and dr: "\<not> unat (rq_head (ring_at m p)) < live_end (ring_at m p)"
    and cl: "crq_is_closed (rq_tail (ring_at m p))" and nx: "rq_next (ring_at m p) = Some k"
  shows "deq rp (Suc n) p m = deq rp n k (set_ring p (ring_take rp (ring_at m p)) m)"
proof -
  let ?r = "ring_at m p"
  have free: "free_cell (cell_at rp ?r (rq_head ?r)) (unat (rq_head ?r))"
    using ok dr by (rule deq_cell_free)
  have passed: "tail_index (rq_tail ?r) - 1 \<le> rq_head ?r"
    by (rule tail_passed) (use ok dr cl in \<open>auto simp: ring_ok_def\<close>)
  have "unat (rq_head ?r + 1) = Suc (unat (rq_head ?r))"
    using lim by (intro unat_Suc_64) simp
  then have "\<not> rq_tail ?r < rq_head ?r + 1"
    using cl lim by (simp add: word_less_unat crq_is_closed_iff)
  then show ?thesis
    using p nx passed free lim
    by (simp add: deq.simps FAA64_def CAS64_def deq_cell_skip fixState_solo)
qed

lemma deq_empty:
  assumes p: "p < length (rings m)" and ok: "ring_ok rp (ring_at m p)"
    and lim: "unat (rq_head (ring_at m p)) < 2 ^ 63 - 1"
    and emp: "\<not> unat (rq_head (ring_at m p)) < live_end (ring_at m p)"
    and op: "\<not> crq_is_closed (rq_tail (ring_at m p))" and nx: "rq_next (ring_at m p) = None"
    and used: "0 < unat (rq_tail (ring_at m p))"
  shows "deq rp (Suc n) p m = Some (EMPTY, set_ring p ((ring_take rp (ring_at m p))
    \<lparr>rq_tail := rq_head (ring_at m p) + 1\<rparr>) m)"
proof -
  let ?r = "ring_at m p"
  have free: "free_cell (cell_at rp ?r (rq_head ?r)) (unat (rq_head ?r))"
    using ok emp by (rule deq_cell_free)
  have T: "unat (tail_index (rq_tail ?r)) = unat (rq_tail ?r)"
    using op by (simp add: unat_tail_index crq_is_closed_iff)
  have passed: "tail_index (rq_tail ?r) - 1 \<le> rq_head ?r"
    by (rule tail_passed) (use ok emp used T in auto)
  have "unat (rq_tail ?r) \<le> unat (rq_head ?r)"
    using op emp by (simp add: live_end_def)
  moreover have "unat (rq_head ?r + 1) = Suc (unat (rq_head ?r))"
    using lim by (intro unat_Suc_64) simp
  ultimately have "rq_tail ?r < rq_head ?r + 1"
    by (simp add: word_less_unat)
  then show ?thesis
    using p nx passed free lim
    by (simp add: deq.simps FAA64_def deq_cell_skip fixState_solo)
qed

lemma ring_take_tail: "ring_take rp (r\<lparr>rq_tail := t\<rparr>) = (ring_take rp r)\<lparr>rq_tail := t\<rparr>"
  by (cases r) (simp add: ring_take_def set_cell_def)

text \<open>A ring whose only outstanding ticket belongs to an empty cell is reported empty.\<close>

lemma deq_hole:
  assumes p: "p < length (rings m)" and nx: "rq_next (ring_at m p) = None"
    and free: "free_cell (cell_at rp (ring_at m p) (rq_head (ring_at m p))) (unat (rq_head (ring_at m p)))"
    and lim: "unat (rq_head (ring_at m p)) < 2 ^ 62"
  defines "r \<equiv> ring_at m p"
  shows "deq rp (Suc n) p (set_ring p (r\<lparr>rq_tail := rq_head r + 1\<rparr>) m) =
    Some (EMPTY, set_ring p ((ring_take rp r)\<lparr>rq_tail := rq_head r + 1\<rparr>) m)"
proof -
  have "unat (rq_head r + 1) = Suc (unat (rq_head r))"
    using lim by (intro unat_Suc_64) (simp add: r_def)
  then have t: "tail_index (rq_head r + 1) - 1 = rq_head r"
    using lim by (simp add: r_def word_eq_unat unat_tail_index unat_diff_64)
  then have "deq_cell rp (rq_head r) 0 0 (r\<lparr>rq_tail := rq_head r + 1, rq_head := rq_head r + 1\<rparr>) =
      Some (None, ring_take rp (r\<lparr>rq_tail := rq_head r + 1\<rparr>))"
    using deq_cell_skip [of rp "r\<lparr>rq_tail := rq_head r + 1\<rparr>" 0] free lim by (simp add: r_def)
  then show ?thesis
    using p nx t
    by (simp add: deq.simps FAA64_def fixState_solo ring_take_tail r_def)
qed

lemma set_cell_same:
  "cell_at rp r t = \<lparr>rn_val = v, rn_idx = i\<rparr> \<Longrightarrow> rq_array r' = rq_array r \<Longrightarrow>
     set_cell rp t (v, i) r' = r'"
  by (simp add: set_cell_def cell_at_def)
     (metis RingQueue.surjective RingQueue.update_convs(4) list_update_id)

section \<open>Operations on the whole chain\<close>

lemma Suc_last_ptr: "rings m \<noteq> [] \<Longrightarrow> Suc (last_ptr m) = length (rings m)"
  by (simp add: last_ptr_def)

lemma chain_last:
  assumes "chain_ok rp m"
  shows "last_ptr m < length (rings m)" "ring_ok rp (ring_at m (last_ptr m))"
    "rq_next (ring_at m (last_ptr m)) = None" "\<not> crq_is_closed (rq_tail (ring_at m (last_ptr m)))"
  using assms by (auto simp: chain_ok_def last_ptr_def)

lemma chain_inner:
  assumes "chain_ok rp m" "Suc p < length (rings m)"
  shows "p < length (rings m)" "ring_ok rp (ring_at m p)"
    "rq_next (ring_at m p) = Some (Suc p)" "crq_is_closed (rq_tail (ring_at m p))"
  using assms by (auto simp: chain_ok_def)

lemma contents_at:
  "p < length (rings m) \<Longrightarrow> queue_contents rp m =
     concat (map (ring_contents rp) (take p (rings m))) @ ring_contents rp (ring_at m p) @
     concat (map (ring_contents rp) (drop (Suc p) (rings m)))"
  unfolding queue_contents_def ring_at_def
  by (subst id_take_nth_drop [of p "rings m"]) simp_all

lemma contents_set:
  "p < length (rings m) \<Longrightarrow> queue_contents rp (set_ring p r m) =
     concat (map (ring_contents rp) (take p (rings m))) @ ring_contents rp r @
     concat (map (ring_contents rp) (drop (Suc p) (rings m)))"
  by (simp add: queue_contents_def rings_set_ring upd_conv_take_nth_drop)

lemma ring_at_set:
  "p < length (rings m) \<Longrightarrow> ring_at (set_ring p r m) q = (if q = p then r else ring_at m q)"
  by (simp add: set_ring_def ring_at_def nth_list_update)

lemma last_ptr_set [simp]: "last_ptr (set_ring p r m) = last_ptr m"
  by (simp add: last_ptr_def)

lemma chain_set:
  assumes "chain_ok rp m" "p < length (rings m)" "ring_ok rp r" "rq_next r = rq_next (ring_at m p)"
    and "crq_is_closed (rq_tail r) = crq_is_closed (rq_tail (ring_at m p))"
    and "p = last_ptr m \<Longrightarrow> used m \<Longrightarrow> rq_tail r \<noteq> 0"
  shows "chain_ok rp (set_ring p r m)"
  using assms by (auto simp: chain_ok_def ring_at_set rings_set_ring used_def)

lemma chain_extend:
  assumes ch: "chain_ok rp m" and r: "ring_ok rp r" "crq_is_closed (rq_tail r)"
      "rq_next r = Some (length (rings m))"
    and n: "ring_ok rp n" "\<not> crq_is_closed (rq_tail n)" "rq_next n = None" "rq_tail n \<noteq> 0"
    and ps: "set ps \<subseteq> set (pool m)"
  defines "m' \<equiv> m\<lparr>rings := (rings m)[last_ptr m := r] @ [n], pool := ps\<rparr>"
  shows "chain_ok rp m'"
    and "ring_contents rp r = ring_contents rp (ring_at m (last_ptr m)) \<Longrightarrow>
      queue_contents rp m' = queue_contents rp m @ ring_contents rp n"
proof -
  have ne: "rings m \<noteq> []" using ch by (simp add: chain_ok_def)
  have at: "ring_at m' p = (if p = length (rings m) then n
      else if Suc p = length (rings m) then r else ring_at m p)" if "p < Suc (length (rings m))" for p
    using that Suc_last_ptr [OF ne] by (auto simp: m'_def ring_at_def nth_append nth_list_update)
  show "chain_ok rp m'"
    unfolding chain_ok_def
  proof (intro conjI allI impI ballI)
    show "rings m' \<noteq> []" by (simp add: m'_def)
    show "used m'" by (simp add: used_def last_ptr_def m'_def ring_at_def nth_append n(4))
    fix b assume "b \<in> set (pool m')"
    then show "length (rq_array b) = 2 ^ rp" using ch ps by (auto simp: chain_ok_def m'_def)
  next
    fix p assume "p < length (rings m')"
    then have p: "p < Suc (length (rings m))" and len: "length (rings m') = Suc (length (rings m))"
      by (simp_all add: m'_def)
    consider "p = length (rings m)" | "Suc p = length (rings m)" | "Suc p < length (rings m)"
      using p by linarith
    then have "ring_ok rp (ring_at m' p) \<and>
        rq_next (ring_at m' p) = (if Suc p < length (rings m') then Some (Suc p) else None) \<and>
        crq_is_closed (rq_tail (ring_at m' p)) = (Suc p < length (rings m'))"
      by cases (use r n ne len chain_inner [OF ch, of p] in \<open>auto simp: at Suc_last_ptr\<close>)
    then show "ring_ok rp (ring_at m' p)"
      and "rq_next (ring_at m' p) = (if Suc p < length (rings m') then Some (Suc p) else None)"
      and "crq_is_closed (rq_tail (ring_at m' p)) = (Suc p < length (rings m'))"
      by blast+
  qed
  show "queue_contents rp m' = queue_contents rp m @ ring_contents rp n"
    if "ring_contents rp r = ring_contents rp (ring_at m (last_ptr m))"
    using ne that contents_set [of "last_ptr m" m rp r] contents_at [of "last_ptr m" m rp]
    by (simp add: m'_def queue_contents_def rings_set_ring last_ptr_def)
qed

lemma below_at: "mem_below B m \<Longrightarrow> p < length (rings m) \<Longrightarrow> ring_below B (ring_at m p)"
  by (simp add: mem_below_def ring_at_def)

lemma below_set:
  "mem_below B m \<Longrightarrow> B \<le> B' \<Longrightarrow> ring_below B' r \<Longrightarrow> mem_below B' (set_ring p r m)"
  by (auto simp: mem_below_def rings_set_ring ring_below_def dest!: set_update_subset_insert [THEN subsetD])

lemma live_end_le: "live_end r \<le> unat (tail_index (rq_tail r))"
  by (auto simp: live_end_def unat_tail_index crq_is_closed_iff)

subsection \<open>Enqueue\<close>

lemma enq_walk:
  "chain_ok rp m \<Longrightarrow> p < length (rings m) \<Longrightarrow>
     enq rp arg p tc nrq m = enq rp arg (last_ptr m) tc nrq m"
proof (induction "length (rings m) - p" arbitrary: p)
  case (Suc n)
  show ?case
  proof (cases "Suc p < length (rings m)")
    case True
    then have "enq rp arg p tc nrq m = enq rp arg (Suc p) tc nrq m"
      using chain_inner(3) [OF Suc.prems(1) True] by (intro enq_next)
    also have "\<dots> = enq rp arg (last_ptr m) tc nrq m"
      using Suc.hyps(2) by (intro Suc.hyps(1) Suc.prems(1) True) linarith
    finally show ?thesis .
  next
    case False
    then have "p = last_ptr m" using Suc.prems(2) by (simp add: last_ptr_def)
    then show ?thesis by simp
  qed
qed simp

lemma solo_ring:
  assumes "length (rq_array b) = 2 ^ rp" "arg \<noteq> EMPTY"
  defines "n \<equiv> solo_enqueue arg (init_ring rp b)"
  shows "ring_ok rp n" "ring_contents rp n = [arg]" "\<not> crq_is_closed (rq_tail n)"
    "rq_next n = None" "ring_below 1 n" "rq_tail n \<noteq> 0"
proof -
  have n: "n = set_cell rp (rq_tail (init_ring rp b)) (arg, rq_tail (init_ring rp b))
      ((init_ring rp b)\<lparr>rq_tail := rq_tail (init_ring rp b) + 1\<rparr>)"
    by (simp add: n_def solo_enqueue_def set_cell_def slot_def)
  have pre: "ring_ok rp (init_ring rp b)" "\<not> crq_is_closed (rq_tail (init_ring rp b))"
    "live_end (init_ring rp b) < unat (rq_head (init_ring rp b)) + 2 ^ rp"
    "live_end (init_ring rp b) < 2 ^ 63 - 1"
    using ring_ok_init [OF assms(1)] by (simp_all add: live_end_def crq_is_closed_iff)
  show "ring_ok rp n" "ring_contents rp n = [arg]" "\<not> crq_is_closed (rq_tail n)"
    unfolding n using ring_put [OF pre assms(2)] ring_ok_init(2) [OF assms(1)] by simp_all
  show "rq_next n = None" "ring_below 1 n" "rq_tail n \<noteq> 0"
    by (simp_all add: n ring_below_def unat_tail_index)
qed

lemma enq_alloc_fresh:
  assumes "p < length (rings m)" "rq_next (ring_at m p) = None" "pool m = b # bs"
  shows "enq_alloc rp arg p None m = Inr (True, None,
    m\<lparr>rings := (rings m)[p := (ring_at m p)\<lparr>rq_next := Some (length (rings m))\<rparr>]
        @ [solo_enqueue arg (init_ring rp b)], pool := bs\<rparr>)"
  using assms
  by (simp add: enq_alloc_def new_ring_def getMemory_def set_ring_def ring_at_def CAS64_def
      Let_def nth_append list_update_append)

text \<open>
  A complete enqueue by one thread: it returns, the value is at the end of the queue, and at
  most one block of memory was taken.
\<close>

definition enq_post :: "nat \<Rightarrow> nat \<Rightarrow> u64 \<Rightarrow> mem \<Rightarrow> mem \<Rightarrow> bool" where
  "enq_post rp B arg m m' \<longleftrightarrow>
     chain_ok rp m' \<and> mem_below (Suc B) m' \<and> used m' \<and>
     queue_contents rp m' = queue_contents rp m @ [arg] \<and>
     length (pool m) \<le> length (pool m') + 1 \<and> length (rings m') \<le> length (rings m) + 1"

lemma enq_chain_room:
  assumes ch: "chain_ok rp m" and B: "mem_below B m" "B < 2 ^ 62" and arg: "arg \<noteq> EMPTY"
    and room: "live_end (ring_at m (last_ptr m)) < unat (rq_head (ring_at m (last_ptr m))) + 2 ^ rp"
  shows "\<exists>m'. enq rp arg (last_ptr m) tc None m = Some (Inr (None, m')) \<and> enq_post rp B arg m m'"
proof -
  let ?p = "last_ptr m" let ?r = "ring_at m ?p"
  let ?r' = "set_cell rp (rq_tail ?r) (arg, rq_tail ?r) (?r\<lparr>rq_tail := rq_tail ?r + 1\<rparr>)"
  note last = chain_last [OF ch]
  have bel: "ring_below B ?r" using B(1) last(1) by (rule below_at)
  have tl: "unat (rq_tail ?r) \<le> B" "live_end ?r = unat (rq_tail ?r)"
    using bel last(4) by (auto simp: ring_below_def unat_tail_index crq_is_closed_iff live_end_def)
  then have lim: "live_end ?r < 2 ^ 63 - 1" using B(2) by simp
  note put = ring_put [OF last(2,4) room lim arg]
  have S: "unat (rq_tail ?r + 1) = Suc (unat (rq_tail ?r))"
    using lim tl by (intro unat_Suc_64) simp
  then have nz: "rq_tail ?r' \<noteq> 0"
    by (simp only: set_cell_simps RingQueue.simps word_eq_unat) simp
  have "ring_below (Suc B) ?r'"
    using bel tl S put(3) by (simp add: ring_below_def unat_tail_index crq_is_closed_iff)
  then have "mem_below (Suc B) (set_ring ?p ?r' m)" using B(1) by (intro below_set) auto
  moreover have "chain_ok rp (set_ring ?p ?r' m)"
    by (rule chain_set) (use ch last put nz in auto)
  moreover have "queue_contents rp (set_ring ?p ?r' m) = queue_contents rp m @ [arg]"
    using last(1) put(2) contents_at [OF last(1), of rp]
    by (subst contents_set) (auto simp: last_ptr_def)
  ultimately have "enq_post rp B arg m (set_ring ?p ?r' m)"
    using nz last(1) by (simp add: enq_post_def used_def)
  then show ?thesis using enq_room [OF last(1,3,2,4) room] by blast
qed

lemma enq_chain_full:
  assumes ch: "chain_ok rp m" and B: "mem_below B m" "B < 2 ^ 62" and rp: "rp < 64"
    and arg: "arg \<noteq> EMPTY" and mem: "pool m = b # bs"
    and full: "\<not> live_end (ring_at m (last_ptr m)) < unat (rq_head (ring_at m (last_ptr m))) + 2 ^ rp"
  shows "\<exists>m'. enq rp arg (last_ptr m) tc None m = Some (Inr (None, m')) \<and> enq_post rp B arg m m'"
proof -
  let ?p = "last_ptr m" let ?r = "ring_at m ?p"
  let ?c = "?r\<lparr>rq_tail := (rq_tail ?r + 1) OR bit63\<rparr>"
  let ?n = "solo_enqueue arg (init_ring rp b)"
  let ?m = "m\<lparr>rings := (rings m)[?p := ?c\<lparr>rq_next := Some (length (rings m))\<rparr>] @ [?n], pool := bs\<rparr>"
  note last = chain_last [OF ch]
  have bel: "ring_below B ?r" using B(1) last(1) by (rule below_at)
  then have lim: "live_end ?r < 2 ^ 63 - 1"
    using live_end_le [of ?r] B(2) by (simp add: ring_below_def)
  note close = ring_close [OF last(2,4) lim]
  have blk: "length (rq_array b) = 2 ^ rp" using ch mem by (simp add: chain_ok_def)
  note solo = solo_ring [OF blk arg]
  have "enq_alloc rp arg ?p None (set_ring ?p ?c m) = Inr (True, None, ?m)"
    using last(1,3) mem by (simp add: enq_alloc_fresh rings_set_ring)
  then have ret: "enq rp arg ?p tc None m = Some (Inr (None, ?m))"
    using enq_full [OF last(1,3) rp last(2,4) full lim] by simp
  note ext = chain_extend [OF ch _ _ _ solo(1,3,4,6), of "?c\<lparr>rq_next := Some (length (rings m))\<rparr>" bs]
  have "ring_below (Suc B) ?c"
    using bel close(5) live_end_le [of ?r] by (auto simp: ring_below_def)
  moreover have "ring_below (Suc B) ?n" using solo(5) by (rule ring_below_mono) simp
  ultimately have "mem_below (Suc B) ?m"
    using B(1) by (auto simp: mem_below_def ring_below_def dest!: set_update_subset_insert [THEN subsetD])
  moreover have "chain_ok rp ?m" "queue_contents rp ?m = queue_contents rp m @ [arg]"
    using ext close solo(2) mem by (auto simp: bit63_eq)
  moreover have "used ?m"
    using solo(6) by (simp add: used_def last_ptr_def ring_at_def nth_append)
  ultimately have "enq_post rp B arg m ?m" using mem by (simp add: enq_post_def)
  then show ?thesis using ret by blast
qed

lemma enq_chain:
  assumes "chain_ok rp m" "mem_below B m" "B < 2 ^ 62" "rp < 64" "arg \<noteq> EMPTY" "pool m \<noteq> []"
    and "p < length (rings m)"
  shows "\<exists>m'. enq rp arg p tc None m = Some (Inr (None, m')) \<and> enq_post rp B arg m m'"
proof -
  obtain b bs where "pool m = b # bs" using assms(6) by (cases "pool m") auto
  then show ?thesis
    unfolding enq_walk [OF assms(1,7)]
    using enq_chain_room [OF assms(1,2,3,5)] enq_chain_full [OF assms(1,2,3,4,5)] by blast
qed

subsection \<open>Dequeue\<close>

text \<open>
  A complete dequeue by one thread. The rings before the one that answers are drained; each has
  its head advanced by one, because the queue's own \<open>head\<close> pointer never moves and every call
  walks the chain again.
\<close>

definition deq_post :: "nat \<Rightarrow> nat \<Rightarrow> mem \<Rightarrow> u64 \<Rightarrow> mem \<Rightarrow> bool" where
  "deq_post rp B m v m' \<longleftrightarrow>
     chain_ok rp m' \<and> mem_below B m' \<and> used m' \<and> pool m' = pool m \<and>
     length (rings m') = length (rings m) \<and>
     (case queue_contents rp m of
        [] \<Rightarrow> v = EMPTY \<and> queue_contents rp m' = []
      | x # xs \<Rightarrow> v = x \<and> queue_contents rp m' = xs)"

lemma below_take:
  "ring_below B r \<Longrightarrow> B < 2 ^ 62 \<Longrightarrow> ring_below (Suc B) (ring_take rp r)"
  by (simp add: ring_below_def unat_Suc_64)

lemma contents_from:
  assumes "p < length (rings m)" "\<forall>q < p. ring_contents rp (ring_at m q) = []"
  shows "queue_contents rp m = ring_contents rp (ring_at m p) @
           concat (map (ring_contents rp) (drop (Suc p) (rings m)))"
    and "queue_contents rp (set_ring p r m) = ring_contents rp r @
           concat (map (ring_contents rp) (drop (Suc p) (rings m)))"
proof -
  have "concat (map (ring_contents rp) (take p (rings m))) = []"
    using assms by (auto simp: in_set_conv_nth ring_at_def)
  then show "queue_contents rp m = ring_contents rp (ring_at m p) @
      concat (map (ring_contents rp) (drop (Suc p) (rings m)))"
    "queue_contents rp (set_ring p r m) = ring_contents rp r @
      concat (map (ring_contents rp) (drop (Suc p) (rings m)))"
    using assms(1) by (simp_all add: contents_at [of p m] contents_set)
qed

definition walked :: "nat \<Rightarrow> nat \<Rightarrow> nat \<Rightarrow> mem \<Rightarrow> bool" where
  "walked rp B p m \<longleftrightarrow>
     (\<forall>q < p. ring_contents rp (ring_at m q) = [] \<and> ring_below (Suc B) (ring_at m q)) \<and>
     (\<forall>q < length (rings m). p \<le> q \<longrightarrow> ring_below B (ring_at m q))"

lemma walked_below:
  assumes "walked rp B p m" "p < length (rings m)" "ring_below (Suc B) r"
  shows "mem_below (Suc B) (set_ring p r m)"
  unfolding mem_below_def
proof
  fix x assume "x \<in> set (rings (set_ring p r m))"
  then obtain q where q: "q < length (rings m)" "x = ring_at (set_ring p r m) q"
    by (auto simp: in_set_conv_nth ring_at_def)
  consider "q < p" | "q = p" | "p < q" by linarith
  then show "ring_below (Suc B) x"
    by cases (use assms q in \<open>auto simp: walked_def ring_at_set ring_below_def\<close>)
qed

lemma deq_chain_live:
  assumes ch: "chain_ok rp m" and p: "p < length (rings m)" and w: "walked rp B p m" "B < 2 ^ 62"
    and us: "used m" and live: "unat (rq_head (ring_at m p)) < live_end (ring_at m p)"
  shows "\<exists>v m'. deq rp (Suc n) p m = Some (v, m') \<and> deq_post rp (Suc B) m v m'"
proof -
  let ?r = "ring_at m p"
  have bel: "ring_below B ?r" using w p by (simp add: walked_def)
  then have lim: "unat (rq_head ?r) < 2 ^ 63" using w(2) by (simp add: ring_below_def)
  have ok: "ring_ok rp ?r" using ch p by (simp add: chain_ok_def)
  note take = ring_take_ok [OF ok lim disjI1 [OF live]]
  have ne: "ring_contents rp ?r \<noteq> []" using live by (simp add: ring_contents_Nil_iff)
  have "chain_ok rp (set_ring p (ring_take rp ?r) m)"
    by (rule chain_set) (use ch p take us in \<open>auto simp: used_def\<close>)
  moreover have "mem_below (Suc B) (set_ring p (ring_take rp ?r) m)"
    using w(1) p below_take [OF bel w(2)] by (rule walked_below)
  moreover have "used (set_ring p (ring_take rp ?r) m)"
    using us p by (auto simp: used_def ring_at_set)
  moreover have "queue_contents rp m = hd (ring_contents rp ?r) #
      queue_contents rp (set_ring p (ring_take rp ?r) m)"
    using contents_from(1) [OF p, of rp] contents_from(2) [OF p, of rp "ring_take rp ?r"] w(1) take(2) ne by (auto simp: walked_def)
  ultimately have "deq_post rp (Suc B) m (hd (ring_contents rp ?r)) (set_ring p (ring_take rp ?r) m)"
    by (simp add: deq_post_def)
  then show ?thesis
    using deq_live [OF p ok lim live] live by (auto simp: hd_ring_contents)
qed

lemma deq_chain_empty:
  assumes ch: "chain_ok rp m" and w: "walked rp B (last_ptr m) m" "B < 2 ^ 62" and us: "used m"
    and emp: "\<not> unat (rq_head (ring_at m (last_ptr m))) < live_end (ring_at m (last_ptr m))"
  shows "\<exists>v m'. deq rp (Suc n) (last_ptr m) m = Some (v, m') \<and> deq_post rp (Suc B) m v m'"
proof -
  let ?p = "last_ptr m" let ?r = "ring_at m ?p"
  let ?r' = "(ring_take rp ?r)\<lparr>rq_tail := rq_head ?r + 1\<rparr>"
  note last = chain_last [OF ch]
  have bel: "ring_below B ?r" using w last(1) by (simp add: walked_def)
  then have lim: "unat (rq_head ?r) < 2 ^ 63 - 1" using w(2) by (simp add: ring_below_def)
  note skip = ring_skip_open [OF last(2,4) emp lim]
  have S: "unat (rq_head ?r + 1) = Suc (unat (rq_head ?r))"
    using lim by (intro unat_Suc_64) simp
  then have nz: "rq_head ?r + 1 \<noteq> 0" by (simp only: word_eq_unat) simp
  have "chain_ok rp (set_ring ?p ?r' m)"
    by (rule chain_set) (use ch last skip nz in auto)
  moreover have "ring_below (Suc B) ?r'"
    using bel skip(3) S by (auto simp: ring_below_def unat_tail_index crq_is_closed_iff)
  then have "mem_below (Suc B) (set_ring ?p ?r' m)"
    using w(1) last(1) by (intro walked_below)
  moreover have "used (set_ring ?p ?r' m)"
    using last(1) nz by (simp add: used_def)
  moreover have "queue_contents rp m = []" "queue_contents rp (set_ring ?p ?r' m) = []"
    using contents_from(1) [OF last(1), of rp] contents_from(2) [OF last(1), of rp ?r'] w(1) skip(2) emp
    by (auto simp: walked_def ring_contents_Nil_iff last_ptr_def)
  ultimately have "deq_post rp (Suc B) m EMPTY (set_ring ?p ?r' m)"
    by (simp add: deq_post_def)
  then show ?thesis
    using deq_empty [OF last(1,2) lim emp last(4,3)] us by (auto simp: used_def unat_gt_0)
qed

lemma walked_step:
  assumes ch: "chain_ok rp m" and inner: "Suc p < length (rings m)" and w: "walked rp B p m" "B < 2 ^ 62"
    and us: "used m" and dr: "\<not> unat (rq_head (ring_at m p)) < live_end (ring_at m p)"
  defines "m' \<equiv> set_ring p (ring_take rp (ring_at m p)) m"
  shows "chain_ok rp m'" "walked rp B (Suc p) m'" "used m'"
    and "queue_contents rp m' = queue_contents rp m" "deq rp (Suc n) p m = deq rp n (Suc p) m'"
proof -
  let ?r = "ring_at m p"
  note in_p = chain_inner [OF ch inner]
  have bel: "ring_below B ?r" using w in_p(1) by (simp add: walked_def)
  then have lim: "unat (rq_head ?r) < 2 ^ 63 - 1" "unat (rq_head ?r) < 2 ^ 63"
    using w(2) by (simp_all add: ring_below_def)
  note take = ring_take_ok [OF in_p(2) lim(2) disjI2 [OF in_p(4)]]
  have emp: "ring_contents rp ?r = []" using dr by (simp add: ring_contents_Nil_iff)
  show "chain_ok rp m'"
    unfolding m'_def by (rule chain_set) (use ch in_p take us in \<open>auto simp: used_def\<close>)
  show "walked rp B (Suc p) m'"
    using w(1) in_p(1) take(2) emp below_take [OF bel w(2)]
    by (auto simp: walked_def m'_def ring_at_set less_Suc_eq)
  show "used m'" using us in_p(1) by (auto simp: m'_def used_def ring_at_set)
  show "queue_contents rp m' = queue_contents rp m"
    using emp take(2) in_p(1) by (simp add: m'_def contents_set contents_at [of p m])
  show "deq rp (Suc n) p m = deq rp n (Suc p) m'"
    unfolding m'_def by (rule deq_drained [OF in_p(1,2) lim(1) dr in_p(4,3)])
qed

lemma deq_chain_from:
  assumes "chain_ok rp m" "p < length (rings m)" "walked rp B p m" "B < 2 ^ 62" "used m"
    and "length (rings m) \<le> fuel + p"
  shows "\<exists>v m'. deq rp fuel p m = Some (v, m') \<and> deq_post rp (Suc B) m v m'"
  using assms
proof (induction fuel arbitrary: p m)
  case (Suc n)
  note prems = Suc.prems
  have "p = last_ptr m \<or> Suc p < length (rings m)"
    using prems(2) by (auto simp: last_ptr_def)
  then
  consider (live) "unat (rq_head (ring_at m p)) < live_end (ring_at m p)"
    | (last) "\<not> unat (rq_head (ring_at m p)) < live_end (ring_at m p)" "p = last_ptr m"
    | (inner) "\<not> unat (rq_head (ring_at m p)) < live_end (ring_at m p)" "Suc p < length (rings m)"
    by blast
  then show ?case
  proof cases
    case live
    then show ?thesis using deq_chain_live prems by blast
  next
    case last
    then show ?thesis using deq_chain_empty prems by blast
  next
    case inner
    let ?m = "set_ring p (ring_take rp (ring_at m p)) m"
    note st = walked_step [OF prems(1) inner(2) prems(3,4,5) inner(1)]
    have "\<exists>v m'. deq rp n (Suc p) ?m = Some (v, m') \<and> deq_post rp (Suc B) ?m v m'"
      by (rule Suc.IH) (use inner(2) prems(4,6) st in auto)
    then show ?thesis using st(4,5) by (simp add: deq_post_def)
  qed
qed simp

lemma deq_chain:
  assumes "chain_ok rp m" "mem_below B m" "B < 2 ^ 62" "used m" "length (rings m) \<le> fuel"
  shows "\<exists>v m'. deq rp fuel 0 m = Some (v, m') \<and> deq_post rp (Suc B) m v m'"
  using assms by (intro deq_chain_from) (auto simp: walked_def below_at chain_ok_def)

lemma contents_not_EMPTY:
  assumes "chain_ok rp m"
  shows "EMPTY \<notin> set (queue_contents rp m)"
proof
  assume "EMPTY \<in> set (queue_contents rp m)"
  then obtain p where p: "p < length (rings m)" "EMPTY \<in> set (ring_contents rp (ring_at m p))"
    by (auto simp: queue_contents_def in_set_conv_nth [of _ "rings m"] ring_at_def)
  moreover have "ring_ok rp (ring_at m p)" using assms p(1) by (simp add: chain_ok_def)
  ultimately show False
    by (auto simp: ring_contents_def ring_ok_def cells_ok_def live_cell_def)
qed

subsection \<open>Dequeue on a queue that was never used\<close>

text \<open>
  The tail of a fresh ring is 0, and \<open>tail_index(tail) - 1\<close> wraps around to the largest word, so
  the test \<open>tail_index(rq->tail) - 1 <= h\<close> does not see that the ring is empty. The cell loop spins
  until its counter passes 200000, the ticket is given up, and the call takes the next one.
\<close>

lemma deq_cell_spin:
  assumes "free_cell (cell_at rp r (rq_head r)) (unat (rq_head r))" "unat (rq_head r) < 2 ^ 63"
    and "rq_tail r = 0" "k \<le> 200001"
  shows "deq_cell rp (rq_head r) 0 k (r\<lparr>rq_head := rq_head r + 1\<rparr>) = Some (None, ring_take rp r)"
  using assms(4)
proof (induction "200001 - k" arbitrary: k)
  case 0
  then have "200000 < k" by simp
  then show ?case
    using assms(1-3)
    by (subst deq_cell.simps)
       (simp add: Let_def node_index_small node_unsafe_eq_0 [THEN iffD2] cell_CAS2_hit
          ring_take_def EMPTY_def free_cell_def is_empty_def)
next
  case (Suc n)
  have "\<not> 200000 < k" using Suc.hyps(2) by simp
  moreover have "\<not> tail_index 0 - 1 \<le> rq_head r" "\<not> crq_is_closed 0"
    using assms(2) by (simp_all add: word_le_unat crq_is_closed_iff tail_index_def unat_minus_1_64)
  ultimately have "deq_cell rp (rq_head r) 0 k (r\<lparr>rq_head := rq_head r + 1\<rparr>) =
      deq_cell rp (rq_head r) 0 (k + 1) (r\<lparr>rq_head := rq_head r + 1\<rparr>)"
    using assms(1-3)
    by (subst deq_cell.simps)
       (simp add: Let_def node_index_small node_unsafe_eq_0 [THEN iffD2] EMPTY_def
          free_cell_def is_empty_def)
  also have "\<dots> = Some (None, ring_take rp r)"
    using Suc.hyps(2) by (intro Suc.hyps(1)) simp_all
  finally show ?case .
qed

definition unused_ring :: "nat \<Rightarrow> RingQueue \<Rightarrow> bool" where
  "unused_ring rp r \<longleftrightarrow> rq_tail r = 0 \<and> length (rq_array r) = 2 ^ rp \<and>
     cells_ok rp (unat (rq_head r)) (unat (rq_head r)) r"

lemma unused_step:
  assumes u: "unused_ring rp (ring_at m p)" and p: "p < length (rings m)"
    and lim: "unat (rq_head (ring_at m p)) < 2 ^ 62"
  defines "m' \<equiv> set_ring p (ring_take rp (ring_at m p)) m"
  shows "deq rp (Suc n) p m = deq rp n p m'" and "unused_ring rp (ring_at m' p)"
    and "unat (rq_head (ring_at m' p)) = Suc (unat (rq_head (ring_at m p)))"
proof -
  let ?r = "ring_at m p"
  have free: "free_cell (cell_at rp ?r (rq_head ?r)) (unat (rq_head ?r))"
    using u by (simp add: unused_ring_def cells_ok_def cell_at_no)
  have "\<not> tail_index 0 - 1 \<le> rq_head ?r"
    using lim by (simp add: word_le_unat tail_index_def unat_minus_1_64)
  then show "deq rp (Suc n) p m = deq rp n p m'"
    using p u lim free by (simp add: deq.simps FAA64_def deq_cell_spin unused_ring_def m'_def)
  show H: "unat (rq_head (ring_at m' p)) = Suc (unat (rq_head ?r))"
    using p lim by (simp add: m'_def unat_Suc_64)
  have "cells_ok rp (Suc (unat (rq_head ?r)))
      (if unat (rq_head ?r) < unat (rq_head ?r) then unat (rq_head ?r) else Suc (unat (rq_head ?r)))
      (set_cell rp (rq_head ?r) (EMPTY, rq_head ?r + RING_SIZE rp) (?r\<lparr>rq_head := rq_head ?r + 1\<rparr>))"
    by (rule cells_ok_advance) (use u in \<open>simp_all add: unused_ring_def RING_SIZE_def push_bit_of_1\<close>)
  then show "unused_ring rp (ring_at m' p)"
    using p u H by (simp add: unused_ring_def m'_def) (simp add: ring_take_def)
qed

lemma deq_unused_spins:
  "unused_ring rp (ring_at m p) \<Longrightarrow> p < length (rings m) \<Longrightarrow>
     unat (rq_head (ring_at m p)) + fuel \<le> 2 ^ 62 \<Longrightarrow> deq rp fuel p m = None"
proof (induction fuel arbitrary: m)
  case (Suc n)
  have lim: "unat (rq_head (ring_at m p)) < 2 ^ 62" using Suc.prems(3) by linarith
  note st = unused_step [OF Suc.prems(1,2) lim]
  have "deq rp n p (set_ring p (ring_take rp (ring_at m p)) m) = None"
    by (rule Suc.IH) (use st(2,3) Suc.prems(2,3) in auto)
  then show ?case by (simp add: st(1))
qed simp

lemma unused_init:
  "length (rq_array r) = 2 ^ rp \<Longrightarrow> unused_ring rp (init_ring rp r)"
  by (simp add: unused_ring_def cells_ok_def free_cell_def cell_no_init_ring EMPTY_def)

end
