(* ===== verification/EventCount.thy ===== *)
theory EventCount
  imports Primitives
begin

text \<open>
  The event count of \<open>src/c/EventCount.h\<close>: one 64-bit word with the epoch in its high half and
  the number of registered waiters in its low half. The first part has the operations as
  functions on that word. The second part is the protocol as a step relation over any number
  of threads, each atomic access one step; the futex system call is the operating system's, so
  what it does is an argument of the relation (\<open>kwake\<close>, which sleepers a wake call of a given
  size removes from the kernel's queue) with its documented behaviour as a named hypothesis
  (\<open>futex_wakes\<close>), and a blocked thread may also return at any time.
\<close>

section \<open>Operations\<close>

type_synonym Key = u32

definition kAddWaiter :: u64 where
  "kAddWaiter = 1"

definition kSubWaiter :: u64 where
  "kSubWaiter = - 1"

definition kEpochShift :: nat where
  "kEpochShift = 32"

definition kAddEpoch :: u64 where
  "kAddEpoch = push_bit kEpochShift 1"

definition kWaiterMask :: u64 where
  "kWaiterMask = kAddEpoch - 1"

definition INT_MAX :: nat where
  "INT_MAX = 2147483647"

definition initEventCount :: u64 where
  "initEventCount = 0"

text \<open>\<open>doNotify\<close>: the new word, and the argument of the wake call if one is made.\<close>

definition doNotify :: "u64 \<Rightarrow> nat \<Rightarrow> u64 \<times> nat option" where
  "doNotify ec n =
     (let (prev, ec') = FAA64 ec kAddEpoch
      in (ec', if prev AND kWaiterMask \<noteq> 0 then Some n else None))"

definition notify :: "u64 \<Rightarrow> u64 \<times> nat option" where
  "notify ec = doNotify ec 1"

definition notifyAll :: "u64 \<Rightarrow> u64 \<times> nat option" where
  "notifyAll ec = doNotify ec INT_MAX"

definition prepareWait :: "u64 \<Rightarrow> Key \<times> u64" where
  "prepareWait ec =
     (let (prev, ec') = FAA64 ec kAddWaiter in (ucast (drop_bit kEpochShift prev), ec'))"

definition cancelWait :: "u64 \<Rightarrow> u64" where
  "cancelWait ec = snd (FAA64 ec kSubWaiter)"

text \<open>The loop test of \<open>await\<close>, and the decrement after the loop.\<close>

definition epoch_is :: "u64 \<Rightarrow> Key \<Rightarrow> bool" where
  "epoch_is ec key \<longleftrightarrow> drop_bit kEpochShift ec = ucast key"

definition await_done :: "u64 \<Rightarrow> u64" where
  "await_done ec = snd (FAA64 ec kSubWaiter)"

text \<open>
  \<open>nativeFutexWake\<close> and \<open>nativeFutexWaitImpl\<close> around the system call \<open>sys\<close> (operation, value,
  mask): the private flag unless \<open>PSHARED\<close> is defined, and errors of a wake reported as 0.
\<close>

definition FUTEX_WAIT_BITSET :: u32 where "FUTEX_WAIT_BITSET = 9"
definition FUTEX_WAKE_BITSET :: u32 where "FUTEX_WAKE_BITSET = 10"
definition FUTEX_PRIVATE_FLAG :: u32 where "FUTEX_PRIVATE_FLAG = 128"

definition nativeFutexWake :: "(u32 \<Rightarrow> u32 \<Rightarrow> u32 \<Rightarrow> int) \<Rightarrow> bool \<Rightarrow> u32 \<Rightarrow> u32 \<Rightarrow> int" where
  "nativeFutexWake sys pshared cnt wakeMask =
     (let rv = sys (if pshared then FUTEX_WAKE_BITSET else FUTEX_WAKE_BITSET OR FUTEX_PRIVATE_FLAG)
                 cnt wakeMask
      in if rv < 0 then 0 else rv)"

definition nativeFutexWaitImpl :: "(u32 \<Rightarrow> u32 \<Rightarrow> u32 \<Rightarrow> int) \<Rightarrow> bool \<Rightarrow> u32 \<Rightarrow> u32 \<Rightarrow> int" where
  "nativeFutexWaitImpl sys pshared expected waitMask =
     sys (if pshared then FUTEX_WAIT_BITSET else FUTEX_WAIT_BITSET OR FUTEX_PRIVATE_FLAG)
       expected waitMask"

section \<open>The two halves of the word\<close>

definition ec_word :: "nat \<Rightarrow> nat \<Rightarrow> u64" where
  "ec_word e w = of_nat (e * 2 ^ 32 + w)"

lemma unat_ec_word: "e < 2 ^ 32 \<Longrightarrow> w < 2 ^ 32 \<Longrightarrow> unat (ec_word e w) = e * 2 ^ 32 + w"
  unfolding ec_word_def by (simp only: unat_of_nat len_num1 len_bit0) simp

lemma drop_ec_word:
  assumes "e < 2 ^ 32" "w < 2 ^ 32"
  shows "drop_bit 32 (ec_word e w) = of_nat e"
proof -
  have "unat (drop_bit 32 (ec_word e w)) = drop_bit 32 (unat (ec_word e w))"
    by (rule unat_drop_bit_eq)
  also have "\<dots> = (e * 2 ^ 32 + w) div 2 ^ 32"
    by (simp only: unat_ec_word [OF assms] drop_bit_eq_div)
  also have "\<dots> = unat (of_nat e :: u64)" using assms by (simp add: unat_of_nat_64)
  finally show ?thesis by (simp add: word_eq_unat)
qed

lemma mask_ec_word:
  assumes "e < 2 ^ 32" "w < 2 ^ 32"
  shows "unat (ec_word e w AND kWaiterMask) = w"
proof -
  have "unat (ec_word e w AND kWaiterMask) = (e * 2 ^ 32 + w) mod 2 ^ 32"
    unfolding kWaiterMask_def kAddEpoch_def kEpochShift_def unat_and_mask unat_ec_word [OF assms] ..
  also have "\<dots> = w" using assms by simp
  finally show ?thesis .
qed

lemma doNotify_word:
  "e < 2 ^ 32 \<Longrightarrow> w < 2 ^ 32 \<Longrightarrow>
     doNotify (ec_word e w) n = (ec_word (Suc e) w, if 0 < w then Some n else None)"
  using mask_ec_word [of e w]
  by (auto simp: doNotify_def FAA64_def kAddEpoch_def kEpochShift_def push_bit_of_1 ec_word_def
      word_eq_unat algebra_simps)

lemma prepareWait_word:
  "e < 2 ^ 32 \<Longrightarrow> w < 2 ^ 32 \<Longrightarrow> prepareWait (ec_word e w) = (of_nat e, ec_word e (Suc w))"
  by (simp add: prepareWait_def FAA64_def kAddWaiter_def kEpochShift_def drop_ec_word)
     (simp add: ec_word_def word_unat_eq_iff unat_ucast_32 unat_of_nat_32 unat_of_nat_64
       algebra_simps)

lemma cancelWait_word: "cancelWait (ec_word e (Suc w)) = ec_word e w"
  by (simp add: cancelWait_def FAA64_def kSubWaiter_def ec_word_def)

lemma await_done_word: "await_done (ec_word e (Suc w)) = ec_word e w"
  by (simp add: await_done_def FAA64_def kSubWaiter_def ec_word_def)

lemma epoch_is_word:
  "e < 2 ^ 32 \<Longrightarrow> w < 2 ^ 32 \<Longrightarrow> epoch_is (ec_word e w) key \<longleftrightarrow> unat key = e"
  by (simp add: epoch_is_def kEpochShift_def drop_ec_word word_eq_unat unat_ucast_64
      unat_of_nat_64 eq_commute)

section \<open>The protocol\<close>

text \<open>
  Where a thread is: \<open>Prepared\<close> after \<open>prepareWait\<close>; \<open>Testing\<close> at the load in the loop test of
  \<open>await\<close>; \<open>Entering\<close> between a test that saw the old epoch and the system call; \<open>Sleeping\<close> in the
  kernel; \<open>Leaving\<close> before the final decrement; \<open>Waking n\<close> in \<open>doNotify\<close> before its wake call.
\<close>

datatype ec_pc = Idle | Prepared Key | Testing Key | Entering Key | Sleeping Key | Leaving
  | Waking nat

text \<open>
  \<open>ec_val\<close> is the shared word and \<open>ec_pcs\<close> the threads. The other fields are history: how many
  notifications there were, and for each sleeper how many other threads were woken by wake calls
  since it went to sleep.
\<close>

record ec_state =
  ec_val :: u64
  ec_pcs :: "nat \<Rightarrow> ec_pc"
  ec_total :: nat
  ec_woken :: "nat \<Rightarrow> nat"

definition ec_init :: ec_state where
  "ec_init = \<lparr>ec_val = initEventCount, ec_pcs = (\<lambda>_. Idle), ec_total = 0, ec_woken = (\<lambda>_. 0)\<rparr>"

definition is_sleeping :: "ec_pc \<Rightarrow> bool" where
  "is_sleeping pc \<longleftrightarrow> (\<exists>k. pc = Sleeping k)"

definition is_waking :: "ec_pc \<Rightarrow> bool" where
  "is_waking pc \<longleftrightarrow> (\<exists>n. pc = Waking n)"

fun is_registered :: "ec_pc \<Rightarrow> bool" where
  "is_registered Idle = False"
| "is_registered (Waking n) = False"
| "is_registered _ = True"

fun ec_key :: "ec_pc \<Rightarrow> Key option" where
  "ec_key (Prepared k) = Some k"
| "ec_key (Testing k) = Some k"
| "ec_key (Entering k) = Some k"
| "ec_key (Sleeping k) = Some k"
| "ec_key _ = None"

definition sleepers :: "nat \<Rightarrow> (nat \<Rightarrow> ec_pc) \<Rightarrow> nat set" where
  "sleepers N pcs = {i. i < N \<and> is_sleeping (pcs i)}"

definition wakers :: "nat \<Rightarrow> (nat \<Rightarrow> ec_pc) \<Rightarrow> nat set" where
  "wakers N pcs = {i. i < N \<and> is_waking (pcs i)}"

definition registered :: "nat \<Rightarrow> (nat \<Rightarrow> ec_pc) \<Rightarrow> nat set" where
  "registered N pcs = {i. i < N \<and> is_registered (pcs i)}"

text \<open>What the kernel promises: a wake call of size \<open>n\<close> wakes \<open>n\<close> sleepers, or all if fewer.\<close>

definition futex_wakes :: "(nat \<Rightarrow> nat set \<Rightarrow> nat set \<Rightarrow> bool) \<Rightarrow> bool" where
  "futex_wakes kwake \<longleftrightarrow>
     (\<forall>n S W. finite S \<longrightarrow> kwake n S W \<longrightarrow> W \<subseteq> S \<and> card W = min n (card S))"

definition wake_up :: "ec_pc \<Rightarrow> ec_pc" where
  "wake_up pc = (case pc of Sleeping k \<Rightarrow> Testing k | _ \<Rightarrow> pc)"

inductive ec_step ::
  "(nat \<Rightarrow> nat set \<Rightarrow> nat set \<Rightarrow> bool) \<Rightarrow> nat \<Rightarrow> ec_state \<Rightarrow> ec_state \<Rightarrow> bool"
  for kwake :: "nat \<Rightarrow> nat set \<Rightarrow> nat set \<Rightarrow> bool" and N :: nat where
  step_notify:
    "\<lbrakk>i < N; ec_pcs s i = Idle; n = 1 \<or> n = INT_MAX; doNotify (ec_val s) n = (v, call)\<rbrakk> \<Longrightarrow>
     ec_step kwake N s (s\<lparr>ec_val := v, ec_total := Suc (ec_total s),
       ec_pcs := (ec_pcs s)(i := (case call of None \<Rightarrow> Idle | Some n \<Rightarrow> Waking n))\<rparr>)"
| step_wake:
    "\<lbrakk>i < N; ec_pcs s i = Waking n; kwake n (sleepers N (ec_pcs s)) W\<rbrakk> \<Longrightarrow>
     ec_step kwake N s (s\<lparr>ec_pcs := (\<lambda>j. if j = i then Idle else if j \<in> W then wake_up (ec_pcs s j)
         else ec_pcs s j),
       ec_woken := (\<lambda>j. ec_woken s j + card W)\<rparr>)"
| step_prepare:
    "\<lbrakk>i < N; ec_pcs s i = Idle; prepareWait (ec_val s) = (k, v)\<rbrakk> \<Longrightarrow>
     ec_step kwake N s (s\<lparr>ec_val := v, ec_pcs := (ec_pcs s)(i := Prepared k)\<rparr>)"
| step_cancel:
    "\<lbrakk>i < N; ec_pcs s i = Prepared k\<rbrakk> \<Longrightarrow>
     ec_step kwake N s (s\<lparr>ec_val := cancelWait (ec_val s), ec_pcs := (ec_pcs s)(i := Idle)\<rparr>)"
| step_await:
    "\<lbrakk>i < N; ec_pcs s i = Prepared k\<rbrakk> \<Longrightarrow>
     ec_step kwake N s (s\<lparr>ec_pcs := (ec_pcs s)(i := Testing k)\<rparr>)"
| step_test:
    "\<lbrakk>i < N; ec_pcs s i = Testing k\<rbrakk> \<Longrightarrow>
     ec_step kwake N s (s\<lparr>ec_pcs := (ec_pcs s)(i :=
       if epoch_is (ec_val s) k then Entering k else Leaving)\<rparr>)"
| step_sleep:
    "\<lbrakk>i < N; ec_pcs s i = Entering k; epoch_is (ec_val s) k\<rbrakk> \<Longrightarrow>
     ec_step kwake N s (s\<lparr>ec_pcs := (ec_pcs s)(i := Sleeping k), ec_woken := (ec_woken s)(i := 0)\<rparr>)"
| step_again:
    "\<lbrakk>i < N; ec_pcs s i = Entering k; \<not> epoch_is (ec_val s) k\<rbrakk> \<Longrightarrow>
     ec_step kwake N s (s\<lparr>ec_pcs := (ec_pcs s)(i := Testing k)\<rparr>)"
| step_spurious:
    "\<lbrakk>i < N; ec_pcs s i = Sleeping k\<rbrakk> \<Longrightarrow>
     ec_step kwake N s (s\<lparr>ec_pcs := (ec_pcs s)(i := Testing k)\<rparr>)"
| step_leave:
    "\<lbrakk>i < N; ec_pcs s i = Leaving\<rbrakk> \<Longrightarrow>
     ec_step kwake N s (s\<lparr>ec_val := await_done (ec_val s), ec_pcs := (ec_pcs s)(i := Idle)\<rparr>)"

inductive ec_reachable :: "(nat \<Rightarrow> nat set \<Rightarrow> nat set \<Rightarrow> bool) \<Rightarrow> nat \<Rightarrow> ec_state \<Rightarrow> bool"
  for kwake :: "nat \<Rightarrow> nat set \<Rightarrow> nat set \<Rightarrow> bool" and N :: nat where
  ec_start: "ec_reachable kwake N ec_init"
| ec_more: "ec_reachable kwake N s \<Longrightarrow> ec_step kwake N s t \<Longrightarrow> ec_reachable kwake N t"

section \<open>Invariant\<close>

text \<open>
  The word is the number of notifications and the number of registered threads; a registered
  thread's key is the epoch at its \<open>prepareWait\<close>; and every notification that came after a
  sleeper's \<open>prepareWait\<close> has woken another thread or is about to make its wake call.
\<close>

definition ec_inv :: "nat \<Rightarrow> ec_state \<Rightarrow> bool" where
  "ec_inv N s \<longleftrightarrow>
     ec_val s = ec_word (ec_total s) (card (registered N (ec_pcs s))) \<and>
     (\<forall>i k. ec_key (ec_pcs s i) = Some k \<longrightarrow> unat k \<le> ec_total s) \<and>
     (\<forall>i n. ec_pcs s i = Waking n \<longrightarrow> 0 < n) \<and>
     (\<forall>i < N. \<forall>k. ec_pcs s i = Sleeping k \<longrightarrow>
        ec_total s \<le> unat k + ec_woken s i + card (wakers N (ec_pcs s)))"

lemma finite_thread_sets [simp]:
  "finite (sleepers N pcs)" "finite (wakers N pcs)" "finite (registered N pcs)"
  by (simp_all add: sleepers_def wakers_def registered_def)

lemma card_registered_le: "card (registered N pcs) \<le> N"
  using card_mono [of "{..<N}" "registered N pcs"] by (auto simp: registered_def)

text \<open>How moving one thread changes the counts.\<close>

lemma registered_upd:
  "registered N (pcs(i := pc)) =
     (if i < N \<and> is_registered pc then insert i (registered N pcs) else registered N pcs - {i})"
  by (auto simp: registered_def)

lemma wakers_upd:
  "wakers N (pcs(i := pc)) =
     (if i < N \<and> is_waking pc then insert i (wakers N pcs) else wakers N pcs - {i})"
  by (auto simp: wakers_def)

lemma not_registered_notin: "\<not> is_registered (pcs i) \<Longrightarrow> i \<notin> registered N pcs"
  by (simp add: registered_def)

lemma registered_in: "is_registered (pcs i) \<Longrightarrow> i < N \<Longrightarrow> i \<in> registered N pcs"
  by (simp add: registered_def)

lemma registered_not_waking: "is_registered (pcs i) \<Longrightarrow> i \<notin> wakers N pcs"
  by (cases "pcs i") (auto simp: wakers_def is_waking_def)

lemma ec_inv_init: "ec_inv N ec_init"
  by (simp add: ec_inv_def ec_init_def initEventCount_def ec_word_def registered_def)

text \<open>A thread moves between two places that both count as registered.\<close>

lemma ec_inv_move:
  assumes "ec_inv N s" "i < N" "is_registered (ec_pcs s i)" "is_registered pc" "\<not> is_waking pc"
    and "\<And>k. ec_key pc = Some k \<Longrightarrow> unat k \<le> ec_total s"
    and "\<And>k. pc = Sleeping k \<Longrightarrow> unat k = ec_total s"
    and "w = ec_woken s \<or> w = (ec_woken s)(i := 0)"
  shows "ec_inv N (s\<lparr>ec_pcs := (ec_pcs s)(i := pc), ec_woken := w\<rparr>)"
proof -
  have "registered N ((ec_pcs s)(i := pc)) = registered N (ec_pcs s)"
    using assms(2-4) by (auto simp: registered_upd registered_in)
  moreover have "wakers N ((ec_pcs s)(i := pc)) = wakers N (ec_pcs s)"
    using assms(3,5) registered_not_waking [of "ec_pcs s" i N] by (simp add: wakers_upd)
  ultimately show ?thesis
    using assms(1,5-8) by (auto simp: ec_inv_def is_waking_def)
qed

text \<open>A registered thread leaves: the decrement undoes its increment.\<close>

lemma ec_inv_leave:
  assumes "ec_inv N s" "i < N" "is_registered (ec_pcs s i)"
    and "\<And>e w. f (ec_word e (Suc w)) = ec_word e w"
  shows "ec_inv N (s\<lparr>ec_val := f (ec_val s), ec_pcs := (ec_pcs s)(i := Idle)\<rparr>)"
proof -
  have "card (registered N (ec_pcs s)) = Suc (card (registered N (ec_pcs s) - {i}))"
    by (rule card.remove) (use assms(2,3) in \<open>auto simp: registered_in\<close>)
  then have "f (ec_val s) = ec_word (ec_total s) (card (registered N (ec_pcs s) - {i}))"
    using assms(1,4) by (simp add: ec_inv_def)
  moreover have "wakers N ((ec_pcs s)(i := Idle)) = wakers N (ec_pcs s)"
    using assms(3) registered_not_waking [of "ec_pcs s" i N] by (simp add: wakers_upd is_waking_def)
  ultimately show ?thesis
    using assms(1) by (auto simp: ec_inv_def registered_upd)
qed

lemma ec_inv_notify:
  assumes inv: "ec_inv N s" and N: "N < 2 ^ 32" and tot: "ec_total s < 2 ^ 32" and i: "i < N"
    and idle: "ec_pcs s i = Idle" and n: "0 < n" and call: "doNotify (ec_val s) n = (v, call)"
  shows "ec_inv N (s\<lparr>ec_val := v, ec_total := Suc (ec_total s),
    ec_pcs := (ec_pcs s)(i := (case call of None \<Rightarrow> Idle | Some n \<Rightarrow> Waking n))\<rparr>)"
proof -
  let ?reg = "registered N (ec_pcs s)"
  let ?pc = "case call of None \<Rightarrow> Idle | Some n \<Rightarrow> Waking n"
  have "card ?reg < 2 ^ 32" using card_registered_le [of N "ec_pcs s"] N by linarith
  then have v: "v = ec_word (Suc (ec_total s)) (card ?reg)"
    and c: "call = (if 0 < card ?reg then Some n else None)"
    using inv call tot by (auto simp: ec_inv_def doNotify_word)
  have reg: "registered N ((ec_pcs s)(i := ?pc)) = ?reg"
    using idle not_registered_notin [of "ec_pcs s" i N] by (auto simp: registered_upd c)
  have "i \<notin> wakers N (ec_pcs s)" using idle by (simp add: wakers_def is_waking_def)
  then have wk: "card (wakers N ((ec_pcs s)(i := ?pc))) = Suc (card (wakers N (ec_pcs s)))"
    if "0 < card ?reg"
    using that i by (simp add: c wakers_upd is_waking_def)
  have sl: "0 < card ?reg" if "j < N" "ec_pcs s j = Sleeping k" for j k
    using that registered_in [of "ec_pcs s" j N] by (auto simp: card_gt_0_iff)
  have key: "ec_key (((ec_pcs s)(i := ?pc)) j) = Some k \<Longrightarrow> unat k \<le> Suc (ec_total s)" for j k
    using inv by (auto simp: ec_inv_def c le_SucI split: if_splits)
  have wakes: "((ec_pcs s)(i := ?pc)) j = Waking m \<Longrightarrow> 0 < m" for j m
    using inv n by (auto simp: ec_inv_def c split: if_splits)
  have sleep: "Suc (ec_total s) \<le> unat k + ec_woken s j + card (wakers N ((ec_pcs s)(i := ?pc)))"
    if "j < N" "((ec_pcs s)(i := ?pc)) j = Sleeping k" for j k
  proof -
    have "j \<noteq> i" using that(2) by (auto split: option.splits)
    then have "ec_pcs s j = Sleeping k" using that(2) by simp
    then show ?thesis using that(1) inv wk sl [of j k] by (auto simp: ec_inv_def)
  qed
  show ?thesis
    using key wakes sleep by (auto simp: ec_inv_def v reg)
qed

lemma ec_inv_prepare:
  assumes inv: "ec_inv N s" and N: "N < 2 ^ 32" and tot: "ec_total s < 2 ^ 32" and i: "i < N"
    and idle: "ec_pcs s i = Idle" and call: "prepareWait (ec_val s) = (k, v)"
  shows "ec_inv N (s\<lparr>ec_val := v, ec_pcs := (ec_pcs s)(i := Prepared k)\<rparr>)"
proof -
  let ?reg = "registered N (ec_pcs s)"
  have "card ?reg < 2 ^ 32" using card_registered_le [of N "ec_pcs s"] N by linarith
  then have v: "v = ec_word (ec_total s) (Suc (card ?reg))" and k: "unat k = ec_total s"
    using inv call tot by (auto simp: ec_inv_def prepareWait_word unat_of_nat_32)
  have "i \<notin> ?reg" "i \<notin> wakers N (ec_pcs s)"
    using idle by (simp_all add: registered_def wakers_def is_waking_def)
  then have "card (registered N ((ec_pcs s)(i := Prepared k))) = Suc (card ?reg)"
    "wakers N ((ec_pcs s)(i := Prepared k)) = wakers N (ec_pcs s)"
    using i by (simp_all add: registered_upd wakers_upd is_waking_def)
  then show ?thesis using inv k by (auto simp: ec_inv_def v)
qed

text \<open>A wake call: the caller stops pending; if a sleeper remains asleep, another was woken.\<close>

lemma ec_inv_wake:
  assumes inv: "ec_inv N s" and kw: "futex_wakes kwake" and i: "i < N"
    and at: "ec_pcs s i = Waking n" and W: "kwake n (sleepers N (ec_pcs s)) W"
  shows "ec_inv N (s\<lparr>ec_pcs := (\<lambda>j. if j = i then Idle else if j \<in> W then wake_up (ec_pcs s j)
      else ec_pcs s j), ec_woken := (\<lambda>j. ec_woken s j + card W)\<rparr>)" (is "ec_inv N ?s'")
proof -
  let ?pcs = "\<lambda>j. if j = i then Idle else if j \<in> W then wake_up (ec_pcs s j) else ec_pcs s j"
  have sub: "W \<subseteq> sleepers N (ec_pcs s)" and cW: "card W = min n (card (sleepers N (ec_pcs s)))"
    using kw W by (auto simp: futex_wakes_def)
  have "0 < n" using inv at by (auto simp: ec_inv_def)
  have pcs: "?pcs j = (if j = i then Idle else if j \<in> W then wake_up (ec_pcs s j) else ec_pcs s j)" for j
    by simp
  have reg: "registered N ?pcs = registered N (ec_pcs s)"
    using sub at by (auto simp: registered_def sleepers_def is_sleeping_def wake_up_def split: if_splits)
  have "wakers N ?pcs = wakers N (ec_pcs s) - {i}"
    using sub by (auto simp: wakers_def sleepers_def is_sleeping_def is_waking_def wake_up_def split: if_splits)
  moreover have "i \<in> wakers N (ec_pcs s)" using i at by (simp add: wakers_def is_waking_def)
  ultimately have wk: "card (wakers N (ec_pcs s)) = Suc (card (wakers N ?pcs))"
    using card.remove [of "wakers N (ec_pcs s)" i] by simp
  have key: "unat k \<le> ec_total s" if "ec_key (?pcs j) = Some k" for j k
  proof -
    have "ec_key (ec_pcs s j) = Some k"
      using that by (cases "ec_pcs s j") (auto simp: wake_up_def split: if_splits)
    then show ?thesis using inv by (auto simp: ec_inv_def)
  qed
  have wakes: "0 < m" if "?pcs j = Waking m" for j m
  proof -
    have "ec_pcs s j = Waking m"
      using that by (cases "ec_pcs s j") (auto simp: wake_up_def split: if_splits)
    then show ?thesis using inv by (auto simp: ec_inv_def)
  qed
  have sleep: "ec_total s \<le> unat k + (ec_woken s j + card W) + card (wakers N ?pcs)"
    if "j < N" "?pcs j = Sleeping k" for j k
  proof -
    have old: "ec_pcs s j = Sleeping k"
      using that(2) by (cases "ec_pcs s j") (auto simp: wake_up_def split: if_splits)
    then have "j \<in> sleepers N (ec_pcs s)" using that(1) by (simp add: sleepers_def is_sleeping_def)
    then have "0 < card (sleepers N (ec_pcs s))" by (auto simp: card_gt_0_iff)
    then have "1 \<le> card W" using cW \<open>0 < n\<close> by linarith
    moreover have "ec_total s \<le> unat k + ec_woken s j + card (wakers N (ec_pcs s))"
      using inv old that(1) by (simp add: ec_inv_def)
    ultimately show ?thesis using wk by linarith
  qed
  have "ec_val s = ec_word (ec_total s) (card (registered N ?pcs))"
    using inv reg by (simp add: ec_inv_def)
  then show ?thesis
    unfolding ec_inv_def using key wakes sleep by simp
qed

text \<open>Every step keeps the invariant while the notifications fit the 32 bits of the epoch.\<close>

lemma ec_step_total: "ec_step kwake N s t \<Longrightarrow> ec_total s \<le> ec_total t"
  by (induction rule: ec_step.induct) auto

lemma ec_step_inv:
  assumes "ec_step kwake N s t" "ec_inv N s" "futex_wakes kwake" "N < 2 ^ 32" "ec_total t < 2 ^ 32"
  shows "ec_inv N t"
proof -
  have tot: "ec_total s < 2 ^ 32" using ec_step_total [OF assms(1)] assms(5) by linarith
  have key: "unat k \<le> ec_total s" if "ec_key (ec_pcs s i) = Some k" for i k
    using that assms(2) by (auto simp: ec_inv_def)
  have ep: "unat k = ec_total s" if "epoch_is (ec_val s) k" for k
  proof -
    have "card (registered N (ec_pcs s)) < 2 ^ 32"
      using card_registered_le [of N "ec_pcs s"] assms(4) by linarith
    then show ?thesis using that assms(2) tot by (simp add: ec_inv_def epoch_is_word)
  qed
  have move: "ec_inv N (s\<lparr>ec_pcs := (ec_pcs s)(i := pc)\<rparr>)"
    if "i < N" "is_registered (ec_pcs s i)" "is_registered pc" "\<not> is_sleeping pc"
      "ec_key pc = ec_key (ec_pcs s i) \<or> ec_key pc = None" for i pc
    using ec_inv_move [OF assms(2) that(1,2,3), of "ec_woken s"] that(3-5) key [of i]
    by (cases pc) (auto simp: is_waking_def is_sleeping_def)
  from assms(1) show ?thesis
  proof (cases rule: ec_step.cases)
    case (step_notify i n v call)
    then show ?thesis
      using assms(2,4) tot ec_inv_notify [of N s i n v call] by (auto simp: INT_MAX_def)
  next
    case (step_sleep i k)
    then show ?thesis
      using ec_inv_move [OF assms(2), of i "Sleeping k" "(ec_woken s)(i := 0)"] key [of i] ep
      by (auto simp: is_waking_def)
  qed (use assms(2,3,4) tot move in \<open>auto intro: ec_inv_wake ec_inv_prepare ec_inv_leave
        simp: cancelWait_word await_done_word is_sleeping_def\<close>)
qed

lemma ec_reachable_inv:
  "ec_reachable kwake N s \<Longrightarrow> futex_wakes kwake \<Longrightarrow> N < 2 ^ 32 \<Longrightarrow> ec_total s < 2 ^ 32 \<Longrightarrow>
     ec_inv N s"
proof (induction rule: ec_reachable.induct)
  case ec_start
  show ?case by (rule ec_inv_init)
next
  case (ec_more s t)
  then have "ec_total s < 2 ^ 32" using ec_step_total [OF ec_more.hyps(2)] by linarith
  then show ?case using ec_more ec_step_inv by blast
qed

section \<open>Properties\<close>

text \<open>A run for the witnesses: thread 0 registers and sleeps, then thread 1 notifies.\<close>

definition some_wakes :: "nat \<Rightarrow> nat set \<Rightarrow> nat set \<Rightarrow> bool" where
  "some_wakes n S W \<longleftrightarrow> W \<subseteq> S \<and> card W = min n (card S)"

lemma some_wakes_futex: "futex_wakes some_wakes"
  by (simp add: futex_wakes_def some_wakes_def)

definition sleeping_state :: ec_state where
  "sleeping_state = \<lparr>ec_val = 1, ec_pcs = (\<lambda>_. Idle)(0 := Sleeping 0), ec_total = 0, ec_woken = (\<lambda>_. 0)\<rparr>"

definition notified_state :: ec_state where
  "notified_state = sleeping_state\<lparr>ec_val := 4294967297, ec_total := 1,
     ec_pcs := (ec_pcs sleeping_state)(1 := Waking 1)\<rparr>"

lemma prepareWait_0: "prepareWait 0 = (0, 1)"
  by (simp add: prepareWait_def FAA64_def kAddWaiter_def)

lemma epoch_is_1: "epoch_is 1 0"
  by (simp add: epoch_is_def kEpochShift_def)

lemma sleeping_reachable: "ec_reachable some_wakes 2 sleeping_state"
proof -
  let ?at = "\<lambda>pc. \<lparr>ec_val = 1, ec_pcs = (\<lambda>_. Idle)(0 := pc), ec_total = 0, ec_woken = (\<lambda>_. 0)\<rparr>"
  have "ec_reachable some_wakes 2 (?at (Prepared 0))"
    using ec_more [OF ec_start step_prepare [of 0 2 ec_init 0 1 some_wakes]]
    by (simp add: ec_init_def initEventCount_def prepareWait_0)
  from ec_more [OF this step_await [of 0 2 _ 0]] have "ec_reachable some_wakes 2 (?at (Testing 0))"
    by simp
  from ec_more [OF this step_test [of 0 2 _ 0]] have "ec_reachable some_wakes 2 (?at (Entering 0))"
    by (simp add: epoch_is_1)
  from ec_more [OF this step_sleep [of 0 2 _ 0]] show ?thesis
    by (simp add: epoch_is_1 sleeping_state_def fun_upd_idem)
qed

lemma notified_reachable: "ec_reachable some_wakes 2 notified_state"
proof -
  have "doNotify 1 1 = (4294967297, Some 1)"
    by (simp add: doNotify_def FAA64_def kAddEpoch_def kWaiterMask_def kEpochShift_def)
  then show ?thesis
    using ec_more [OF sleeping_reachable step_notify [of 1 2 sleeping_state 1]]
    by (simp add: notified_state_def sleeping_state_def)
qed

text \<open>
  (C7) No wake-up is lost. In every reachable state of the event count, for every number of threads
  and every interleaving, the notifications issued since a sleeping thread took its key are
  accounted for: each of them has woken another thread since this one went to sleep, or its
  notifier is still on the way to its wake call. A thread that sleeps while no notifier is
  pending and nobody else was woken has the current epoch as its key.
\<close>

theorem no_lost_wakeup:
  assumes "ec_reachable kwake N s" "futex_wakes kwake" "N < 2 ^ 32" "ec_total s < 2 ^ 32"
    and "i < N" "ec_pcs s i = Sleeping k"
  shows "unat k \<le> ec_total s \<and> ec_total s \<le> unat k + ec_woken s i + card (wakers N (ec_pcs s)) \<and>
         (ec_woken s i = 0 \<and> wakers N (ec_pcs s) = {} \<longrightarrow> epoch_is (ec_val s) k)"
proof -
  have inv: "ec_inv N s" using assms(1-4) by (rule ec_reachable_inv)
  have key: "ec_key (ec_pcs s i) = Some k" using assms(6) by simp
  have le: "unat k \<le> ec_total s"
    "ec_total s \<le> unat k + ec_woken s i + card (wakers N (ec_pcs s))"
    using inv assms(5,6) key unfolding ec_inv_def by blast+
  have "card (registered N (ec_pcs s)) < 2 ^ 32"
    using card_registered_le [of N "ec_pcs s"] assms(3) by linarith
  then have "epoch_is (ec_val s) k \<longleftrightarrow> unat k = ec_total s"
    using inv assms(4) by (simp add: ec_inv_def epoch_is_word)
  then show ?thesis using le by auto
qed

theorem no_lost_wakeup_witness:
  "ec_total notified_state \<le> unat (0 :: Key) + ec_woken notified_state 0 +
     card (wakers 2 (ec_pcs notified_state))"
  using no_lost_wakeup [OF notified_reachable some_wakes_futex, of 0 0]
  by (simp add: notified_state_def sleeping_state_def)

text \<open>
  The low half of the word is the number of threads between \<open>prepareWait\<close> and the matching
  \<open>cancelWait\<close> or end of \<open>await\<close>, and the high half the number of notifications. So a notification
  skips its wake call exactly when no thread is registered, and the waiter count is back at 0
  when every thread is done.
\<close>

theorem waiters_counted:
  assumes "ec_reachable kwake N s" "futex_wakes kwake" "N < 2 ^ 32" "ec_total s < 2 ^ 32"
  shows "unat (ec_val s AND kWaiterMask) = card (registered N (ec_pcs s)) \<and>
         drop_bit kEpochShift (ec_val s) = of_nat (ec_total s) \<and>
         (snd (doNotify (ec_val s) n) = None \<longleftrightarrow> registered N (ec_pcs s) = {})"
proof -
  have inv: "ec_inv N s" using assms by (rule ec_reachable_inv)
  have "card (registered N (ec_pcs s)) < 2 ^ 32"
    using card_registered_le [of N "ec_pcs s"] assms(3) by linarith
  then show ?thesis
    using inv assms(4)
    by (auto simp: ec_inv_def mask_ec_word drop_ec_word kEpochShift_def doNotify_word card_gt_0_iff)
qed

theorem waiters_counted_witness:
  "unat (ec_val sleeping_state AND kWaiterMask) = card (registered 2 (ec_pcs sleeping_state))"
  using waiters_counted [OF sleeping_reachable some_wakes_futex] by (simp add: sleeping_state_def)

text \<open>
  The epoch has 32 bits: after \<open>2^32\<close> notifications the word is what it was, so a thread that
  took its key before them cannot tell that they happened. The bound on the number of
  notifications in the two properties above is needed.
\<close>

theorem epoch_wraps: "((\<lambda>ec. fst (doNotify ec n)) ^^ (2 ^ 32)) ec = ec"
proof -
  have "((\<lambda>ec. fst (doNotify ec n)) ^^ k) ec = ec + of_nat k * kAddEpoch" for k
    by (induction k) (simp_all add: doNotify_def FAA64_def algebra_simps)
  then have "((\<lambda>ec. fst (doNotify ec n)) ^^ (2 ^ 32)) ec = ec + of_nat (2 ^ 32) * kAddEpoch" .
  also have "of_nat (2 ^ 32) * kAddEpoch = 0"
    by (simp add: kAddEpoch_def kEpochShift_def push_bit_of_1)
  finally show ?thesis by simp
qed

end
