(* ===== verification/Fifo.thy ===== *)
theory Fifo
  imports Prelude
begin

text \<open>
  The interface a queue offers to its users, as a locale: a bounded number of operations (the
  ticket counters and the memory are finite), each of which returns and acts on the list of
  values as a first-in first-out queue does. The reference behaviour is \<open>spec_ops\<close> on lists;
  \<open>run_ops\<close> runs the same operations on an implementation given by its two operations.
\<close>

datatype 'a qop = Put 'a | Get

fun spec_ops :: "'a qop list \<Rightarrow> 'a list \<Rightarrow> 'a option list \<times> 'a list" where
  "spec_ops [] xs = ([], xs)"
| "spec_ops (Put a # ops) xs = spec_ops ops (xs @ [a])"
| "spec_ops (Get # ops) [] = (let (out, ys) = spec_ops ops [] in (None # out, ys))"
| "spec_ops (Get # ops) (x # xs) = (let (out, ys) = spec_ops ops xs in (Some x # out, ys))"

fun run_ops ::
  "('a \<Rightarrow> 's \<Rightarrow> 's option) \<Rightarrow> ('s \<Rightarrow> ('a option \<times> 's) option) \<Rightarrow> 'a qop list \<Rightarrow> 's \<Rightarrow>
     ('a option list \<times> 's) option" where
  "run_ops put get [] s = Some ([], s)"
| "run_ops put get (Put a # ops) s =
     (case put a s of None \<Rightarrow> None | Some s' \<Rightarrow> run_ops put get ops s')"
| "run_ops put get (Get # ops) s =
     (case get s of None \<Rightarrow> None
      | Some (r, s') \<Rightarrow> (case run_ops put get ops s' of None \<Rightarrow> None
          | Some (out, t) \<Rightarrow> Some (r # out, t)))"

fun items_ok :: "('a \<Rightarrow> bool) \<Rightarrow> 'a qop list \<Rightarrow> bool" where
  "items_ok item [] = True"
| "items_ok item (Put a # ops) = (item a \<and> items_ok item ops)"
| "items_ok item (Get # ops) = items_ok item ops"

text \<open>What is put in comes out in the same order.\<close>

lemma spec_puts: "spec_ops (map Put ys @ ops) xs = spec_ops ops (xs @ ys)"
  by (induction ys arbitrary: xs) auto

lemma spec_gets: "spec_ops (replicate (length ys) Get) ys = (map Some ys, [])"
  by (induction ys) auto

locale bounded_fifo =
  fixes inv :: "nat \<Rightarrow> 's \<Rightarrow> bool"
    and contents :: "'s \<Rightarrow> 'a list"
    and put :: "'a \<Rightarrow> 's \<Rightarrow> 's option"
    and get :: "'s \<Rightarrow> ('a option \<times> 's) option"
    and item :: "'a \<Rightarrow> bool"
    and cost :: nat
  assumes put_ok: "inv (b + cost) s \<Longrightarrow> item a \<Longrightarrow>
      \<exists>s'. put a s = Some s' \<and> inv b s' \<and> contents s' = contents s @ [a]"
    and get_empty: "inv (b + cost) s \<Longrightarrow> contents s = [] \<Longrightarrow>
      \<exists>s'. get s = Some (None, s') \<and> inv b s' \<and> contents s' = []"
    and get_hd: "inv (b + cost) s \<Longrightarrow> contents s = x # xs \<Longrightarrow>
      \<exists>s'. get s = Some (Some x, s') \<and> inv b s' \<and> contents s' = xs"
begin

lemma run_refines:
  "inv (b + length ops * cost) s \<Longrightarrow> items_ok item ops \<Longrightarrow>
     \<exists>t. run_ops put get ops s = Some (fst (spec_ops ops (contents s)), t) \<and>
         contents t = snd (spec_ops ops (contents s)) \<and> inv b t"
proof (induction ops arbitrary: s)
  case (Cons p ops)
  have inv: "inv ((b + length ops * cost) + cost) s"
    using Cons.prems(1) by (simp add: add.commute add.left_commute)
  show ?case
  proof (cases p)
    case (Put a)
    with Cons.prems(2) put_ok [OF inv, of a] obtain s' where s': "put a s = Some s'"
      "inv (b + length ops * cost) s'" "contents s' = contents s @ [a]" by auto
    with Cons.IH [of s'] Cons.prems(2) Put show ?thesis by auto
  next
    case Get
    show ?thesis
    proof (cases "contents s")
      case Nil
      then obtain s' where s': "get s = Some (None, s')" "inv (b + length ops * cost) s'"
        "contents s' = []" using get_empty [OF inv] by auto
      with Cons.IH [of s'] Cons.prems(2) Get Nil show ?thesis
        by (auto split: prod.splits)
    next
      case (Cons x xs)
      then obtain s' where s': "get s = Some (Some x, s')" "inv (b + length ops * cost) s'"
        "contents s' = xs" using get_hd [OF inv] by auto
      with Cons.IH [of s'] Cons.prems(2) Get Cons show ?thesis
        by (auto split: prod.splits)
    qed
  qed
qed simp

lemma put_all_get_all:
  assumes "inv (b + (length ys + length ys) * cost) s" "contents s = []" "\<forall>y \<in> set ys. item y"
  shows "\<exists>t. run_ops put get (map Put ys @ replicate (length ys) Get) s = Some (map Some ys, t) \<and>
           contents t = []"
proof -
  have "items_ok item (map Put ys @ replicate n Get)" for n
    using assms(3) by (induction ys) (auto, induction n, auto)
  then show ?thesis
    using run_refines [of b "map Put ys @ replicate (length ys) Get" s] assms(1,2)
    by (auto simp: spec_puts spec_gets)
qed

end

end
