(* ===== verification/Elcrq.thy ===== *)
theory Elcrq
  imports Lcrq EventCount Fifo
begin

text \<open>
  The public queue of \<open>src/c/ELCRQ.h\<close>: \<open>init_queue\<close>, \<open>enqueue\<close>, \<open>dequeue\<close>, \<open>spinEnqueue\<close> and
  \<open>spinDequeue\<close>, run by one thread. \<open>enqueue\<close> adds the notification of the event count to \<open>enq\<close>;
  \<open>dequeue\<close> blocks on the event count when the queue is empty. What other threads and the kernel
  do while \<open>dequeue\<close> is inside the futex system call is its argument \<open>fwait\<close>, a function from the
  state at the call to the state at its return.
\<close>

section \<open>State and operations\<close>

record ELCRQ =
  q_head :: ring_ptr
  q_tail :: ring_ptr
  q_ec :: u64

definition MAX_PATIENCE :: nat where
  "MAX_PATIENCE = 1000"

definition init_queue :: "nat \<Rightarrow> mem \<Rightarrow> fault + (ELCRQ \<times> mem)" where
  "init_queue rp m =
     (case getMemory m of None \<Rightarrow> Inl Segv
      | Some (rq, m1) \<Rightarrow>
          let m2 = set_ring rq (init_ring rp (ring_at m1 rq)) m1
          in Inr (\<lparr>q_head = rq, q_tail = rq, q_ec = initEventCount\<rparr>, m2))"

text \<open>The thread-local \<open>nrq\<close> is passed through; the last component is the wake call made, if any.\<close>

definition enqueue ::
  "nat \<Rightarrow> u64 \<Rightarrow> ring_ptr option \<Rightarrow> ELCRQ \<times> mem \<Rightarrow>
     (fault + (ring_ptr option \<times> (ELCRQ \<times> mem) \<times> nat option)) option" where
  "enqueue rp arg nrq = (\<lambda>(q, m).
     (case enq rp arg (q_tail q) 0 nrq m of
        None \<Rightarrow> None
      | Some (Inl f) \<Rightarrow> Some (Inl f)
      | Some (Inr (nrq', m')) \<Rightarrow>
          let (ec, call) = notify (q_ec q) in Some (Inr (nrq', (q\<lparr>q_ec := ec\<rparr>, m'), call))))"

definition spinEnqueue ::
  "nat \<Rightarrow> u64 \<Rightarrow> ring_ptr option \<Rightarrow> ELCRQ \<times> mem \<Rightarrow>
     (fault + (ring_ptr option \<times> ELCRQ \<times> mem)) option" where
  "spinEnqueue rp arg nrq = (\<lambda>(q, m).
     (case enq rp arg (q_tail q) 0 nrq m of
        None \<Rightarrow> None
      | Some (Inl f) \<Rightarrow> Some (Inl f)
      | Some (Inr (nrq', m')) \<Rightarrow> Some (Inr (nrq', q, m'))))"

text \<open>\<open>await\<close>: sleep while the epoch is the key's, then deregister.\<close>

partial_function (option) await ::
  "(ELCRQ \<times> mem \<Rightarrow> ELCRQ \<times> mem) \<Rightarrow> Key \<Rightarrow> ELCRQ \<times> mem \<Rightarrow> (ELCRQ \<times> mem) option" where
  "await fwait key s =
     (if epoch_is (q_ec (fst s)) key then await fwait key (fwait s)
      else Some ((fst s)\<lparr>q_ec := await_done (q_ec (fst s))\<rparr>, snd s))"

partial_function (option) dequeue_wait ::
  "nat \<Rightarrow> nat \<Rightarrow> (ELCRQ \<times> mem \<Rightarrow> ELCRQ \<times> mem) \<Rightarrow> ELCRQ \<times> mem \<Rightarrow> (u64 \<times> ELCRQ \<times> mem) option" where
  "dequeue_wait rp fuel fwait s =
     (let (key, ec) = prepareWait (q_ec (fst s)); q = (fst s)\<lparr>q_ec := ec\<rparr>
      in case deq rp fuel (q_head q) (snd s) of
           None \<Rightarrow> None
         | Some (element, m) \<Rightarrow>
             if element = EMPTY then
               (case await fwait key (q, m) of None \<Rightarrow> None
                | Some s' \<Rightarrow> dequeue_wait rp fuel fwait s')
             else Some (element, q\<lparr>q_ec := cancelWait (q_ec q)\<rparr>, m))"

definition dequeue ::
  "nat \<Rightarrow> nat \<Rightarrow> (ELCRQ \<times> mem \<Rightarrow> ELCRQ \<times> mem) \<Rightarrow> ELCRQ \<times> mem \<Rightarrow> (u64 \<times> ELCRQ \<times> mem) option" where
  "dequeue rp fuel fwait s =
     (case deq rp fuel (q_head (fst s)) (snd s) of
        None \<Rightarrow> None
      | Some (element, m) \<Rightarrow>
          if element = EMPTY then dequeue_wait rp fuel fwait (fst s, m)
          else Some (element, fst s, m))"

text \<open>\<open>spinDequeue\<close>: the loop with its counter \<open>patience\<close>, incremented only after an EMPTY.\<close>

function spin_loop :: "nat \<Rightarrow> nat \<Rightarrow> ring_ptr \<Rightarrow> nat \<Rightarrow> mem \<Rightarrow> (u64 \<times> mem) option" where
  "spin_loop rp fuel head patience m =
     (case deq rp fuel head m of
        None \<Rightarrow> None
      | Some (element, m') \<Rightarrow>
          if element = EMPTY \<and> patience < MAX_PATIENCE then spin_loop rp fuel head (patience + 1) m'
          else Some (element, m'))"
  by pat_completeness auto
termination
  by (relation "measure (\<lambda>(rp, fuel, head, patience, m). MAX_PATIENCE - patience)") auto

declare spin_loop.simps [simp del]

definition spinDequeue :: "nat \<Rightarrow> nat \<Rightarrow> ELCRQ \<times> mem \<Rightarrow> (u64 \<times> ELCRQ \<times> mem) option" where
  "spinDequeue rp fuel = (\<lambda>(q, m).
     (case spin_loop rp fuel (q_head q) 0 m of
        None \<Rightarrow> None
      | Some (element, m') \<Rightarrow> Some (element, q, m')))"

section \<open>The queue between two operations\<close>

text \<open>
  \<open>elcrq_wf rp b\<close>: both pointers are at the first ring (no operation ever moves them), the chain
  is well formed, there are tickets left for \<open>b\<close> rounds of \<open>deq\<close> or \<open>enq\<close>, and a block of memory for
  each \<open>MAX_PATIENCE + 1\<close> of them (as many rounds as one \<open>spinDequeue\<close> can take). \<open>elcrq_ok\<close> adds that
  the queue has been used.
\<close>

definition elcrq_wf :: "nat \<Rightarrow> nat \<Rightarrow> ELCRQ \<times> mem \<Rightarrow> bool" where
  "elcrq_wf rp b s \<longleftrightarrow>
     q_head (fst s) = 0 \<and> q_tail (fst s) = 0 \<and> rp < 64 \<and> chain_ok rp (snd s) \<and>
     b < 2 ^ 62 \<and> mem_below (2 ^ 62 - 1 - b) (snd s) \<and>
     b \<le> Suc MAX_PATIENCE * length (pool (snd s))"

definition elcrq_ok :: "nat \<Rightarrow> nat \<Rightarrow> ELCRQ \<times> mem \<Rightarrow> bool" where
  "elcrq_ok rp b s \<longleftrightarrow> elcrq_wf rp b s \<and> used (snd s)"

definition elcrq_contents :: "nat \<Rightarrow> ELCRQ \<times> mem \<Rightarrow> u64 list" where
  "elcrq_contents rp s = queue_contents rp (snd s)"

text \<open>The operations in the shape of the queue interface; \<open>deq\<close> gets one iteration per ring.\<close>

definition elcrq_put :: "nat \<Rightarrow> u64 \<Rightarrow> ELCRQ \<times> mem \<Rightarrow> (ELCRQ \<times> mem) option" where
  "elcrq_put rp a s = (case enqueue rp a None s of Some (Inr (_, s', _)) \<Rightarrow> Some s' | _ \<Rightarrow> None)"

definition elcrq_spin_put :: "nat \<Rightarrow> u64 \<Rightarrow> ELCRQ \<times> mem \<Rightarrow> (ELCRQ \<times> mem) option" where
  "elcrq_spin_put rp a s = (case spinEnqueue rp a None s of Some (Inr (_, s')) \<Rightarrow> Some s' | _ \<Rightarrow> None)"

definition elcrq_get :: "nat \<Rightarrow> ELCRQ \<times> mem \<Rightarrow> (u64 option \<times> ELCRQ \<times> mem) option" where
  "elcrq_get rp s =
     (case spinDequeue rp (length (rings (snd s))) s of
        None \<Rightarrow> None
      | Some (e, s') \<Rightarrow> Some (if e = EMPTY then None else Some e, s'))"

section \<open>The operations refine the first-in first-out queue\<close>

lemma below_mono: "mem_below B m \<Longrightarrow> B \<le> B' \<Longrightarrow> mem_below B' m"
  by (auto simp: mem_below_def intro: ring_below_mono)

lemma elcrq_wf_mono: "elcrq_wf rp b s \<Longrightarrow> b' \<le> b \<Longrightarrow> elcrq_wf rp b' s"
  by (auto simp: elcrq_wf_def intro: below_mono)

lemma elcrq_ok_mono: "elcrq_ok rp b s \<Longrightarrow> b' \<le> b \<Longrightarrow> elcrq_ok rp b' s"
  by (auto simp: elcrq_ok_def intro: elcrq_wf_mono)

lemma elcrq_ok_ec [simp]: "elcrq_ok rp b (q\<lparr>q_ec := x\<rparr>, m) = elcrq_ok rp b (q, m)"
  by (simp add: elcrq_ok_def elcrq_wf_def)

lemma enq_elcrq:
  assumes wf: "elcrq_wf rp (b + Suc MAX_PATIENCE) (q, m)" and "a \<noteq> EMPTY"
  shows "\<exists>m'. enq rp a (q_tail q) 0 None m = Some (Inr (None, m')) \<and> elcrq_ok rp b (q, m') \<and>
           queue_contents rp m' = queue_contents rp m @ [a] \<and> length (rings m') \<le> Suc (length (rings m))"
proof -
  let ?B = "2 ^ 62 - 1 - (b + Suc MAX_PATIENCE)"
  have mem: "b + Suc MAX_PATIENCE \<le> Suc MAX_PATIENCE * length (pool m)"
    using wf by (simp add: elcrq_wf_def)
  have pre: "chain_ok rp m" "mem_below ?B m" "?B < 2 ^ 62" "rp < 64" "pool m \<noteq> []"
    "0 < length (rings m)" "q_tail q = 0"
    using wf by (auto simp: elcrq_wf_def chain_ok_def)
  from enq_chain [OF pre(1-4) assms(2) pre(5,6)] obtain m' where
    m': "enq rp a 0 0 None m = Some (Inr (None, m'))" "enq_post rp ?B a m m'" by blast
  have "mem_below (2 ^ 62 - 1 - b) m'"
    using m'(2) wf by (auto simp: enq_post_def elcrq_wf_def elim!: below_mono)
  moreover have "b \<le> Suc MAX_PATIENCE * length (pool m')"
  proof -
    have "length (pool m) - 1 \<le> length (pool m')" using m'(2) by (auto simp: enq_post_def)
    then have "Suc MAX_PATIENCE * (length (pool m) - 1) \<le> Suc MAX_PATIENCE * length (pool m')"
      by (rule mult_le_mono2)
    then show ?thesis using mem by (simp add: diff_mult_distrib2)
  qed
  ultimately have "elcrq_ok rp b (q, m')"
    using m'(2) wf by (auto simp: enq_post_def elcrq_wf_def elcrq_ok_def)
  then show ?thesis using m' pre(7) by (auto simp: enq_post_def)
qed

lemma deq_elcrq:
  assumes "elcrq_ok rp (Suc b) (q, m)" "length (rings m) \<le> fuel"
  shows "\<exists>v m'. deq rp fuel 0 m = Some (v, m') \<and> elcrq_ok rp b (q, m') \<and>
           length (rings m') = length (rings m) \<and>
           (case queue_contents rp m of [] \<Rightarrow> v = EMPTY \<and> queue_contents rp m' = []
            | x # xs \<Rightarrow> v = x \<and> v \<noteq> EMPTY \<and> queue_contents rp m' = xs)"
proof -
  let ?B = "2 ^ 62 - 1 - Suc b"
  have pre: "chain_ok rp m" "mem_below ?B m" "?B < 2 ^ 62" "used m"
    using assms(1) by (auto simp: elcrq_ok_def elcrq_wf_def)
  from deq_chain [OF pre assms(2)] obtain v m' where
    m': "deq rp fuel 0 m = Some (v, m')" "deq_post rp (Suc ?B) m v m'" by blast
  have "Suc b < 2 ^ 62" using assms(1) by (simp add: elcrq_ok_def elcrq_wf_def)
  then have "Suc ?B = 2 ^ 62 - 1 - b" by simp
  then have "elcrq_ok rp b (q, m')"
    using m'(2) assms(1) by (auto simp: deq_post_def elcrq_ok_def elcrq_wf_def)
  then show ?thesis
    using m' contents_not_EMPTY [OF pre(1)]
    by (auto simp: deq_post_def split: list.splits)
qed

lemma spin_hd:
  assumes "elcrq_ok rp (Suc b) (q, m)" "length (rings m) \<le> fuel" "queue_contents rp m = x # xs"
  shows "\<exists>m'. spin_loop rp fuel 0 k m = Some (x, m') \<and> x \<noteq> EMPTY \<and> elcrq_ok rp b (q, m') \<and>
           queue_contents rp m' = xs"
proof -
  obtain m' where "deq rp fuel 0 m = Some (x, m')" "elcrq_ok rp b (q, m')" "x \<noteq> EMPTY"
    "queue_contents rp m' = xs"
    using deq_elcrq [OF assms(1,2)] assms(3) by auto
  then show ?thesis by (subst spin_loop.simps) auto
qed

text \<open>On an empty queue the loop runs \<open>deq\<close> \<open>MAX_PATIENCE + 1\<close> times and then gives up.\<close>

lemma spin_empty:
  assumes "elcrq_ok rp (b + (Suc MAX_PATIENCE - k)) (q, m)" "length (rings m) \<le> fuel"
    and "queue_contents rp m = []" "k \<le> MAX_PATIENCE"
  shows "\<exists>m'. spin_loop rp fuel 0 k m = Some (EMPTY, m') \<and> elcrq_ok rp b (q, m') \<and>
           queue_contents rp m' = []"
  using assms
proof (induction "MAX_PATIENCE - k" arbitrary: k m)
  case 0
  then have k: "k = MAX_PATIENCE" by simp
  with 0 have "elcrq_ok rp (Suc b) (q, m)" by simp
  from deq_elcrq [OF this 0(3)] 0(4) show ?case
    by (subst spin_loop.simps) (auto simp: k)
next
  case (Suc n)
  have k: "k < MAX_PATIENCE" using Suc.hyps(2) by simp
  then have "elcrq_ok rp (Suc (b + (Suc MAX_PATIENCE - Suc k))) (q, m)"
    using Suc.prems(1) by (simp add: Suc_diff_le)
  from deq_elcrq [OF this Suc.prems(2)] Suc.prems(3) obtain m' where
    m': "deq rp fuel 0 m = Some (EMPTY, m')" "elcrq_ok rp (b + (Suc MAX_PATIENCE - Suc k)) (q, m')"
      "length (rings m') = length (rings m)" "queue_contents rp m' = []" by auto
  have "\<exists>m''. spin_loop rp fuel 0 (Suc k) m' = Some (EMPTY, m'') \<and> elcrq_ok rp b (q, m'') \<and>
      queue_contents rp m'' = []"
    using Suc.hyps(2) k m' Suc.prems(2) by (intro Suc.hyps(1)) auto
  then show ?case using m'(1) k by (subst spin_loop.simps) auto
qed

lemma put_elcrq:
  assumes "elcrq_wf rp (b + Suc MAX_PATIENCE) s" "a \<noteq> EMPTY"
  shows "\<exists>s'. elcrq_put rp a s = Some s' \<and> elcrq_ok rp b s' \<and> elcrq_contents rp s' = elcrq_contents rp s @ [a]"
    and "\<exists>s'. elcrq_spin_put rp a s = Some s' \<and> elcrq_ok rp b s' \<and> elcrq_contents rp s' = elcrq_contents rp s @ [a]"
proof -
  obtain q m where s: "s = (q, m)" by (cases s)
  obtain ec call where n: "notify (q_ec q) = (ec, call)" by (cases "notify (q_ec q)")
  from enq_elcrq [OF assms(1) [unfolded s] assms(2)] obtain m' where
    m': "enq rp a (q_tail q) 0 None m = Some (Inr (None, m'))" "elcrq_ok rp b (q, m')"
      "queue_contents rp m' = queue_contents rp m @ [a]" by blast
  then show "\<exists>s'. elcrq_put rp a s = Some s' \<and> elcrq_ok rp b s' \<and>
      elcrq_contents rp s' = elcrq_contents rp s @ [a]"
    by (simp add: s elcrq_put_def enqueue_def n elcrq_contents_def)
  show "\<exists>s'. elcrq_spin_put rp a s = Some s' \<and> elcrq_ok rp b s' \<and>
      elcrq_contents rp s' = elcrq_contents rp s @ [a]"
    using m' by (simp add: s elcrq_spin_put_def spinEnqueue_def elcrq_contents_def elcrq_ok_def elcrq_wf_def)
qed

lemma get_elcrq_empty:
  assumes "elcrq_ok rp (b + Suc MAX_PATIENCE) s" "elcrq_contents rp s = []"
  shows "\<exists>s'. elcrq_get rp s = Some (None, s') \<and> elcrq_ok rp b s' \<and> elcrq_contents rp s' = []"
proof -
  obtain q m where s: "s = (q, m)" by (cases s)
  have "q_head q = 0" using assms(1) by (simp add: s elcrq_ok_def elcrq_wf_def)
  moreover obtain m' where "spin_loop rp (length (rings m)) 0 0 m = Some (EMPTY, m')"
    "elcrq_ok rp b (q, m')" "queue_contents rp m' = []"
    using spin_empty [of rp b 0 q m "length (rings m)"] assms
    by (auto simp: s elcrq_contents_def MAX_PATIENCE_def)
  ultimately show ?thesis by (simp add: s elcrq_get_def spinDequeue_def elcrq_contents_def)
qed

lemma get_elcrq_hd:
  assumes "elcrq_ok rp (Suc b) s" "elcrq_contents rp s = x # xs"
  shows "\<exists>s'. elcrq_get rp s = Some (Some x, s') \<and> elcrq_ok rp b s' \<and> elcrq_contents rp s' = xs"
proof -
  obtain q m where s: "s = (q, m)" by (cases s)
  have "q_head q = 0" using assms(1) by (simp add: s elcrq_ok_def elcrq_wf_def)
  moreover obtain m' where "spin_loop rp (length (rings m)) 0 0 m = Some (x, m')" "x \<noteq> EMPTY"
    "elcrq_ok rp b (q, m')" "queue_contents rp m' = xs"
    using spin_hd [of rp b q m "length (rings m)" x xs 0] assms by (auto simp: s elcrq_contents_def)
  ultimately show ?thesis by (simp add: s elcrq_get_def spinDequeue_def elcrq_contents_def)
qed

lemma elcrq_ok_one: "elcrq_ok rp (b + Suc MAX_PATIENCE) s \<Longrightarrow> elcrq_ok rp (Suc b) s"
  by (erule elcrq_ok_mono) simp

lemma elcrq_ok_wf: "elcrq_ok rp b s \<Longrightarrow> elcrq_wf rp b s"
  by (simp add: elcrq_ok_def)

interpretation notifying: bounded_fifo "elcrq_ok rp" "elcrq_contents rp" "elcrq_put rp" "elcrq_get rp"
  "\<lambda>a. a \<noteq> EMPTY" "Suc MAX_PATIENCE" for rp
  by (unfold_locales; blast intro: put_elcrq(1) get_elcrq_empty get_elcrq_hd elcrq_ok_one elcrq_ok_wf)

interpretation spinning: bounded_fifo "elcrq_ok rp" "elcrq_contents rp" "elcrq_spin_put rp"
  "elcrq_get rp" "\<lambda>a. a \<noteq> EMPTY" "Suc MAX_PATIENCE" for rp
  by (unfold_locales; blast intro: put_elcrq(2) get_elcrq_empty get_elcrq_hd elcrq_ok_one elcrq_ok_wf)

section \<open>A new queue\<close>

definition fresh_mem :: "nat \<Rightarrow> nat \<Rightarrow> mem \<Rightarrow> bool" where
  "fresh_mem rp n m \<longleftrightarrow> rings m = [] \<and> n \<le> length (pool m) \<and>
     (\<forall>b \<in> set (pool m). length (rq_array b) = 2 ^ rp)"

lemma init_queue_wf:
  assumes "fresh_mem rp (Suc n) m" "rp < 64" "b < 2 ^ 62" "b \<le> Suc MAX_PATIENCE * n"
  shows "\<exists>s. init_queue rp m = Inr s \<and> elcrq_wf rp b s \<and> elcrq_contents rp s = [] \<and> \<not> used (snd s) \<and>
           unused_ring rp (ring_at (snd s) 0)"
proof -
  obtain blk bs where pool: "pool m = blk # bs" "n \<le> length bs"
    using assms(1) by (cases "pool m") (auto simp: fresh_mem_def)
  have blk: "length (rq_array blk) = 2 ^ rp"
    using assms(1) pool by (auto simp: fresh_mem_def)
  have mem: "b \<le> Suc MAX_PATIENCE * length bs"
    using assms(4) pool(2) mult_le_mono2 [of n "length bs" "Suc MAX_PATIENCE"] by linarith
  let ?m = "m\<lparr>rings := [init_ring rp blk], pool := bs\<rparr>"
  have "init_queue rp m = Inr (\<lparr>q_head = 0, q_tail = 0, q_ec = initEventCount\<rparr>, ?m)"
    using assms(1) pool by (simp add: init_queue_def getMemory_def fresh_mem_def set_ring_def ring_at_def)
  moreover have "chain_ok rp ?m"
    using assms(1) pool blk ring_ok_init [OF blk]
    by (auto simp: chain_ok_def ring_at_def fresh_mem_def crq_is_closed_iff)
  moreover have "mem_below (2 ^ 62 - 1 - b) ?m"
    using ring_ok_init(3) [OF blk] by (auto simp: mem_below_def intro: ring_below_mono)
  ultimately show ?thesis
    using assms(2,3) mem ring_ok_init(2) [OF blk] unused_init [OF blk]
    by (auto simp: elcrq_wf_def elcrq_contents_def queue_contents_def used_def ring_at_def last_ptr_def)
qed

section \<open>Blocking\<close>

lemma await_changed:
  "\<not> epoch_is (q_ec q) key \<Longrightarrow> await fwait key (q, m) = Some (q\<lparr>q_ec := await_done (q_ec q)\<rparr>, m)"
  by (subst await.simps) simp

lemma await_sleep: "epoch_is (q_ec q) key \<Longrightarrow> await fwait key (q, m) = await fwait key (fwait (q, m))"
  by (subst await.simps) simp

lemma dequeue_wait_not_EMPTY:
  assumes "dequeue_wait rp fuel fwait s = Some (e, t)"
  shows "e \<noteq> EMPTY"
proof -
  have "(\<lambda>rp fuel fwait s r. fst r \<noteq> EMPTY) rp fuel fwait s (e, t)"
  proof (rule dequeue_wait.raw_induct [OF _ assms])
    fix f rp fuel fwait s r
    assume IH: "\<And>rp fuel fwait s r. f rp fuel fwait s = Some r \<Longrightarrow> fst r \<noteq> EMPTY"
      and eq: "(let (key, ec) = prepareWait (q_ec (fst s)); q = fst s\<lparr>q_ec := ec\<rparr>
        in case deq rp fuel (q_head q) (snd s) of None \<Rightarrow> None
           | Some (element, m) \<Rightarrow>
               if element = EMPTY then
                 (case await fwait key (q, m) of None \<Rightarrow> None | Some s' \<Rightarrow> f rp fuel fwait s')
               else Some (element, q\<lparr>q_ec := cancelWait (q_ec q)\<rparr>, m)) = Some r"
    then show "fst r \<noteq> EMPTY"
      by (auto simp: Let_def split: prod.splits option.splits if_splits)
  qed
  then show ?thesis by simp
qed

text \<open>
  One round of the blocking path: the queue is empty, the caller registers and sleeps, another
  thread enqueues \<open>a\<close> and notifies, and the caller's next round takes \<open>a\<close>.
\<close>

lemma dequeue_wait_round:
  assumes ok: "elcrq_ok rp (b + MAX_PATIENCE + 3) (q, m)" and emp: "queue_contents rp m = []"
    and ec: "q_ec q = ec_word e w" "Suc e < 2 ^ 32" "Suc w < 2 ^ 32" and a: "a \<noteq> EMPTY"
    and fuel: "Suc (length (rings m)) \<le> fuel"
    and other: "\<And>s nrq s' call. enqueue rp a None s = Some (Inr (nrq, s', call)) \<Longrightarrow> fwait s = s'"
  shows "\<exists>m'. dequeue_wait rp fuel fwait (q, m) = Some (a, q\<lparr>q_ec := ec_word (Suc e) w\<rparr>, m') \<and>
           elcrq_ok rp b (q, m') \<and> queue_contents rp m' = []"
proof -
  let ?q1 = "q\<lparr>q_ec := ec_word e (Suc w)\<rparr>" let ?q2 = "q\<lparr>q_ec := ec_word (Suc e) (Suc w)\<rparr>"
  let ?q3 = "q\<lparr>q_ec := ec_word (Suc e) w\<rparr>"
  have ptr: "q_head q = 0" using ok by (simp add: elcrq_ok_def elcrq_wf_def)
  have "elcrq_ok rp (Suc (b + MAX_PATIENCE + 2)) (q, m)" using ok by (simp add: eval_nat_numeral)
  from deq_elcrq [OF this, of fuel] fuel emp obtain m1 where
    m1: "deq rp fuel 0 m = Some (EMPTY, m1)" "elcrq_ok rp (b + MAX_PATIENCE + 2) (q, m1)"
      "length (rings m1) = length (rings m)" "queue_contents rp m1 = []" by auto
  have "elcrq_wf rp (Suc b + Suc MAX_PATIENCE) (?q1, m1)"
    using m1(2) elcrq_ok_wf [of rp "b + MAX_PATIENCE + 2" "(?q1, m1)"] by simp
  from enq_elcrq [OF this a] obtain m2 where
    m2: "enq rp a (q_tail q) 0 None m1 = Some (Inr (None, m2))" "elcrq_ok rp (Suc b) (q, m2)"
      "queue_contents rp m2 = [a]" "length (rings m2) \<le> Suc (length (rings m))"
    using m1(3,4) by auto
  have "enqueue rp a None (?q1, m1) = Some (Inr (None, (?q2, m2), Some 1))"
    using m2(1) ec by (simp add: enqueue_def notify_def doNotify_word)
  then have fw: "fwait (?q1, m1) = (?q2, m2)" by (rule other)
  have aw: "await fwait (of_nat e) (?q1, m1) = Some (?q3, m2)"
    using ec(2,3) by (simp add: await_sleep await_changed fw epoch_is_word await_done_word unat_of_nat_32)
  have "length (rings m2) \<le> fuel" using m2(4) fuel by linarith
  from deq_elcrq [OF m2(2) this] m2(3) obtain m3 where
    m3: "deq rp fuel 0 m2 = Some (a, m3)" "elcrq_ok rp b (q, m3)" "queue_contents rp m3 = []" by auto
  have "dequeue_wait rp fuel fwait (?q3, m2) = Some (a, ?q3, m3)"
    using m3(1) ec a ptr
    by (subst dequeue_wait.simps) (simp add: prepareWait_word cancelWait_word)
  then have "dequeue_wait rp fuel fwait (q, m) = Some (a, ?q3, m3)"
    using m1(1) ec ptr aw
    by (subst dequeue_wait.simps) (simp add: prepareWait_word)
  then show ?thesis using m3 by blast
qed

section \<open>Properties\<close>

text \<open>Concrete memory for the witnesses: rings of two cells, blocks with left-over contents.\<close>

definition demo_mem :: mem where
  "demo_mem = \<lparr>rings = [], pool = replicate 8
     \<lparr>rq_head = 7, rq_tail = 9, rq_next = Some 3,
      rq_array = [\<lparr>rn_val = 4, rn_idx = 1\<rparr>, \<lparr>rn_val = 2, rn_idx = 0\<rparr>]\<rparr>\<rparr>"

lemma demo_fresh: "n \<le> 8 \<Longrightarrow> fresh_mem 1 n demo_mem"
  by (simp add: fresh_mem_def demo_mem_def)

lemma demo_init: "\<exists>s. init_queue 1 demo_mem = Inr s \<and> elcrq_wf 1 7007 s \<and> elcrq_contents 1 s = []"
  using init_queue_wf [of 1 7 demo_mem 7007] demo_fresh by (auto simp: MAX_PATIENCE_def)

text \<open>A queue that has been used and drained.\<close>

definition drained_mem :: mem where
  "drained_mem = \<lparr>rings = [\<lparr>rq_head = 1, rq_tail = 1, rq_next = None,
     rq_array = [\<lparr>rn_val = - 1, rn_idx = 2\<rparr>, \<lparr>rn_val = - 1, rn_idx = 1\<rparr>]\<rparr>],
     pool = pool demo_mem\<rparr>"

lemma demo_empty: "\<exists>q m. elcrq_ok 1 6000 (q, m) \<and> queue_contents 1 m = [] \<and> length (rings m) = 1"
proof -
  have "chain_ok 1 drained_mem" "used drained_mem" "queue_contents 1 drained_mem = []"
    by code_simp+
  moreover have "mem_below (2 ^ 62 - 1 - 6000) drained_mem" "6000 \<le> Suc MAX_PATIENCE * length (pool drained_mem)"
    by (simp_all add: mem_below_def drained_mem_def ring_below_def unat_tail_index demo_mem_def MAX_PATIENCE_def)
  ultimately have "elcrq_ok 1 6000 (\<lparr>q_head = 0, q_tail = 0, q_ec = 0\<rparr>, drained_mem)"
    by (simp add: elcrq_ok_def elcrq_wf_def)
  moreover have "length (rings drained_mem) = 1" by (simp add: drained_mem_def)
  ultimately show ?thesis using \<open>queue_contents 1 drained_mem = []\<close> by blast
qed



text \<open>
  \<open>spinEnqueue\<close> of a list of values followed by as many \<open>spinDequeue\<close> calls returns the values
  in the order they were enqueued and leaves the queue empty.
\<close>

theorem spin_roundtrip:
  assumes "elcrq_ok rp ((length ys + length ys) * Suc MAX_PATIENCE) s" "elcrq_contents rp s = []"
    and "EMPTY \<notin> set ys"
  shows "\<exists>t. run_ops (elcrq_spin_put rp) (elcrq_get rp) (map Put ys @ replicate (length ys) Get) s =
               Some (map Some ys, t) \<and> elcrq_contents rp t = []"
  using spinning.put_all_get_all [of rp 0 ys s] assms by auto

theorem spin_roundtrip_witness:
  "\<exists>s t. run_ops (elcrq_spin_put 1) (elcrq_get 1) [Put 3, Put 5, Get, Get] s =
           Some ([Some 3, Some 5], t) \<and> elcrq_contents 1 t = []"
proof -
  obtain q m where "elcrq_ok 1 6000 (q, m)" "elcrq_contents 1 (q, m) = []"
    using demo_empty by (auto simp: elcrq_contents_def)
  moreover have "elcrq_ok 1 ((length [3, 5 :: u64] + length [3, 5 :: u64]) * Suc MAX_PATIENCE) (q, m)"
    using calculation(1) by (rule elcrq_ok_mono) (simp add: MAX_PATIENCE_def)
  ultimately show ?thesis
    using spin_roundtrip [of 1 "[3, 5]" "(q, m)"] by (auto simp: EMPTY_def)
qed


text \<open>The other thread of the witness: it runs \<open>enqueue\<close> of 9 while the caller is asleep.\<close>

definition demo_fwait :: "ELCRQ \<times> mem \<Rightarrow> ELCRQ \<times> mem" where
  "demo_fwait s = (case enqueue 1 9 None s of Some (Inr (_, s', _)) \<Rightarrow> s' | _ \<Rightarrow> s)"






text \<open>
  (C16) A dequeue on a queue that has been initialised but never used does not report \<open>EMPTY\<close>: for
  every number of loop iterations up to \<open>2^62\<close> the calls \<open>deq\<close>, \<open>spinDequeue\<close> and \<open>dequeue\<close> have not
  returned. The comparison \<open>tail_index(rq->tail) - 1 <= h\<close> wraps around when the tail is 0.
\<close>

theorem new_queue_dequeue_spins:
  assumes "fresh_mem rp 1 m" "rp < 64" "init_queue rp m = Inr s" "fuel \<le> 2 ^ 62"
  shows "deq rp fuel (q_head (fst s)) (snd s) = None \<and> spinDequeue rp fuel s = None \<and>
         dequeue rp fuel fwait s = None"
proof -
  have s: "elcrq_wf rp 0 s" "unused_ring rp (ring_at (snd s) 0)"
    using init_queue_wf [of rp 0 m 0] assms(1-3) by auto
  have "unat (rq_head (ring_at (snd s) 0)) = 0"
    using assms(1,3)
    by (auto simp: init_queue_def getMemory_def fresh_mem_def ring_at_def set_ring_def split: list.splits)
  then have "deq rp fuel 0 (snd s) = None"
    using s assms(4) by (intro deq_unused_spins) (auto simp: elcrq_wf_def chain_ok_def)
  moreover have "q_head (fst s) = 0" using s(1) by (simp add: elcrq_wf_def)
  ultimately show ?thesis
    by (cases s) (simp add: spinDequeue_def dequeue_def spin_loop.simps)
qed

theorem new_queue_dequeue_spins_witness:
  "deq 1 1000000 0 (snd (projr (init_queue 1 demo_mem))) = None"
proof -
  obtain s where s: "init_queue 1 demo_mem = Inr s" "elcrq_wf 1 7007 s" using demo_init by blast
  from new_queue_dequeue_spins [OF _ _ s(1), of 1000000] s(2) demo_fresh [of 1] show ?thesis
    by (simp add: s(1) elcrq_wf_def del: One_nat_def)
qed

text \<open>
  \<open>EMPTY\<close> (all ones) is reserved: enqueuing it into an empty one-ring queue returns normally,
  but the value is lost. The enqueue leaves every cell as it was, the next \<open>deq\<close> reports an empty
  queue, and the queue is empty afterwards.
\<close>

theorem enqueue_EMPTY_is_lost:
  assumes ok: "elcrq_ok rp (Suc b) (q, m)" and one: "length (rings m) = 1" and emp: "queue_contents rp m = []"
  shows "\<exists>m1 m2. spinEnqueue rp EMPTY None (q, m) = Some (Inr (None, q, m1)) \<and>
    rq_array (ring_at m1 0) = rq_array (ring_at m 0) \<and>
    deq rp 1 (q_head q) m1 = Some (EMPTY, m2) \<and> queue_contents rp m2 = []"
proof -
  let ?r = "ring_at m 0"
  let ?m1 = "set_ring 0 (?r\<lparr>rq_tail := rq_tail ?r + 1\<rparr>) m"
  let ?m2 = "set_ring 0 ((ring_take rp ?r)\<lparr>rq_tail := rq_tail ?r + 1\<rparr>) m"
  have ch: "chain_ok rp m" and ptr: "q_head q = 0" "q_tail q = 0" and us: "rq_tail ?r \<noteq> 0"
    using ok one by (auto simp: elcrq_ok_def elcrq_wf_def used_def last_ptr_def)
  have last: "0 < length (rings m)" "ring_ok rp ?r" "rq_next ?r = None" "\<not> crq_is_closed (rq_tail ?r)"
    using chain_last [OF ch] one by (simp_all add: last_ptr_def)
  have "ring_below (2 ^ 62 - 1 - Suc b) ?r"
    using ok last(1) by (simp add: elcrq_ok_def elcrq_wf_def below_at)
  then have lim: "unat (rq_head ?r) < 2 ^ 62" by (auto simp: ring_below_def)
  have drained: "\<not> unat (rq_head ?r) < live_end ?r"
    using emp one contents_at [OF last(1), of rp] by (simp add: ring_contents_Nil_iff)
  then have HT: "rq_tail ?r = rq_head ?r"
    using last(2,4) by (auto simp: ring_ok_def live_end_def word_eq_unat)
  have free: "free_cell (cell_at rp ?r (rq_head ?r)) (unat (rq_head ?r))"
    using last(2) drained by (rule deq_cell_free)
  have "cell_at rp ?r (rq_tail ?r) = \<lparr>rn_val = EMPTY, rn_idx = rq_tail ?r\<rparr>"
    using free by (simp add: free_cell_def HT)
  then have same: "set_cell rp (rq_tail ?r) (EMPTY, rq_tail ?r) (?r\<lparr>rq_tail := rq_tail ?r + 1\<rparr>) =
      ?r\<lparr>rq_tail := rq_tail ?r + 1\<rparr>"
    by (rule set_cell_same) simp
  have "live_end ?r < unat (rq_head ?r) + 2 ^ rp"
    by (rule le_less_trans [of _ "unat (rq_head ?r)"]) (use drained in auto)
  from enq_room [OF last(1,3,2,4) this, of EMPTY 0 None]
  have e: "spinEnqueue rp EMPTY None (q, m) = Some (Inr (None, q, ?m1))"
    by (simp add: spinEnqueue_def ptr same)
  have d: "deq rp 1 (q_head q) ?m1 = Some (EMPTY, ?m2)"
    using deq_hole [OF last(1,3) free lim, of 0] ptr HT by simp
  have "queue_contents rp ?m2 = []"
    using contents_set [OF last(1), of rp] one ring_skip_open(2) [OF last(2,4) drained] lim HT by simp
  then show ?thesis using e d last(1) by fastforce
qed

theorem enqueue_EMPTY_is_lost_witness:
  "\<exists>q m m1 m2. spinEnqueue 1 EMPTY None (q, m) = Some (Inr (None, q, m1)) \<and>
     deq 1 1 (q_head q) m1 = Some (EMPTY, m2) \<and> queue_contents 1 m2 = []"
proof -
  obtain q m where ok: "elcrq_ok 1 6000 (q, m)" "queue_contents 1 m = []" "length (rings m) = 1"
    using demo_empty by auto
  then have "elcrq_ok 1 (Suc 5999) (q, m)" by simp
  from enqueue_EMPTY_is_lost [OF this ok(3,2)] show ?thesis by blast
qed

text \<open>
  When the last ring is full and \<open>shm_malloc\<close> has no block left, an enqueue faults: the result
  of the allocation is used without a test.
\<close>

theorem enqueue_out_of_memory_faults:
  assumes "chain_ok rp m" "mem_below B m" "B < 2 ^ 62" "rp < 64" "pool m = []"
    and "p < length (rings m)"
    and "\<not> live_end (ring_at m (last_ptr m)) < unat (rq_head (ring_at m (last_ptr m))) + 2 ^ rp"
  shows "enq rp arg p tc None m = Some (Inl Segv)"
proof -
  note last = chain_last [OF assms(1)]
  have "live_end (ring_at m (last_ptr m)) < 2 ^ 63 - 1"
    using below_at [OF assms(2) last(1)] live_end_le [of "ring_at m (last_ptr m)"] assms(3)
    by (auto simp: ring_below_def)
  from enq_full [OF last(1,3) assms(4) last(2,4) assms(7) this] show ?thesis
    using assms(5) by (simp add: enq_walk [OF assms(1,6)] enq_alloc_def new_ring_def getMemory_def)
qed

text \<open>A full ring of one cell, for the witness.\<close>

definition full_mem :: mem where
  "full_mem = \<lparr>rings = [\<lparr>rq_head = 3, rq_tail = 4, rq_next = None,
     rq_array = [\<lparr>rn_val = 8, rn_idx = 3\<rparr>]\<rparr>], pool = []\<rparr>"

theorem enqueue_out_of_memory_faults_witness: "enq 0 5 0 0 None full_mem = Some (Inl Segv)"
proof (rule enqueue_out_of_memory_faults [of 0 _ 4])
  show "chain_ok 0 full_mem" by code_simp
qed (simp_all add: full_mem_def mem_below_def ring_below_def unat_tail_index ring_at_def last_ptr_def
    live_end_def crq_is_closed_iff)

end
