(* ===== verification/Threads.thy ===== *)
theory Threads
  imports Lcrq
begin

text \<open>
  \<open>enq\<close> and \<open>deq\<close> of \<open>src/c/ELCRQ.h\<close> run by any number of threads. A thread is a program counter
  that names its next access to shared memory, with the local variables that are live there; one
  step of a thread performs that access (a load, a store, or one atomic instruction) and the
  local computation up to the next one. A schedule is an explicit sequence of actions: a thread
  begins a call, or takes a step. So every interleaving of the accesses is a schedule. The
  accesses are interleaved one at a time (sequential consistency).

  Rings that are not linked yet are private to the thread that allocated them, so \<open>init_ring\<close> on
  a new block is part of the step that allocates it, and the three stores of the solo enqueue
  are one step. Both queue pointers stay at the first ring for ever (\<open>tail\<close> and \<open>head\<close> are passed
  by value), so every call starts at ring 0.

  The state carries two logs that the code does not have: which values were made visible at
  which ring and ticket, and which were taken from where, in the order in which it happened.
\<close>

section \<open>Program counters\<close>

datatype pc =
    Idle "u64 option"                              \<comment> \<open>no call, or the last call returned this\<close>
  | Crashed                                        \<comment> \<open>\<open>init_ring(NULL)\<close>\<close>
  | E_next u64 ring_ptr nat                        \<comment> \<open>\<open>next = rq->next\<close>: arg, rq, try_close\<close>
  | E_faa u64 ring_ptr nat                         \<comment> \<open>\<open>t = FAA64(&rq->tail, 1)\<close>\<close>
  | E_alloc u64 ring_ptr nat                       \<comment> \<open>the label \<open>alloc\<close>\<close>
  | E_solo u64 ring_ptr nat                        \<comment> \<open>the stores into \<open>nrq\<close>\<close>
  | E_link u64 ring_ptr nat                        \<comment> \<open>\<open>CASPTR(&rq->next, NULL, nrq)\<close>\<close>
  | E_idx u64 ring_ptr nat u64                     \<comment> \<open>\<open>idx = cell->idx\<close>: \<dots>, t\<close>
  | E_val u64 ring_ptr nat u64 u64                 \<comment> \<open>\<open>val = cell->val\<close>: \<dots>, t, idx\<close>
  | E_head u64 ring_ptr nat u64 u64                \<comment> \<open>\<open>rq->head < t\<close>\<close>
  | E_cas u64 ring_ptr nat u64 u64                 \<comment> \<open>\<open>CAS2(cell, -1, idx, arg, t)\<close>\<close>
  | E_full u64 ring_ptr nat u64                    \<comment> \<open>\<open>h = rq->head\<close>\<close>
  | E_close u64 ring_ptr nat u64                   \<comment> \<open>\<open>close_crq(rq, t, try_close)\<close>\<close>
  | D_faa ring_ptr                                 \<comment> \<open>\<open>h = FAA64(&rq->head, 1)\<close>: rq\<close>
  | D_idx ring_ptr u64 u64 nat                     \<comment> \<open>\<open>cell_idx = cell->idx\<close>: rq, h, tt, r\<close>
  | D_val ring_ptr u64 u64 nat u64                 \<comment> \<open>\<open>val = cell->val\<close>: \<dots>, cell_idx\<close>
  | D_take ring_ptr u64 u64 nat u64 u64            \<comment> \<open>the \<open>CAS2\<close> that takes the value: \<dots>, val\<close>
  | D_mark ring_ptr u64 u64 nat u64 u64            \<comment> \<open>the \<open>CAS2\<close> that sets unsafe\<close>
  | D_tail ring_ptr u64 u64 nat u64                \<comment> \<open>\<open>tt = rq->tail\<close>\<close>
  | D_pass ring_ptr u64 u64 nat u64                \<comment> \<open>the \<open>CAS2\<close> on an empty unsafe cell\<close>
  | D_skip ring_ptr u64 u64 nat u64                \<comment> \<open>the \<open>CAS2\<close> on an empty safe cell\<close>
  | D_check ring_ptr u64                           \<comment> \<open>\<open>tail_index(rq->tail) - 1 <= h\<close>\<close>
  | F_tail ring_ptr                                \<comment> \<open>\<open>fixState\<close>: \<open>t = FAA64(&rq->tail, 0)\<close>\<close>
  | F_head ring_ptr u64                            \<comment> \<open>\<open>h = FAA64(&rq->head, 0)\<close>\<close>
  | F_again ring_ptr u64 u64                       \<comment> \<open>\<open>rq->tail != t\<close>\<close>
  | F_cas ring_ptr u64 u64                         \<comment> \<open>\<open>CAS64(&rq->tail, t, h)\<close>\<close>
  | D_next ring_ptr                                \<comment> \<open>\<open>next = rq->next\<close>\<close>

text \<open>A value in the queue: the ring and the ticket it was enqueued with, and the value.\<close>

type_synonym item = "ring_ptr \<times> nat \<times> u64"

datatype event = Tau | Inserted item | Removed item

section \<open>One step of a thread\<close>

text \<open>The next access of a thread to shared memory, by the place where it is: its new place, its spare ring, the memory and the event.\<close>

fun tstep ::
  "nat \<Rightarrow> pc \<Rightarrow> ring_ptr option \<Rightarrow> mem \<Rightarrow> pc \<times> ring_ptr option \<times> mem \<times> event" where
  "tstep rp (Idle v) nrq m = (Idle v, nrq, m, Tau)"
| "tstep rp Crashed nrq m = (Crashed, nrq, m, Tau)"
| "tstep rp (E_next arg rq tc) nrq m =
     (case rq_next (ring_at m rq) of
        Some nxt \<Rightarrow> (E_next arg nxt tc, nrq, m, Tau)
      | None \<Rightarrow> (E_faa arg rq tc, nrq, m, Tau))"
| "tstep rp (E_faa arg rq tc) nrq m =
     (let (t, tl) = FAA64 (rq_tail (ring_at m rq)) 1;
          m' = set_ring rq ((ring_at m rq)\<lparr>rq_tail := tl\<rparr>) m
      in if crq_is_closed t then (E_alloc arg rq tc, nrq, m', Tau)
         else (E_idx arg rq tc t, nrq, m', Tau))"
| "tstep rp (E_alloc arg rq tc) nrq m =
     (case new_ring rp nrq m of
        None \<Rightarrow> (Crashed, nrq, m, Tau)
      | Some (p, m') \<Rightarrow> (E_solo arg rq tc, Some p, m', Tau))"
| "tstep rp (E_solo arg rq tc) nrq m =
     (case nrq of
        None \<Rightarrow> (Crashed, nrq, m, Tau)
      | Some p \<Rightarrow> (E_link arg rq tc, nrq, set_ring p (solo_enqueue arg (ring_at m p)) m, Tau))"
| "tstep rp (E_link arg rq tc) nrq m =
     (let (ok, nx) = CAS64 (rq_next (ring_at m rq)) None nrq;
          m' = set_ring rq ((ring_at m rq)\<lparr>rq_next := nx\<rparr>) m
      in if ok then (Idle None, None, m', Inserted (the nrq, 0, arg))
         else (E_next arg rq tc, nrq, m', Tau))"
| "tstep rp (E_idx arg rq tc t) nrq m =
     (E_val arg rq tc t (rn_idx (cell_at rp (ring_at m rq) t)), nrq, m, Tau)"
| "tstep rp (E_val arg rq tc t idx) nrq m =
     (let val = rn_val (cell_at rp (ring_at m rq) t)
      in if is_empty val \<and> node_index idx \<le> t then
           (if node_unsafe idx = 0 then (E_cas arg rq tc t idx, nrq, m, Tau)
            else (E_head arg rq tc t idx, nrq, m, Tau))
         else (E_full arg rq tc t, nrq, m, Tau))"
| "tstep rp (E_head arg rq tc t idx) nrq m =
     (if rq_head (ring_at m rq) < t then (E_cas arg rq tc t idx, nrq, m, Tau)
      else (E_full arg rq tc t, nrq, m, Tau))"
| "tstep rp (E_cas arg rq tc t idx) nrq m =
     (let (ok, r) = cell_CAS2 rp t (- 1) idx arg t (ring_at m rq); m' = set_ring rq r m
      in if ok then (Idle None, nrq, m', Inserted (rq, unat t, arg))
         else (E_full arg rq tc t, nrq, m', Tau))"
| "tstep rp (E_full arg rq tc t) nrq m =
     (let h = rq_head (ring_at m rq)
      in if t - h \<ge> RING_SIZE rp then (E_close arg rq (tc + 1) t, nrq, m, Tau)
         else (E_next arg rq tc, nrq, m, Tau))"
| "tstep rp (E_close arg rq tc t) nrq m =
     (let (closed, r) = close_crq (ring_at m rq) t tc; m' = set_ring rq r m
      in if closed then (E_alloc arg rq tc, nrq, m', Tau) else (E_next arg rq tc, nrq, m', Tau))"
| "tstep rp (D_faa rq) nrq m =
     (let (h, hd') = FAA64 (rq_head (ring_at m rq)) 1
      in (D_idx rq h 0 0, nrq, set_ring rq ((ring_at m rq)\<lparr>rq_head := hd'\<rparr>) m, Tau))"
| "tstep rp (D_idx rq h tt r) nrq m =
     (D_val rq h tt r (rn_idx (cell_at rp (ring_at m rq) h)), nrq, m, Tau)"
| "tstep rp (D_val rq h tt r cell_idx) nrq m =
     (let val = rn_val (cell_at rp (ring_at m rq) h); idx = node_index cell_idx
      in if idx > h then (D_check rq h, nrq, m, Tau)
         else if \<not> is_empty val then
           (if idx = h then (D_take rq h tt r cell_idx val, nrq, m, Tau)
            else (D_mark rq h tt r cell_idx val, nrq, m, Tau))
         else (D_tail rq h tt r cell_idx, nrq, m, Tau))"
| "tstep rp (D_take rq h tt r cell_idx val) nrq m =
     (let (ok, rg) = cell_CAS2 rp h val cell_idx (- 1) (node_unsafe cell_idx OR (h + RING_SIZE rp))
                       (ring_at m rq);
          m' = set_ring rq rg m
      in if ok then (Idle (Some val), nrq, m', Removed (rq, unat h, val))
         else (D_idx rq h tt r, nrq, m', Tau))"
| "tstep rp (D_mark rq h tt r cell_idx val) nrq m =
     (let (ok, rg) = cell_CAS2 rp h val cell_idx val (set_unsafe (node_index cell_idx)) (ring_at m rq);
          m' = set_ring rq rg m
      in if ok then (D_check rq h, nrq, m', Tau) else (D_idx rq h tt r, nrq, m', Tau))"
| "tstep rp (D_tail rq h tt r cell_idx) nrq m =
     (let tt' = (if of_nat r AND (push_bit 10 1 - 1) = (0 :: u64) then rq_tail (ring_at m rq) else tt);
          crq_closed = crq_is_closed tt';
          t = tail_index tt'
      in if node_unsafe cell_idx \<noteq> 0 then (D_pass rq h tt' r cell_idx, nrq, m, Tau)
         else if t - 1 \<le> h \<or> r > 200000 \<or> crq_closed then (D_skip rq h tt' r cell_idx, nrq, m, Tau)
         else (D_idx rq h tt' (r + 1), nrq, m, Tau))"
| "tstep rp (D_pass rq h tt r cell_idx) nrq m =
     (let (ok, rg) = cell_CAS2 rp h (- 1) cell_idx (- 1) (node_unsafe cell_idx OR (h + RING_SIZE rp))
                       (ring_at m rq);
          m' = set_ring rq rg m
      in if ok then (D_check rq h, nrq, m', Tau) else (D_idx rq h tt r, nrq, m', Tau))"
| "tstep rp (D_skip rq h tt r cell_idx) nrq m =
     (let (ok, rg) = cell_CAS2 rp h (- 1) (node_index cell_idx) (- 1) (h + RING_SIZE rp) (ring_at m rq);
          m' = set_ring rq rg m
      in if ok then (D_check rq h, nrq, m', Tau) else (D_idx rq h tt r, nrq, m', Tau))"
| "tstep rp (D_check rq h) nrq m =
     (if tail_index (rq_tail (ring_at m rq)) - 1 \<le> h then (F_tail rq, nrq, m, Tau)
      else (D_faa rq, nrq, m, Tau))"
| "tstep rp (F_tail rq) nrq m =
     (let (t, tl) = FAA64 (rq_tail (ring_at m rq)) 0
      in (F_head rq t, nrq, set_ring rq ((ring_at m rq)\<lparr>rq_tail := tl\<rparr>) m, Tau))"
| "tstep rp (F_head rq t) nrq m =
     (let (h, hd') = FAA64 (rq_head (ring_at m rq)) 0
      in (F_again rq t h, nrq, set_ring rq ((ring_at m rq)\<lparr>rq_head := hd'\<rparr>) m, Tau))"
| "tstep rp (F_again rq t h) nrq m =
     (if rq_tail (ring_at m rq) \<noteq> t then (F_tail rq, nrq, m, Tau)
      else if h > t then (F_cas rq t h, nrq, m, Tau)
      else (D_next rq, nrq, m, Tau))"
| "tstep rp (F_cas rq t h) nrq m =
     (let (ok, tl) = CAS64 (rq_tail (ring_at m rq)) t h;
          m' = set_ring rq ((ring_at m rq)\<lparr>rq_tail := tl\<rparr>) m
      in if ok then (D_next rq, nrq, m', Tau) else (F_tail rq, nrq, m', Tau))"
| "tstep rp (D_next rq) nrq m =
     (case rq_next (ring_at m rq) of
        None \<Rightarrow> (Idle (Some EMPTY), nrq, m, Tau)
      | Some nxt \<Rightarrow> (D_faa nxt, nrq, m, Tau))"

section \<open>Schedules\<close>

record cstate =
  st_mem :: mem
  st_pc :: "nat \<Rightarrow> pc"
  st_nrq :: "nat \<Rightarrow> ring_ptr option"
  st_ins :: "item list"
  st_outs :: "item list"
  st_time :: nat

datatype act = Call_enq nat u64 | Call_deq nat | Step nat

fun log_event :: "event \<Rightarrow> cstate \<Rightarrow> cstate" where
  "log_event Tau s = s"
| "log_event (Inserted x) s = s\<lparr>st_ins := st_ins s @ [x]\<rparr>"
| "log_event (Removed x) s = s\<lparr>st_outs := st_outs s @ [x]\<rparr>"

definition is_idle :: "pc \<Rightarrow> bool" where
  "is_idle c = (case c of Idle _ \<Rightarrow> True | _ \<Rightarrow> False)"

text \<open>
  \<open>do_act\<close> is \<^const>\<open>None\<close> when the action is not possible. Callers enqueue values other than the
  reserved \<open>EMPTY\<close>. \<open>st_time\<close> counts the actions.
\<close>

fun do_act :: "nat \<Rightarrow> act \<Rightarrow> cstate \<Rightarrow> cstate option" where
  "do_act rp (Call_enq i a) s =
     (if is_idle (st_pc s i) \<and> a \<noteq> EMPTY
      then Some (s\<lparr>st_pc := (st_pc s)(i := E_next a 0 0), st_time := Suc (st_time s)\<rparr>) else None)"
| "do_act rp (Call_deq i) s =
     (if is_idle (st_pc s i)
      then Some (s\<lparr>st_pc := (st_pc s)(i := D_faa 0), st_time := Suc (st_time s)\<rparr>) else None)"
| "do_act rp (Step i) s =
     (let (c, nrq, m, ev) = tstep rp (st_pc s i) (st_nrq s i) (st_mem s)
      in Some (log_event ev (s\<lparr>st_mem := m, st_pc := (st_pc s)(i := c),
                 st_nrq := (st_nrq s)(i := nrq), st_time := Suc (st_time s)\<rparr>)))"

fun run_acts :: "nat \<Rightarrow> act list \<Rightarrow> cstate \<Rightarrow> cstate option" where
  "run_acts rp [] s = Some s"
| "run_acts rp (a # as) s = (case do_act rp a s of None \<Rightarrow> None | Some s' \<Rightarrow> run_acts rp as s')"

text \<open>The state after \<open>init_queue\<close> with the blocks \<open>bs\<close> left in memory.\<close>

definition conc_init :: "nat \<Rightarrow> RingQueue \<Rightarrow> RingQueue list \<Rightarrow> cstate" where
  "conc_init rp b bs = \<lparr>st_mem = \<lparr>rings = [init_ring rp b], pool = bs\<rparr>,
     st_pc = (\<lambda>_. Idle None), st_nrq = (\<lambda>_. None), st_ins = [], st_outs = [], st_time = 0\<rparr>"

definition blocks_ok :: "nat \<Rightarrow> RingQueue list \<Rightarrow> bool" where
  "blocks_ok rp bs \<longleftrightarrow> (\<forall>b \<in> set bs. length (rq_array b) = 2 ^ rp)"

inductive conc_reachable :: "nat \<Rightarrow> cstate \<Rightarrow> bool" for rp where
  reach_init: "blocks_ok rp (b # bs) \<Longrightarrow> conc_reachable rp (conc_init rp b bs)"
| reach_act: "conc_reachable rp s \<Longrightarrow> do_act rp a s = Some s' \<Longrightarrow> conc_reachable rp s'"

lemma run_acts_reachable:
  "conc_reachable rp s \<Longrightarrow> run_acts rp as s = Some s' \<Longrightarrow> conc_reachable rp s'"
  by (induction as arbitrary: s) (auto split: option.splits intro: reach_act)

end
