(* ===== verification/Thread_Inv.thy ===== *)
theory Thread_Inv
  imports Threads
begin

text \<open>
  The invariant of the concurrent queue and the general form of its preservation.

  Each program counter has an assertion (\<open>pc_inv\<close>) that other threads cannot falsify, because it
  only says things that stay true while rings evolve (\<open>ring_evol\<close>): counters grow, the index of
  a cell grows, an occupied cell is emptied only together with a growth of its index. The two
  facts that are not of this kind are about tickets: no two threads hold the same enqueue
  ticket, and a dequeue ticket that nobody works on any more (\<open>passed\<close>) has left its cell in a
  state in which no enqueue can store the value of that ticket (\<open>passed_cell\<close>).
\<close>

section \<open>What a thread holds\<close>

fun refs :: "pc \<Rightarrow> ring_ptr set" where
  "refs (Idle _) = {}"
| "refs Crashed = {}"
| "refs (E_next _ p _) = {p}"
| "refs (E_faa _ p _) = {p}"
| "refs (E_alloc _ p _) = {p}"
| "refs (E_solo _ p _) = {p}"
| "refs (E_link _ p _) = {p}"
| "refs (E_idx _ p _ _) = {p}"
| "refs (E_val _ p _ _ _) = {p}"
| "refs (E_head _ p _ _ _) = {p}"
| "refs (E_cas _ p _ _ _) = {p}"
| "refs (E_full _ p _ _) = {p}"
| "refs (E_close _ p _ _) = {p}"
| "refs (D_faa p) = {p}"
| "refs (D_idx p _ _ _) = {p}"
| "refs (D_val p _ _ _ _) = {p}"
| "refs (D_take p _ _ _ _ _) = {p}"
| "refs (D_mark p _ _ _ _ _) = {p}"
| "refs (D_tail p _ _ _ _) = {p}"
| "refs (D_pass p _ _ _ _) = {p}"
| "refs (D_skip p _ _ _ _) = {p}"
| "refs (D_check p _) = {p}"
| "refs (F_tail p) = {p}"
| "refs (F_head p _) = {p}"
| "refs (F_again p _ _) = {p}"
| "refs (F_cas p _ _) = {p}"
| "refs (D_next p) = {p}"

text \<open>The ticket an enqueue may still use, and the ticket a dequeue is still working on.\<close>

fun ticket :: "pc \<Rightarrow> (ring_ptr \<times> nat) option" where
  "ticket (E_idx _ p _ t) = Some (p, unat t)"
| "ticket (E_val _ p _ t _) = Some (p, unat t)"
| "ticket (E_head _ p _ t _) = Some (p, unat t)"
| "ticket (E_cas _ p _ t _) = Some (p, unat t)"
| "ticket _ = None"

fun dticket :: "pc \<Rightarrow> (ring_ptr \<times> nat) option" where
  "dticket (D_idx p h _ _) = Some (p, unat h)"
| "dticket (D_val p h _ _ _) = Some (p, unat h)"
| "dticket (D_take p h _ _ _ _) = Some (p, unat h)"
| "dticket (D_mark p h _ _ _ _) = Some (p, unat h)"
| "dticket (D_tail p h _ _ _) = Some (p, unat h)"
| "dticket (D_pass p h _ _ _) = Some (p, unat h)"
| "dticket (D_skip p h _ _ _) = Some (p, unat h)"
| "dticket _ = None"

definition priv :: "(nat \<Rightarrow> ring_ptr option) \<Rightarrow> ring_ptr set" where
  "priv nrq = {q. \<exists>i. nrq i = Some q}"

definition public :: "cstate \<Rightarrow> ring_ptr \<Rightarrow> bool" where
  "public s p \<longleftrightarrow> p < length (rings (st_mem s)) \<and> p \<notin> priv (st_nrq s)"

abbreviation st_ring :: "cstate \<Rightarrow> ring_ptr \<Rightarrow> RingQueue" where
  "st_ring s p \<equiv> ring_at (st_mem s) p"

text \<open>A dequeue ticket was drawn and no dequeue works on it any more.\<close>

definition passed_in :: "mem \<Rightarrow> (nat \<Rightarrow> pc) \<Rightarrow> ring_ptr \<Rightarrow> nat \<Rightarrow> bool" where
  "passed_in m pcs p h \<longleftrightarrow> h < unat (rq_head (ring_at m p)) \<and> (\<forall>i. dticket (pcs i) \<noteq> Some (p, h))"

abbreviation passed :: "cstate \<Rightarrow> ring_ptr \<Rightarrow> nat \<Rightarrow> bool" where
  "passed s \<equiv> passed_in (st_mem s) (st_pc s)"

section \<open>Cells\<close>

definition nidx :: "RingNode \<Rightarrow> nat" where
  "nidx c = unat (node_index (rn_idx c))"

definition occupied :: "RingNode \<Rightarrow> bool" where
  "occupied c \<longleftrightarrow> rn_val c \<noteq> EMPTY"

definition unsafe_cell :: "RingNode \<Rightarrow> bool" where
  "unsafe_cell c \<longleftrightarrow> node_unsafe (rn_idx c) \<noteq> 0"

text \<open>
  A cell that the dequeue of ticket \<open>h\<close> has passed can never hold the value of ticket \<open>h\<close>: it has
  moved on to a later index, or it is marked unsafe.
\<close>

definition passed_cell :: "RingNode \<Rightarrow> nat \<Rightarrow> bool" where
  "passed_cell c h \<longleftrightarrow> h < nidx c \<or> unsafe_cell c \<and> (occupied c \<longrightarrow> nidx c \<noteq> h)"

text \<open>What the dequeue leaves behind at the moment it gives up the cell.\<close>

definition left_cell :: "RingNode \<Rightarrow> nat \<Rightarrow> bool" where
  "left_cell c h \<longleftrightarrow> h < nidx c \<or> unsafe_cell c \<and> occupied c \<and> nidx c < h"

lemma left_passed: "left_cell c h \<Longrightarrow> passed_cell c h"
  by (auto simp: left_cell_def passed_cell_def)

text \<open>How a cell changes over time.\<close>

definition cell_evol :: "RingNode \<Rightarrow> RingNode \<Rightarrow> bool" where
  "cell_evol c c' \<longleftrightarrow> nidx c < nidx c' \<or> nidx c = nidx c' \<and> (occupied c \<longrightarrow> occupied c')"

lemma cell_evol_refl [simp]: "cell_evol c c"
  by (simp add: cell_evol_def)

definition ring_evol :: "nat \<Rightarrow> RingQueue \<Rightarrow> RingQueue \<Rightarrow> bool" where
  "ring_evol rp r r' \<longleftrightarrow>
     unat (rq_head r) \<le> unat (rq_head r') \<and>
     unat (tail_index (rq_tail r)) \<le> unat (tail_index (rq_tail r')) \<and>
     (crq_is_closed (rq_tail r) \<longrightarrow> crq_is_closed (rq_tail r')) \<and>
     (\<forall>j. cell_evol (cell_no rp r j) (cell_no rp r' j))"

lemma ring_evol_refl [simp]: "ring_evol rp r r"
  by (simp add: ring_evol_def)

section \<open>Assertions of the program counters\<close>

text \<open>
  \<open>snap\<close>: an index that was read from the cell of ticket \<open>t\<close>; the cell has not gone back since.
  \<open>stale\<close>: if the dequeue of the same slot with a ticket from \<open>t\<close> on has given up, then the
  compare-and-swap with the old index \<open>ie\<close> and the value \<open>-1\<close> will fail.
\<close>

definition snap :: "nat \<Rightarrow> RingQueue \<Rightarrow> u64 \<Rightarrow> u64 \<Rightarrow> bool" where
  "snap rp r t ie \<longleftrightarrow> unat (node_index ie) \<le> nidx (cell_no rp r (unat t))"

definition stale :: "nat \<Rightarrow> RingQueue \<Rightarrow> (nat \<Rightarrow> bool) \<Rightarrow> u64 \<Rightarrow> u64 \<Rightarrow> bool" where
  "stale rp r P t ie \<longleftrightarrow>
     (\<forall>h. unat t \<le> h \<and> h mod 2 ^ rp = unat t mod 2 ^ rp \<and> P h \<longrightarrow>
        unat (node_index ie) < nidx (cell_no rp r (unat t)) \<or> occupied (cell_no rp r (unat t)))"

definition drawn :: "RingQueue \<Rightarrow> u64 \<Rightarrow> bool" where
  "drawn r t \<longleftrightarrow> unat t < unat (tail_index (rq_tail r))"

fun pc_inv :: "nat \<Rightarrow> mem \<Rightarrow> (ring_ptr \<Rightarrow> nat \<Rightarrow> bool) \<Rightarrow> pc \<Rightarrow> bool" where
  "pc_inv rp m P (Idle _) = True"
| "pc_inv rp m P Crashed = True"
| "pc_inv rp m P (E_next a p _) = (a \<noteq> EMPTY)"
| "pc_inv rp m P (E_faa a p _) = (a \<noteq> EMPTY)"
| "pc_inv rp m P (E_alloc a p _) = (a \<noteq> EMPTY \<and> crq_is_closed (rq_tail (ring_at m p)))"
| "pc_inv rp m P (E_solo a p _) = (a \<noteq> EMPTY \<and> crq_is_closed (rq_tail (ring_at m p)))"
| "pc_inv rp m P (E_link a p _) = (a \<noteq> EMPTY \<and> crq_is_closed (rq_tail (ring_at m p)))"
| "pc_inv rp m P (E_idx a p _ t) = (a \<noteq> EMPTY \<and> drawn (ring_at m p) t)"
| "pc_inv rp m P (E_val a p _ t ie) =
     (a \<noteq> EMPTY \<and> drawn (ring_at m p) t \<and> snap rp (ring_at m p) t ie)"
| "pc_inv rp m P (E_head a p _ t ie) =
     (a \<noteq> EMPTY \<and> drawn (ring_at m p) t \<and> snap rp (ring_at m p) t ie \<and> node_index ie \<le> t)"
| "pc_inv rp m P (E_cas a p _ t ie) =
     (a \<noteq> EMPTY \<and> drawn (ring_at m p) t \<and> snap rp (ring_at m p) t ie \<and> node_index ie \<le> t \<and>
      (node_unsafe ie \<noteq> 0 \<longrightarrow> stale rp (ring_at m p) (P p) t ie))"
| "pc_inv rp m P (E_full a p _ t) = (a \<noteq> EMPTY \<and> drawn (ring_at m p) t)"
| "pc_inv rp m P (E_close a p _ t) = (a \<noteq> EMPTY \<and> drawn (ring_at m p) t)"
| "pc_inv rp m P (D_faa p) = True"
| "pc_inv rp m P (D_idx p h _ _) = (h < rq_head (ring_at m p))"
| "pc_inv rp m P (D_val p h _ _ ci) = (h < rq_head (ring_at m p) \<and> snap rp (ring_at m p) h ci)"
| "pc_inv rp m P (D_take p h _ _ ci v) = (h < rq_head (ring_at m p) \<and> node_index ci = h \<and> v \<noteq> EMPTY)"
| "pc_inv rp m P (D_mark p h _ _ ci v) = (h < rq_head (ring_at m p) \<and> node_index ci < h \<and> v \<noteq> EMPTY)"
| "pc_inv rp m P (D_tail p h _ _ ci) = (h < rq_head (ring_at m p) \<and> node_index ci \<le> h)"
| "pc_inv rp m P (D_pass p h _ _ ci) =
     (h < rq_head (ring_at m p) \<and> node_index ci \<le> h \<and> node_unsafe ci \<noteq> 0)"
| "pc_inv rp m P (D_skip p h _ _ ci) =
     (h < rq_head (ring_at m p) \<and> node_index ci \<le> h \<and> node_unsafe ci = 0)"
| "pc_inv rp m P (D_check p h) = (h < rq_head (ring_at m p))"
| "pc_inv rp m P (F_tail p) = True"
| "pc_inv rp m P (F_head p t) = True"
| "pc_inv rp m P (F_again p t h) = (h \<le> rq_head (ring_at m p))"
| "pc_inv rp m P (F_cas p t h) = (h \<le> rq_head (ring_at m p) \<and> t < h)"
| "pc_inv rp m P (D_next p) = True"

lemma snap_evol: "snap rp r t ie \<Longrightarrow> ring_evol rp r r' \<Longrightarrow> snap rp r' t ie"
  unfolding snap_def ring_evol_def cell_evol_def by (metis le_trans less_imp_le_nat le_refl)

lemma drawn_evol: "drawn r t \<Longrightarrow> ring_evol rp r r' \<Longrightarrow> drawn r' t"
  by (auto simp: drawn_def ring_evol_def)

lemma head_evol:
  "h < rq_head r \<Longrightarrow> ring_evol rp r r' \<Longrightarrow> h < rq_head r'"
  "h \<le> rq_head r \<Longrightarrow> ring_evol rp r r' \<Longrightarrow> h \<le> rq_head r'"
  by (auto simp: ring_evol_def word_less_nat_alt word_le_nat_alt)

lemma closed_evol: "crq_is_closed (rq_tail r) \<Longrightarrow> ring_evol rp r r' \<Longrightarrow> crq_is_closed (rq_tail r')"
  by (simp add: ring_evol_def)

lemma cell_no_mod: "h mod 2 ^ rp = t mod 2 ^ rp \<Longrightarrow> cell_no rp r h = cell_no rp r t"
  by (simp add: cell_no_def)

lemma stale_evol:
  assumes st: "stale rp r P t ie" and sn: "snap rp r t ie" and ev: "ring_evol rp r r'"
    and le: "node_index ie \<le> t" and new: "\<And>h. P' h \<Longrightarrow> P h \<or> left_cell (cell_no rp r' h) h"
  shows "stale rp r' P' t ie"
  unfolding stale_def
proof (intro allI impI)
  fix h assume h: "unat t \<le> h \<and> h mod 2 ^ rp = unat t mod 2 ^ rp \<and> P' h"
  let ?c = "cell_no rp r (unat t)" and ?c' = "cell_no rp r' (unat t)"
  have same: "cell_no rp r' h = ?c'" using h by (intro cell_no_mod) simp
  have evo: "cell_evol ?c ?c'" using ev by (simp add: ring_evol_def)
  from new [of h] h same consider "P h" | "left_cell ?c' h" by auto
  then show "unat (node_index ie) < nidx ?c' \<or> occupied ?c'"
  proof cases
    case 1
    then have "unat (node_index ie) < nidx ?c \<or> occupied ?c" using st h by (auto simp: stale_def)
    then show ?thesis using evo sn by (auto simp: cell_evol_def snap_def)
  next
    case 2
    then show ?thesis using h le by (auto simp: left_cell_def word_le_nat_alt)
  qed
qed

lemma pc_inv_evol:
  assumes "pc_inv rp m P c"
    and "\<And>p. p \<in> refs c \<Longrightarrow> ring_evol rp (ring_at m p) (ring_at m' p)"
    and "\<And>p h. p \<in> refs c \<Longrightarrow> P' p h \<Longrightarrow> P p h \<or> left_cell (cell_no rp (ring_at m' p) h) h"
  shows "pc_inv rp m' P' c"
  using assms
  by (cases c) (auto intro: snap_evol drawn_evol head_evol closed_evol stale_evol)


section \<open>The invariant\<close>

definition ring_wf :: "nat \<Rightarrow> nat \<Rightarrow> RingQueue \<Rightarrow> bool" where
  "ring_wf rp T r \<longleftrightarrow>
     length (rq_array r) = 2 ^ rp \<and> unat (rq_head r) \<le> T \<and> unat (tail_index (rq_tail r)) \<le> T \<and>
     (\<forall>j. nidx (cell_no rp r j) mod 2 ^ rp = j mod 2 ^ rp)"

text \<open>A ring that is still private to the thread that allocated it.\<close>

definition priv_ring :: "nat \<Rightarrow> RingQueue \<Rightarrow> bool" where
  "priv_ring rp r \<longleftrightarrow>
     length (rq_array r) = 2 ^ rp \<and> rq_head r = 0 \<and> rq_next r = None \<and>
     (\<forall>j < 2 ^ rp. rn_idx (rq_array r ! j) = of_nat j \<and> (0 < j \<longrightarrow> rn_val (rq_array r ! j) = EMPTY))"

fun own_ok :: "mem \<Rightarrow> ring_ptr option \<Rightarrow> pc \<Rightarrow> bool" where
  "own_ok m nrq (E_solo a p tc) = (nrq \<noteq> None)"
| "own_ok m nrq (E_link a p tc) =
     (case nrq of None \<Rightarrow> False
      | Some q \<Rightarrow> rq_tail (ring_at m q) = 1 \<and> rn_val (rq_array (ring_at m q) ! 0) = a)"
| "own_ok m nrq c = True"

definition inv_rings :: "nat \<Rightarrow> cstate \<Rightarrow> bool" where
  "inv_rings rp s \<longleftrightarrow>
     public s 0 \<and> blocks_ok rp (pool (st_mem s)) \<and>
     (\<forall>p. public s p \<longrightarrow> ring_wf rp (st_time s) (st_ring s p)) \<and>
     (\<forall>p q. public s p \<and> rq_next (st_ring s p) = Some q \<longrightarrow>
        public s q \<and> crq_is_closed (rq_tail (st_ring s p)))"

definition inv_priv :: "nat \<Rightarrow> cstate \<Rightarrow> bool" where
  "inv_priv rp s \<longleftrightarrow>
     (\<forall>i q. st_nrq s i = Some q \<longrightarrow> q < length (rings (st_mem s)) \<and> priv_ring rp (st_ring s q)) \<and>
     (\<forall>i j q. st_nrq s i = Some q \<and> st_nrq s j = Some q \<longrightarrow> i = j)"

definition inv_pcs :: "nat \<Rightarrow> cstate \<Rightarrow> bool" where
  "inv_pcs rp s \<longleftrightarrow>
     (\<forall>i. pc_inv rp (st_mem s) (passed s) (st_pc s i) \<and> (\<forall>p \<in> refs (st_pc s i). public s p) \<and>
        own_ok (st_mem s) (st_nrq s i) (st_pc s i))"

definition inv_passed :: "nat \<Rightarrow> cstate \<Rightarrow> bool" where
  "inv_passed rp s \<longleftrightarrow>
     (\<forall>p h. public s p \<and> passed s p h \<longrightarrow> passed_cell (cell_no rp (st_ring s p) h) h)"

text \<open>No two threads hold the same ticket, and a ticket in hand has not been used.\<close>

definition tickets_ok :: "(nat \<Rightarrow> 'k option) \<Rightarrow> 'k set \<Rightarrow> bool" where
  "tickets_ok T K \<longleftrightarrow>
     (\<forall>i j x. T i = Some x \<longrightarrow> T j = Some x \<longrightarrow> i = j) \<and> (\<forall>i x. T i = Some x \<longrightarrow> x \<notin> K)"

lemma tickets_keep: "tickets_ok T K \<Longrightarrow> y = None \<or> y = T i \<Longrightarrow> tickets_ok (T(i := y)) K"
  by (auto simp: tickets_ok_def)

lemma tickets_draw: "tickets_ok T K \<Longrightarrow> \<forall>j. T j \<noteq> Some x \<Longrightarrow> x \<notin> K \<Longrightarrow> tickets_ok (T(i := Some x)) K"
  by (auto simp: tickets_ok_def)

lemma tickets_use: "tickets_ok T K \<Longrightarrow> T i = Some x \<Longrightarrow> tickets_ok (T(i := None)) (insert x K)"
  by (auto simp: tickets_ok_def)

definition keys :: "item list \<Rightarrow> (ring_ptr \<times> nat) set" where
  "keys xs = (\<lambda>(p, t, v). (p, t)) ` set xs"

definition inv_tickets :: "cstate \<Rightarrow> bool" where
  "inv_tickets s \<longleftrightarrow> tickets_ok (ticket \<circ> st_pc s) (keys (st_ins s))"

text \<open>The values that are in the cells of the linked rings.\<close>

definition holds :: "nat \<Rightarrow> RingQueue \<Rightarrow> nat \<Rightarrow> u64 \<Rightarrow> bool" where
  "holds rp r t v \<longleftrightarrow> v \<noteq> EMPTY \<and> nidx (cell_no rp r t) = t \<and> rn_val (cell_no rp r t) = v"

definition stored :: "nat \<Rightarrow> cstate \<Rightarrow> item set" where
  "stored rp s = {(p, t, v). public s p \<and> holds rp (st_ring s p) t v}"

definition log_ok :: "item list \<Rightarrow> item list \<Rightarrow> item set \<Rightarrow> bool" where
  "log_ok ins outs S \<longleftrightarrow>
     distinct (map (\<lambda>(p, t, v). (p, t)) ins) \<and> distinct outs \<and>
     set ins = set outs \<union> S \<and> set outs \<inter> S = {}"

definition inv_items :: "nat \<Rightarrow> cstate \<Rightarrow> bool" where
  "inv_items rp s \<longleftrightarrow>
     log_ok (st_ins s) (st_outs s) (stored rp s) \<and>
     (\<forall>(p, t) \<in> keys (st_ins s). public s p \<and> t < unat (tail_index (rq_tail (st_ring s p))))"

definition conc_inv :: "nat \<Rightarrow> cstate \<Rightarrow> bool" where
  "conc_inv rp s \<longleftrightarrow> inv_rings rp s \<and> inv_priv rp s \<and> inv_pcs rp s \<and> inv_passed rp s \<and>
     inv_tickets s \<and> inv_items rp s"

section \<open>A step that writes one linked ring\<close>

text \<open>
  Every step other than the three around the allocation of a ring replaces one linked ring \<open>p\<close>
  by \<open>r'\<close> (which may be what it was) and moves one program counter to \<open>c'\<close>.
\<close>

definition upd :: "cstate \<Rightarrow> nat \<Rightarrow> pc \<Rightarrow> ring_ptr \<Rightarrow> RingQueue \<Rightarrow> cstate" where
  "upd s i c' p r' = s\<lparr>st_mem := set_ring p r' (st_mem s), st_pc := (st_pc s)(i := c'),
     st_time := Suc (st_time s)\<rparr>"

lemma upd_simps [simp]:
  "st_mem (upd s i c' p r') = set_ring p r' (st_mem s)" "st_nrq (upd s i c' p r') = st_nrq s"
  "st_pc (upd s i c' p r') = (st_pc s)(i := c')" "st_ins (upd s i c' p r') = st_ins s"
  "st_outs (upd s i c' p r') = st_outs s" "st_time (upd s i c' p r') = Suc (st_time s)"
  "public (upd s i c' p r') = public s"
  by (simp_all add: upd_def public_def fun_eq_iff)

lemma st_ring_upd:
  "public s p \<Longrightarrow> ring_at (set_ring p r' (st_mem s)) q = (if q = p then r' else st_ring s q)"
  by (auto simp: public_def)

lemma ring_wf_mono: "ring_wf rp T r \<Longrightarrow> T \<le> T' \<Longrightarrow> ring_wf rp T' r"
  by (auto simp: ring_wf_def)

lemma public_not_nrq: "public s p \<Longrightarrow> st_nrq s i \<noteq> Some p"
  by (auto simp: public_def priv_def)

lemma upd_rings:
  assumes "inv_rings rp s" "public s p" "ring_wf rp (Suc (st_time s)) r'"
    and "rq_next r' = rq_next (st_ring s p)" "ring_evol rp (st_ring s p) r'"
  shows "inv_rings rp (upd s i c' p r')"
  using assms
  by (auto simp: inv_rings_def st_ring_upd ring_evol_def intro: ring_wf_mono)

lemma upd_priv:
  assumes "inv_priv rp s" "public s p"
  shows "inv_priv rp (upd s i c' p r')"
  using assms by (auto simp: inv_priv_def st_ring_upd public_not_nrq)

lemma own_ok_upd:
  "own_ok (st_mem s) (st_nrq s j) c \<Longrightarrow> public s p \<Longrightarrow> own_ok (set_ring p r' (st_mem s)) (st_nrq s j) c"
  by (cases c) (auto simp: st_ring_upd public_not_nrq split: option.splits)

text \<open>The new passed tickets are those that the stepping thread has just given up.\<close>

definition gives_up :: "nat \<Rightarrow> cstate \<Rightarrow> nat \<Rightarrow> pc \<Rightarrow> ring_ptr \<Rightarrow> RingQueue \<Rightarrow> bool" where
  "gives_up rp s i c' p r' \<longleftrightarrow>
     (\<forall>q h. passed (upd s i c' p r') q h \<longrightarrow>
        passed s q h \<or> q = p \<and> left_cell (cell_no rp r' h) h)"

lemma upd_pcs:
  assumes inv: "inv_pcs rp s" and p: "public s p" and evo: "ring_evol rp (st_ring s p) r'"
    and up: "gives_up rp s i c' p r'"
    and c': "pc_inv rp (set_ring p r' (st_mem s)) (passed (upd s i c' p r')) c'"
      "\<forall>q \<in> refs c'. public s q" "own_ok (set_ring p r' (st_mem s)) (st_nrq s i) c'"
  shows "inv_pcs rp (upd s i c' p r')"
  unfolding inv_pcs_def
proof (intro allI conjI)
  fix j
  let ?s = "upd s i c' p r'"
  have old: "pc_inv rp (st_mem s) (passed s) (st_pc s j)" "\<forall>q \<in> refs (st_pc s j). public s q"
    "own_ok (st_mem s) (st_nrq s j) (st_pc s j)"
    using inv by (auto simp: inv_pcs_def)
  have "pc_inv rp (st_mem ?s) (passed ?s) (st_pc s j)"
    using old(1)
  proof (rule pc_inv_evol)
    show "ring_evol rp (st_ring s q) (st_ring ?s q)" for q
      using evo p by (simp add: st_ring_upd)
    show "passed s q h \<or> left_cell (cell_no rp (st_ring ?s q) h) h" if "passed ?s q h" for q h
      using that up p by (auto simp: gives_up_def st_ring_upd)
  qed
  then show "pc_inv rp (st_mem ?s) (passed ?s) (st_pc ?s j)"
    using c'(1) by simp
  show "\<forall>q \<in> refs (st_pc ?s j). public ?s q" using old(2) c'(2) by simp
  show "own_ok (st_mem ?s) (st_nrq ?s j) (st_pc ?s j)"
    using old(3) c'(3) p by (simp add: own_ok_upd)
qed

lemma upd_passed:
  assumes inv: "inv_passed rp s" and p: "public s p" and up: "gives_up rp s i c' p r'"
    and keep: "\<And>h. passed s p h \<Longrightarrow> passed_cell (cell_no rp (st_ring s p) h) h \<Longrightarrow>
      passed_cell (cell_no rp r' h) h"
  shows "inv_passed rp (upd s i c' p r')"
  unfolding inv_passed_def
proof (intro allI impI)
  let ?s = "upd s i c' p r'"
  fix q h assume qh: "public ?s q \<and> passed ?s q h"
  then have "passed s q h \<or> q = p \<and> left_cell (cell_no rp r' h) h"
    using up by (auto simp: gives_up_def)
  then show "passed_cell (cell_no rp (st_ring ?s q) h) h"
  proof
    assume "passed s q h"
    moreover from this have "passed_cell (cell_no rp (st_ring s q) h) h"
      using inv qh by (auto simp: inv_passed_def)
    ultimately show ?thesis using keep [of h] p by (cases "q = p") (simp_all add: st_ring_upd)
  next
    assume "q = p \<and> left_cell (cell_no rp r' h) h"
    then show ?thesis using p by (simp add: st_ring_upd left_passed)
  qed
qed

lemma ticket_upd: "ticket \<circ> (pcs(i := c')) = (ticket \<circ> pcs)(i := ticket c')"
  by (rule fun_upd_comp)

lemma upd_tickets:
  assumes "inv_tickets s" "ticket c' = None \<or> ticket c' = ticket (st_pc s i)"
  shows "inv_tickets (upd s i c' p r')"
  using assms by (simp add: inv_tickets_def ticket_upd tickets_keep)

text \<open>A step that does not change which values are in the ring.\<close>

lemma upd_items:
  assumes inv: "inv_items rp s" and p: "public s p" and evo: "ring_evol rp (st_ring s p) r'"
    and same: "\<And>t v. holds rp r' t v = holds rp (st_ring s p) t v"
  shows "inv_items rp (upd s i c' p r')"
proof -
  have "stored rp (upd s i c' p r') = stored rp s"
    using p same by (auto simp: stored_def st_ring_upd split: if_splits)
  moreover have "t < unat (tail_index (rq_tail (ring_at (set_ring p r' (st_mem s)) q)))"
    if "t < unat (tail_index (rq_tail (st_ring s q)))" for q t
    using that p evo by (auto simp: st_ring_upd ring_evol_def)
  ultimately show ?thesis
    using inv unfolding inv_items_def by auto
qed

lemma upd_inv:
  assumes inv: "conc_inv rp s" and p: "public s p"
    and wf: "ring_wf rp (Suc (st_time s)) r'" and nx: "rq_next r' = rq_next (st_ring s p)"
    and evo: "ring_evol rp (st_ring s p) r'" and up: "gives_up rp s i c' p r'"
    and c': "pc_inv rp (set_ring p r' (st_mem s)) (passed (upd s i c' p r')) c'"
      "\<forall>q \<in> refs c'. public s q" "own_ok (set_ring p r' (st_mem s)) (st_nrq s i) c'"
    and keep: "\<And>h. passed s p h \<Longrightarrow> passed_cell (cell_no rp (st_ring s p) h) h \<Longrightarrow>
      passed_cell (cell_no rp r' h) h"
    and tk: "inv_tickets (upd s i c' p r')"
    and same: "\<And>t v. holds rp r' t v = holds rp (st_ring s p) t v"
  shows "conc_inv rp (upd s i c' p r')"
  using inv unfolding conc_inv_def
  by (intro conjI upd_rings [OF _ p wf nx evo] upd_priv [OF _ p] upd_pcs [OF _ p evo up c']
      upd_passed [OF _ p up keep] tk upd_items [OF _ p evo same]) auto

text \<open>A step that only reads.\<close>

definition goto :: "cstate \<Rightarrow> nat \<Rightarrow> pc \<Rightarrow> cstate" where
  "goto s i c' = s\<lparr>st_pc := (st_pc s)(i := c'), st_time := Suc (st_time s)\<rparr>"

lemma set_ring_same [simp]: "set_ring p (ring_at m p) m = m"
  by (simp add: set_ring_def ring_at_def)

lemma goto_upd: "goto s i c' = upd s i c' p (st_ring s p)"
  by (simp add: goto_def upd_def)

lemma dticket_refs: "dticket c = Some (p, h) \<Longrightarrow> p \<in> refs c"
  by (cases c) auto

lemma gives_up_same:
  assumes "dticket c' = dticket (st_pc s i) \<or> dticket (st_pc s i) = None \<or>
      (\<exists>h. dticket (st_pc s i) = Some (p, h) \<and> left_cell (cell_no rp r' h) h)"
    and "rq_head r' = rq_head (st_ring s p)" "public s p"
  shows "gives_up rp s i c' p r'"
  unfolding gives_up_def passed_in_def
proof (intro allI impI)
  fix q h
  assume a: "h < unat (rq_head (ring_at (st_mem (upd s i c' p r')) q)) \<and>
    (\<forall>j. dticket (st_pc (upd s i c' p r') j) \<noteq> Some (q, h))"
  have "h < unat (rq_head (st_ring s q))" using a assms(2,3) by (auto simp: st_ring_upd split: if_splits)
  moreover have "dticket (st_pc s j) \<noteq> Some (q, h)" if "j \<noteq> i" for j
    using a that by (auto dest: spec [of _ j])
  moreover have "dticket c' \<noteq> Some (q, h)" using a by (auto dest: spec [of _ i])
  ultimately show "h < unat (rq_head (st_ring s q)) \<and> (\<forall>i. dticket (st_pc s i) \<noteq> Some (q, h)) \<or>
      q = p \<and> left_cell (cell_no rp r' h) h"
    using assms(1) by (metis Pair_inject option.inject option.distinct(1))
qed

lemma quiet_inv:
  assumes inv: "conc_inv rp s"
    and c': "pc_inv rp (st_mem s) (passed (goto s i c')) c'"
      "\<forall>q \<in> refs c'. public s q" "own_ok (st_mem s) (st_nrq s i) c'"
    and tk: "ticket c' = None \<or> ticket c' = ticket (st_pc s i)"
    and left: "dticket c' = dticket (st_pc s i) \<or> dticket (st_pc s i) = None \<or>
      (\<exists>p h. dticket (st_pc s i) = Some (p, h) \<and> left_cell (cell_no rp (st_ring s p) h) h)"
  shows "conc_inv rp (goto s i c')"
proof -
  have pub: "public s 0" "\<And>q. q \<in> refs (st_pc s i) \<Longrightarrow> public s q"
    using inv by (auto simp: conc_inv_def inv_rings_def inv_pcs_def)
  obtain p where p: "public s p" "dticket c' = dticket (st_pc s i) \<or> dticket (st_pc s i) = None \<or>
      (\<exists>h. dticket (st_pc s i) = Some (p, h) \<and> left_cell (cell_no rp (st_ring s p) h) h)"
    using left pub dticket_refs by blast
  have "conc_inv rp (upd s i c' p (st_ring s p))"
  proof (rule upd_inv [OF inv p(1)])
    show "ring_wf rp (Suc (st_time s)) (st_ring s p)"
      using inv p(1) by (auto simp: conc_inv_def inv_rings_def intro: ring_wf_mono)
    show "gives_up rp s i c' p (st_ring s p)" using p by (intro gives_up_same) auto
    show "inv_tickets (upd s i c' p (st_ring s p))"
      using inv tk by (intro upd_tickets) (auto simp: conc_inv_def)
  qed (use c' in \<open>simp_all add: goto_def\<close>)
  then show ?thesis by (simp add: goto_upd [of s i c' p])
qed

end
