(* ===== verification/Thread_Steps.thy ===== *)
theory Thread_Steps
  imports Thread_Inv
begin

text \<open>
  Every action of the concurrent queue preserves the invariant of \<open>Thread_Inv\<close>: one lemma per
  kind of access (reads; the moves of a counter; the five compare-and-swaps on a cell; the
  allocation, the solo enqueue and the linking of a ring), composed in \<open>step_inv\<close>.
\<close>

section \<open>The steps that only read\<close>

fun reads :: "pc \<Rightarrow> bool" where
  "reads (E_faa _ _ _) = False" | "reads (E_alloc _ _ _) = False" | "reads (E_solo _ _ _) = False"
| "reads (E_link _ _ _) = False" | "reads (E_cas _ _ _ _ _) = False" | "reads (E_close _ _ _ _) = False"
| "reads (D_faa _) = False" | "reads (D_take _ _ _ _ _ _) = False" | "reads (D_mark _ _ _ _ _ _) = False"
| "reads (D_pass _ _ _ _ _) = False" | "reads (D_skip _ _ _ _ _) = False" | "reads (F_cas _ _ _) = False"
| "reads _ = True"

lemma ring_upd_same [simp]: "r\<lparr>rq_tail := rq_tail r\<rparr> = r" "r\<lparr>rq_head := rq_head r\<rparr> = r"
  "r\<lparr>rq_next := rq_next r\<rparr> = r"
  by simp_all

lemma tstep_reads:
  "reads c \<Longrightarrow> tstep rp c nrq m = (c', nrq', m', ev) \<Longrightarrow> nrq' = nrq \<and> m' = m \<and> ev = Tau"
  by (cases c) (auto simp: FAA64_def Let_def split: option.splits if_splits)

lemma inv_at:
  assumes "conc_inv rp s"
  shows "pc_inv rp (st_mem s) (passed s) (st_pc s i)" "p \<in> refs (st_pc s i) \<Longrightarrow> public s p"
    "own_ok (st_mem s) (st_nrq s i) (st_pc s i)"
    "public s p \<Longrightarrow> rq_next (st_ring s p) = Some q \<Longrightarrow> public s q"
    "public s 0"
    "public s p \<Longrightarrow> ring_wf rp (st_time s) (st_ring s p)"
  using assms by (auto simp: conc_inv_def inv_pcs_def inv_rings_def)

lemma head_read_stale:
  "stale rp (st_ring s p) (passed (goto s i c') p) t ie" if "rq_head (st_ring s p) < t"
  using that by (auto simp: stale_def passed_in_def goto_def word_less_nat_alt)

lemma quiet_step:
  assumes inv: "conc_inv rp s" and c: "st_pc s i = c" and r: "reads c"
    and st: "tstep rp c (st_nrq s i) (st_mem s) = (c', nrq', m', ev)"
  shows "conc_inv rp (goto s i c')"
proof (rule quiet_inv [OF inv])
  note at = inv_at(1) [OF inv, of i, unfolded c] inv_at(2) [OF inv, of _ i, unfolded c]
    inv_at(3) [OF inv, of i, unfolded c]
  show "\<forall>q \<in> refs c'. public s q"
    using st r at(2) inv_at(4) [OF inv]
    by (cases c) (auto simp: FAA64_def Let_def split: option.splits if_splits)
  show "own_ok (st_mem s) (st_nrq s i) c'"
    using st r at(3) by (cases c) (auto simp: FAA64_def Let_def split: option.splits if_splits)
  show "ticket c' = None \<or> ticket c' = ticket (st_pc s i)"
    using st r unfolding c by (cases c) (auto simp: FAA64_def Let_def split: option.splits if_splits)
  show "pc_inv rp (st_mem s) (passed (goto s i c')) c'"
    using st r at(1)
    by (cases c) (auto simp: FAA64_def Let_def snap_def cell_at_no nidx_def is_empty_def EMPTY_def
        not_less head_read_stale split: option.splits if_splits)
  show "dticket c' = dticket (st_pc s i) \<or> dticket (st_pc s i) = None \<or>
      (\<exists>p h. dticket (st_pc s i) = Some (p, h) \<and> left_cell (cell_no rp (st_ring s p) h) h)"
    using st r at(1) unfolding c
    by (cases c) (auto simp: FAA64_def Let_def snap_def left_cell_def word_less_nat_alt
        split: option.splits if_splits)
qed

section \<open>The steps that move a counter\<close>

lemma tail_index_split: "unat t = (if crq_is_closed t then 2 ^ 63 else 0) + unat (tail_index t)"
proof (cases "crq_is_closed t")
  case True
  then have "2 ^ 63 \<le> unat t" "unat t < 2 ^ 63 + 2 ^ 63"
    using unat_less_64 [of t] by (simp_all add: crq_is_closed_iff)
  then have "unat t mod 2 ^ 63 = unat t - 2 ^ 63" by (subst mod_if) simp
  then show ?thesis using True \<open>2 ^ 63 \<le> unat t\<close> by (simp add: unat_tail_index)
next
  case False
  then show ?thesis by (simp add: crq_is_closed_iff unat_tail_index)
qed

lemma tail_inc:
  assumes "unat (tail_index t) < 2 ^ 63 - 1"
  shows "unat (tail_index (t + 1)) = Suc (unat (tail_index t))" "crq_is_closed (t + 1) = crq_is_closed t"
proof -
  let ?b = "if crq_is_closed t then 2 ^ 63 else (0 :: nat)"
  have t: "unat t = ?b + unat (tail_index t)" by (rule tail_index_split)
  then have "unat t < 2 ^ 64 - 1" using assms by (auto split: if_splits)
  then have t1: "unat (t + 1) = ?b + Suc (unat (tail_index t))" using t by (simp add: unat_Suc_64)
  have mod: "((if b then N else 0) + y) mod N = y" if "y < N" for b and y N :: nat
    using that by simp
  have "unat (tail_index (t + 1)) = (?b + Suc (unat (tail_index t))) mod 2 ^ 63"
    by (simp only: unat_tail_index [of "t + 1"] t1)
  also have "\<dots> = Suc (unat (tail_index t))" using assms by (intro mod) simp
  finally show "unat (tail_index (t + 1)) = Suc (unat (tail_index t))" .
  show "crq_is_closed (t + 1) = crq_is_closed t"
    using assms by (auto simp: crq_is_closed_iff [of "t + 1"] t1)
qed

lemma tail_or_bit63:
  "tail_index (t OR bit63) = tail_index t" "crq_is_closed (t OR bit63)"
proof -
  show "tail_index (t OR bit63) = tail_index t"
    unfolding tail_index_def by (rule bit_word_eqI) (auto simp: bit_and_iff bit_or_iff bit_not_iff)
  show "crq_is_closed (t OR bit63)"
    using bit_63_iff [of "t OR bit63"] by (simp add: crq_is_closed_iff bit_or_iff)
qed

text \<open>The tail of ring \<open>p\<close> moves from \<open>rq_tail\<close> to \<open>tn\<close>, the cells stay.\<close>

lemma tail_step:
  assumes inv: "conc_inv rp s" and p: "public s p" "dticket (st_pc s i) = None"
    and tn_le: "unat (tail_index (rq_tail (st_ring s p))) \<le> unat (tail_index tn)"
      "crq_is_closed (rq_tail (st_ring s p)) \<Longrightarrow> crq_is_closed tn" "unat (tail_index tn) \<le> Suc (st_time s)"
    and c': "\<And>P. pc_inv rp (set_ring p (st_ring s p\<lparr>rq_tail := tn\<rparr>) (st_mem s)) P c'"
      "refs c' \<subseteq> {p}" "\<And>m nrq. own_ok m nrq c'"
    and tk: "inv_tickets (upd s i c' p (st_ring s p\<lparr>rq_tail := tn\<rparr>))"
  shows "conc_inv rp (upd s i c' p (st_ring s p\<lparr>rq_tail := tn\<rparr>))"
proof (rule upd_inv [OF inv p(1)])
  show "ring_wf rp (Suc (st_time s)) (st_ring s p\<lparr>rq_tail := tn\<rparr>)"
    using inv_at(6) [OF inv p(1)] tn_le(3) by (auto simp: ring_wf_def)
  show "ring_evol rp (st_ring s p) (st_ring s p\<lparr>rq_tail := tn\<rparr>)"
    using tn_le by (simp add: ring_evol_def)
  show "gives_up rp s i c' p (st_ring s p\<lparr>rq_tail := tn\<rparr>)"
    using p by (intro gives_up_same) auto
qed (use p c' tk in \<open>auto simp: holds_def\<close>)


lemma inv_bounds:
  assumes "conc_inv rp s" "st_time s < 2 ^ 62" "public s p"
  shows "unat (rq_head (st_ring s p)) < 2 ^ 62" "unat (tail_index (rq_tail (st_ring s p))) < 2 ^ 62"
    "unat (tail_index (rq_tail (st_ring s p))) \<le> st_time s" "unat (rq_head (st_ring s p)) \<le> st_time s"
    "length (rq_array (st_ring s p)) = 2 ^ rp"
  using inv_at(6) [OF assms(1,3)] assms(2) by (simp_all add: ring_wf_def)

lemma ticket_drawn:
  "pc_inv rp m P c \<Longrightarrow> ticket c = Some (p, t) \<Longrightarrow> t < unat (tail_index (rq_tail (ring_at m p)))"
  by (cases c) (auto simp: drawn_def)

lemma fresh_ticket:
  assumes inv: "conc_inv rp s" and "unat (tail_index (rq_tail (st_ring s p))) = t"
  shows "ticket (st_pc s j) \<noteq> Some (p, t)" "(p, t) \<notin> keys (st_ins s)"
proof -
  show "ticket (st_pc s j) \<noteq> Some (p, t)"
    using ticket_drawn [OF inv_at(1) [OF inv, of j], of p t] assms(2) by auto
  show "(p, t) \<notin> keys (st_ins s)"
    using inv assms(2) by (auto simp: conc_inv_def inv_items_def)
qed

lemma E_faa_inv:
  assumes inv: "conc_inv rp s" and T: "st_time s < 2 ^ 62" and c: "st_pc s i = E_faa a p tc"
    and st: "do_act rp (Step i) s = Some s'"
  shows "conc_inv rp s'"
proof -
  let ?r = "st_ring s p"
  let ?t = "rq_tail ?r"
  define c' where "c' = (if crq_is_closed ?t then E_alloc a p tc else E_idx a p tc ?t)"
  have p: "public s p" and a: "a \<noteq> EMPTY"
    using inv_at(1,2) [OF inv, where i = i] by (auto simp: c)
  note b = inv_bounds [OF inv T p]
  have inc: "unat (tail_index (?t + 1)) = Suc (unat (tail_index ?t))"
    "crq_is_closed (?t + 1) = crq_is_closed ?t"
    using b(2) by (simp_all add: tail_inc)
  have s': "s' = upd s i c' p (?r\<lparr>rq_tail := ?t + 1\<rparr>)"
    using st by (auto simp: c FAA64_def Let_def upd_def c'_def)
  show ?thesis unfolding s'
  proof (rule tail_step [OF inv p])
    show "inv_tickets (upd s i c' p (?r\<lparr>rq_tail := ?t + 1\<rparr>))"
    proof (cases "crq_is_closed ?t")
      case True
      then show ?thesis using inv by (intro upd_tickets) (auto simp: c'_def conc_inv_def)
    next
      case False
      then have "unat (tail_index ?t) = unat ?t" using tail_index_split [of ?t] by simp
      from fresh_ticket [OF inv this] False inv show ?thesis
        by (simp add: inv_tickets_def ticket_upd c'_def conc_inv_def tickets_draw)
    qed
    show "pc_inv rp (set_ring p (?r\<lparr>rq_tail := ?t + 1\<rparr>) (st_mem s)) P c'" for P
      using a p inc tail_index_split [of ?t] by (auto simp: c'_def st_ring_upd drawn_def)
  qed (use b inc c in \<open>auto simp: c'_def\<close>)
qed

lemma E_close_inv:
  assumes inv: "conc_inv rp s" and T: "st_time s < 2 ^ 62" and c: "st_pc s i = E_close a p tc t"
    and st: "do_act rp (Step i) s = Some s'"
  shows "conc_inv rp s'"
proof -
  let ?r = "st_ring s p"
  obtain ok tn where cl: "close_crq ?r t tc = (ok, ?r\<lparr>rq_tail := tn\<rparr>)"
    by (cases "close_crq ?r t tc") (auto simp: close_crq_def split: prod.splits)
  define c' where "c' = (if ok then E_alloc a p tc else E_next a p tc)"
  have p: "public s p" and a: "a \<noteq> EMPTY"
    using inv_at(1,2) [OF inv, where i = i] by (auto simp: c)
  note b = inv_bounds [OF inv T p]
  have tn: "tail_index tn = tail_index (rq_tail ?r)" "crq_is_closed (rq_tail ?r) \<longrightarrow> crq_is_closed tn"
      "ok \<longrightarrow> crq_is_closed tn"
    using cl by (auto simp: close_crq_def CAS64_def BIT_TEST_AND_SET_def tail_or_bit63 split: if_splits
        dest!: arg_cong [where f = rq_tail])
  have s': "s' = upd s i c' p (?r\<lparr>rq_tail := tn\<rparr>)"
    using st by (auto simp: c cl upd_def c'_def)
  show ?thesis unfolding s'
  proof (rule tail_step [OF inv p])
    show "inv_tickets (upd s i c' p (?r\<lparr>rq_tail := tn\<rparr>))"
      using inv by (intro upd_tickets) (auto simp: c'_def conc_inv_def)
    show "pc_inv rp (set_ring p (?r\<lparr>rq_tail := tn\<rparr>) (st_mem s)) P c'" for P
      using a p tn by (auto simp: c'_def st_ring_upd)
  qed (use b tn c in \<open>auto simp: c'_def\<close>)
qed

lemma F_cas_inv:
  assumes inv: "conc_inv rp s" and T: "st_time s < 2 ^ 62" and c: "st_pc s i = F_cas p t h"
    and st: "do_act rp (Step i) s = Some s'"
  shows "conc_inv rp s'"
proof -
  let ?r = "st_ring s p"
  let ?tn = "if rq_tail ?r = t then h else rq_tail ?r"
  define c' where "c' = (if rq_tail ?r = t then D_next p else F_tail p)"
  have p: "public s p" and h: "h \<le> rq_head ?r" "t < h"
    using inv_at(1,2) [OF inv, where i = i] by (auto simp: c)
  note b = inv_bounds [OF inv T p]
  have H: "unat h \<le> unat (rq_head ?r)" "unat t < unat h"
    using h by (simp_all add: word_le_nat_alt word_less_nat_alt)
  then have th: "\<not> crq_is_closed t" "\<not> crq_is_closed h"
    using b(1) by (simp_all add: crq_is_closed_iff)
  have ti: "unat (tail_index t) = unat t" "unat (tail_index h) = unat h"
    using th tail_index_split [of t] tail_index_split [of h] by simp_all
  have s': "s' = upd s i c' p (?r\<lparr>rq_tail := ?tn\<rparr>)"
    using st by (auto simp: c CAS64_def upd_def c'_def)
  show ?thesis unfolding s'
  proof (rule tail_step [OF inv p])
    show "inv_tickets (upd s i c' p (?r\<lparr>rq_tail := ?tn\<rparr>))"
      using inv by (intro upd_tickets) (auto simp: c'_def conc_inv_def)
  qed (use b ti th H c in \<open>auto simp: c'_def\<close>)
qed

text \<open>A dequeue draws the ticket \<open>rq_head\<close>: nobody has passed it yet.\<close>

lemma D_faa_inv:
  assumes inv: "conc_inv rp s" and T: "st_time s < 2 ^ 62" and c: "st_pc s i = D_faa p"
    and st: "do_act rp (Step i) s = Some s'"
  shows "conc_inv rp s'"
proof -
  let ?r = "st_ring s p"
  let ?h = "rq_head ?r"
  let ?r' = "?r\<lparr>rq_head := ?h + 1\<rparr>"
  have p: "public s p" using inv_at(2) [OF inv, where i = i] by (auto simp: c)
  note b = inv_bounds [OF inv T p]
  have inc: "unat (?h + 1) = Suc (unat ?h)" using b(1) by (intro unat_Suc_64) simp
  have s': "s' = upd s i (D_idx p ?h 0 0) p ?r'"
    using st by (auto simp: c FAA64_def Let_def upd_def)
  show ?thesis unfolding s'
  proof (rule upd_inv [OF inv p])
    show "ring_wf rp (Suc (st_time s)) ?r'"
      using inv_at(6) [OF inv p] inc by (simp add: ring_wf_def)
    show "ring_evol rp ?r ?r'" using inc by (simp add: ring_evol_def)
    show "gives_up rp s i (D_idx p ?h 0 0) p ?r'"
      unfolding gives_up_def passed_in_def
    proof (intro allI impI disjI1)
      fix q h
      assume h: "h < unat (rq_head (ring_at (st_mem (upd s i (D_idx p ?h 0 0) p ?r')) q)) \<and>
        (\<forall>j. dticket (st_pc (upd s i (D_idx p ?h 0 0) p ?r') j) \<noteq> Some (q, h))"
      then have "(q, h) \<noteq> (p, unat ?h)" by (auto dest: spec [of _ i])
      then have "h < unat (rq_head (st_ring s q))"
        using h p inc by (auto simp: st_ring_upd less_Suc_eq split: if_splits)
      moreover have "dticket (st_pc s j) \<noteq> Some (q, h)" for j
        using h c by (cases "j = i") (auto dest: spec [of _ j])
      ultimately show "h < unat (rq_head (st_ring s q)) \<and> (\<forall>i. dticket (st_pc s i) \<noteq> Some (q, h))"
        by simp
    qed
    show "pc_inv rp (set_ring p ?r' (st_mem s)) (passed (upd s i (D_idx p ?h 0 0) p ?r')) (D_idx p ?h 0 0)"
      using p inc by (simp add: st_ring_upd word_less_nat_alt)
    show "inv_tickets (upd s i (D_idx p ?h 0 0) p ?r')"
      using inv by (intro upd_tickets) (auto simp: conc_inv_def)
  qed (use p in \<open>auto simp: holds_def\<close>)
qed


section \<open>The steps that write a cell\<close>

lemma unsafe_or:
  assumes "unat y < 2 ^ 63"
  shows "node_index (node_unsafe x OR y) = y" "node_unsafe (node_unsafe x OR y) = node_unsafe x"
proof -
  have "\<not> bit y 63" using assms by (simp add: bit_63_iff)
  then show "node_index (node_unsafe x OR y) = y" "node_unsafe (node_unsafe x OR y) = node_unsafe x"
    unfolding node_index_def node_unsafe_def
    by (auto intro!: bit_word_eqI simp: bit_and_iff bit_or_iff bit_not_iff)
qed

lemma node_unsafe_node_index: "node_unsafe (node_index x) = 0" "node_index (node_index x) = node_index x"
  by (simp add: node_unsafe_eq_0 unat_node_index) (simp add: word_eq_unat unat_node_index)

lemma cell_CAS2_split:
  assumes "length (rq_array r) = 2 ^ rp"
  shows "cell_CAS2 rp t o1 o2 n1 n2 r =
    (if cell_no rp r (unat t) = \<lparr>rn_val = o1, rn_idx = o2\<rparr> then (True, set_cell rp t (n1, n2) r)
     else (False, r))"
proof (cases "cell_at rp r t")
  case (fields v x)
  then have "set_cell rp t (v, x) r = r" by (rule set_cell_same) simp
  then show ?thesis
    using fields by (auto simp: cell_CAS2_def CAS2_def cell_at_no)
qed

lemma cell_upd:
  assumes inv: "conc_inv rp s" and p: "public s p"
    and len: "length (rq_array (st_ring s p)) = 2 ^ rp"
    and evo: "cell_evol (cell_no rp (st_ring s p) (unat t)) \<lparr>rn_val = v, rn_idx = x\<rparr>"
    and md: "nidx \<lparr>rn_val = v, rn_idx = x\<rparr> mod 2 ^ rp = unat t mod 2 ^ rp"
    and keep: "\<And>h. h mod 2 ^ rp = unat t mod 2 ^ rp \<Longrightarrow> passed s p h \<Longrightarrow>
      passed_cell (cell_no rp (st_ring s p) (unat t)) h \<Longrightarrow> passed_cell \<lparr>rn_val = v, rn_idx = x\<rparr> h"
    and left: "dticket (st_pc s i) = None \<or>
      dticket (st_pc s i) = Some (p, unat t) \<and> left_cell \<lparr>rn_val = v, rn_idx = x\<rparr> (unat t)"
    and c': "refs c' \<subseteq> {p}" "\<And>m nrq. own_ok m nrq c'" "dticket c' = None"
      "\<And>P. pc_inv rp (set_ring p (set_cell rp t (v, x) (st_ring s p)) (st_mem s)) P c'"
  defines "s' \<equiv> upd s i c' p (set_cell rp t (v, x) (st_ring s p))"
  shows "inv_rings rp s' \<and> inv_priv rp s' \<and> inv_pcs rp s' \<and> inv_passed rp s'"
proof -
  let ?r = "st_ring s p"
  let ?r' = "set_cell rp t (v, x) ?r"
  have cell: "cell_no rp ?r' h =
      (if h mod 2 ^ rp = unat t mod 2 ^ rp then \<lparr>rn_val = v, rn_idx = x\<rparr> else cell_no rp ?r h)" for h
    by (simp add: cell_no_set_cell len)
  have wf: "ring_wf rp (Suc (st_time s)) ?r'"
    using inv_at(6) [OF inv p] md by (auto simp: ring_wf_def cell)
  have ring_evo: "ring_evol rp (st_ring s p) ?r'"
  proof -
    have "cell_evol (cell_no rp ?r j) (cell_no rp ?r' j)" for j
      using evo by (simp add: cell cell_no_mod [of j rp "unat t"])
    then show ?thesis by (simp add: ring_evol_def)
  qed
  have up: "gives_up rp s i c' p ?r'"
    using left p by (intro gives_up_same) (auto simp: cell)
  have "passed_cell (cell_no rp ?r' h) h"
    if "passed s p h" "passed_cell (cell_no rp (st_ring s p) h) h" for h
    using keep [of h] that
    by (cases "h mod 2 ^ rp = unat t mod 2 ^ rp") (simp_all add: cell cell_no_mod [of h rp "unat t"])
  then have "inv_passed rp s'"
    unfolding s'_def using inv p up by (intro upd_passed) (auto simp: conc_inv_def)
  moreover have "inv_rings rp s'"
    unfolding s'_def using inv p wf ring_evo by (intro upd_rings) (auto simp: conc_inv_def)
  moreover have "inv_priv rp s'"
    unfolding s'_def using inv p by (intro upd_priv) (auto simp: conc_inv_def)
  moreover have "inv_pcs rp s'"
    unfolding s'_def using inv p ring_evo up c' by (intro upd_pcs) (auto simp: conc_inv_def)
  ultimately show ?thesis by blast
qed


lemma holds_set_cell:
  "length (rq_array r) = 2 ^ rp \<Longrightarrow>
     holds rp (set_cell rp t (v, x) r) u w =
       (if u mod 2 ^ rp = unat t mod 2 ^ rp
        then w \<noteq> EMPTY \<and> v = w \<and> nidx \<lparr>rn_val = v, rn_idx = x\<rparr> = u else holds rp r u w)"
  by (auto simp: holds_def cell_no_set_cell)

text \<open>What a write to one cell does to the set of stored values.\<close>

lemma stored_upd:
  "public s p \<Longrightarrow> (q, u, w) \<in> stored rp (upd s i c' p r') \<longleftrightarrow>
     (if q = p then holds rp r' u w else (q, u, w) \<in> stored rp s)"
  by (auto simp: stored_def st_ring_upd)

lemma stored_iff: "public s p \<Longrightarrow> (p, u, w) \<in> stored rp s \<longleftrightarrow> holds rp (st_ring s p) u w"
  by (simp add: stored_def)

lemma stored_eqI: "(\<And>q u w. (q, u, w) \<in> A \<longleftrightarrow> (q, u, w) \<in> B) \<Longrightarrow> A = B" for A B :: "item set"
  by (rule set_eqI) (auto simp: split_paired_all)

lemma stored_put:
  assumes p: "public s p" and len: "length (rq_array (st_ring s p)) = 2 ^ rp"
    and emp: "\<not> occupied (cell_no rp (st_ring s p) (unat t))" and "v \<noteq> EMPTY" "nidx \<lparr>rn_val = v, rn_idx = x\<rparr> = unat t"
  shows "stored rp (upd s i c' p (set_cell rp t (v, x) (st_ring s p))) = insert (p, unat t, v) (stored rp s)"
proof -
  have "\<not> holds rp (st_ring s p) u w" if "u mod 2 ^ rp = unat t mod 2 ^ rp" for u w
    using emp cell_no_mod [OF that] by (auto simp: holds_def occupied_def)
  note none = this
  show ?thesis
  proof (rule stored_eqI)
    fix q u w
    show "(q, u, w) \<in> stored rp (upd s i c' p (set_cell rp t (v, x) (st_ring s p))) \<longleftrightarrow>
        (q, u, w) \<in> insert (p, unat t, v) (stored rp s)"
      using assms none [of u w]
      by (cases "q = p"; cases "u mod 2 ^ rp = unat t mod 2 ^ rp")
        (auto simp: stored_upd [OF p] stored_iff [OF p] holds_set_cell [OF len])
  qed
qed

lemma stored_take:
  assumes p: "public s p" and len: "length (rq_array (st_ring s p)) = 2 ^ rp"
    and c: "cell_no rp (st_ring s p) (unat t) = \<lparr>rn_val = v, rn_idx = y\<rparr>"
    and y: "unat (node_index y) = unat t"
  shows "stored rp (upd s i c' p (set_cell rp t (EMPTY, x) (st_ring s p))) = stored rp s - {(p, unat t, v)}"
proof -
  have "u = unat t \<and> w = v" if "u mod 2 ^ rp = unat t mod 2 ^ rp" "holds rp (st_ring s p) u w" for u w
  proof -
    have "cell_no rp (st_ring s p) u = \<lparr>rn_val = v, rn_idx = y\<rparr>" using cell_no_mod [OF that(1)] c by simp
    then show ?thesis using that(2) y by (simp add: holds_def nidx_def)
  qed
  note only = this
  show ?thesis
  proof (rule stored_eqI)
    fix q u w
    show "(q, u, w) \<in> stored rp (upd s i c' p (set_cell rp t (EMPTY, x) (st_ring s p))) \<longleftrightarrow>
        (q, u, w) \<in> stored rp s - {(p, unat t, v)}"
      using p len only [of u w]
      by (cases "q = p"; cases "u mod 2 ^ rp = unat t mod 2 ^ rp")
        (auto simp: stored_upd [OF p] stored_iff [OF p] holds_set_cell [OF len])
  qed
qed

lemma stored_same:
  assumes p: "public s p" and len: "length (rq_array (st_ring s p)) = 2 ^ rp"
    and c: "cell_no rp (st_ring s p) (unat t) = \<lparr>rn_val = v, rn_idx = y\<rparr>"
    and same: "v = EMPTY \<or> node_index x = node_index y"
  shows "stored rp (upd s i c' p (set_cell rp t (v, x) (st_ring s p))) = stored rp s"
proof -
  have "holds rp (st_ring s p) u w \<longleftrightarrow> w \<noteq> EMPTY \<and> v = w \<and> nidx \<lparr>rn_val = v, rn_idx = x\<rparr> = u"
    if "u mod 2 ^ rp = unat t mod 2 ^ rp" for u w
  proof -
    have "cell_no rp (st_ring s p) u = \<lparr>rn_val = v, rn_idx = y\<rparr>" using cell_no_mod [OF that] c by simp
    then show ?thesis using same by (auto simp: holds_def nidx_def)
  qed
  note same_cell = this
  show ?thesis
  proof (rule stored_eqI)
    fix q u w
    show "(q, u, w) \<in> stored rp (upd s i c' p (set_cell rp t (v, x) (st_ring s p))) \<longleftrightarrow>
        (q, u, w) \<in> stored rp s"
      using p len same_cell [of u w]
      by (cases "q = p"; cases "u mod 2 ^ rp = unat t mod 2 ^ rp")
        (auto simp: stored_upd [OF p] stored_iff [OF p] holds_set_cell [OF len])
  qed
qed

lemma log_put:
  "log_ok ins outs S \<Longrightarrow> (p, t) \<notin> keys ins \<Longrightarrow> log_ok (ins @ [(p, t, v)]) outs (insert (p, t, v) S)"
  by (auto simp: log_ok_def keys_def) (metis (mono_tags) UnI1 case_prod_conv imageI)+

lemma log_take:
  "log_ok ins outs S \<Longrightarrow> x \<in> S \<Longrightarrow> log_ok ins (outs @ [x]) (S - {x})"
  by (auto simp: log_ok_def)

text \<open>A compare-and-swap on a cell that fails.\<close>

lemma cas_failed:
  assumes inv: "conc_inv rp s" and "st_pc s i = c" "reads c'"
    and "\<And>m P P'. pc_inv rp m P c \<Longrightarrow> pc_inv rp m P' c'" "refs c' = refs c" "\<And>m nrq. own_ok m nrq c'"
    and "ticket c' = None" "dticket c' = dticket c"
  shows "conc_inv rp (goto s i c')"
  using assms inv_at(1) [OF inv, of i] inv_at(2) [OF inv, of _ i]
  by (intro quiet_inv [OF inv]) auto


lemma log_inv_simps [simp]:
  "inv_rings rp (s\<lparr>st_ins := x\<rparr>) = inv_rings rp s" "inv_rings rp (s\<lparr>st_outs := x\<rparr>) = inv_rings rp s"
  "inv_priv rp (s\<lparr>st_ins := x\<rparr>) = inv_priv rp s" "inv_priv rp (s\<lparr>st_outs := x\<rparr>) = inv_priv rp s"
  "inv_pcs rp (s\<lparr>st_ins := x\<rparr>) = inv_pcs rp s" "inv_pcs rp (s\<lparr>st_outs := x\<rparr>) = inv_pcs rp s"
  "inv_passed rp (s\<lparr>st_ins := x\<rparr>) = inv_passed rp s" "inv_passed rp (s\<lparr>st_outs := x\<rparr>) = inv_passed rp s"
  "inv_tickets (s\<lparr>st_outs := x\<rparr>) = inv_tickets s"
  "stored rp (s\<lparr>st_ins := x\<rparr>) = stored rp s" "stored rp (s\<lparr>st_outs := x\<rparr>) = stored rp s"
  "public (s\<lparr>st_ins := x\<rparr>) = public s" "public (s\<lparr>st_outs := x\<rparr>) = public s"
  by (simp_all add: inv_rings_def inv_priv_def inv_pcs_def inv_passed_def inv_tickets_def stored_def
      public_def fun_eq_iff)

lemma keys_snoc [simp]: "keys (xs @ [(p, t, v)]) = insert (p, t) (keys xs)"
  by (auto simp: keys_def)

lemma unused_ticket: "conc_inv rp s \<Longrightarrow> ticket (st_pc s i) = Some x \<Longrightarrow> x \<notin> keys (st_ins s)"
  by (cases x) (auto simp: conc_inv_def inv_tickets_def tickets_ok_def)

text \<open>
  The compare-and-swap of an enqueue succeeds only on a cell whose dequeue with the same or a
  later ticket has not been passed: this is where the unsafe mark and the test of \<open>head\<close> meet.
\<close>

lemma put_keeps_passed:
  assumes c: "cell_no rp r (unat t) = \<lparr>rn_val = - 1, rn_idx = ie\<rparr>"
    and le: "node_index ie \<le> t" and st: "node_unsafe ie \<noteq> 0 \<longrightarrow> stale rp r P t ie"
    and n: "nidx n = unat t"
    and h: "h mod 2 ^ rp = unat t mod 2 ^ rp" "P h" "passed_cell (cell_no rp r (unat t)) h"
  shows "passed_cell n h"
proof (cases "unat t \<le> h")
  case True
  let ?c = "cell_no rp r (unat t)"
  have emp: "\<not> occupied ?c" "nidx ?c = unat (node_index ie)" "unsafe_cell ?c \<longleftrightarrow> node_unsafe ie \<noteq> 0"
    using c by (simp_all add: occupied_def EMPTY_def nidx_def unsafe_cell_def)
  then have "node_unsafe ie \<noteq> 0"
    using h(3) le True by (auto simp: passed_cell_def word_le_nat_alt)
  then show ?thesis using st h(1,2) True emp by (auto simp: stale_def)
next
  case False
  then show ?thesis by (simp add: passed_cell_def n)
qed

lemma E_cas_hit:
  assumes inv: "conc_inv rp s" and T: "st_time s < 2 ^ 62" and c: "st_pc s i = E_cas a p tc t ie"
    and hit: "cell_no rp (st_ring s p) (unat t) = \<lparr>rn_val = - 1, rn_idx = ie\<rparr>"
  shows "conc_inv rp ((upd s i (Idle None) p (set_cell rp t (a, t) (st_ring s p)))
    \<lparr>st_ins := st_ins s @ [(p, unat t, a)]\<rparr>)" (is "conc_inv rp (?u\<lparr>st_ins := _\<rparr>)")
proof -
  let ?r = "st_ring s p"
  let ?c = "cell_no rp ?r (unat t)" and ?n = "\<lparr>rn_val = a, rn_idx = t\<rparr>"
  have p: "public s p" and pc: "a \<noteq> EMPTY" "drawn ?r t" "node_index ie \<le> t"
    "node_unsafe ie \<noteq> 0 \<longrightarrow> stale rp ?r (passed s p) t ie"
    using inv_at(1,2) [OF inv, where i = i] by (auto simp: c)
  note b = inv_bounds [OF inv T p]
  have "unat t < 2 ^ 62" using pc(2) b(2) by (simp add: drawn_def)
  then have n: "nidx ?n = unat t" by (simp add: nidx_def node_index_small)
  have emp: "\<not> occupied ?c" using hit by (simp add: occupied_def EMPTY_def)
  have "inv_rings rp ?u \<and> inv_priv rp ?u \<and> inv_pcs rp ?u \<and> inv_passed rp ?u"
  proof (rule cell_upd [OF inv p b(5)])
    show "cell_evol ?c ?n"
      using pc(3) n hit by (auto simp: cell_evol_def word_le_nat_alt nidx_def occupied_def EMPTY_def)
  qed (use c n put_keeps_passed [OF hit pc(3,4) n] in auto)
  moreover have "inv_tickets (?u\<lparr>st_ins := st_ins s @ [(p, unat t, a)]\<rparr>)"
    using inv c tickets_use [of "ticket \<circ> st_pc s" _ i "(p, unat t)"]
    by (simp add: inv_tickets_def ticket_upd conc_inv_def)
  moreover have "inv_items rp (?u\<lparr>st_ins := st_ins s @ [(p, unat t, a)]\<rparr>)"
  proof -
    have "(p, unat t) \<notin> keys (st_ins s)" using unused_ticket [OF inv, of i] c by simp
    moreover have "inv_items rp s" using inv by (simp add: conc_inv_def)
    ultimately show ?thesis
      using stored_put [OF p b(5) emp pc(1) n, of i "Idle None"] p pc(2)
      by (auto simp: inv_items_def log_put st_ring_upd drawn_def)
  qed
  ultimately show ?thesis by (simp add: conc_inv_def)
qed

lemma E_cas_inv:
  assumes inv: "conc_inv rp s" and T: "st_time s < 2 ^ 62" and c: "st_pc s i = E_cas a p tc t ie"
    and st: "do_act rp (Step i) s = Some s'"
  shows "conc_inv rp s'"
proof -
  have "public s p" using inv_at(2) [OF inv, where i = i] by (auto simp: c)
  note len = inv_bounds(5) [OF inv T this]
  show ?thesis
  proof (cases "cell_no rp (st_ring s p) (unat t) = \<lparr>rn_val = - 1, rn_idx = ie\<rparr>")
    case False
    then have "s' = goto s i (E_full a p tc t)"
      using st by (auto simp: c cell_CAS2_split [OF len] goto_def)
    then show ?thesis using cas_failed [OF inv c, of "E_full a p tc t"] by simp
  next
    case True
    then have "s' = (upd s i (Idle None) p (set_cell rp t (a, t) (st_ring s p)))
        \<lparr>st_ins := st_ins s @ [(p, unat t, a)]\<rparr>"
      using st by (auto simp: c cell_CAS2_split [OF len] upd_def)
    then show ?thesis using E_cas_hit [OF inv T c True] by simp
  qed
qed

lemma new_index:
  assumes "unat h < 2 ^ 62" "rp < 62"
  shows "unat (h + RING_SIZE rp) = unat h + 2 ^ rp" "unat h + 2 ^ rp < 2 ^ 63"
proof -
  have "(2 :: nat) ^ rp \<le> 2 ^ 61" using assms(2) by (intro power_increasing) auto
  then show "unat h + 2 ^ rp < 2 ^ 63" using assms(1) by simp
  then show "unat (h + RING_SIZE rp) = unat h + 2 ^ rp"
    using assms(2) by (simp add: unat_add_64 unat_RING_SIZE)
qed

text \<open>A dequeue takes the value of its ticket.\<close>

lemma D_take_hit:
  assumes inv: "conc_inv rp s" and T: "st_time s < 2 ^ 62" "rp < 62"
    and c: "st_pc s i = D_take p h tt k ci v"
    and hit: "cell_no rp (st_ring s p) (unat h) = \<lparr>rn_val = v, rn_idx = ci\<rparr>"
  defines "x \<equiv> node_unsafe ci OR (h + RING_SIZE rp)"
  shows "conc_inv rp ((upd s i (Idle (Some v)) p (set_cell rp h (EMPTY, x) (st_ring s p)))
    \<lparr>st_outs := st_outs s @ [(p, unat h, v)]\<rparr>)" (is "conc_inv rp (?u\<lparr>st_outs := _\<rparr>)")
proof -
  let ?r = "st_ring s p"
  let ?c = "cell_no rp ?r (unat h)" and ?n = "\<lparr>rn_val = EMPTY, rn_idx = x\<rparr>"
  have p: "public s p" and pc: "h < rq_head ?r" "node_index ci = h" "v \<noteq> EMPTY"
    using inv_at(1,2) [OF inv, where i = i] by (auto simp: c)
  note b = inv_bounds [OF inv T(1) p]
  have "unat h < 2 ^ 62" using pc(1) b(1) by (simp add: word_less_nat_alt)
  note ni = new_index [OF this T(2)]
  have n: "nidx ?n = unat h + 2 ^ rp" "node_unsafe x = node_unsafe ci"
    using ni unsafe_or [of "h + RING_SIZE rp" ci] by (simp_all add: nidx_def x_def)
  have C: "nidx ?c = unat h" "occupied ?c" "unsafe_cell ?c \<longleftrightarrow> unsafe_cell ?n"
    using hit pc(2,3) n(2) by (simp_all add: nidx_def occupied_def unsafe_cell_def)
  have "inv_rings rp ?u \<and> inv_priv rp ?u \<and> inv_pcs rp ?u \<and> inv_passed rp ?u"
  proof (rule cell_upd [OF inv p b(5)])
    show "passed_cell ?n g" if "passed_cell ?c g" for g
      using that n(1) C by (auto simp: passed_cell_def occupied_def)
  qed (use c n C in \<open>auto simp: cell_evol_def left_cell_def\<close>)
  moreover have "inv_tickets ?u" using inv by (intro upd_tickets) (auto simp: conc_inv_def)
  moreover have "inv_items rp (?u\<lparr>st_outs := st_outs s @ [(p, unat h, v)]\<rparr>)"
  proof -
    have "(p, unat h, v) \<in> stored rp s"
      using p C pc(3) hit by (simp add: stored_def holds_def)
    moreover have "inv_items rp s" using inv by (simp add: conc_inv_def)
    ultimately show ?thesis
      using stored_take [OF p b(5) hit, of i "Idle (Some v)" x] p pc(2)
      by (auto simp: inv_items_def log_take st_ring_upd)
  qed
  ultimately show ?thesis by (simp add: conc_inv_def)
qed


lemma D_take_inv:
  assumes inv: "conc_inv rp s" and T: "st_time s < 2 ^ 62" "rp < 62"
    and c: "st_pc s i = D_take p h tt k ci v" and st: "do_act rp (Step i) s = Some s'"
  shows "conc_inv rp s'"
proof -
  have "public s p" using inv_at(2) [OF inv, where i = i] by (auto simp: c)
  note len = inv_bounds(5) [OF inv T(1) this]
  show ?thesis
  proof (cases "cell_no rp (st_ring s p) (unat h) = \<lparr>rn_val = v, rn_idx = ci\<rparr>")
    case False
    then have "s' = goto s i (D_idx p h tt k)"
      using st by (auto simp: c cell_CAS2_split [OF len] goto_def)
    then show ?thesis using cas_failed [OF inv c, of "D_idx p h tt k"] by simp
  next
    case True
    then have "s' = (upd s i (Idle (Some v)) p
        (set_cell rp h (EMPTY, node_unsafe ci OR (h + RING_SIZE rp)) (st_ring s p)))
        \<lparr>st_outs := st_outs s @ [(p, unat h, v)]\<rparr>"
      using st by (auto simp: c cell_CAS2_split [OF len] upd_def EMPTY_def)
    then show ?thesis using D_take_hit [OF inv T c True] by simp
  qed
qed

lemma dticket_head:
  "pc_inv rp m P c \<Longrightarrow> dticket c = Some (p, h) \<Longrightarrow> h < unat (rq_head (ring_at m p))"
  by (cases c) (auto simp: word_less_nat_alt)

text \<open>A dequeue gives up its ticket and leaves the values as they are.\<close>

lemma leave_hit:
  assumes inv: "conc_inv rp s" and p: "public s p" and len: "length (rq_array (st_ring s p)) = 2 ^ rp"
    and d: "dticket (st_pc s i) = Some (p, unat h)"
    and hit: "cell_no rp (st_ring s p) (unat h) = \<lparr>rn_val = v, rn_idx = y\<rparr>"
    and same: "v = EMPTY \<or> node_index x = node_index y"
    and evo: "cell_evol \<lparr>rn_val = v, rn_idx = y\<rparr> \<lparr>rn_val = v, rn_idx = x\<rparr>"
    and md: "nidx \<lparr>rn_val = v, rn_idx = x\<rparr> mod 2 ^ rp = unat h mod 2 ^ rp"
    and keep: "\<And>g. passed_cell \<lparr>rn_val = v, rn_idx = y\<rparr> g \<Longrightarrow> passed_cell \<lparr>rn_val = v, rn_idx = x\<rparr> g"
    and left: "left_cell \<lparr>rn_val = v, rn_idx = x\<rparr> (unat h)"
  shows "conc_inv rp (upd s i (D_check p h) p (set_cell rp h (v, x) (st_ring s p)))"
    (is "conc_inv rp ?u")
proof -
  have "h < rq_head (st_ring s p)"
    using dticket_head [OF inv_at(1) [OF inv, of i] d] by (simp add: word_less_nat_alt)
  then have "inv_rings rp ?u \<and> inv_priv rp ?u \<and> inv_pcs rp ?u \<and> inv_passed rp ?u"
    by (intro cell_upd [OF inv p len]) (use hit evo md keep left d p in \<open>auto simp: st_ring_upd\<close>)
  moreover have "inv_tickets ?u" using inv by (intro upd_tickets) (auto simp: conc_inv_def)
  moreover have "inv_items rp ?u"
    using inv stored_same [OF p len hit same, of i "D_check p h"] p
    by (auto simp: conc_inv_def inv_items_def st_ring_upd split: if_splits)
  ultimately show ?thesis by (simp add: conc_inv_def)
qed

lemma leave_inv:
  assumes inv: "conc_inv rp s" and T: "st_time s < 2 ^ 62" and p: "public s p"
    and c: "st_pc s i = c" "dticket c = Some (p, unat h)" "refs c = {p}"
    and pci: "\<And>m P P'. pc_inv rp m P c \<Longrightarrow> pc_inv rp m P' (D_idx p h tt k)"
    and ts: "tstep rp c (st_nrq s i) (st_mem s) =
      (let (ok, rg) = cell_CAS2 rp h v y v x (st_ring s p); m' = set_ring p rg (st_mem s)
       in if ok then (D_check p h, st_nrq s i, m', Tau) else (D_idx p h tt k, st_nrq s i, m', Tau))"
    and st: "do_act rp (Step i) s = Some s'"
    and hit: "cell_no rp (st_ring s p) (unat h) = \<lparr>rn_val = v, rn_idx = y\<rparr> \<Longrightarrow>
      conc_inv rp (upd s i (D_check p h) p (set_cell rp h (v, x) (st_ring s p)))"
  shows "conc_inv rp s'"
proof (cases "cell_no rp (st_ring s p) (unat h) = \<lparr>rn_val = v, rn_idx = y\<rparr>")
  note len = inv_bounds(5) [OF inv T p]
  case False
  then have "s' = goto s i (D_idx p h tt k)"
    using st ts by (auto simp: c(1) cell_CAS2_split [OF len] goto_def)
  then show ?thesis using cas_failed [OF inv c(1), of "D_idx p h tt k"] c(2,3) pci by simp
next
  note len = inv_bounds(5) [OF inv T p]
  case True
  then have "s' = upd s i (D_check p h) p (set_cell rp h (v, x) (st_ring s p))"
    using st ts by (auto simp: c(1) cell_CAS2_split [OF len] upd_def)
  then show ?thesis using hit [OF True] by simp
qed

lemma D_mark_inv:
  assumes inv: "conc_inv rp s" and T: "st_time s < 2 ^ 62"
    and c: "st_pc s i = D_mark p h tt k ci v" and st: "do_act rp (Step i) s = Some s'"
  shows "conc_inv rp s'"
proof -
  let ?x = "set_unsafe (node_index ci)"
  have p: "public s p" and pc: "node_index ci < h" "v \<noteq> EMPTY"
    using inv_at(1,2) [OF inv, where i = i] by (auto simp: c)
  have x: "node_index ?x = node_index ci" "node_unsafe ?x \<noteq> 0"
    by (simp_all add: node_index_set_unsafe node_unsafe_node_index set_unsafe_node_unsafe)
  note len = inv_bounds(5) [OF inv T p]
  have md: "nidx (cell_no rp (st_ring s p) (unat h)) mod 2 ^ rp = unat h mod 2 ^ rp"
    using inv_at(6) [OF inv p] by (simp add: ring_wf_def)
  show ?thesis
  proof (rule leave_inv [OF inv T p c _ _ _ _ st])
    assume hit: "cell_no rp (st_ring s p) (unat h) = \<lparr>rn_val = v, rn_idx = ci\<rparr>"
    show "conc_inv rp (upd s i (D_check p h) p (set_cell rp h (v, ?x) (st_ring s p)))"
      by (rule leave_hit [OF inv p len _ hit])
        (use c pc x md hit in \<open>auto simp: nidx_def cell_evol_def passed_cell_def left_cell_def
           occupied_def unsafe_cell_def word_less_nat_alt\<close>)
  qed auto
qed

lemma D_pass_inv:
  assumes inv: "conc_inv rp s" and T: "st_time s < 2 ^ 62" "rp < 62"
    and c: "st_pc s i = D_pass p h tt k ci" and st: "do_act rp (Step i) s = Some s'"
  shows "conc_inv rp s'"
proof -
  let ?x = "node_unsafe ci OR (h + RING_SIZE rp)"
  have p: "public s p" and pc: "node_index ci \<le> h" "node_unsafe ci \<noteq> 0" "h < rq_head (st_ring s p)"
    using inv_at(1,2) [OF inv, where i = i] by (auto simp: c)
  have "unat h < 2 ^ 62" using pc(3) inv_bounds(1) [OF inv T(1) p] by (simp add: word_less_nat_alt)
  note ni = new_index [OF this T(2)]
  have x: "unat (node_index ?x) = unat h + 2 ^ rp" "node_unsafe ?x = node_unsafe ci"
    using ni unsafe_or [of "h + RING_SIZE rp" ci] by simp_all
  show ?thesis
  proof (rule leave_inv [OF inv T(1) p c _ _ _ _ st])
    assume hit: "cell_no rp (st_ring s p) (unat h) = \<lparr>rn_val = - 1, rn_idx = ci\<rparr>"
    show "conc_inv rp (upd s i (D_check p h) p (set_cell rp h (- 1, ?x) (st_ring s p)))"
      by (rule leave_hit [OF inv p inv_bounds(5) [OF inv T(1) p] _ hit])
        (use c pc x in \<open>auto simp: nidx_def cell_evol_def passed_cell_def left_cell_def EMPTY_def
           occupied_def unsafe_cell_def word_le_nat_alt\<close>)
  qed auto
qed

lemma D_skip_inv:
  assumes inv: "conc_inv rp s" and T: "st_time s < 2 ^ 62" "rp < 62"
    and c: "st_pc s i = D_skip p h tt k ci" and st: "do_act rp (Step i) s = Some s'"
  shows "conc_inv rp s'"
proof -
  let ?x = "h + RING_SIZE rp"
  have p: "public s p" and pc: "node_index ci \<le> h" "h < rq_head (st_ring s p)"
    using inv_at(1,2) [OF inv, where i = i] by (auto simp: c)
  have "unat h < 2 ^ 62" using pc(2) inv_bounds(1) [OF inv T(1) p] by (simp add: word_less_nat_alt)
  note ni = new_index [OF this T(2)]
  have x: "unat (node_index ?x) = unat h + 2 ^ rp"
    using ni by (simp add: node_index_small)
  show ?thesis
  proof (rule leave_inv [OF inv T(1) p c _ _ _ _ st])
    assume hit: "cell_no rp (st_ring s p) (unat h) = \<lparr>rn_val = - 1, rn_idx = node_index ci\<rparr>"
    show "conc_inv rp (upd s i (D_check p h) p (set_cell rp h (- 1, ?x) (st_ring s p)))"
      by (rule leave_hit [OF inv p inv_bounds(5) [OF inv T(1) p] _ hit])
        (use c pc x in \<open>auto simp: nidx_def cell_evol_def passed_cell_def left_cell_def EMPTY_def
           occupied_def unsafe_cell_def word_le_nat_alt node_unsafe_node_index\<close>)
  qed auto
qed


section \<open>The steps that allocate and link a ring\<close>

text \<open>A step that changes no linked ring and hands out no ticket.\<close>

lemma priv_change:
  assumes inv: "conc_inv rp s" and pub: "public s' = public s"
    and rings: "\<And>p. public s p \<Longrightarrow> st_ring s' p = st_ring s p"
    and pcs: "st_pc s' = (st_pc s)(i := c')" "dticket (st_pc s i) = None" "dticket c' = None" "ticket c' = None"
    and logs: "st_ins s' = st_ins s" "st_outs s' = st_outs s" "st_time s' = Suc (st_time s)"
    and priv: "blocks_ok rp (pool (st_mem s'))" "inv_priv rp s'"
    and c': "refs c' \<subseteq> refs (st_pc s i)" "\<And>P. pc_inv rp (st_mem s') P c'"
    and own: "own_ok (st_mem s') (st_nrq s' i) c'"
      "\<And>j. j \<noteq> i \<Longrightarrow> own_ok (st_mem s') (st_nrq s' j) (st_pc s j)"
  shows "conc_inv rp s'"
proof -
  have pass: "passed s' p h \<longleftrightarrow> passed s p h" if "public s p" for p h
  proof -
    have "(\<forall>j. dticket (st_pc s' j) \<noteq> Some (p, h)) \<longleftrightarrow> (\<forall>j. dticket (st_pc s j) \<noteq> Some (p, h))"
      using pcs(1-3) by (auto split: if_splits) (metis option.distinct(1))
    then show ?thesis using rings [OF that] by (simp add: passed_in_def)
  qed
  have "inv_rings rp s'"
    using inv rings priv(1) logs(3) by (auto simp: conc_inv_def inv_rings_def pub intro: ring_wf_mono)
  moreover have "inv_passed rp s'"
    using inv rings pass by (auto simp: conc_inv_def inv_passed_def pub)
  moreover have "inv_pcs rp s'"
    unfolding inv_pcs_def
  proof (intro allI conjI)
    fix j
    have refs: "\<forall>q \<in> refs (st_pc s j). public s q" using inv_at(2) [OF inv] by blast
    have "pc_inv rp (st_mem s') (passed s') (st_pc s j)"
      by (rule pc_inv_evol [OF inv_at(1) [OF inv, of j]]) (use refs rings pass in auto)
    then show "pc_inv rp (st_mem s') (passed s') (st_pc s' j)" using c'(2) pcs(1) by simp
    show "\<forall>q \<in> refs (st_pc s' j). public s' q"
      using refs c'(1) inv_at(2) [OF inv, of _ i] by (auto simp: pcs(1) pub)
    show "own_ok (st_mem s') (st_nrq s' j) (st_pc s' j)" using own by (simp add: pcs(1))
  qed
  moreover have "inv_tickets s'"
    using inv pcs(4) by (simp add: conc_inv_def inv_tickets_def pcs(1) ticket_upd logs tickets_keep)
  moreover have "inv_items rp s'"
  proof -
    have "stored rp s' = stored rp s" using rings by (auto simp: stored_def pub)
    then show ?thesis using inv rings by (auto simp: conc_inv_def inv_items_def pub logs)
  qed
  ultimately show ?thesis using priv(2) by (simp add: conc_inv_def)
qed


lemma priv_ring_init: "length (rq_array b) = 2 ^ rp \<Longrightarrow> priv_ring rp (init_ring rp b)"
  by (simp add: priv_ring_def init_ring_def init_cells_nth EMPTY_def)

lemma priv_new: "nrq i = None \<Longrightarrow> priv (nrq(i := Some q)) = insert q (priv nrq)"
  by (auto simp: priv_def) (metis option.distinct(1))

lemma E_alloc_new:
  assumes inv: "conc_inv rp s" and c: "st_pc s i = E_alloc a p tc"
    and no: "st_nrq s i = None" and pool: "pool (st_mem s) = b # bs"
  shows "conc_inv rp (s\<lparr>st_mem := st_mem s\<lparr>pool := bs, rings := rings (st_mem s) @ [init_ring rp b]\<rparr>,
    st_pc := (st_pc s)(i := E_solo a p tc), st_nrq := (st_nrq s)(i := Some (length (rings (st_mem s)))),
    st_time := Suc (st_time s)\<rparr>)" (is "conc_inv rp ?s'")
proof (rule priv_change [OF inv])
  have priv: "inv_priv rp s" using inv by (simp add: conc_inv_def)
  have old: "q < length (rings (st_mem s))" "priv_ring rp (st_ring s q)" if "st_nrq s j = Some q" for j q
    using priv that by (auto simp: inv_priv_def)
  have ring: "ring_at (st_mem ?s') q =
      (if q = length (rings (st_mem s)) then init_ring rp b else st_ring s q)"
    if "q \<le> length (rings (st_mem s))" for q
    using that by (auto simp: ring_at_def nth_append)
  have blocks: "blocks_ok rp (b # bs)"
    using inv pool by (simp add: conc_inv_def inv_rings_def)
  show "public ?s' = public s"
    using no by (auto simp: public_def priv_new fun_eq_iff less_Suc_eq)
  show "st_ring ?s' q = st_ring s q" if "public s q" for q
    using ring [of q] that by (auto simp: public_def)
  show "blocks_ok rp (pool (st_mem ?s'))" using blocks by (simp add: blocks_ok_def)
  show "inv_priv rp ?s'"
    unfolding inv_priv_def
  proof (intro conjI allI impI)
    fix j q assume j: "st_nrq ?s' j = Some q"
    show "q < length (rings (st_mem ?s'))" using j old(1) [of j q] by (auto split: if_splits)
    show "priv_ring rp (st_ring ?s' q)"
      using j old [of j q] ring [of q] blocks
      by (auto simp: blocks_ok_def priv_ring_init split: if_splits)
  next
    fix j k q assume "st_nrq ?s' j = Some q \<and> st_nrq ?s' k = Some q"
    then show "j = k" using old(1) [of j q] old(1) [of k q] priv by (auto simp: inv_priv_def split: if_splits)
  qed
  have p: "public s p" "a \<noteq> EMPTY" "crq_is_closed (rq_tail (st_ring s p))"
    using inv_at(1,2) [OF inv, where i = i] by (auto simp: c)
  then show "pc_inv rp (st_mem ?s') P (E_solo a p tc)" for P
    using ring [of p] by (auto simp: public_def)
  show "own_ok (st_mem ?s') (st_nrq ?s' j) (st_pc s j)" if "j \<noteq> i" for j
    using inv_at(3) [OF inv, of j] that ring old(1) [of j]
    by (cases "st_pc s j") (auto split: option.splits simp: less_imp_le)
qed (use c in simp_all)

lemma E_alloc_inv:
  assumes inv: "conc_inv rp s" and c: "st_pc s i = E_alloc a p tc"
    and st: "do_act rp (Step i) s = Some s'"
  shows "conc_inv rp s'"
proof (cases "st_nrq s i")
  case None
  show ?thesis
  proof (cases "pool (st_mem s)")
    case Nil
    then have "s' = goto s i Crashed"
      using st None by (auto simp: c new_ring_def getMemory_def goto_def fun_upd_idem)
    then show ?thesis using quiet_inv [OF inv, of i Crashed] c by simp
  next
    case (Cons b bs)
    then show ?thesis
      using E_alloc_new [OF inv c None Cons] st None
      by (auto simp: c new_ring_def getMemory_def set_ring_def ring_at_def)
  qed
next
  case (Some q)
  then have "s' = goto s i (E_solo a p tc)" using st Some by (auto simp: c new_ring_def goto_def fun_upd_idem)
  then show ?thesis
    using quiet_inv [OF inv, of i "E_solo a p tc"] inv_at(1,2) [OF inv, where i = i] Some by (simp add: c)
qed

lemma priv_ring_solo:
  "priv_ring rp r \<Longrightarrow> priv_ring rp (solo_enqueue a r)"
  by (auto simp: priv_ring_def solo_enqueue_def nth_list_update)

lemma E_solo_inv:
  assumes inv: "conc_inv rp s" and c: "st_pc s i = E_solo a p tc"
    and st: "do_act rp (Step i) s = Some s'"
  shows "conc_inv rp s'"
proof -
  obtain q where q: "st_nrq s i = Some q" using inv_at(3) [OF inv, of i] c by auto
  let ?r = "solo_enqueue a (st_ring s q)"
  let ?s' = "s\<lparr>st_mem := set_ring q ?r (st_mem s), st_pc := (st_pc s)(i := E_link a p tc), st_time := Suc (st_time s)\<rparr>"
  have s': "s' = ?s'" using st q by (auto simp: c fun_upd_idem)
  have priv: "inv_priv rp s" using inv by (simp add: conc_inv_def)
  then have len: "q < length (rings (st_mem s))" "priv_ring rp (st_ring s q)"
    using q by (auto simp: inv_priv_def)
  have ring: "ring_at (set_ring q ?r (st_mem s)) x = (if x = q then ?r else st_ring s x)" for x
    using len by simp
  have notpub: "\<not> public s q" using q public_not_nrq by blast
  have p: "public s p" "a \<noteq> EMPTY" "crq_is_closed (rq_tail (st_ring s p))"
    using inv_at(1,2) [OF inv, where i = i] by (auto simp: c)
  show ?thesis unfolding s'
  proof (rule priv_change [OF inv])
    show "public ?s' = public s" by (simp add: public_def fun_eq_iff)
    show "st_ring ?s' x = st_ring s x" if "public s x" for x using that notpub ring by auto
    show "blocks_ok rp (pool (st_mem ?s'))" using inv by (simp add: conc_inv_def inv_rings_def)
    show "inv_priv rp ?s'"
      using priv len by (auto simp: inv_priv_def ring priv_ring_solo)
    show "pc_inv rp (st_mem ?s') P (E_link a p tc)" for P
      using p notpub by (auto simp: ring)
    have "0 < length (rq_array (st_ring s q))" using len(2) by (simp add: priv_ring_def)
    then show "own_ok (st_mem ?s') (st_nrq ?s' i) (E_link a p tc)"
      using q by (simp add: ring) (simp add: solo_enqueue_def)
    show "own_ok (st_mem ?s') (st_nrq ?s' j) (st_pc s j)" if "j \<noteq> i" for j
    proof -
      have "st_nrq s j \<noteq> Some q" using priv q that by (auto simp: inv_priv_def)
      then show ?thesis
        using inv_at(3) [OF inv, of j] by (cases "st_pc s j") (auto simp: ring split: option.splits)
    qed
  qed (use c in simp_all)
qed


text \<open>The ring that is linked holds exactly the value of the solo enqueue, with ticket 0.\<close>

lemma nidx_of_nat: "j < 2 ^ rp \<Longrightarrow> rp < 62 \<Longrightarrow> rn_idx c = of_nat j \<Longrightarrow> nidx c = j"
proof -
  assume j: "j < 2 ^ rp" "rp < 62" "rn_idx c = of_nat j"
  have "(2 :: nat) ^ rp \<le> 2 ^ 61" using j(2) by (intro power_increasing) auto
  then have "unat (of_nat j :: u64) = j" "j < 2 ^ 63" using j(1) by (simp_all add: unat_of_nat_64)
  then show ?thesis using j(3) by (simp add: nidx_def node_index_small)
qed

lemma linked_ring:
  assumes r: "priv_ring rp r" "rq_tail r = 1" "rn_val (rq_array r ! 0) = a" "a \<noteq> EMPTY" and rp: "rp < 62"
  shows "ring_wf rp (Suc T) r" and "holds rp r t v \<longleftrightarrow> t = 0 \<and> v = a"
proof -
  have cell: "nidx (cell_no rp r j) = j mod 2 ^ rp"
    "rn_val (cell_no rp r j) = (if j mod 2 ^ rp = 0 then a else EMPTY)" for j
    using r(1,3) nidx_of_nat [OF _ rp, of "j mod 2 ^ rp"] by (auto simp: priv_ring_def cell_no_def)
  have "unat (tail_index (1 :: u64)) = 1" by (simp add: unat_tail_index)
  then show "ring_wf rp (Suc T) r"
    using r(1,2) cell(1) by (simp add: ring_wf_def priv_ring_def)
  show "holds rp r t v \<longleftrightarrow> t = 0 \<and> v = a"
    using cell [of t] r(4) by (auto simp: holds_def split: if_splits)
qed

lemma ticket_refs: "ticket c = Some (p, t) \<Longrightarrow> p \<in> refs c"
  by (cases c) auto

definition link_state :: "cstate \<Rightarrow> nat \<Rightarrow> ring_ptr \<Rightarrow> ring_ptr \<Rightarrow> u64 \<Rightarrow> cstate" where
  "link_state s i p q a = s\<lparr>st_mem := set_ring p (st_ring s p\<lparr>rq_next := Some q\<rparr>) (st_mem s),
     st_pc := (st_pc s)(i := Idle None), st_nrq := (st_nrq s)(i := None),
     st_ins := st_ins s @ [(q, 0, a)], st_time := Suc (st_time s)\<rparr>"

lemma priv_release:
  assumes "nrq i = Some q" "\<And>j. nrq j = Some q \<Longrightarrow> j = i"
  shows "priv (nrq(i := None)) = priv nrq - {q}"
proof (rule set_eqI)
  fix x
  show "x \<in> priv (nrq(i := None)) \<longleftrightarrow> x \<in> priv nrq - {q}"
  proof
    assume "x \<in> priv (nrq(i := None))"
    then obtain j where "j \<noteq> i" "nrq j = Some x" by (auto simp: priv_def split: if_splits)
    then show "x \<in> priv nrq - {q}" using assms(2) [of j] by (auto simp: priv_def)
  next
    assume "x \<in> priv nrq - {q}"
    then obtain j where "nrq j = Some x" "x \<noteq> q" by (auto simp: priv_def)
    then have "(nrq(i := None)) j = Some x" using assms(1) by auto
    then show "x \<in> priv (nrq(i := None))" unfolding priv_def by blast
  qed
qed

lemma link_facts:
  assumes inv: "conc_inv rp s" and c: "st_pc s i = E_link a p tc" and q: "st_nrq s i = Some q"
  shows "public s p" "a \<noteq> EMPTY" "crq_is_closed (rq_tail (st_ring s p))" "priv_ring rp (st_ring s q)"
    "rq_tail (st_ring s q) = 1" "rn_val (rq_array (st_ring s q) ! 0) = a" "\<not> public s q"
    "st_ring (link_state s i p q a) x = (if x = p then st_ring s p\<lparr>rq_next := Some q\<rparr> else st_ring s x)"
    "public (link_state s i p q a) x \<longleftrightarrow> public s x \<or> x = q"
    "passed (link_state s i p q a) x h \<longleftrightarrow> passed s x h" "\<not> passed s q h"
proof -
  have priv: "inv_priv rp s" using inv by (simp add: conc_inv_def)
  show p: "public s p" "a \<noteq> EMPTY" "crq_is_closed (rq_tail (st_ring s p))"
    using inv_at(1,2) [OF inv, where i = i] by (auto simp: c)
  show r: "priv_ring rp (st_ring s q)" using priv q by (auto simp: inv_priv_def)
  have "own_ok (st_mem s) (Some q) (E_link a p tc)" using inv_at(3) [OF inv, of i] unfolding c q .
  then show "rq_tail (st_ring s q) = 1" "rn_val (rq_array (st_ring s q) ! 0) = a" by simp_all
  show "\<not> public s q" using q public_not_nrq by blast
  show mem: "st_ring (link_state s i p q a) x =
      (if x = p then st_ring s p\<lparr>rq_next := Some q\<rparr> else st_ring s x)" for x
    using p(1) by (simp add: link_state_def st_ring_upd)
  have "j = i" if "st_nrq s j = Some q" for j using priv q that by (auto simp: inv_priv_def)
  note uniq = this
  have "priv ((st_nrq s)(i := None)) = priv (st_nrq s) - {q}" using q uniq by (rule priv_release)
  moreover have "q < length (rings (st_mem s))" using priv q by (auto simp: inv_priv_def)
  ultimately show "public (link_state s i p q a) x \<longleftrightarrow> public s x \<or> x = q"
    by (auto simp: public_def link_state_def)
  have "dticket (st_pc (link_state s i p q a) j) = dticket (st_pc s j)" for j
    using c by (simp add: link_state_def)
  then show "passed (link_state s i p q a) x h \<longleftrightarrow> passed s x h"
    using mem [of x] by (auto simp: passed_in_def split: if_splits)
  show "\<not> passed s q h" using r by (simp add: passed_in_def priv_ring_def)
qed

lemma link_rings:
  assumes inv: "conc_inv rp s" and c: "st_pc s i = E_link a p tc" and q: "st_nrq s i = Some q" and rp: "rp < 62"
  shows "inv_rings rp (link_state s i p q a)" "inv_priv rp (link_state s i p q a)"
    "inv_passed rp (link_state s i p q a)" 
proof -
  note F = link_facts [OF inv c q]
  note lr = linked_ring [OF F(4,5,6,2) rp]
  have I: "inv_rings rp s" "inv_priv rp s" "inv_passed rp s" using inv by (simp_all add: conc_inv_def)
  have nx: "rq_next (st_ring s q) = None" using F(4) by (simp add: priv_ring_def)
  have wf: "ring_wf rp (Suc (st_time s)) (r\<lparr>rq_next := n\<rparr>) = ring_wf rp (Suc (st_time s)) r" for r n
    by (simp add: ring_wf_def)
  have "public (link_state s i p q a) 0" "blocks_ok rp (pool (st_mem (link_state s i p q a)))"
    using I(1) F(9) by (simp_all add: inv_rings_def link_state_def)
  moreover have "ring_wf rp (st_time (link_state s i p q a)) (st_ring (link_state s i p q a) x)"
    if "public (link_state s i p q a) x" for x
    using that I(1) F(7,8,9) lr(1) wf
    by (auto simp: inv_rings_def ring_wf_mono) (auto simp: link_state_def ring_wf_mono)
  moreover have "public (link_state s i p q a) y \<and> crq_is_closed (rq_tail (st_ring (link_state s i p q a) x))"
    if "public (link_state s i p q a) x" "rq_next (st_ring (link_state s i p q a) x) = Some y" for x y
    using that I(1) F(1,3,7,8,9) nx by (auto simp: inv_rings_def split: if_splits)
  ultimately show "inv_rings rp (link_state s i p q a)" by (auto simp: inv_rings_def)
  show "inv_priv rp (link_state s i p q a)"
    using I(2) F(1) by (auto simp: inv_priv_def link_state_def st_ring_upd public_not_nrq split: if_splits)
  show "inv_passed rp (link_state s i p q a)"
    using I(3) F(7-11) by (auto simp: inv_passed_def)
qed

lemma link_pcs:
  assumes inv: "conc_inv rp s" and c: "st_pc s i = E_link a p tc" and q: "st_nrq s i = Some q"
  shows "inv_pcs rp (link_state s i p q a)"
  unfolding inv_pcs_def
proof (intro allI conjI)
  note F = link_facts [OF inv c q]
  fix j
  let ?s' = "link_state s i p q a"
  have refs: "public s x" if "x \<in> refs (st_pc s j)" for x using inv_at(2) [OF inv that] .
  have evo: "ring_evol rp (st_ring s x) (st_ring ?s' x)" for x
    using F(8) by (simp add: ring_evol_def)
  have "pc_inv rp (st_mem ?s') (passed ?s') (st_pc s j)"
    using evo F(10) by (intro pc_inv_evol [OF inv_at(1) [OF inv, of j]]) auto
  then show "pc_inv rp (st_mem ?s') (passed ?s') (st_pc ?s' j)"
    by (cases "j = i") (auto simp: link_state_def)
  show "\<forall>x \<in> refs (st_pc ?s' j). public ?s' x"
    using refs F(9) by (auto simp: link_state_def split: if_splits)
  show "own_ok (st_mem ?s') (st_nrq ?s' j) (st_pc ?s' j)"
    using inv_at(3) [OF inv, of j] F(1) by (cases "j = i") (auto simp: link_state_def own_ok_upd)
qed

lemma link_logs:
  assumes inv: "conc_inv rp s" and c: "st_pc s i = E_link a p tc" and q: "st_nrq s i = Some q" and rp: "rp < 62"
  shows "inv_tickets (link_state s i p q a)" "inv_items rp (link_state s i p q a)"
proof -
  note F = link_facts [OF inv c q]
  note lr = linked_ring [OF F(4,5,6,2) rp]
  have nokey: "(q, t) \<notin> keys (st_ins s)" for t
    using inv F(7) by (auto simp: conc_inv_def inv_items_def)
  have "ticket (st_pc s j) \<noteq> Some (q, t)" for j t
    using ticket_refs [of "st_pc s j" q t] inv_at(2) [OF inv, of q j] F(7) by blast
  then show "inv_tickets (link_state s i p q a)"
    using inv by (auto simp: conc_inv_def inv_tickets_def link_state_def ticket_upd tickets_ok_def)
  have holds: "holds rp (r\<lparr>rq_next := n\<rparr>) = holds rp r" for r n
    by (simp add: holds_def fun_eq_iff)
  have "stored rp (link_state s i p q a) = insert (q, 0, a) (stored rp s)"
  proof (rule stored_eqI)
    fix x t v
    show "(x, t, v) \<in> stored rp (link_state s i p q a) \<longleftrightarrow> (x, t, v) \<in> insert (q, 0, a) (stored rp s)"
      using F(1,7) lr(2) [of t v] by (auto simp: stored_def F(8,9) holds)
  qed
  moreover have "unat (tail_index (1 :: u64)) = 1" by (simp add: unat_tail_index)
  moreover have "inv_items rp s" using inv by (simp add: conc_inv_def)
  ultimately show "inv_items rp (link_state s i p q a)"
    using nokey [of 0] F(1,5,7)
    by (auto simp: inv_items_def F(8,9)) (auto simp: link_state_def log_put)
qed

lemma E_link_inv:
  assumes inv: "conc_inv rp s" and rp: "rp < 62" and c: "st_pc s i = E_link a p tc"
    and st: "do_act rp (Step i) s = Some s'"
  shows "conc_inv rp s'"
proof -
  obtain q where q: "st_nrq s i = Some q"
    using inv_at(3) [OF inv, of i] c by (auto split: option.splits)
  show ?thesis
  proof (cases "rq_next (st_ring s p)")
    case None
    then have "s' = link_state s i p q a" using st q by (auto simp: c CAS64_def link_state_def)
    then show ?thesis
      using link_rings [OF inv c q rp] link_pcs [OF inv c q] link_logs [OF inv c q rp] by (simp add: conc_inv_def)
  next
    case (Some n)
    have same: "set_ring p (st_ring s p\<lparr>rq_next := Some n\<rparr>) (st_mem s) = st_mem s"
      by (simp add: Some [symmetric])
    have "s' = goto s i (E_next a p tc)"
      using st q Some by (auto simp: c CAS64_def goto_def fun_upd_idem same)
    then show ?thesis
      using quiet_inv [OF inv, of i "E_next a p tc"] inv_at(1,2) [OF inv, where i = i] by (simp add: c)
  qed
qed


section \<open>Every reachable state satisfies the invariant\<close>

lemma step_inv:
  assumes inv: "conc_inv rp s" and T: "st_time s < 2 ^ 62" "rp < 62"
    and st: "do_act rp a s = Some s'"
  shows "conc_inv rp s'"
proof (cases a)
  case (Call_enq i v)
  then have "s' = goto s i (E_next v 0 0)" "v \<noteq> EMPTY" "is_idle (st_pc s i)"
    using st by (auto simp: goto_def split: if_splits)
  then show ?thesis
    using quiet_inv [OF inv, of i "E_next v 0 0"] inv_at(5) [OF inv]
    by (cases "st_pc s i") (auto simp: is_idle_def)
next
  case (Call_deq i)
  then have "s' = goto s i (D_faa 0)" "is_idle (st_pc s i)"
    using st by (auto simp: goto_def split: if_splits)
  then show ?thesis
    using quiet_inv [OF inv, of i "D_faa 0"] inv_at(5) [OF inv]
    by (cases "st_pc s i") (auto simp: is_idle_def)
next
  case (Step i)
  then have st: "do_act rp (Step i) s = Some s'" using st by simp
  show ?thesis
  proof (cases "reads (st_pc s i)")
    case True
    obtain c' nrq' m' ev where ts: "tstep rp (st_pc s i) (st_nrq s i) (st_mem s) = (c', nrq', m', ev)"
      by (metis prod_cases4)
    with st tstep_reads [OF True ts] have "s' = goto s i c'" by (auto simp: goto_def)
    then show ?thesis using quiet_step [OF inv refl True ts] by simp
  next
    case False
    then show ?thesis
      using st E_faa_inv [OF inv T(1)] E_alloc_inv [OF inv] E_solo_inv [OF inv] E_link_inv [OF inv T(2)]
        E_cas_inv [OF inv T(1)] E_close_inv [OF inv T(1)] D_faa_inv [OF inv T(1)] D_take_inv [OF inv T]
        D_mark_inv [OF inv T(1)] D_pass_inv [OF inv T] D_skip_inv [OF inv T] F_cas_inv [OF inv T(1)]
      by (cases "st_pc s i") (auto simp del: do_act.simps)
  qed
qed

lemma init_inv:
  assumes "blocks_ok rp (b # bs)" "rp < 62"
  shows "conc_inv rp (conc_init rp b bs)"
proof -
  let ?s = "conc_init rp b bs"
  have len: "length (rq_array b) = 2 ^ rp" using assms(1) by (simp add: blocks_ok_def)
  have pub: "public ?s p \<longleftrightarrow> p = 0" for p by (auto simp: public_def priv_def conc_init_def)
  have ring: "st_ring ?s 0 = init_ring rp b" by (simp add: conc_init_def ring_at_def)
  have cell: "nidx (cell_no rp (init_ring rp b) j) = j mod 2 ^ rp" for j
    using nidx_of_nat [OF _ assms(2)] by (simp add: cell_no_init_ring [OF len])
  have "inv_rings rp ?s"
    using assms(1) cell len
    by (auto simp: inv_rings_def pub ring ring_wf_def unat_tail_index) (simp add: conc_init_def blocks_ok_def)
  moreover have "inv_priv rp ?s" "inv_pcs rp ?s" "inv_tickets ?s"
    by (simp_all add: conc_init_def inv_priv_def inv_pcs_def inv_tickets_def tickets_ok_def)
  moreover have "inv_passed rp ?s"
    by (auto simp: inv_passed_def pub passed_in_def ring)
  moreover have "stored rp ?s = {}"
    by (auto simp: stored_def pub ring holds_def cell_no_init_ring [OF len] EMPTY_def)
  then have "inv_items rp ?s" by (simp add: inv_items_def log_ok_def keys_def) (simp add: conc_init_def)
  ultimately show ?thesis by (simp add: conc_inv_def)
qed

lemma do_act_time: "do_act rp a s = Some s' \<Longrightarrow> st_time s' = Suc (st_time s)"
proof (cases a)
  case (Step i)
  have "st_time (log_event ev u) = st_time u" for ev u by (cases ev) auto
  then show "do_act rp a s = Some s' \<Longrightarrow> ?thesis" using Step by (auto split: prod.splits)
qed (auto split: if_splits)

lemma conc_reachable_inv:
  assumes "conc_reachable rp s" "rp < 62" "st_time s < 2 ^ 62"
  shows "conc_inv rp s"
  using assms
proof (induction rule: conc_reachable.induct)
  case (reach_init b bs)
  then show ?case by (simp add: init_inv)
next
  case (reach_act s a s')
  then show ?case using do_act_time [of rp a s s'] step_inv [of rp s a s'] by simp
qed

end
