(* ===== verification/Concurrent.thy ===== *)
theory Concurrent
  imports Thread_Steps
begin

text \<open>
  What the invariant of the concurrent queue says to its users: values are neither lost nor
  duplicated nor invented, no value is left behind, tickets are drawn in order, an empty answer
  has a reason, and rings are closed and linked once and for all. All statements hold in every
  state that any schedule of any number of threads reaches in fewer than \<open>2^62\<close> actions, so
  that no 63-bit counter has wrapped around, and for every ring size below \<open>2^62\<close> (the default is
  \<open>2^17\<close>).
\<close>

section \<open>Consequences of the invariant\<close>

text \<open>All occupied cells of the linked rings, with the index that is stored beside the value.\<close>

definition in_cells :: "cstate \<Rightarrow> item set" where
  "in_cells s = {(p, nidx c, rn_val c) | p c. public s p \<and> c \<in> set (rq_array (st_ring s p)) \<and> occupied c}"

lemma in_cells_stored:
  assumes inv: "conc_inv rp s"
  shows "in_cells s = stored rp s"
proof (rule stored_eqI)
  fix p t v
  show "(p, t, v) \<in> in_cells s \<longleftrightarrow> (p, t, v) \<in> stored rp s"
  proof
    assume "(p, t, v) \<in> in_cells s"
    then obtain j where j: "public s p" "j < length (rq_array (st_ring s p))"
      "t = nidx (rq_array (st_ring s p) ! j)" "v = rn_val (rq_array (st_ring s p) ! j)" "v \<noteq> EMPTY"
      by (auto simp: in_cells_def occupied_def in_set_conv_nth)
    have wf: "ring_wf rp (st_time s) (st_ring s p)" by (rule inv_at(6) [OF inv j(1)])
    then have "cell_no rp (st_ring s p) j = rq_array (st_ring s p) ! j"
      using j(2) by (simp add: ring_wf_def cell_no_def)
    moreover have "nidx (cell_no rp (st_ring s p) j) mod 2 ^ rp = j mod 2 ^ rp"
      using wf by (simp add: ring_wf_def)
    ultimately have "cell_no rp (st_ring s p) t = rq_array (st_ring s p) ! j"
      using j(3) cell_no_mod [of t rp j] by simp
    then show "(p, t, v) \<in> stored rp s" using j by (simp add: stored_def holds_def)
  next
    assume "(p, t, v) \<in> stored rp s"
    then have h: "public s p" "v \<noteq> EMPTY" "nidx (cell_no rp (st_ring s p) t) = t"
      "rn_val (cell_no rp (st_ring s p) t) = v" by (auto simp: stored_def holds_def)
    have "length (rq_array (st_ring s p)) = 2 ^ rp"
      using inv_at(6) [OF inv h(1)] by (simp add: ring_wf_def)
    then have "cell_no rp (st_ring s p) t \<in> set (rq_array (st_ring s p))" by (simp add: cell_no_def)
    then have "(p, nidx (cell_no rp (st_ring s p) t), rn_val (cell_no rp (st_ring s p) t)) \<in> in_cells s"
      using h unfolding in_cells_def occupied_def by blast
    then show "(p, t, v) \<in> in_cells s" using h by simp
  qed
qed

lemma stored_claimed:
  assumes inv: "conc_inv rp s" and x: "(p, t, v) \<in> stored rp s" and "t < unat (rq_head (st_ring s p))"
  shows "\<exists>i. dticket (st_pc s i) = Some (p, t)"
proof (rule ccontr)
  assume "\<not> ?thesis"
  then have "passed s p t" using assms(3) by (simp add: passed_in_def)
  moreover have "public s p" "nidx (cell_no rp (st_ring s p) t) = t" "occupied (cell_no rp (st_ring s p) t)"
    using x by (auto simp: stored_def holds_def occupied_def)
  moreover have "passed_cell (cell_no rp (st_ring s p) t) t"
    using inv calculation by (auto simp: conc_inv_def inv_passed_def)
  ultimately show False by (auto simp: passed_cell_def)
qed

lemma stored_drawn:
  assumes inv: "conc_inv rp s" and x: "(p, t, v) \<in> stored rp s"
  shows "t < unat (tail_index (rq_tail (st_ring s p)))"
proof -
  have items: "inv_items rp s" using inv by (simp add: conc_inv_def)
  then have "(p, t, v) \<in> set (st_ins s)" using x by (auto simp: inv_items_def log_ok_def)
  then have "(p, t) \<in> keys (st_ins s)" by (force simp: keys_def)
  then show ?thesis using items by (auto simp: inv_items_def)
qed

text \<open>Closing and linking are final.\<close>

lemma cas_frame [simp]:
  "rq_next (snd (cell_CAS2 rp t o1 o2 n1 n2 r)) = rq_next r"
  "rq_tail (snd (cell_CAS2 rp t o1 o2 n1 n2 r)) = rq_tail r"
  by (simp_all add: cell_CAS2_def Let_def split: prod.splits)

lemma close_frame [simp]: "rq_next (snd (close_crq r t k)) = rq_next r"
  by (simp add: close_crq_def split: prod.splits)

lemma conc_ring_at_set: "p < length (rings m) \<Longrightarrow> ring_at (set_ring q r m) p = (if p = q then r else ring_at m p)"
  by auto

lemma new_ring_frame:
  "new_ring rp nrq m = Some (x, m') \<Longrightarrow> p < length (rings m) \<Longrightarrow> ring_at m' p = ring_at m p"
  by (auto simp: new_ring_def getMemory_def set_ring_def ring_at_def nth_append
      split: option.splits list.splits)

lemma tstep_next:
  assumes "tstep rp c nrq m = (c', nrq', m', ev)" "p < length (rings m)" "nrq \<noteq> Some p"
    and "rq_next (ring_at m p) = Some q"
  shows "rq_next (ring_at m' p) = Some q"
  using assms
  by (cases c) (auto simp: Let_def split_beta conc_ring_at_set new_ring_frame FAA64_def CAS64_def
      split: option.splits if_splits)

lemma tail_final:
  assumes "conc_inv rp s" "st_time s < 2 ^ 62" "public s p" "crq_is_closed (rq_tail (st_ring s p))"
  shows "crq_is_closed (rq_tail (st_ring s p) + 1)"
    and "crq_is_closed (rq_tail (snd (close_crq (st_ring s p) t k)))"
  using tail_inc(2) [of "rq_tail (st_ring s p)"] inv_bounds(2) [OF assms(1-3)] assms(4)
  by (auto simp: close_crq_def CAS64_def BIT_TEST_AND_SET_def tail_or_bit63 split: if_splits)

lemma closed_stays:
  assumes inv: "conc_inv rp s" and T: "st_time s < 2 ^ 62" and p: "public s p"
    and ts: "tstep rp (st_pc s i) (st_nrq s i) (st_mem s) = (c', nrq', m', ev)"
    and cl: "crq_is_closed (rq_tail (st_ring s p))"
  shows "crq_is_closed (rq_tail (ring_at m' p))"
proof -
  have len: "p < length (rings (st_mem s))" and no: "st_nrq s i \<noteq> Some p"
    using p public_not_nrq by (auto simp: public_def)
  note fin = tail_final [OF inv T p cl]
  have "h \<le> rq_head (st_ring s p) \<Longrightarrow> \<not> rq_tail (st_ring s p) < h" for h
    using inv_bounds(1) [OF inv T p] cl
    by (auto simp: crq_is_closed_iff word_le_nat_alt word_less_nat_alt)
  then show ?thesis
    using ts len no cl fin inv_at(1) [OF inv, of i]
    by (cases "st_pc s i") (auto simp: Let_def split_beta conc_ring_at_set new_ring_frame FAA64_def CAS64_def
        split: option.splits if_splits)
qed

lemma log_event_mem [simp]: "st_mem (log_event ev s) = st_mem s"
  by (cases ev) auto

section \<open>Properties\<close>

text \<open>Runs for the witnesses: rings of two cells, one block left for a second ring.\<close>

definition blank :: RingQueue where
  "blank = \<lparr>rq_head = 0, rq_tail = 0, rq_next = None, rq_array = replicate 2 \<lparr>rn_val = 0, rn_idx = 0\<rparr>\<rparr>"

definition demo_run :: "act list \<Rightarrow> cstate option" where
  "demo_run as = run_acts 1 as (conc_init 1 blank [blank])"

text \<open>Thread \<open>i\<close> begins a call and takes \<open>n\<close> steps.\<close>

definition enq_for :: "nat \<Rightarrow> u64 \<Rightarrow> nat \<Rightarrow> act list" where
  "enq_for i a n = Call_enq i a # replicate n (Step i)"

definition deq_for :: "nat \<Rightarrow> nat \<Rightarrow> act list" where
  "deq_for i n = Call_deq i # replicate n (Step i)"

lemma run_acts_time: "run_acts rp as s = Some s' \<Longrightarrow> st_time s' = st_time s + length as"
  by (induction as arbitrary: s) (auto split: option.splits dest: do_act_time)

lemma demo_reach:
  assumes "demo_run as = Some s" "length as < 1000"
  shows "conc_reachable 1 s" "(1 :: nat) < 62" "st_time s < 2 ^ 62"
proof -
  have "conc_reachable 1 (conc_init 1 blank [blank])"
    by (rule reach_init) (simp add: blocks_ok_def blank_def)
  then show "conc_reachable 1 s" using assms(1) unfolding demo_run_def by (rule run_acts_reachable)
  show "st_time s < 2 ^ 62"
    using run_acts_time [of 1 as "conc_init 1 blank [blank]" s] assms by (simp add: demo_run_def conc_init_def)
qed simp

text \<open>A value that was enqueued and not dequeued is in a cell.\<close>

lemma demo_in_cells:
  assumes "demo_run as = Some s" "length as < 1000" "x \<in> set (st_ins s)" "x \<notin> set (st_outs s)"
  shows "x \<in> in_cells s"
proof -
  have inv: "conc_inv 1 s" using demo_reach [OF assms(1,2)] by (rule conc_reachable_inv)
  then have "set (st_ins s) = set (st_outs s) \<union> stored 1 s" by (simp add: conc_inv_def inv_items_def log_ok_def)
  then show ?thesis using assms(3,4) in_cells_stored [OF inv] by auto
qed

text \<open>
  (C3) Conservation. In every reachable state the values that were enqueued are exactly those that
  were dequeued and those that are in the cells of the linked rings, and nothing is both. Each
  ring and ticket is used for at most one enqueued value, and each value is dequeued at most
  once, with the ring and the ticket it was enqueued with. So concurrent enqueues and dequeues
  lose, duplicate and invent nothing.
\<close>

theorem queue_conserves_values:
  assumes "conc_reachable rp s" "rp < 62" "st_time s < 2 ^ 62"
  shows "set (st_ins s) = set (st_outs s) \<union> in_cells s \<and> set (st_outs s) \<inter> in_cells s = {} \<and>
    distinct (st_outs s) \<and> distinct (map (\<lambda>(p, t, v). (p, t)) (st_ins s))"
proof -
  have inv: "conc_inv rp s" using assms by (rule conc_reachable_inv)
  then have "inv_items rp s" by (simp add: conc_inv_def)
  then show ?thesis by (simp add: inv_items_def log_ok_def in_cells_stored [OF inv])
qed

theorem queue_conserves_values_witness:
  "\<exists>s. demo_run (enq_for 0 7 5 @ deq_for 1 4) = Some s \<and> st_outs s = [(0, 0, 7)] \<and>
     set (st_ins s) = set (st_outs s) \<union> in_cells s"
proof -
  have "case demo_run (enq_for 0 7 5 @ deq_for 1 4) of None \<Rightarrow> False | Some s \<Rightarrow> st_outs s = [(0, 0, 7)]"
    by code_simp
  then obtain s where s: "demo_run (enq_for 0 7 5 @ deq_for 1 4) = Some s" "st_outs s = [(0, 0, 7)]"
    by (auto split: option.splits)
  then show ?thesis
    using queue_conserves_values [OF demo_reach [OF s(1)]] by (auto simp: enq_for_def deq_for_def)
qed

text \<open>
  (C4) No value is left behind. A value in a cell has a ticket that no dequeue has drawn yet, or
  the dequeue that drew this ticket is still at work on this cell. The marks \<open>unsafe\<close> and the
  test \<open>rq->head < t\<close> of \<open>enq\<close> are there for this.
\<close>

theorem no_value_left_behind:
  assumes "conc_reachable rp s" "rp < 62" "st_time s < 2 ^ 62" "(p, t, v) \<in> in_cells s"
  shows "unat (rq_head (st_ring s p)) \<le> t \<or> (\<exists>i. dticket (st_pc s i) = Some (p, t))"
proof -
  have inv: "conc_inv rp s" using assms(1-3) by (rule conc_reachable_inv)
  then have "(p, t, v) \<in> stored rp s" using assms(4) by (simp add: in_cells_stored [OF inv])
  then show ?thesis using stored_claimed [OF inv] by (meson not_le)
qed

theorem no_value_left_behind_witness:
  "\<exists>s i. demo_run (enq_for 0 7 5 @ deq_for 1 1) = Some s \<and> dticket (st_pc s i) = Some (0, 0)"
proof -
  let ?as = "enq_for 0 7 5 @ deq_for 1 1"
  have "case demo_run ?as of None \<Rightarrow> False
    | Some s \<Rightarrow> st_ins s = [(0, 0, 7)] \<and> st_outs s = [] \<and> rq_head (st_ring s 0) = 1"
    by code_simp
  then obtain s where s: "demo_run ?as = Some s" "st_ins s = [(0, 0, 7)]" "st_outs s = []"
    "rq_head (st_ring s 0) = 1" by (auto split: option.splits)
  have len: "length ?as < 1000" by (simp add: enq_for_def deq_for_def)
  have "(0, 0, 7) \<in> in_cells s" using demo_in_cells [OF s(1) len] s(2,3) by simp
  from no_value_left_behind [OF demo_reach [OF s(1) len] this] show ?thesis using s by auto
qed

text \<open>
  A dequeue finds a ring empty for a reason. When the test \<open>tail_index(rq->tail) - 1 <= h\<close> after
  a fruitless dequeue succeeds, every value that is in the ring at that moment has a dequeue of
  another thread at work on it.
\<close>

theorem empty_ring_is_claimed:
  assumes "conc_reachable rp s" "rp < 62" "st_time s < 2 ^ 62" "st_pc s i = D_check p h"
    and "do_act rp (Step i) s = Some s'" "st_pc s' i = F_tail p" "(p, t, v) \<in> in_cells s"
  shows "\<exists>j. j \<noteq> i \<and> dticket (st_pc s j) = Some (p, t)"
proof -
  have inv: "conc_inv rp s" using assms(1-3) by (rule conc_reachable_inv)
  have x: "(p, t, v) \<in> stored rp s" using assms(7) by (simp add: in_cells_stored [OF inv])
  have le: "tail_index (rq_tail (st_ring s p)) - 1 \<le> h"
    using assms(4-6) by (auto split: if_splits)
  have h: "h < rq_head (st_ring s p)" using inv_at(1) [OF inv, of i] assms(4) by simp
  have tl: "t < unat (tail_index (rq_tail (st_ring s p)))" by (rule stored_drawn [OF inv x])
  then have "unat (1 :: u64) \<le> unat (tail_index (rq_tail (st_ring s p)))" by simp
  then have "unat (tail_index (rq_tail (st_ring s p)) - 1) = unat (tail_index (rq_tail (st_ring s p))) - 1"
    by (simp add: unat_diff_64)
  then have "t < unat (rq_head (st_ring s p))"
    using le h tl by (simp add: word_le_nat_alt word_less_nat_alt)
  then obtain j where "dticket (st_pc s j) = Some (p, t)" using stored_claimed [OF inv x] by blast
  then show ?thesis using assms(4) by (cases "j = i") auto
qed

theorem empty_ring_is_claimed_witness:
  "\<exists>s j. demo_run (enq_for 0 7 5 @ deq_for 1 1 @ deq_for 2 5) = Some s \<and>
     st_pc s 2 = D_check 0 1 \<and> j \<noteq> 2 \<and> dticket (st_pc s j) = Some (0, 0)"
proof -
  let ?as = "enq_for 0 7 5 @ deq_for 1 1 @ deq_for 2 5"
  have "case demo_run ?as of None \<Rightarrow> False
    | Some s \<Rightarrow> st_ins s = [(0, 0, 7)] \<and> st_outs s = [] \<and> st_pc s 2 = D_check 0 1 \<and>
        tail_index (rq_tail (st_ring s 0)) - 1 \<le> 1"
    by code_simp
  then obtain s where s: "demo_run ?as = Some s" "st_ins s = [(0, 0, 7)]" "st_outs s = []"
    "st_pc s 2 = D_check 0 1" "tail_index (rq_tail (st_ring s 0)) - 1 \<le> 1" by (auto split: option.splits)
  have len: "length ?as < 1000" by (simp add: enq_for_def deq_for_def)
  have v: "(0, 0, 7) \<in> in_cells s" using demo_in_cells [OF s(1) len] s(2,3) by simp
  obtain s' where "do_act 1 (Step 2) s = Some s'" "st_pc s' 2 = F_tail 0" using s(4,5) by simp
  from empty_ring_is_claimed [OF demo_reach [OF s(1) len] s(4) this v] show ?thesis using s by auto
qed

text \<open>
  (C5) Tickets follow time. A ticket that an enqueue draws from a ring is later than the ticket of
  every value enqueued in that ring so far, whether or not it has been dequeued, and different
  from the ticket of every other enqueue in progress.
\<close>

theorem tickets_in_order:
  assumes "conc_reachable rp s" "rp < 62" "st_time s < 2 ^ 62" "st_pc s i = E_faa a p tc"
    and "do_act rp (Step i) s = Some s'" "ticket (st_pc s' i) = Some (p, t)"
  shows "(\<forall>(q, u, v) \<in> set (st_ins s). q = p \<longrightarrow> u < t) \<and> (\<forall>j. ticket (st_pc s j) \<noteq> Some (p, t))"
proof -
  have inv: "conc_inv rp s" using assms(1-3) by (rule conc_reachable_inv)
  have t: "\<not> crq_is_closed (rq_tail (st_ring s p))" "t = unat (rq_tail (st_ring s p))"
    using assms(4-6) by (auto simp: FAA64_def Let_def split: if_splits)
  then have T: "unat (tail_index (rq_tail (st_ring s p))) = t" using tail_index_split [of "rq_tail (st_ring s p)"] by simp
  have "u < t" if "(p, u, v) \<in> set (st_ins s)" for u v
  proof -
    have "(p, u) \<in> keys (st_ins s)" using that by (force simp: keys_def)
    then show ?thesis using inv T by (auto simp: conc_inv_def inv_items_def)
  qed
  then show ?thesis using fresh_ticket(1) [OF inv T] by auto
qed

theorem tickets_in_order_witness:
  "\<exists>s s' t. demo_run (enq_for 0 7 5 @ enq_for 1 8 1) = Some s \<and> do_act 1 (Step 1) s = Some s' \<and>
     ticket (st_pc s' 1) = Some (0, t) \<and> 0 < t"
proof -
  let ?as = "enq_for 0 7 5 @ enq_for 1 8 1"
  have "case demo_run ?as of None \<Rightarrow> False
    | Some s \<Rightarrow> st_ins s = [(0, 0, 7)] \<and> st_pc s 1 = E_faa 8 0 0 \<and> \<not> crq_is_closed (rq_tail (st_ring s 0))"
    by code_simp
  then obtain s where s: "demo_run ?as = Some s" "st_ins s = [(0, 0, 7)]" "st_pc s 1 = E_faa 8 0 0"
    "\<not> crq_is_closed (rq_tail (st_ring s 0))" by (auto split: option.splits)
  have len: "length ?as < 1000" by (simp add: enq_for_def)
  obtain s' t where s': "do_act 1 (Step 1) s = Some s'" "ticket (st_pc s' 1) = Some (0, t)"
    using s(3,4) by (simp add: FAA64_def)
  from tickets_in_order [OF demo_reach [OF s(1) len] s(3) s'] show ?thesis using s s' by auto
qed

text \<open>
  Rings are closed and linked once. A ring with a successor is closed; a closed ring stays
  closed and a link never changes, whatever the threads do. So a chain of rings only grows at
  its end.
\<close>

theorem closing_is_final:
  assumes "conc_reachable rp s" "rp < 62" "st_time s < 2 ^ 62" "public s p"
    and "do_act rp (Step i) s = Some s'"
  shows "(rq_next (st_ring s p) \<noteq> None \<longrightarrow> crq_is_closed (rq_tail (st_ring s p)) \<and>
            rq_next (st_ring s' p) = rq_next (st_ring s p)) \<and>
         (crq_is_closed (rq_tail (st_ring s p)) \<longrightarrow> crq_is_closed (rq_tail (st_ring s' p)))"
proof -
  have inv: "conc_inv rp s" using assms(1-3) by (rule conc_reachable_inv)
  obtain c' nrq' m' ev where ts: "tstep rp (st_pc s i) (st_nrq s i) (st_mem s) = (c', nrq', m', ev)"
    by (metis prod_cases4)
  then have m: "st_mem s' = m'" using assms(5) by auto
  have "crq_is_closed (rq_tail (st_ring s p))" if "rq_next (st_ring s p) \<noteq> None"
    using inv assms(4) that by (auto simp: conc_inv_def inv_rings_def)
  moreover have "rq_next (st_ring s' p) = Some q" if "rq_next (st_ring s p) = Some q" for q
    using tstep_next [OF ts _ _ that] assms(4) public_not_nrq [of s p i] m by (simp add: public_def)
  ultimately show ?thesis
    using closed_stays [OF inv assms(3,4) ts] m by (cases "rq_next (st_ring s p)") auto
qed

theorem closing_is_final_witness:
  "\<exists>s s'. demo_run (enq_for 0 7 5 @ enq_for 0 8 5 @ enq_for 0 9 9 @ deq_for 1 0) = Some s \<and>
     do_act 1 (Step 1) s = Some s' \<and> rq_next (st_ring s' 0) = Some 1 \<and> crq_is_closed (rq_tail (st_ring s' 0))"
proof -
  let ?as = "enq_for 0 7 5 @ enq_for 0 8 5 @ enq_for 0 9 9 @ deq_for 1 0"
  have "case demo_run ?as of None \<Rightarrow> False
    | Some s \<Rightarrow> rq_next (st_ring s 0) = Some 1 \<and> crq_is_closed (rq_tail (st_ring s 0))"
    by code_simp
  then obtain s where s: "demo_run ?as = Some s" "rq_next (st_ring s 0) = Some 1"
    "crq_is_closed (rq_tail (st_ring s 0))" by (auto split: option.splits)
  have len: "length ?as < 1000" by (simp add: enq_for_def deq_for_def)
  have "public s 0" using inv_at(5) [OF conc_reachable_inv [OF demo_reach [OF s(1) len]]] .
  moreover obtain s' where s': "do_act 1 (Step 1) s = Some s'" by (auto simp: split_beta)
  ultimately show ?thesis
    using closing_is_final [OF demo_reach [OF s(1) len], of 0 1 s'] s by auto
qed

end
