(* ===== verification/Size_Class.thy ===== *)
theory Size_Class
  imports Primitives
begin

text \<open>
  The constants and the arithmetic macros of the allocator, \<open>src/c/malloc.h\<close> and the top of
  \<open>src/c/malloc.c\<close>, for a 64-bit machine with pages of 4096 bytes (\<open>size8 = 0\<close>, so
  \<open>size256 = 5\<close> and \<open>NUMSMALL = size4096 = 9\<close>): the size classes with the two definitions of
  \<open>SMLIST\<close> (the macro, and the function with \<open>bsr\<close> that replaces it), and the translation between
  addresses, page numbers and entries of the two-level page table.
\<close>

section \<open>Size classes\<close>

definition PAGESIZE :: nat where
  "PAGESIZE = 4096"

definition size256 :: nat where
  "size256 = 5"

definition NUMSMALL :: nat where
  "NUMSMALL = 9"

definition LOG2PAGESIZE :: nat where
  "LOG2PAGESIZE = NUMSMALL + (8 - size256)"

definition SIZE :: "nat \<Rightarrow> nat" where
  "SIZE l = push_bit l (push_bit (8 - size256) 1)"

definition PERPAGE :: "nat \<Rightarrow> nat" where
  "PERPAGE l = drop_bit l (PAGESIZE div push_bit (8 - size256) 1)"

definition TARGET :: "nat \<Rightarrow> nat" where
  "TARGET l = push_bit ((NUMSMALL - 1 - l) div 2) 2"

text \<open>The instruction \<open>bsr\<close>: the position of the highest one bit of a number other than 0.\<close>

fun bsr :: "nat \<Rightarrow> nat" where
  "bsr x = (if x < 2 then 0 else Suc (bsr (x div 2)))"

declare bsr.simps [simp del]

text \<open>
  \<open>static inline int SMLIST(int sz)\<close>. The argument is an \<open>int\<close>: a 32-bit pattern, to which the
  callers' \<open>size_t\<close> is truncated. The result \<open>-1\<close> means that the size is not small.
\<close>

definition SMLIST :: "u32 \<Rightarrow> int" where
  "SMLIST sz =
     (let rv = int (bsr (unat ((sz - 1) OR 1)));
          rv1 = rv - (7 - int size256);
          rv2 = (if rv1 < 0 then 0 else rv1)
      in if rv2 \<ge> int NUMSMALL then - 1 else rv2)"

text \<open>The macro of \<open>malloc.h\<close>, on its argument as a number, with the constant tests evaluated.\<close>

definition SMLIST_macro :: "nat \<Rightarrow> int" where
  "SMLIST_macro sz =
     (if sz \<le> 64 then (if sz \<le> 8 then 0 else if sz \<le> 16 then 1 else if sz \<le> 32 then 2 else 3)
      else if sz \<le> 512 then (if sz \<le> 128 then 4 else if sz \<le> 256 then 5 else 6)
      else if sz \<le> 1024 then 7
      else if sz \<le> 2048 then 8
      else - 1)"

section \<open>Addresses and pages\<close>

text \<open>
  Addresses are 64-bit words; \<open>mb\<close> is \<open>membase\<close>. A \<open>struct page\<close> has 8 bytes (a 32-bit page number
  and 31 bits of bit fields), so a page holds 512 of them.
\<close>

definition sizeof_page :: nat where
  "sizeof_page = 8"

definition PAGENUM :: "u64 \<Rightarrow> u64 \<Rightarrow> u64" where
  "PAGENUM mb p = (p - mb) div of_nat PAGESIZE"

definition PAGEADDR :: "u64 \<Rightarrow> u64 \<Rightarrow> u64" where
  "PAGEADDR mb n = mb + n * of_nat PAGESIZE"

definition PAGEBASE :: "u64 \<Rightarrow> u64" where
  "PAGEBASE p = p AND NOT (of_nat (PAGESIZE - 1))"

definition I1 :: "nat \<Rightarrow> nat" where
  "I1 pn = pn div (PAGESIZE div sizeof_page)"

definition I2 :: "nat \<Rightarrow> nat" where
  "I2 pn = pn mod (PAGESIZE div sizeof_page)"

section \<open>Facts\<close>

lemmas size_defs = PAGESIZE_def size256_def NUMSMALL_def LOG2PAGESIZE_def SIZE_def PERPAGE_def TARGET_def

lemma SIZE_eq: "SIZE l = 8 * 2 ^ l"
  by (simp add: size_defs push_bit_eq_mult mult.commute)

lemma bsr_eq: "2 ^ n \<le> x \<Longrightarrow> x < 2 ^ Suc n \<Longrightarrow> bsr x = n"
proof (induction n arbitrary: x)
  case 0
  then show ?case by (simp add: bsr.simps)
next
  case (Suc n)
  then have "2 ^ n \<le> x div 2" "x div 2 < 2 ^ Suc n" by auto
  with Suc.IH have "bsr (x div 2) = n" by blast
  moreover have "2 \<le> x" using Suc.prems(1) by (rule le_trans [rotated]) simp
  ultimately show ?case using Suc.prems(1) by (simp add: bsr.simps [of x])
qed

lemma bsr_le: "x < 2 ^ Suc n \<Longrightarrow> bsr x \<le> n"
proof (induction n arbitrary: x)
  case (Suc n)
  then have "bsr (x div 2) \<le> n" by simp
  then show ?case by (simp add: bsr.simps [of x])
qed (simp add: bsr.simps)

lemma bsr_mono_bound: "2 ^ n \<le> x \<Longrightarrow> n \<le> bsr x"
proof (induction n arbitrary: x)
  case (Suc n)
  then have "n \<le> bsr (x div 2)" by auto
  moreover have "2 \<le> x" using Suc.prems by (rule le_trans [rotated]) simp
  ultimately show ?case using Suc.prems by (simp add: bsr.simps [of x])
qed simp

lemma or_1_nat: "(a :: nat) OR 1 = a + of_bool (even a)"
  by (simp add: or_one_eq del: One_nat_def)

lemma unat_smlist_arg: "sz \<noteq> 0 \<Longrightarrow> unat ((sz - 1) OR 1) = (unat sz - 1) + of_bool (even (unat sz - 1))"
  for sz :: u32
proof -
  assume "sz \<noteq> 0"
  then have "unat (sz - 1) = unat sz - 1" by (simp add: unat_minus_one)
  then show ?thesis by (simp add: unsigned_or_eq or_1_nat del: One_nat_def)
qed

lemma round_odd: "y < 2 * k \<Longrightarrow> y + of_bool (even y) < 2 * k" for y k :: nat
  by (cases "even y") (auto elim!: evenE)

text \<open>A size between two consecutive powers of two.\<close>

lemma SMLIST_class:
  assumes "sz \<noteq> 0" "2 ^ n < unat sz" "unat sz \<le> 2 ^ Suc n" "2 \<le> n"
  shows "SMLIST sz = (if n < 11 then int n - 2 else - 1)"
proof -
  have "unat sz - 1 < 2 * 2 ^ n" using assms(2,3) by simp
  from round_odd [OF this] have "unat sz - 1 + of_bool (even (unat sz - 1)) < 2 ^ Suc n" by simp
  then have "bsr (unat ((sz - 1) OR 1)) = n"
    using assms(1,2) by (intro bsr_eq) (simp_all add: unat_smlist_arg)
  then show ?thesis using assms(4) by (auto simp: SMLIST_def size256_def NUMSMALL_def Let_def)
qed


lemma SMLIST_tiny: "sz \<noteq> 0 \<Longrightarrow> unat sz \<le> 8 \<Longrightarrow> SMLIST sz = 0"
proof -
  assume sz: "sz \<noteq> 0" "unat sz \<le> 8"
  have "unat sz - 1 < 2 * 4" using sz by simp
  from round_odd [OF this] have "unat ((sz - 1) OR 1) < 2 ^ Suc 2" using sz(1) by (simp add: unat_smlist_arg)
  then have "bsr (unat ((sz - 1) OR 1)) \<le> 2" by (rule bsr_le)
  then show ?thesis by (auto simp: SMLIST_def size256_def NUMSMALL_def Let_def)
qed

lemma SMLIST_large: "sz \<noteq> 0 \<Longrightarrow> 2048 < unat sz \<Longrightarrow> SMLIST sz = - 1"
proof -
  assume sz: "sz \<noteq> 0" "2048 < unat sz"
  then have "2 ^ 11 \<le> unat ((sz - 1) OR 1)" by (simp add: unat_smlist_arg)
  from bsr_mono_bound [OF this] show ?thesis by (auto simp: SMLIST_def size256_def NUMSMALL_def Let_def)
qed

lemma SMLIST_eq_macro: 
  assumes "sz \<noteq> 0" shows "SMLIST sz = SMLIST_macro (unat sz)"
proof (cases "unat sz \<le> 8 \<or> 2048 < unat sz")
  case True
  then show ?thesis using SMLIST_tiny [OF assms] SMLIST_large [OF assms] by (auto simp: SMLIST_macro_def)
next
  case False
  then consider "8 < unat sz \<and> unat sz \<le> 16" | "16 < unat sz \<and> unat sz \<le> 32" | "32 < unat sz \<and> unat sz \<le> 64"
    | "64 < unat sz \<and> unat sz \<le> 128" | "128 < unat sz \<and> unat sz \<le> 256" | "256 < unat sz \<and> unat sz \<le> 512"
    | "512 < unat sz \<and> unat sz \<le> 1024" | "1024 < unat sz \<and> unat sz \<le> 2048" by linarith
  then show ?thesis
    using SMLIST_class [OF assms, of 3] SMLIST_class [OF assms, of 4] SMLIST_class [OF assms, of 5]
      SMLIST_class [OF assms, of 6] SMLIST_class [OF assms, of 7] SMLIST_class [OF assms, of 8]
      SMLIST_class [OF assms, of 9] SMLIST_class [OF assms, of 10]
    by cases (simp_all add: SMLIST_macro_def)
qed


lemma unat_times_page: "unat n < 2 ^ 52 \<Longrightarrow> unat (n * of_nat PAGESIZE) = unat n * PAGESIZE" for n :: u64
  by (simp add: PAGESIZE_def unat_word_ariths)

section \<open>Properties\<close>

text \<open>
  A request of 1 to 2048 bytes gets the smallest class whose blocks are large enough.
\<close>

theorem SMLIST_smallest_class:
  assumes "1 \<le> unat sz" "unat sz \<le> 2048"
  shows "0 \<le> SMLIST (ucast (sz :: u64)) \<and> nat (SMLIST (ucast sz)) < NUMSMALL \<and>
    unat sz \<le> SIZE (nat (SMLIST (ucast sz))) \<and>
    (0 < SMLIST (ucast sz) \<longrightarrow> SIZE (nat (SMLIST (ucast sz)) - 1) < unat sz)"
proof -
  have u: "unat (ucast sz :: u32) = unat sz" using assms(2) by (simp add: unat_ucast_32)
  then have "(ucast sz :: u32) \<noteq> 0" using assms(1) by (metis not_one_le_zero unsigned_0)
  then have "SMLIST (ucast sz) = SMLIST_macro (unat sz)" using u by (simp add: SMLIST_eq_macro)
  then show ?thesis using assms by (simp add: SMLIST_macro_def SIZE_eq NUMSMALL_def)
qed

theorem SMLIST_smallest_class_witness:
  "24 \<le> SIZE (nat (SMLIST (ucast (24 :: u64)))) \<and> SMLIST (ucast (24 :: u64)) = 2"
proof -
  have "unat (ucast (24 :: u64) :: u32) = 24" by (simp add: unat_ucast_32)
  then have "SMLIST (ucast (24 :: u64)) = 2"
    using SMLIST_eq_macro [of "ucast (24 :: u64)"] by (simp add: SMLIST_macro_def)
  then show ?thesis using SMLIST_smallest_class [of 24] by simp
qed

text \<open>
  The function with \<open>bsr\<close> that \<open>malloc.c\<close> puts in the place of the macro of \<open>malloc.h\<close> computes the
  same class for every sz of 1 to \<open>2^32 - 1\<close> bytes; for 0 it says \<open>-1\<close> where the macro says 0.
\<close>

theorem SMLIST_matches_macro:
  "(\<forall>sz. sz \<noteq> 0 \<longrightarrow> SMLIST sz = SMLIST_macro (unat sz)) \<and> SMLIST 0 = - 1 \<and> SMLIST_macro 0 = 0"
proof -
  have "unat ((0 - 1 :: u32) OR 1) = 2 ^ 32 - 1" by (simp add: unsigned_minus_1_eq_mask mask_eq_exp_minus_1)
  then have "SMLIST 0 = - 1"
    using bsr_mono_bound [of 31 "unat ((0 - 1 :: u32) OR 1)"]
    by (auto simp: SMLIST_def size256_def NUMSMALL_def Let_def)
  then show ?thesis by (simp add: SMLIST_eq_macro SMLIST_macro_def)
qed

theorem SMLIST_matches_macro_witness: "SMLIST 100 = 4"
  using SMLIST_matches_macro by (auto dest!: spec [of _ 100] simp: SMLIST_macro_def)

text \<open>
  The parameter of \<open>SMLIST\<close> is an \<open>int\<close>: sizes that differ by a multiple of \<open>2^32\<close> get the same
  class, so a request of \<open>2^32 + 8\<close> bytes is served from the blocks of 8 bytes.
\<close>

theorem SMLIST_truncates:
  "SMLIST (ucast (sz + of_nat (k * 2 ^ 32) :: u64)) = SMLIST (ucast sz) \<and>
   SMLIST (ucast (2 ^ 32 + 8 :: u64)) = 0 \<and> SIZE 0 = 8"
proof -
  have "unat (sz + of_nat (k * 2 ^ 32)) mod 2 ^ 32 = unat sz mod 2 ^ 32"
  proof -
    have "((unat sz + k * 2 ^ 32 mod 2 ^ 64) mod 2 ^ 64) mod 2 ^ 32 = (unat sz + k * 2 ^ 32 mod 2 ^ 64) mod (2 ^ 32 :: nat)"
      by (rule mod_mod_cancel) (rule le_imp_power_dvd, simp)
    moreover have "(unat sz + k * 2 ^ 32 mod 2 ^ 64) mod 2 ^ 32 = (unat sz + (k * 2 ^ 32 mod 2 ^ 64) mod 2 ^ 32) mod (2 ^ 32 :: nat)"
      by (simp only: mod_add_right_eq)
    moreover have "(k * 2 ^ 32 mod 2 ^ 64) mod 2 ^ 32 = (0 :: nat)"
      by (subst mod_mod_cancel) (rule le_imp_power_dvd, simp_all)
    ultimately show ?thesis by (simp only: unat_word_ariths unat_of_nat len_num1 len_bit0) simp
  qed
  then have "(ucast (sz + of_nat (k * 2 ^ 32) :: u64) :: u32) = ucast sz"
    by (simp only: word_unat_eq_iff unat_ucast_32)
  moreover have "unat (ucast (2 ^ 32 + 8 :: u64) :: u32) = 8" by (simp add: unat_ucast_32)
  then have "SMLIST (ucast (2 ^ 32 + 8 :: u64)) = 0"
    using SMLIST_eq_macro [of "ucast (2 ^ 32 + 8 :: u64)"] by (auto simp: SMLIST_macro_def)
  ultimately show ?thesis by (simp add: SIZE_eq)
qed

text \<open>
  Page numbers and addresses: every address inside page \<open>n\<close> of the pool has page number \<open>n\<close>, and
  the page table has one entry for each page number.
\<close>

theorem page_of_address:
  assumes "unat n < 2 ^ 52" "unat off < PAGESIZE"
  shows "PAGENUM mb (PAGEADDR mb n + off) = n \<and> I1 (unat n) * (PAGESIZE div sizeof_page) + I2 (unat n) = unat n"
proof -
  have "unat (n * of_nat PAGESIZE + off) = unat n * PAGESIZE + unat off"
    using assms by (subst unat_add_64) (simp_all add: unat_times_page, simp add: PAGESIZE_def)
  then have "unat ((n * of_nat PAGESIZE + off) div of_nat PAGESIZE) = unat n"
    using assms(2) by (simp add: unat_div PAGESIZE_def)
  then have "(n * of_nat PAGESIZE + off) div of_nat PAGESIZE = n" by (simp add: word_eq_unat)
  then show ?thesis
    using div_mult_mod_eq [of "unat n" "PAGESIZE div sizeof_page"]
    by (simp add: PAGENUM_def PAGEADDR_def I1_def I2_def)
qed

theorem page_of_address_witness: "PAGENUM 65536 (PAGEADDR 65536 7 + 24) = 7"
  using page_of_address [of 7 24 65536] by (simp add: PAGESIZE_def)

end
