(* ===== verification/Page_Sort.thy ===== *)
theory Page_Sort
  imports Primitives Size_Class
begin

text \<open>
  The page descriptors (\<open>struct page\<close>) and \<open>page_list_sort\<close> of \<open>src/c/malloc.c\<close>, the merge sort on the
  linked list of the pages of one size class that have free chunks. The list is linked through
  the field \<open>page\<close> of the descriptors and ends with 0; the function relinks it in place. Pointers
  \<open>unsigned *t\<close> point either at the local variable \<open>p\<close> (\<^const>\<open>None\<close>) or at the field of a descriptor.
  The loops and the recursion are \<^theory_text>\<open>partial_function (option)\<close>: they do not end on a cyclic list.
\<close>

section \<open>Page descriptors\<close>

record page =
  pg_page :: nat
  pg_free :: nat
  pg_count :: int
  pg_code :: nat

type_synonym ptab = "nat \<Rightarrow> page"

definition set_page :: "nat \<Rightarrow> nat \<Rightarrow> ptab \<Rightarrow> ptab" where
  "set_page x v m = m(x := (m x)\<lparr>pg_page := v\<rparr>)"

text \<open>\<open>pcmp\<close>: by count, then by page number. The result has type \<open>int\<close>: the difference is cut to 32 bits.\<close>

definition pcmp :: "ptab \<Rightarrow> nat \<Rightarrow> nat \<Rightarrow> int" where
  "pcmp m a b =
     (let v = pg_count (m a) - pg_count (m b)
      in if v \<noteq> 0 then v else sint (word_of_int (int a - int b) :: 32 word))"

section \<open>The sort\<close>

text \<open>The loop that finds the middle: \<open>b\<close> runs twice as fast as \<open>a\<close>.\<close>

partial_function (option) split_loop :: "ptab \<Rightarrow> nat \<Rightarrow> nat \<Rightarrow> bool \<Rightarrow> (nat \<times> bool) option" where
  "split_loop m a b asort =
     (if b = 0 then Some (a, asort)
      else let b1 = pg_page (m b)
           in if b1 = 0 then Some (a, asort)
              else let l = a; a1 = pg_page (m a)
                   in split_loop m a1 (pg_page (m b1)) (asort \<or> pcmp m l a1 > 0))"

definition store :: "nat option \<Rightarrow> nat \<Rightarrow> nat \<times> ptab \<Rightarrow> nat \<times> ptab" where
  "store t v pm = (case t of None \<Rightarrow> (v, snd pm) | Some x \<Rightarrow> (fst pm, set_page x v (snd pm)))"

partial_function (option) merge_loop :: "nat option \<Rightarrow> nat \<Rightarrow> nat \<Rightarrow> nat \<times> ptab \<Rightarrow> (nat \<times> ptab) option" where
  "merge_loop t a b pm =
     (if a \<noteq> 0 \<and> b \<noteq> 0 then
        (if pcmp (snd pm) a b \<le> 0 then
           let pm' = store t a pm in merge_loop (Some a) (pg_page (snd pm' a)) b pm'
         else
           let pm' = store t b pm in merge_loop (Some b) a (pg_page (snd pm' b)) pm')
      else Some (store t (a OR b) pm))"

partial_function (option) page_list_sort :: "nat \<Rightarrow> ptab \<Rightarrow> (nat \<times> ptab) option" where
  "page_list_sort p m =
     (if p = 0 then Some (p, m)
      else if pg_page (m p) = 0 then Some (p, m)
      else Option.bind (split_loop m p (pg_page (m p)) False) (\<lambda>(a, asort).
        Option.bind (page_list_sort (pg_page (m a)) m) (\<lambda>(b, m1).
          let m2 = set_page a 0 m1
          in Option.bind (if asort then page_list_sort p m2 else Some (p, m2)) (\<lambda>(a', m3).
               merge_loop None a' b (p, m3)))))"

declare split_loop.simps [code] merge_loop.simps [code] page_list_sort.simps [code]

section \<open>Lists of pages\<close>

fun plist :: "ptab \<Rightarrow> nat \<Rightarrow> nat list \<Rightarrow> bool" where
  "plist m p [] \<longleftrightarrow> p = 0"
| "plist m p (x # xs) \<longleftrightarrow> p = x \<and> x \<noteq> 0 \<and> plist m (pg_page (m x)) xs"

text \<open>The order of the list: by number of free chunks, then by page number.\<close>

definition page_le :: "ptab \<Rightarrow> nat \<Rightarrow> nat \<Rightarrow> bool" where
  "page_le m a b \<longleftrightarrow> pg_count (m a) < pg_count (m b) \<or> pg_count (m a) = pg_count (m b) \<and> a \<le> b"

lemma set_page_simps [simp]:
  "x \<noteq> y \<Longrightarrow> set_page x v m y = m y" "set_page x v m x = (m x)\<lparr>pg_page := v\<rparr>"
  "pg_count (set_page x v m y) = pg_count (m y)"
  by (simp_all add: set_page_def)

text \<open>Only the links differ.\<close>

definition same_keys :: "nat set \<Rightarrow> ptab \<Rightarrow> ptab \<Rightarrow> bool" where
  "same_keys X m m' \<longleftrightarrow>
     (\<forall>x. x \<notin> X \<longrightarrow> m' x = m x) \<and> (\<forall>x. m' x = (m x)\<lparr>pg_page := pg_page (m' x)\<rparr>)"

lemma same_keys_refl [simp]: "same_keys X m m"
  by (simp add: same_keys_def)

lemma same_keys_trans: "same_keys X m m' \<Longrightarrow> same_keys Y m' m'' \<Longrightarrow> X \<union> Y \<subseteq> Z \<Longrightarrow> same_keys Z m m''"
  unfolding same_keys_def by (metis (no_types, lifting) UnCI page.update_convs(1) page.surjective subsetD)

lemma same_keys_set: "x \<in> X \<Longrightarrow> same_keys X m (set_page x v m)"
  by (simp add: same_keys_def set_page_def)

lemma same_keys_count: "same_keys X m m' \<Longrightarrow> pg_count (m' x) = pg_count (m x)"
  by (metis page.select_convs(3) page.surjective page.update_convs(1) same_keys_def)

lemma same_keys_le: "same_keys X m m' \<Longrightarrow> page_le m' = page_le m"
  by (intro ext) (simp add: page_le_def same_keys_count)

lemma same_keys_out: "same_keys X m m' \<Longrightarrow> x \<notin> X \<Longrightarrow> m' x = m x"
  by (simp add: same_keys_def)

lemma page_le_total: "\<not> page_le m a b \<Longrightarrow> page_le m b a"
  by (auto simp: page_le_def)

lemma page_le_trans: "page_le m a b \<Longrightarrow> page_le m b c \<Longrightarrow> page_le m a c"
  by (auto simp: page_le_def)

lemma pcmp_le:
  assumes "a < 2 ^ 31" "b < 2 ^ 31"
  shows "pcmp m a b \<le> 0 \<longleftrightarrow> page_le m a b"
proof -
  have "sint (word_of_int (int a - int b) :: 32 word) = int a - int b"
    unfolding sint_sbintrunc' using assms by (simp add: signed_take_bit_int_eq_self)
  then show ?thesis by (auto simp: pcmp_def page_le_def Let_def)
qed

lemma plist_frame: "(\<And>x. x \<in> set xs \<Longrightarrow> m' x = m x) \<Longrightarrow> plist m' p xs = plist m p xs"
  by (induction xs arbitrary: p) auto

lemma plist_cut:
  "plist m p (us @ x # vs) \<Longrightarrow> distinct (us @ x # vs) \<Longrightarrow>
     plist (set_page x 0 m) p (us @ [x]) \<and> plist m (pg_page (m x)) vs"
proof (induction us arbitrary: p)
  case Nil
  then show ?case by (simp add: set_page_def)
next
  case (Cons u us)
  then have "plist m (pg_page (m u)) (us @ x # vs)" "distinct (us @ x # vs)" by auto
  then have "plist (set_page x 0 m) (pg_page (m u)) (us @ [x]) \<and> plist m (pg_page (m x)) vs"
    by (rule Cons.IH)
  moreover have "u \<noteq> x" using Cons.prems(2) by auto
  ultimately show ?case using Cons.prems(1) by simp
qed

lemma plist_0: "plist m 0 xs \<longleftrightarrow> xs = []"
  by (cases xs) auto


section \<open>The loops on a list\<close>

text \<open>The first loop stops in the middle and tells whether the first half is out of order.\<close>

lemma split_loop_list:
  assumes "plist m a xs" "plist m b ys" "length ys < length xs" "\<forall>x \<in> set xs. x < 2 ^ 31"
  shows "split_loop m a b asort =
    Some (xs ! (length ys div 2),
      asort \<or> \<not> sorted_wrt (page_le m) (take (Suc (length ys div 2)) xs))"
  using assms
proof (induction "length ys" arbitrary: a b xs ys asort rule: less_induct)
  case less
  obtain x xs' where xs: "xs = x # xs'" using less.prems(3) by (cases xs) auto
  show ?case
  proof (cases ys)
    case Nil
    then show ?thesis using less.prems by (subst split_loop.simps) (simp add: xs)
  next
    case (Cons y ys1)
    show ?thesis
    proof (cases ys1)
      case Nil
      then show ?thesis using less.prems Cons by (subst split_loop.simps) (simp add: xs)
    next
      case (Cons z ys2)
      with \<open>ys = y # ys1\<close> have ys: "ys = y # z # ys2" by simp
      then obtain x' xs'' where xs': "xs' = x' # xs''" using less.prems(3) xs by (cases xs') auto
      have step: "split_loop m a b asort =
          split_loop m (pg_page (m x)) (pg_page (m z)) (asort \<or> pcmp m x x' > 0)"
        using less.prems(1,2) by (subst split_loop.simps) (simp add: xs xs' ys)
      have "split_loop m (pg_page (m x)) (pg_page (m z)) (asort \<or> pcmp m x x' > 0) =
          Some (xs' ! (length ys2 div 2), (asort \<or> pcmp m x x' > 0) \<or>
            \<not> sorted_wrt (page_le m) (take (Suc (length ys2 div 2)) xs'))"
        using less.prems by (intro less.hyps) (auto simp: xs xs' ys)
      moreover have "pcmp m x x' > 0 \<longleftrightarrow> \<not> page_le m x x'"
        using pcmp_le [of x x' m] less.prems(4) by (auto simp: xs xs')
      moreover have "sorted_wrt (page_le m) (x # take (Suc k) xs') \<longleftrightarrow>
          page_le m x x' \<and> sorted_wrt (page_le m) (take (Suc k) xs')" for k
        using page_le_trans [of m x x'] by (auto simp: xs')
      ultimately show ?thesis using step by (auto simp: xs ys)
    qed
  qed
qed

fun merge_pages :: "ptab \<Rightarrow> nat list \<Rightarrow> nat list \<Rightarrow> nat list" where
  "merge_pages m [] ys = ys"
| "merge_pages m xs [] = xs"
| "merge_pages m (x # xs) (y # ys) =
     (if page_le m x y then x # merge_pages m xs (y # ys) else y # merge_pages m (x # xs) ys)"

lemma merge_pages_Nil2 [simp]: "merge_pages m xs [] = xs"
  by (cases xs) auto

lemma mset_merge_pages: "mset (merge_pages m xs ys) = mset xs + mset ys"
  by (induction m xs ys rule: merge_pages.induct) auto

lemma set_merge_pages: "set (merge_pages m xs ys) = set xs \<union> set ys"
  using mset_merge_pages [of m xs ys] by (metis set_mset_mset set_mset_union)

lemma sorted_merge_pages:
  "sorted_wrt (page_le m) xs \<Longrightarrow> sorted_wrt (page_le m) ys \<Longrightarrow> sorted_wrt (page_le m) (merge_pages m xs ys)"
  by (induction m xs ys rule: merge_pages.induct)
     (auto simp: set_merge_pages dest: page_le_total intro: page_le_trans)

lemma merge_pages_cong: "page_le m' = page_le m \<Longrightarrow> merge_pages m' xs ys = merge_pages m xs ys"
  by (induction m xs ys rule: merge_pages.induct) auto

text \<open>Where the pointer \<open>t\<close> points in memory.\<close>

definition target :: "nat option \<Rightarrow> nat \<times> ptab \<Rightarrow> nat" where
  "target t pm = (case t of None \<Rightarrow> fst pm | Some x \<Rightarrow> pg_page (snd pm x))"

lemma store_simps [simp]:
  "target t (store t v pm) = v" "same_keys (set_option t) (snd pm) (snd (store t v pm))"
  "t \<noteq> None \<Longrightarrow> fst (store t v pm) = fst pm"
  "x \<notin> set_option t \<Longrightarrow> snd (store t v pm) x = snd pm x"
  by (auto simp: target_def store_def same_keys_def set_page_def split: option.splits if_splits)


lemma merge_step:
  assumes "x \<noteq> 0" "set_option t \<inter> ({x} \<union> X) = {}" "x \<notin> X"
    and rec: "plist m' (pg_page (m' x)) zs" "same_keys ({x} \<union> X) (snd (store t x pm)) m'"
      "p' = fst (store t x pm)"
  shows "plist m' (target t (p', m')) (x # zs) \<and> same_keys (set_option t \<union> ({x} \<union> X)) (snd pm) m' \<and>
    (t \<noteq> None \<longrightarrow> p' = fst pm)"
proof -
  have "target t (p', m') = x"
  proof (cases t)
    case None
    then show ?thesis using rec(3) by (simp add: target_def store_def)
  next
    case (Some z)
    then have "m' z = snd (store t x pm) z" using rec(2) assms(2) by (intro same_keys_out) auto
    then show ?thesis using Some store_simps(1) [of t x pm] by (simp add: target_def)
  qed
  moreover have "same_keys (set_option t \<union> ({x} \<union> X)) (snd pm) m'"
    using store_simps(2) rec(2) by (rule same_keys_trans) auto
  ultimately show ?thesis using assms(1) rec(1,3) by simp
qed

lemma store_plist:
  "set_option t \<inter> set zs = {} \<Longrightarrow> plist (snd (store t v pm)) q zs = plist (snd pm) q zs"
  by (intro plist_frame store_simps(4)) blast

lemma merge_loop_end:
  assumes "plist (snd pm) a xs" "plist (snd pm) b ys" "xs = [] \<or> ys = []"
    and "set_option t \<inter> (set xs \<union> set ys) = {}"
  shows "\<exists>p' m'. merge_loop t a b pm = Some (p', m') \<and>
    plist m' (target t (p', m')) (merge_pages (snd pm) xs ys) \<and>
    same_keys (set_option t \<union> (set xs \<union> set ys)) (snd pm) m' \<and> (t \<noteq> None \<longrightarrow> p' = fst pm)"
proof -
  let ?v = "if xs = [] then b else a"
  have "a OR b = ?v" "a = 0 \<or> b = 0" using assms(1-3) by (auto simp: plist_0)
  then have "merge_loop t a b pm = Some (fst (store t ?v pm), snd (store t ?v pm))"
    by (subst merge_loop.simps) auto
  moreover have "same_keys (set_option t \<union> (set xs \<union> set ys)) (snd pm) (snd (store t ?v pm))"
    using store_simps(2) same_keys_refl [of "{}"] by (rule same_keys_trans) auto
  moreover have "plist (snd (store t ?v pm)) (target t (store t ?v pm)) (merge_pages (snd pm) xs ys)"
    using assms store_plist [of t xs ?v pm] store_plist [of t ys ?v pm] by auto
  ultimately show ?thesis by (metis prod.collapse store_simps(3))
qed

lemma merge_loop_list:
  assumes "plist (snd pm) a xs" "plist (snd pm) b ys" "distinct (xs @ ys)"
    and "set_option t \<inter> (set xs \<union> set ys) = {}" "\<forall>x \<in> set xs \<union> set ys. x < 2 ^ 31"
  shows "\<exists>p' m'. merge_loop t a b pm = Some (p', m') \<and>
    plist m' (target t (p', m')) (merge_pages (snd pm) xs ys) \<and>
    same_keys (set_option t \<union> (set xs \<union> set ys)) (snd pm) m' \<and> (t \<noteq> None \<longrightarrow> p' = fst pm)"
  using assms
proof (induction "length xs + length ys" arbitrary: t a b pm xs ys rule: less_induct)
  case less
  have frame: "plist (snd (store t v pm)) q zs = plist (snd pm) q zs" if "set zs \<subseteq> set xs \<union> set ys" for v q zs
    using that less.prems(4) by (intro store_plist) blast
  have le: "page_le (snd (store t v pm)) = page_le (snd pm)" for v by (rule same_keys_le [OF store_simps(2)])
  show ?case
  proof (cases "xs = [] \<or> ys = []")
    case True
    show ?thesis using merge_loop_end [OF less.prems(1,2) True less.prems(4)] .
  next
    case False
    then obtain x xs' y ys' where xs: "xs = x # xs'" and ys: "ys = y # ys'" by (auto simp: neq_Nil_conv)
    have ab: "a = x" "b = y" "x \<noteq> 0" "y \<noteq> 0" using less.prems(1,2) by (auto simp: xs ys)
    have cmp: "pcmp (snd pm) x y \<le> 0 \<longleftrightarrow> page_le (snd pm) x y"
      using less.prems(5) by (intro pcmp_le) (auto simp: xs ys)
    have sx: "snd (store t v pm) x = snd pm x" "snd (store t v pm) y = snd pm y" for v
      using less.prems(4) by (auto simp: xs ys)
    show ?thesis
    proof (cases "page_le (snd pm) x y")
      case True
      let ?pm = "store t x pm"
      have "\<exists>p' m'. merge_loop (Some x) (pg_page (snd ?pm x)) y ?pm = Some (p', m') \<and>
          plist m' (target (Some x) (p', m')) (merge_pages (snd ?pm) xs' ys) \<and>
          same_keys (set_option (Some x) \<union> (set xs' \<union> set ys)) (snd ?pm) m' \<and> (Some x \<noteq> None \<longrightarrow> p' = fst ?pm)"
        using less.prems ab sx frame [of xs'] frame [of ys] by (intro less.hyps) (auto simp: xs ys)
      then obtain p' m' where r: "merge_loop (Some x) (pg_page (snd ?pm x)) y ?pm = Some (p', m')"
        "plist m' (pg_page (m' x)) (merge_pages (snd pm) xs' ys)"
        "same_keys ({x} \<union> (set xs' \<union> set ys)) (snd ?pm) m'" "p' = fst ?pm"
        by (auto simp: target_def merge_pages_cong [OF le])
      have "merge_loop t a b pm = Some (p', m')"
        using r(1) ab cmp True by (subst merge_loop.simps) (simp add: Let_def)
      moreover have "insert x (set xs' \<union> set ys) = set xs \<union> set ys" by (simp add: xs)
      ultimately show ?thesis
        using merge_step [OF ab(3) _ _ r(2-4)] less.prems(3,4) True by (auto simp: xs ys)
    next
      case False
      let ?pm = "store t y pm"
      have "\<exists>p' m'. merge_loop (Some y) x (pg_page (snd ?pm y)) ?pm = Some (p', m') \<and>
          plist m' (target (Some y) (p', m')) (merge_pages (snd ?pm) xs ys') \<and>
          same_keys (set_option (Some y) \<union> (set xs \<union> set ys')) (snd ?pm) m' \<and> (Some y \<noteq> None \<longrightarrow> p' = fst ?pm)"
        using less.prems ab sx frame [of xs] frame [of ys'] by (intro less.hyps) (auto simp: xs ys)
      then obtain p' m' where r: "merge_loop (Some y) x (pg_page (snd ?pm y)) ?pm = Some (p', m')"
        "plist m' (pg_page (m' y)) (merge_pages (snd pm) xs ys')"
        "same_keys ({y} \<union> (set xs \<union> set ys')) (snd ?pm) m'" "p' = fst ?pm"
        by (auto simp: target_def merge_pages_cong [OF le])
      have "merge_loop t a b pm = Some (p', m')"
        using r(1) ab cmp False by (subst merge_loop.simps) (simp add: Let_def)
      moreover have "insert y (set xs \<union> set ys') = set xs \<union> set ys" by (auto simp: ys)
      ultimately show ?thesis
        using merge_step [OF ab(4) _ _ r(2-4)] less.prems(3,4) False by (auto simp: xs ys insert_commute)
    qed
  qed
qed


section \<open>The sort on a list\<close>

text \<open>What the sort of a list of pages leaves behind.\<close>

definition sorts_to :: "ptab \<Rightarrow> nat list \<Rightarrow> (nat \<times> ptab) option \<Rightarrow> bool" where
  "sorts_to m xs r \<longleftrightarrow> (\<exists>p' m' ys. r = Some (p', m') \<and> plist m' p' ys \<and> mset ys = mset xs \<and>
     sorted_wrt (page_le m) ys \<and> same_keys (set xs) m m')"

lemma sort_merge:
  assumes us: "plist m3 a us" and vs: "plist m3 b vs" and d: "distinct (us @ vs)" "\<forall>x \<in> set us \<union> set vs. x < 2 ^ 31"
    and so: "sorted_wrt (page_le m) us" "sorted_wrt (page_le m) vs"
    and sk: "same_keys (set us \<union> set vs) m m3" and xs: "mset xs = mset us + mset vs"
  shows "sorts_to m xs (merge_loop None a b (p, m3))"
proof -
  from merge_loop_list [of "(p, m3)" a us b vs None] us vs d obtain p' m' where
    r: "merge_loop None a b (p, m3) = Some (p', m')" "plist m' p' (merge_pages m3 us vs)"
      "same_keys (set us \<union> set vs) m3 m'" by (auto simp: target_def)
  have le: "page_le m3 = page_le m" by (rule same_keys_le [OF sk])
  have "set xs = set us \<union> set vs" using xs by (metis set_mset_mset set_mset_union)
  moreover have "same_keys (set us \<union> set vs) m m'" using sk r(3) by (rule same_keys_trans) auto
  ultimately show ?thesis
    using r(1,2) so xs unfolding sorts_to_def merge_pages_cong [OF le]
    by (auto simp: mset_merge_pages sorted_merge_pages)
qed

lemma sort_short:
  assumes "plist m p xs" "length xs < 2"
  shows "sorts_to m xs (page_list_sort p m)"
proof -
  consider "xs = []" | x where "xs = [x]" using assms(2) by (cases xs; cases "tl xs") auto
  then show ?thesis
    using assms(1) by cases (subst page_list_sort.simps, simp add: sorts_to_def)+
qed

text \<open>The first half is cut off and sorted only if the loop has seen it out of order.\<close>

lemma sort_first_half:
  assumes pl: "plist (set_page x 0 m) p (us @ [x])" and d: "x \<notin> set vs" "set us \<inter> set vs = {}"
    and sk: "same_keys (set vs) m m1"
    and IH: "plist (set_page x 0 m1) p (us @ [x]) \<Longrightarrow>
      sorts_to (set_page x 0 m1) (us @ [x]) (page_list_sort p (set_page x 0 m1))"
  shows "\<exists>a m3 us'. (if \<not> sorted_wrt (page_le m) (us @ [x]) then page_list_sort p (set_page x 0 m1)
        else Some (p, set_page x 0 m1)) = Some (a, m3) \<and>
    plist m3 a us' \<and> mset us' = mset (us @ [x]) \<and> sorted_wrt (page_le m) us' \<and>
    same_keys (insert x (set us)) m1 m3"
proof -
  have "set_page x 0 m1 y = set_page x 0 m y" if "y \<in> set (us @ [x])" for y
    using that d same_keys_out [OF sk, of y] by (cases "y = x") auto
  then have pl1: "plist (set_page x 0 m1) p (us @ [x])" using pl by (subst plist_frame [where m = "set_page x 0 m"]) auto
  have sk1: "same_keys (insert x (set us)) m1 (set_page x 0 m1)" by (rule same_keys_set) simp
  have le: "page_le (set_page x 0 m1) = page_le m" using same_keys_le [OF sk] same_keys_le [OF sk1] by simp
  show ?thesis
  proof (cases "sorted_wrt (page_le m) (us @ [x])")
    case True
    then show ?thesis using pl1 sk1 by auto
  next
    case False
    from IH [OF pl1] obtain a m3 us' where r:
      "page_list_sort p (set_page x 0 m1) = Some (a, m3)" "plist m3 a us'" "mset us' = mset (us @ [x])"
      "sorted_wrt (page_le m) us'" "same_keys (set (us @ [x])) (set_page x 0 m1) m3"
      by (auto simp: sorts_to_def le)
    have "same_keys (insert x (set us)) m1 m3" by (rule same_keys_trans [OF sk1 r(5)]) auto
    then show ?thesis using False r by auto
  qed
qed

lemma sort_split:
  assumes pl: "plist m p xs" and lt: "\<forall>x \<in> set xs. x < 2 ^ 31" and len: "2 \<le> length xs"
  obtains us x vs where "xs = us @ x # vs" "vs \<noteq> []"
    "page_list_sort p m = Option.bind (page_list_sort (pg_page (m x)) m) (\<lambda>(b, m1).
       let m2 = set_page x 0 m1
       in Option.bind (if \<not> sorted_wrt (page_le m) (us @ [x]) then page_list_sort p m2 else Some (p, m2))
            (\<lambda>(a', m3). merge_loop None a' b (p, m3)))"
proof -
  define k where "k = (length xs - 1) div 2"
  have k: "Suc k < length xs" using len by (auto simp: k_def)
  obtain y z zs where yz: "xs = y # z # zs" using len by (cases xs; cases "tl xs") auto
  have "plist m (pg_page (m p)) (tl xs)" "length (tl xs) < length xs" using pl yz by auto
  from split_loop_list [OF pl this lt]
  have "split_loop m p (pg_page (m p)) False = Some (xs ! k, \<not> sorted_wrt (page_le m) (take (Suc k) xs))"
    by (simp add: k_def)
  moreover have "take (Suc k) xs = take k xs @ [xs ! k]" using k by (simp add: take_Suc_conv_app_nth)
  ultimately have "split_loop m p (pg_page (m p)) False = Some (xs ! k, \<not> sorted_wrt (page_le m) (take k xs @ [xs ! k]))"
    by simp
  moreover have "p \<noteq> 0" "pg_page (m p) \<noteq> 0" using pl yz by auto
  ultimately have "page_list_sort p m = Option.bind (page_list_sort (pg_page (m (xs ! k))) m) (\<lambda>(b, m1).
       let m2 = set_page (xs ! k) 0 m1
       in Option.bind (if \<not> sorted_wrt (page_le m) (take k xs @ [xs ! k]) then page_list_sort p m2 else Some (p, m2))
            (\<lambda>(a', m3). merge_loop None a' b (p, m3)))"
    by (subst page_list_sort.simps) simp
  moreover have "xs = take k xs @ xs ! k # drop (Suc k) xs" using k by (intro id_take_nth_drop) simp
  moreover have "drop (Suc k) xs \<noteq> []" using k by simp
  ultimately show ?thesis by (rule that [rotated 2])
qed

lemma page_list_sort_list:
  assumes "plist m p xs" "distinct xs" "\<forall>x \<in> set xs. x < 2 ^ 31"
  shows "sorts_to m xs (page_list_sort p m)"
  using assms
proof (induction "length xs" arbitrary: p m xs rule: less_induct)
  case less
  show ?case
  proof (cases "length xs < 2")
    case True
    then show ?thesis using less.prems(1) by (intro sort_short)
  next
    case False
    then have "2 \<le> length xs" by simp
    from sort_split [OF less.prems(1,3) this] obtain us x vs where xs: "xs = us @ x # vs" "vs \<noteq> []" and sort:
      "page_list_sort p m = Option.bind (page_list_sort (pg_page (m x)) m) (\<lambda>(b, m1).
         let m2 = set_page x 0 m1
         in Option.bind (if \<not> sorted_wrt (page_le m) (us @ [x]) then page_list_sort p m2 else Some (p, m2))
              (\<lambda>(a', m3). merge_loop None a' b (p, m3)))" .
    note cut = plist_cut [OF less.prems(1) [unfolded xs(1)] less.prems(2) [unfolded xs(1)]]
    have d: "distinct us" "x \<notin> set us" "x \<notin> set vs" "distinct vs" "set us \<inter> set vs = {}" using less.prems(2) by (auto simp: xs(1))
    have "sorts_to m vs (page_list_sort (pg_page (m x)) m)"
      using less.prems cut by (intro less.hyps) (auto simp: xs(1))
    then obtain b m1 ws where b: "page_list_sort (pg_page (m x)) m = Some (b, m1)" "plist m1 b ws"
      "mset ws = mset vs" "sorted_wrt (page_le m) ws" "same_keys (set vs) m m1" by (auto simp: sorts_to_def)
    have "length (us @ [x]) < length xs" using xs by simp
    with less.hyps less.prems(3) d have "plist (set_page x 0 m1) p (us @ [x]) \<Longrightarrow>
        sorts_to (set_page x 0 m1) (us @ [x]) (page_list_sort p (set_page x 0 m1))" by (auto simp: xs(1))
    from sort_first_half [OF cut [THEN conjunct1] d(3,5) b(5) this] obtain a m3 us' where
      a: "(if \<not> sorted_wrt (page_le m) (us @ [x]) then page_list_sort p (set_page x 0 m1)
        else Some (p, set_page x 0 m1)) = Some (a, m3)" "plist m3 a us'" "mset us' = mset (us @ [x])"
        "sorted_wrt (page_le m) us'" "same_keys (insert x (set us)) m1 m3" by blast
    have sets: "set us' = insert x (set us)" "set ws = set vs" "distinct us'" "distinct ws"
      using mset_eq_setD [OF a(3)] mset_eq_imp_distinct_iff [OF a(3)] mset_eq_setD [OF b(3)]
        mset_eq_imp_distinct_iff [OF b(3)] d by auto
    have "m3 y = m1 y" if "y \<in> set ws" for y
      using that sets(2) d(3,5) by (intro same_keys_out [OF a(5)]) auto
    then have "plist m3 b ws" using b(2) plist_frame [of ws m3 m1 b] by simp
    moreover have "same_keys (set us' \<union> set ws) m m3" by (rule same_keys_trans [OF b(5) a(5)]) (auto simp: sets)
    ultimately have "sorts_to m xs (merge_loop None a b (p, m3))"
      by (intro sort_merge [OF a(2) _ _ _ a(4) b(4)]) (use a(3) b(3) sets d less.prems(3) in \<open>auto simp: xs(1)\<close>)
    then show ?thesis using sort a(1) b(1) by (simp add: Let_def)
  qed
qed


section \<open>Properties\<close>

text \<open>
  (C20) \<open>page_list_sort\<close> returns on every finite list of different pages with numbers below \<open>2^31\<close>, and
  relinks it into a sorted permutation: fewest free chunks first, then lowest page number. It
  changes the field \<open>page\<close> of these pages and nothing else.
\<close>

theorem page_list_sort_sorts:
  assumes "plist m p xs" "distinct xs" "\<forall>x \<in> set xs. x < 2 ^ 31"
  shows "\<exists>p' m' ys. page_list_sort p m = Some (p', m') \<and> plist m' p' ys \<and> mset ys = mset xs \<and>
    sorted_wrt (\<lambda>a b. pg_count (m a) < pg_count (m b) \<or> pg_count (m a) = pg_count (m b) \<and> a \<le> b) ys \<and>
    (\<forall>x. m' x = (m x)\<lparr>pg_page := pg_page (m' x)\<rparr> \<and> (x \<notin> set xs \<longrightarrow> m' x = m x))"
proof -
  have "sorts_to m xs (page_list_sort p m)" using assms by (rule page_list_sort_list)
  then show ?thesis unfolding sorts_to_def same_keys_def page_le_def by blast
qed

definition demo_pages :: ptab where
  "demo_pages = (\<lambda>_. \<lparr>pg_page = 0, pg_free = 0, pg_count = 0, pg_code = 0\<rparr>)
     (5 := \<lparr>pg_page = 3, pg_free = 0, pg_count = 9, pg_code = 0\<rparr>,
      3 := \<lparr>pg_page = 7, pg_free = 0, pg_count = 2, pg_code = 0\<rparr>,
      7 := \<lparr>pg_page = 0, pg_free = 0, pg_count = - 1, pg_code = 0\<rparr>)"

theorem page_list_sort_sorts_witness:
  "\<exists>p' m'. page_list_sort 5 demo_pages = Some (p', m') \<and> plist m' p' [7, 3, 5]"
proof -
  have "plist demo_pages 5 [5, 3, 7]" by (simp add: demo_pages_def)
  from page_list_sort_sorts [OF this] obtain p' m' ys where
    r: "page_list_sort 5 demo_pages = Some (p', m')" "plist m' p' ys" "mset ys = mset [5, 3, 7]"
    "sorted_wrt (\<lambda>a b. pg_count (demo_pages a) < pg_count (demo_pages b) \<or>
       pg_count (demo_pages a) = pg_count (demo_pages b) \<and> a \<le> b) ys" by auto
  have "length ys = 3" using mset_eq_length [OF r(3)] by simp
  then obtain a b c where ys: "ys = [a, b, c]" by (auto simp: length_Suc_conv numeral_eq_Suc)
  moreover have "{a, b, c} = {5, 3, 7}" using mset_eq_setD [OF r(3)] ys by simp
  moreover have "distinct [a, b, c]" using mset_eq_imp_distinct_iff [OF r(3)] ys by simp
  ultimately have "ys = [7, 3, 5]" using r(4) by (auto simp: demo_pages_def split: if_splits)
  then show ?thesis using r(1,2) by blast
qed

text \<open>
  The comparison is an \<open>int\<close>: for page numbers that are \<open>2^31\<close> or more apart it has the wrong sign,
  so the bound of \<open>2^31\<close> pages in the statement above is needed (the descriptors allow \<open>2^32\<close>).
\<close>

theorem pcmp_cuts_difference:
  assumes "pg_count (m a) = pg_count (m b)" "a = b + 2 ^ 31"
  shows "pcmp m a b < 0"
proof -
  have "sint (word_of_int (2 ^ 31) :: 32 word) = - (2 ^ 31)"
    unfolding sint_sbintrunc' by (simp add: signed_take_bit_eq_take_bit_shift)
  then show ?thesis using assms by (simp add: pcmp_def)
qed

theorem pcmp_cuts_difference_witness: "pcmp demo_pages (1 + 2 ^ 31) 1 < 0"
  using pcmp_cuts_difference [of demo_pages "1 + 2 ^ 31" 1] by (simp add: demo_pages_def)

end
