(* ===== verification/Free_Pages.thy ===== *)
theory Free_Pages
  imports Primitives "HOL-Library.Product_Lexorder"
begin

text \<open>
  The list of free page extents of \<open>src/c/malloc.c\<close>: \<open>fp_remove\<close>, \<open>fp_add\<close> and \<open>fp_find\<close>. It is a list
  of lists: extents of the same size are linked through \<open>next\<close> in the order of their addresses,
  the first of each size is linked through \<open>bigger\<close> to the first of the next larger size, and
  every descriptor points back at the pointer that points at it (\<open>parent\<close>). A descriptor
  (\<open>struct freepage\<close>) lives at the start of its extent, so its address is given by the number of
  the first page, and addresses compare as page numbers do. A \<open>struct freepage **\<close> points at
  \<open>membase->freepages\<close>, or at a field \<open>bigger\<close> or \<open>next\<close> of a descriptor.
\<close>

section \<open>Memory\<close>

datatype fslot = Root | Bigger nat | Next nat

record freepage =
  fp_parent :: fslot
  fp_bigger :: "nat option"
  fp_next :: "nat option"
  fp_size :: int

record fpool =
  fp_root :: "nat option"
  fp_mem :: "nat \<Rightarrow> freepage"

text \<open>Reading and writing through a \<open>struct freepage **\<close>, and the assignments to the fields.\<close>

fun deref :: "fpool \<Rightarrow> fslot \<Rightarrow> nat option" where
  "deref s Root = fp_root s"
| "deref s (Bigger x) = fp_bigger (fp_mem s x)"
| "deref s (Next x) = fp_next (fp_mem s x)"

fun assign :: "fslot \<Rightarrow> nat option \<Rightarrow> fpool \<Rightarrow> fpool" where
  "assign Root v s = s\<lparr>fp_root := v\<rparr>"
| "assign (Bigger x) v s = s\<lparr>fp_mem := (fp_mem s)(x := (fp_mem s x)\<lparr>fp_bigger := v\<rparr>)\<rparr>"
| "assign (Next x) v s = s\<lparr>fp_mem := (fp_mem s)(x := (fp_mem s x)\<lparr>fp_next := v\<rparr>)\<rparr>"

definition set_parent :: "nat \<Rightarrow> fslot \<Rightarrow> fpool \<Rightarrow> fpool" where
  "set_parent x a s = s\<lparr>fp_mem := (fp_mem s)(x := (fp_mem s x)\<lparr>fp_parent := a\<rparr>)\<rparr>"

definition set_size :: "nat \<Rightarrow> int \<Rightarrow> fpool \<Rightarrow> fpool" where
  "set_size x n s = s\<lparr>fp_mem := (fp_mem s)(x := (fp_mem s x)\<lparr>fp_size := n\<rparr>)\<rparr>"

abbreviation parent_of :: "fpool \<Rightarrow> nat \<Rightarrow> fslot" where
  "parent_of s x \<equiv> fp_parent (fp_mem s x)"

abbreviation size_of :: "fpool \<Rightarrow> nat \<Rightarrow> int" where
  "size_of s x \<equiv> fp_size (fp_mem s x)"

section \<open>Operations\<close>

definition fp_remove :: "nat \<Rightarrow> fpool \<Rightarrow> fpool" where
  "fp_remove p s =
     (case deref s (Next p) of
        Some n \<Rightarrow>
          let s1 = assign (parent_of s p) (deref s (Next p)) s;
              s2 = set_parent n (parent_of s1 p) s1;
              s3 = assign (Bigger n) (deref s2 (Bigger p)) s2
          in (case deref s3 (Bigger n) of None \<Rightarrow> s3 | Some b \<Rightarrow> set_parent b (Bigger n) s3)
      | None \<Rightarrow>
          let s1 = assign (parent_of s p) (deref s (Bigger p)) s
          in (case deref s (Bigger p) of None \<Rightarrow> s1 | Some b \<Rightarrow> set_parent b (parent_of s1 p) s1))"

text \<open>\<open>while (*t && (*t)->size < p->size) t = &(*t)->bigger\<close>\<close>

partial_function (option) fp_seek :: "fpool \<Rightarrow> int \<Rightarrow> fslot \<Rightarrow> fslot option" where
  "fp_seek s n t =
     (case deref s t of
        None \<Rightarrow> Some t
      | Some x \<Rightarrow> if size_of s x < n then fp_seek s n (Bigger x) else Some t)"

text \<open>\<open>while (*t && (U)*t < (U)p) t = &(*t)->next\<close>\<close>

partial_function (option) fp_seek_next :: "fpool \<Rightarrow> nat \<Rightarrow> fslot \<Rightarrow> fslot option" where
  "fp_seek_next s p t =
     (case deref s t of
        None \<Rightarrow> Some t
      | Some x \<Rightarrow> if x < p then fp_seek_next s p (Next x) else Some t)"

text \<open>The assignments to the fields of the new element \<open>p\<close>, and to those of its successors.\<close>

definition fp_link_next :: "nat \<Rightarrow> fslot \<Rightarrow> fpool \<Rightarrow> fpool" where
  "fp_link_next p t s =
     (let s1 = assign (Next p) (deref s t) s
      in case deref s1 (Next p) of
           Some n \<Rightarrow>
             let s2 = assign (Bigger p) (deref s1 (Bigger n)) s1;
                 s3 = (case deref s2 (Bigger p) of
                         None \<Rightarrow> s2
                       | Some b \<Rightarrow> assign (Bigger n) None (set_parent b (Bigger p) s2))
             in set_parent n (Next p) s3
         | None \<Rightarrow> assign (Bigger p) None s1)"

definition fp_link_size :: "nat \<Rightarrow> fslot \<Rightarrow> fpool \<Rightarrow> fpool" where
  "fp_link_size p t s =
     (let s1 = assign (Next p) None s;
          s2 = assign (Bigger p) (deref s1 t) s1
      in case deref s2 (Bigger p) of None \<Rightarrow> s2 | Some b \<Rightarrow> set_parent b (Bigger p) s2)"

definition fp_hook :: "nat \<Rightarrow> fslot \<Rightarrow> fpool \<Rightarrow> fpool" where
  "fp_hook p t s = set_parent p t (assign t (Some p) s)"

definition fp_add_at :: "nat \<Rightarrow> fslot \<Rightarrow> fpool \<Rightarrow> fpool option" where
  "fp_add_at p t0 s =
     Option.bind (fp_seek s (size_of s p) t0) (\<lambda>t.
       if (case deref s t of None \<Rightarrow> False | Some x \<Rightarrow> size_of s x = size_of s p)
       then Option.bind (fp_seek_next s p t) (\<lambda>t'. Some (fp_hook p t' (fp_link_next p t' s)))
       else Some (fp_hook p t (fp_link_size p t s)))"

definition fp_add :: "nat \<Rightarrow> fpool \<Rightarrow> fpool option" where
  "fp_add p s = fp_add_at p Root s"

text \<open>\<open>fp_find\<close>: the loop stops at the first list whose extents are large enough.\<close>

partial_function (option) fp_first :: "fpool \<Rightarrow> int \<Rightarrow> nat option \<Rightarrow> nat option option" where
  "fp_first s n t =
     (case t of
        None \<Rightarrow> Some None
      | Some x \<Rightarrow> if size_of s x < n then fp_first s n (deref s (Bigger x)) else Some t)"

definition fp_find :: "int \<Rightarrow> fpool \<Rightarrow> (nat option \<times> fpool) option" where
  "fp_find n s =
     Option.bind (fp_first s n (fp_root s)) (\<lambda>t.
       Some (t, case t of None \<Rightarrow> s | Some x \<Rightarrow> fp_remove x s))"

declare fp_seek.simps [code] fp_seek_next.simps [code] fp_first.simps [code]

section \<open>The list of lists\<close>

text \<open>The rest of a list of one size: every element has its back pointer and no \<open>bigger\<close>.\<close>

fun same_size :: "fpool \<Rightarrow> fslot \<Rightarrow> nat list \<Rightarrow> bool" where
  "same_size s a [] \<longleftrightarrow> deref s a = None"
| "same_size s a (x # xs) \<longleftrightarrow>
     deref s a = Some x \<and> parent_of s x = a \<and> deref s (Bigger x) = None \<and> same_size s (Next x) xs"

fun by_size :: "fpool \<Rightarrow> fslot \<Rightarrow> nat list list \<Rightarrow> bool" where
  "by_size s a [] \<longleftrightarrow> deref s a = None"
| "by_size s a (g # gs) \<longleftrightarrow>
     (case g of [] \<Rightarrow> False
      | x # xs \<Rightarrow> deref s a = Some x \<and> parent_of s x = a \<and> same_size s (Next x) xs \<and> by_size s (Bigger x) gs)"

text \<open>The order: one size per list, larger sizes later, and the addresses ascend.\<close>

fun sizes_ok :: "(nat \<Rightarrow> int) \<Rightarrow> nat list list \<Rightarrow> bool" where
  "sizes_ok sz [] \<longleftrightarrow> True"
| "sizes_ok sz (g # gs) \<longleftrightarrow>
     g \<noteq> [] \<and> list_all (\<lambda>x. sz x = sz (hd g)) g \<and> sorted_wrt (<) g \<and>
     (\<forall>x \<in> set (concat gs). sz (hd g) < sz x) \<and> sizes_ok sz gs"

definition free_list :: "fpool \<Rightarrow> nat list list \<Rightarrow> bool" where
  "free_list s gs \<longleftrightarrow> by_size s Root gs \<and> sizes_ok (size_of s) gs"


lemma deref_assign: "deref (assign a v s) b = (if a = b then v else deref s b)"
  by (cases a; cases b) auto

lemma fp_assign_fields: "parent_of (assign a v s) x = parent_of s x" "size_of (assign a v s) x = size_of s x"
  by (cases a; simp)+

lemma deref_set_parent: "deref (set_parent x a s) b = deref s b"
  by (cases b) (simp_all add: set_parent_def)

lemma fp_set_parent_fields:
  "size_of (set_parent x a s) y = size_of s y"
  "parent_of (set_parent x a s) y = (if x = y then a else parent_of s y)"
  by (simp_all add: set_parent_def)

lemmas slot_simps [simp] = deref_assign fp_assign_fields deref_set_parent fp_set_parent_fields

declare deref.simps [simp del] assign.simps [simp del]

section \<open>Frames\<close>

fun owner :: "fslot \<Rightarrow> nat set" where
  "owner Root = {}"
| "owner (Bigger x) = {x}"
| "owner (Next x) = {x}"

text \<open>A change that touches only the pointer \<open>t\<close> and the descriptors in \<open>X\<close>.\<close>

definition touches :: "nat set \<Rightarrow> fslot \<Rightarrow> fpool \<Rightarrow> fpool \<Rightarrow> bool" where
  "touches X t s s' \<longleftrightarrow>
     (\<forall>a. a \<noteq> t \<and> owner a \<inter> X = {} \<longrightarrow> deref s' a = deref s a) \<and>
     (\<forall>x. x \<notin> X \<longrightarrow> parent_of s' x = parent_of s x) \<and> (\<forall>x. size_of s' x = size_of s x)"

lemma touches_deref: "touches X t s s' \<Longrightarrow> a \<noteq> t \<Longrightarrow> owner a \<inter> X = {} \<Longrightarrow> deref s' a = deref s a"
  by (simp add: touches_def)

lemma touches_mono: "touches X t s s' \<Longrightarrow> X \<subseteq> Y \<Longrightarrow> t = u \<or> owner t \<inter> Y \<noteq> {} \<Longrightarrow> touches Y u s s'"
  unfolding touches_def by (metis disjoint_iff subset_iff)

text \<open>A descriptor that is as it was.\<close>

definition unchanged :: "fpool \<Rightarrow> fpool \<Rightarrow> nat \<Rightarrow> bool" where
  "unchanged s s' x \<longleftrightarrow> parent_of s' x = parent_of s x \<and> deref s' (Bigger x) = deref s (Bigger x) \<and>
     deref s' (Next x) = deref s (Next x)"

lemma touches_unchanged: "touches X t s s' \<Longrightarrow> x \<notin> X \<Longrightarrow> x \<notin> owner t \<Longrightarrow> unchanged s s' x"
  using touches_deref [of X t s s' "Bigger x"] touches_deref [of X t s s' "Next x"]
  by (cases t) (auto simp: touches_def unchanged_def)

lemma same_size_frame:
  "same_size s a xs \<Longrightarrow> deref s' a = deref s a \<Longrightarrow> \<forall>x \<in> set xs. unchanged s s' x \<Longrightarrow> same_size s' a xs"
  by (induction xs arbitrary: a) (auto simp: unchanged_def)

lemma by_size_frame:
  "by_size s a gs \<Longrightarrow> deref s' a = deref s a \<Longrightarrow> \<forall>x \<in> set (concat gs). unchanged s s' x \<Longrightarrow> by_size s' a gs"
proof (induction gs arbitrary: a)
  case (Cons g gs)
  then obtain x xs where g: "g = x # xs" by (cases g) auto
  have x: "unchanged s s' x" "\<forall>x \<in> set xs. unchanged s s' x" "\<forall>x \<in> set (concat gs). unchanged s s' x"
    using Cons.prems(3) by (simp_all add: g)
  have "same_size s' (Next x) xs"
    by (rule same_size_frame [of s]) (use Cons.prems(1) x in \<open>simp_all add: g unchanged_def\<close>)
  moreover have "by_size s' (Bigger x) gs"
    by (rule Cons.IH) (use Cons.prems(1) x in \<open>simp_all add: g unchanged_def\<close>)
  ultimately show ?case using Cons.prems(1,2) x(1) by (simp add: g unchanged_def)
qed simp

text \<open>An element's position in the list of one size.\<close>

lemma insert_same:
  assumes "same_size s a xs" "sorted_wrt (<) xs" "p \<notin> set xs" "owner a \<inter> insert p (set xs) = {}"
  shows "\<exists>t. fp_seek_next s p a = Some t \<and>
    same_size (fp_hook p t (fp_link_next p t s)) a (insort p xs) \<and>
    touches (insert p (set xs)) a s (fp_hook p t (fp_link_next p t s))"
  using assms
proof (induction xs arbitrary: a)
  case Nil
  then have a: "a \<noteq> Next p" "a \<noteq> Bigger p" by auto
  have "fp_seek_next s p a = Some a" using Nil by (subst fp_seek_next.simps) simp
  then show ?case using Nil a by (auto simp: fp_hook_def fp_link_next_def touches_def)
next
  case (Cons x xs)
  have x: "deref s a = Some x" "x \<noteq> p" using Cons.prems by auto
  show ?case
  proof (cases "x < p")
    case True
    have IH: "\<exists>t. fp_seek_next s p (Next x) = Some t \<and>
        same_size (fp_hook p t (fp_link_next p t s)) (Next x) (insort p xs) \<and>
        touches (insert p (set xs)) (Next x) s (fp_hook p t (fp_link_next p t s))"
      using Cons.prems by (intro Cons.IH) auto
    then obtain t where t: "fp_seek_next s p (Next x) = Some t"
      "same_size (fp_hook p t (fp_link_next p t s)) (Next x) (insort p xs)"
      "touches (insert p (set xs)) (Next x) s (fp_hook p t (fp_link_next p t s))" by blast
    let ?s = "fp_hook p t (fp_link_next p t s)"
    have nx: "x \<notin> set xs" using Cons.prems(2) by auto
    have "deref ?s a = deref s a" "deref ?s (Bigger x) = deref s (Bigger x)"
      using Cons.prems(4) nx x(2) by (intro touches_deref [OF t(3)]; auto)+
    moreover have "parent_of ?s x = parent_of s x" using t(3) nx x(2) by (simp add: touches_def)
    ultimately have "same_size ?s a (insort p (x # xs))" using t(2) True Cons.prems(1) by simp
    moreover have "touches (insert p (set (x # xs))) a s ?s" using t(3) by (rule touches_mono) auto
    ultimately show ?thesis using t(1) x True by (subst fp_seek_next.simps) simp
  next
    case False
    have "fp_seek_next s p a = Some a" using x False by (subst fp_seek_next.simps) simp
    moreover have "same_size (fp_hook p a (fp_link_next p a s)) a (p # x # xs)"
    proof -
      have "same_size (fp_hook p a (fp_link_next p a s)) (Next x) xs"
        by (rule same_size_frame [of s])
          (use Cons.prems x in \<open>auto simp: fp_hook_def fp_link_next_def unchanged_def\<close>)
      then show ?thesis using Cons.prems x by (auto simp: fp_hook_def fp_link_next_def)
    qed
    moreover have "touches (insert p (set (x # xs))) a s (fp_hook p a (fp_link_next p a s))"
      using Cons.prems x by (auto simp: fp_hook_def fp_link_next_def touches_def)
    ultimately show ?thesis using False by auto
  qed
qed


text \<open>A list that is moved behind another pointer: only the back pointer of its first element changes.\<close>

definition moved :: "fpool \<Rightarrow> fpool \<Rightarrow> fslot \<Rightarrow> nat \<Rightarrow> bool" where
  "moved s s' a b \<longleftrightarrow> parent_of s' b = a \<and> deref s' (Bigger b) = deref s (Bigger b) \<and>
     deref s' (Next b) = deref s (Next b)"

lemma by_size_move:
  assumes "by_size s a gs" "distinct (concat gs)" "deref s' a' = deref s a"
    and "\<And>b. deref s a = Some b \<Longrightarrow> moved s s' a' b"
    and "\<forall>x \<in> set (concat gs). deref s a \<noteq> Some x \<longrightarrow> unchanged s s' x"
  shows "by_size s' a' gs"
proof (cases gs)
  case Nil
  then show ?thesis using assms by simp
next
  case (Cons g gs')
  then obtain b bs where g: "g = b # bs" using assms(1) by (cases g) auto
  have b: "deref s a = Some b" "same_size s (Next b) bs" "by_size s (Bigger b) gs'"
    using assms(1) by (simp_all add: Cons g)
  have mv: "moved s s' a' b" using assms(4) b(1) by simp
  have "\<forall>x \<in> set bs \<union> set (concat gs'). unchanged s s' x"
    using assms(2,5) b(1) by (auto simp: Cons g)
  then have "same_size s' (Next b) bs" "by_size s' (Bigger b) gs'"
    using same_size_frame [OF b(2), of s'] by_size_frame [OF b(3), of s'] mv by (auto simp: moved_def)
  then show ?thesis using mv assms(3) b(1) by (simp add: Cons g moved_def)
qed

lemma same_size_move:
  assumes "same_size s a xs" "distinct xs" "deref s' a' = deref s a"
    and "\<And>b. deref s a = Some b \<Longrightarrow> moved s s' a' b"
    and "\<forall>x \<in> set xs. deref s a \<noteq> Some x \<longrightarrow> unchanged s s' x"
  shows "same_size s' a' xs"
proof (cases xs)
  case Nil
  then show ?thesis using assms by simp
next
  case (Cons b bs)
  have b: "deref s a = Some b" "same_size s (Next b) bs" "deref s (Bigger b) = None"
    using assms(1) by (simp_all add: Cons)
  have mv: "moved s s' a' b" using assms(4) b(1) by simp
  have "\<forall>x \<in> set bs. unchanged s s' x" using assms(2,5) b(1) by (auto simp: Cons)
  then have "same_size s' (Next b) bs"
    using same_size_frame [OF b(2), of s'] mv by (auto simp: moved_def)
  then show ?thesis using mv assms(3) b by (simp add: Cons moved_def)
qed

lemma by_size_parents: "by_size s a gs \<Longrightarrow> deref s a = Some b \<Longrightarrow> b \<in> set (concat gs)"
  by (cases gs) (auto split: list.splits)

text \<open>A new first element of a list of one size.\<close>

lemma insert_head:
  assumes bs: "by_size s a ((x # xs) # gs)" and d: "distinct (p # x # xs @ concat gs)"
    and o: "owner a \<inter> insert p (set (x # xs @ concat gs)) = {}"
  shows "by_size (fp_hook p a (fp_link_next p a s)) a ((p # x # xs) # gs)"
    and "touches (insert p (set (x # xs @ concat gs))) a s (fp_hook p a (fp_link_next p a s))"
proof -
  let ?s = "fp_hook p a (fp_link_next p a s)"
  have x: "deref s a = Some x" "parent_of s x = a" "same_size s (Next x) xs" "by_size s (Bigger x) gs"
    using bs by simp_all
  have p: "a \<noteq> Next p" "a \<noteq> Bigger p" "p \<noteq> x" "a \<noteq> Bigger x" "a \<noteq> Next x" using o d by auto
  have b: "b \<in> set (concat gs)" "b \<noteq> x" "b \<noteq> p" "b \<notin> owner a" if "deref s (Bigger x) = Some b" for b
    using by_size_parents [OF x(4) that] d o by auto
  have D: "deref ?s y = (if y = a then Some p else if y = Next p then Some x
      else if y = Bigger p then deref s (Bigger x) else if y = Bigger x then None else deref s y)" for y
    using x p by (auto simp: fp_hook_def fp_link_next_def Let_def split: option.splits)
  have P: "parent_of ?s y = (if y = p then a else if y = x then Next p
      else if deref s (Bigger x) = Some y then Bigger p else parent_of s y)" for y
    using x p by (auto simp: fp_hook_def fp_link_next_def Let_def split: option.splits)
  have un: "unchanged s ?s y" if "y \<in> set xs \<union> set (concat gs)" "deref s (Bigger x) \<noteq> Some y" for y
    using that d o by (auto simp: unchanged_def D P)
  have "\<forall>y \<in> set xs. unchanged s ?s y"
  proof
    fix y assume y: "y \<in> set xs"
    then have "deref s (Bigger x) \<noteq> Some y" using b(1) [of y] d by auto
    then show "unchanged s ?s y" using un y by blast
  qed
  then have "same_size ?s (Next x) xs" by (rule same_size_frame [OF x(3), rotated]) (use p in \<open>simp add: D\<close>)
  moreover have "by_size ?s (Bigger p) gs"
    by (rule by_size_move [OF x(4)]) (use un b d o p in \<open>auto simp: D P moved_def\<close>)
  ultimately show "by_size ?s a ((p # x # xs) # gs)" using p by (simp add: D P)
  show "touches (insert p (set (x # xs @ concat gs))) a s ?s"
    using b by (auto simp: touches_def D P) (auto simp: fp_hook_def fp_link_next_def Let_def split: option.splits)
qed

text \<open>A size that was not there.\<close>

lemma insert_size:
  assumes bs: "by_size s a gs" and d: "distinct (p # concat gs)" and o: "owner a \<inter> insert p (set (concat gs)) = {}"
  shows "by_size (fp_hook p a (fp_link_size p a s)) a ([p] # gs)"
    and "touches (insert p (set (concat gs))) a s (fp_hook p a (fp_link_size p a s))"
proof -
  let ?s = "fp_hook p a (fp_link_size p a s)"
  have p: "a \<noteq> Next p" "a \<noteq> Bigger p" using o by auto
  have b: "b \<in> set (concat gs)" "b \<noteq> p" "b \<notin> owner a" if "deref s a = Some b" for b
    using by_size_parents [OF bs that] d o by auto
  have D: "deref ?s y = (if y = a then Some p else if y = Next p then None
      else if y = Bigger p then deref s a else deref s y)" for y
    using p by (auto simp: fp_hook_def fp_link_size_def Let_def split: option.splits)
  have P: "parent_of ?s y = (if y = p then a else if deref s a = Some y then Bigger p else parent_of s y)" for y
    using p by (auto simp: fp_hook_def fp_link_size_def Let_def split: option.splits)
  have "by_size ?s (Bigger p) gs"
    by (rule by_size_move [OF bs]) (use b d o p in \<open>auto simp: D P moved_def unchanged_def\<close>)
  then show "by_size ?s a ([p] # gs)" using p by (simp add: D P)
  show "touches (insert p (set (concat gs))) a s ?s"
    using b by (auto simp: touches_def D P) (auto simp: fp_hook_def fp_link_size_def Let_def split: option.splits)
qed


section \<open>Adding an extent\<close>

text \<open>The list of lists after an insertion.\<close>

fun add_group :: "(nat \<Rightarrow> int) \<Rightarrow> nat \<Rightarrow> nat list list \<Rightarrow> nat list list" where
  "add_group sz p [] = [[p]]"
| "add_group sz p (g # gs) =
     (if sz (hd g) < sz p then g # add_group sz p gs
      else if sz (hd g) = sz p then insort p g # gs else [p] # g # gs)"

lemma sizes_ok_distinct: "sizes_ok sz gs \<Longrightarrow> distinct (concat gs)"
proof (induction gs)
  case (Cons g gs)
  then have "distinct g" using strict_sorted_iff [of g] by simp
  moreover have "x \<notin> set g" if "x \<in> set (concat gs)" for x
  proof
    assume "x \<in> set g"
    then have "sz x = sz (hd g)" using Cons.prems unfolding sizes_ok.simps list_all_iff by blast
    moreover have "sz (hd g) < sz x" using Cons.prems that unfolding sizes_ok.simps by blast
    ultimately show False by simp
  qed
  moreover have "distinct (concat gs)" using Cons unfolding sizes_ok.simps by blast
  ultimately show ?case unfolding concat.simps distinct_append by blast
qed simp

lemma by_size_Nil_notin: "by_size s a gs \<Longrightarrow> [] \<notin> set gs"
  by (induction gs arbitrary: a) (auto split: list.splits)

lemma add_at_equal:
  assumes bs: "by_size s a ((x # xs) # gs)" and ok: "sizes_ok (size_of s) ((x # xs) # gs)"
    and p: "p \<notin> set (concat ((x # xs) # gs))" and o: "owner a \<inter> insert p (set (concat ((x # xs) # gs))) = {}"
    and eq: "size_of s x = size_of s p"
  shows "\<exists>s'. fp_add_at p a s = Some s' \<and> by_size s' a (insort p (x # xs) # gs) \<and>
    touches (insert p (set (concat ((x # xs) # gs)))) a s s'"
proof -
  have x: "deref s a = Some x" "parent_of s x = a" "same_size s (Next x) xs" "by_size s (Bigger x) gs"
    using bs by simp_all
  have d: "distinct (x # xs @ concat gs)" using sizes_ok_distinct [OF ok] by simp
  have seek: "fp_seek s (size_of s p) a = Some a" using x eq by (subst fp_seek.simps) simp
  show ?thesis
  proof (cases "x < p")
    case False
    then have "fp_seek_next s p a = Some a" using x by (subst fp_seek_next.simps) simp
    then have "fp_add_at p a s = Some (fp_hook p a (fp_link_next p a s))"
      using seek x eq by (simp add: fp_add_at_def)
    moreover have "insort p (x # xs) = p # x # xs" using False by simp
    moreover have "distinct (p # x # xs @ concat gs)" using d p by auto
    ultimately show ?thesis using insert_head [OF bs] o by simp
  next
    case True
    have "sorted_wrt (<) xs" using ok by simp
    then obtain t where t: "fp_seek_next s p (Next x) = Some t"
      "same_size (fp_hook p t (fp_link_next p t s)) (Next x) (insort p xs)"
      "touches (insert p (set xs)) (Next x) s (fp_hook p t (fp_link_next p t s))"
      using insert_same [OF x(3), of p] p d by auto
    let ?s = "fp_hook p t (fp_link_next p t s)"
    have "fp_seek_next s p a = Some t" using x True t(1) by (subst fp_seek_next.simps) simp
    then have "fp_add_at p a s = Some ?s" using seek x eq by (simp add: fp_add_at_def)
    moreover have "deref ?s a = deref s a" "deref ?s (Bigger x) = deref s (Bigger x)"
      using o d p by (intro touches_deref [OF t(3)]; auto)+
    moreover have "parent_of ?s x = parent_of s x" using t(3) d p by (simp add: touches_def)
    moreover have "\<forall>y \<in> set (concat gs). unchanged s ?s y"
      using d p by (auto intro!: touches_unchanged [OF t(3)])
    then have "by_size ?s (Bigger x) gs" using calculation(3) by (intro by_size_frame [OF x(4)])
    ultimately show ?thesis
      using x t(2) True touches_mono [OF t(3), of "insert p (set (concat ((x # xs) # gs)))" a] by auto
  qed
qed

lemma add_at:
  assumes "by_size s a gs" "sizes_ok (size_of s) gs" "p \<notin> set (concat gs)"
    and "owner a \<inter> insert p (set (concat gs)) = {}"
  shows "\<exists>s'. fp_add_at p a s = Some s' \<and> by_size s' a (add_group (size_of s) p gs) \<and>
    touches (insert p (set (concat gs))) a s s'"
  using assms
proof (induction gs arbitrary: a)
  case Nil
  then have "fp_add_at p a s = Some (fp_hook p a (fp_link_size p a s))"
    by (simp add: fp_add_at_def) (subst fp_seek.simps, simp)
  then show ?case using insert_size [OF Nil(1), of p] Nil by simp
next
  case (Cons g gs)
  then obtain x xs where g: "g = x # xs" by (cases g) auto
  have x: "deref s a = Some x" "parent_of s x = a" "same_size s (Next x) xs" "by_size s (Bigger x) gs"
    using Cons.prems(1) by (simp_all add: g)
  have d: "distinct (x # xs @ concat gs)" using sizes_ok_distinct [OF Cons.prems(2)] by (simp add: g)
  consider "size_of s x < size_of s p" | "size_of s x = size_of s p" | "size_of s p < size_of s x" by linarith
  then show ?case
  proof cases
    case 1
    have "\<exists>s'. fp_add_at p (Bigger x) s = Some s' \<and> by_size s' (Bigger x) (add_group (size_of s) p gs) \<and>
        touches (insert p (set (concat gs))) (Bigger x) s s'"
      using Cons.prems x d by (intro Cons.IH) (auto simp: g)
    then obtain s' where s': "fp_add_at p (Bigger x) s = Some s'"
      "by_size s' (Bigger x) (add_group (size_of s) p gs)" "touches (insert p (set (concat gs))) (Bigger x) s s'" by blast
    have "fp_seek s (size_of s p) a = fp_seek s (size_of s p) (Bigger x)"
      using x 1 by (subst fp_seek.simps) simp
    then have "fp_add_at p a s = Some s'" using s'(1) by (simp add: fp_add_at_def)
    moreover have "deref s' a = deref s a" "deref s' (Next x) = deref s (Next x)"
      using Cons.prems(3,4) d by (intro touches_deref [OF s'(3)]; auto simp: g)+
    moreover have "parent_of s' x = parent_of s x" using s'(3) d Cons.prems(3) by (simp add: g touches_def)
    moreover have "same_size s' (Next x) xs"
      by (rule same_size_frame [OF x(3)])
        (use calculation(3) d Cons.prems(3) in \<open>auto simp: g intro!: touches_unchanged [OF s'(3)]\<close>)
    ultimately show ?thesis
      using x s'(2) 1 touches_mono [OF s'(3), of "insert p (set (concat (g # gs)))" a] by (auto simp: g)
  next
    case 2
    then show ?thesis using add_at_equal [OF Cons.prems [unfolded g] 2] by (simp add: g)
  next
    case 3
    then have "fp_add_at p a s = Some (fp_hook p a (fp_link_size p a s))"
      using x by (simp add: fp_add_at_def) (subst fp_seek.simps, simp)
    then show ?thesis using insert_size [OF Cons.prems(1), of p] Cons.prems 3 d by (auto simp: g)
  qed
qed


section \<open>Removing an extent\<close>

lemma remove_same:
  assumes "same_size s a xs" "distinct xs" "p \<in> set xs" "owner a \<inter> set xs = {}"
  shows "same_size (fp_remove p s) a (remove1 p xs) \<and> touches (set xs) a s (fp_remove p s)"
  using assms
proof (induction xs arbitrary: a)
  case (Cons x xs)
  have x: "deref s a = Some x" "parent_of s x = a" "deref s (Bigger x) = None" "same_size s (Next x) xs"
    using Cons.prems(1) by simp_all
  have a: "a \<noteq> Next x" "a \<noteq> Bigger x" using Cons.prems(4) by auto
  show ?case
  proof (cases "p = x")
    case False
    then have IH: "same_size (fp_remove p s) (Next x) (remove1 p xs)" "touches (set xs) (Next x) s (fp_remove p s)"
      using Cons.prems x by (auto intro!: Cons.IH [THEN conjunct1] Cons.IH [THEN conjunct2])
    have "deref (fp_remove p s) a = deref s a" "deref (fp_remove p s) (Bigger x) = deref s (Bigger x)"
      using Cons.prems(2,4) a by (intro touches_deref [OF IH(2)]; auto)+
    moreover have "parent_of (fp_remove p s) x = parent_of s x" using IH(2) Cons.prems(2) by (simp add: touches_def)
    ultimately show ?thesis using x IH False touches_mono [OF IH(2), of "set (x # xs)" a] by auto
  next
    case True
    have n: "n \<in> set xs" "n \<noteq> x" "n \<notin> owner a" "a \<noteq> Bigger n" if "deref s (Next x) = Some n" for n
      using x(4) that Cons.prems(2,4) by (cases xs; auto)+
    have D: "deref (fp_remove p s) y = (if y = a then deref s (Next x)
        else if \<exists>n. deref s (Next x) = Some n \<and> y = Bigger n then None else deref s y)" for y
      using x a n True by (auto simp: fp_remove_def Let_def split: option.splits)
    have P: "parent_of (fp_remove p s) y = (if deref s (Next x) = Some y then a else parent_of s y)" for y
      using x a n True by (auto simp: fp_remove_def Let_def split: option.splits)
    have "deref s (Bigger n) = None" if "deref s (Next x) = Some n" for n using x(4) that by (cases xs) auto
    then have "same_size (fp_remove p s) a xs"
      by (intro same_size_move [OF x(4)])
        (use Cons.prems(2,4) n a in \<open>auto simp: D P moved_def unchanged_def\<close>)
    moreover have "touches (set (x # xs)) a s (fp_remove p s)"
      using n True x a by (auto simp: touches_def D P) (auto simp: fp_remove_def Let_def split: option.splits)
    ultimately show ?thesis using True by simp
  qed
qed simp


lemma remove_head_alone:
  assumes bs: "by_size s a ([x] # gs)" and d: "distinct (x # concat gs)" and o: "owner a \<inter> set (x # concat gs) = {}"
  shows "by_size (fp_remove x s) a gs \<and> touches (set (x # concat gs)) a s (fp_remove x s)"
proof -
  have x: "deref s a = Some x" "parent_of s x = a" "deref s (Next x) = None" "by_size s (Bigger x) gs"
    using bs by simp_all
  have a: "a \<noteq> Next x" "a \<noteq> Bigger x" using o by auto
  have b: "b \<in> set (concat gs)" "b \<noteq> x" "b \<notin> owner a" if "deref s (Bigger x) = Some b" for b
    using by_size_parents [OF x(4) that] d o by auto
  have D: "deref (fp_remove x s) y = (if y = a then deref s (Bigger x) else deref s y)" for y
    using x a by (auto simp: fp_remove_def Let_def split: option.splits)
  have P: "parent_of (fp_remove x s) y = (if deref s (Bigger x) = Some y then a else parent_of s y)" for y
    using x a by (auto simp: fp_remove_def Let_def split: option.splits)
  have "by_size (fp_remove x s) a gs"
    by (rule by_size_move [OF x(4)]) (use d o a b in \<open>auto simp: D P moved_def unchanged_def\<close>)
  moreover have "touches (set (x # concat gs)) a s (fp_remove x s)"
    using b x a by (auto simp: touches_def D P) (auto simp: fp_remove_def Let_def split: option.splits)
  ultimately show ?thesis by simp
qed

lemma remove_head:
  assumes bs: "by_size s a ((x # n # ns) # gs)" and d: "distinct (x # n # ns @ concat gs)"
    and o: "owner a \<inter> set (x # n # ns @ concat gs) = {}"
  shows "by_size (fp_remove x s) a ((n # ns) # gs) \<and> touches (set (x # n # ns @ concat gs)) a s (fp_remove x s)"
proof -
  have x: "deref s a = Some x" "parent_of s x = a" "deref s (Next x) = Some n" "same_size s (Next n) ns"
    "by_size s (Bigger x) gs" using bs by simp_all
  have a: "a \<noteq> Next x" "a \<noteq> Bigger x" "a \<noteq> Next n" "a \<noteq> Bigger n" "x \<noteq> n" using o d by auto
  have b: "b \<in> set (concat gs)" "b \<noteq> x" "b \<noteq> n" "b \<notin> owner a" if "deref s (Bigger x) = Some b" for b
    using by_size_parents [OF x(5) that] d o by auto
  have D: "deref (fp_remove x s) y =
      (if y = a then Some n else if y = Bigger n then deref s (Bigger x) else deref s y)" for y
    using x a by (auto simp: fp_remove_def Let_def split: option.splits)
  have P: "parent_of (fp_remove x s) y =
      (if y = n then a else if deref s (Bigger x) = Some y then Bigger n else parent_of s y)" for y
    using x a b by (auto simp: fp_remove_def Let_def split: option.splits)
  have "deref s (Bigger x) \<noteq> Some y" if "y \<in> set ns" for y using b(1) [of y] d that by auto
  then have "same_size (fp_remove x s) (Next n) ns"
    by (intro same_size_frame [OF x(4)]) (use d o a in \<open>auto simp: D P unchanged_def\<close>)
  moreover have "by_size (fp_remove x s) (Bigger n) gs"
    by (rule by_size_move [OF x(5)]) (use d o a b in \<open>auto simp: D P moved_def unchanged_def\<close>)
  moreover have "touches (set (x # n # ns @ concat gs)) a s (fp_remove x s)"
    using b x a by (auto simp: touches_def D P) (auto simp: fp_remove_def Let_def split: option.splits)
  ultimately show ?thesis using a by (simp add: D P)
qed

text \<open>The list of lists without \<open>p\<close>; an empty list disappears.\<close>

fun drop_group :: "nat \<Rightarrow> nat list list \<Rightarrow> nat list list" where
  "drop_group p [] = []"
| "drop_group p (g # gs) =
     (if p \<in> set g then (if remove1 p g = [] then gs else remove1 p g # gs) else g # drop_group p gs)"

lemma remove_by_size:
  assumes "by_size s a gs" "distinct (concat gs)" "p \<in> set (concat gs)" "owner a \<inter> set (concat gs) = {}"
  shows "by_size (fp_remove p s) a (drop_group p gs) \<and> touches (set (concat gs)) a s (fp_remove p s)"
  using assms
proof (induction gs arbitrary: a)
  case (Cons g gs)
  then obtain x xs where g: "g = x # xs" by (cases g) auto
  have x: "deref s a = Some x" "parent_of s x = a" "same_size s (Next x) xs" "by_size s (Bigger x) gs"
    using Cons.prems(1) by (simp_all add: g)
  have a: "a \<noteq> Next x" "a \<noteq> Bigger x" using Cons.prems(4) by (auto simp: g)
  consider "p = x" | "p \<noteq> x" "p \<in> set xs" | "p \<notin> set g" "p \<in> set (concat gs)" using Cons.prems(3) by (auto simp: g)
  then show ?case
  proof cases
    case 1
    then show ?thesis
      using Cons.prems remove_head_alone [of s a x gs] remove_head [of s a x "hd xs" "tl xs" gs]
      by (cases xs) (auto simp: g)
  next
    case 2
    have r: "same_size (fp_remove p s) (Next x) (remove1 p xs)" "touches (set xs) (Next x) s (fp_remove p s)"
      using remove_same [OF x(3) _ 2(2)] Cons.prems(2) by (auto simp: g)
    have "deref (fp_remove p s) a = deref s a" "deref (fp_remove p s) (Bigger x) = deref s (Bigger x)"
      using Cons.prems(2,4) a by (intro touches_deref [OF r(2)]; auto simp: g)+
    moreover have "parent_of (fp_remove p s) x = parent_of s x" using r(2) Cons.prems(2) by (simp add: touches_def g)
    moreover have "by_size (fp_remove p s) (Bigger x) gs"
      by (rule by_size_frame [OF x(4)])
        (use calculation(2) Cons.prems(2) in \<open>auto simp: g intro!: touches_unchanged [OF r(2)]\<close>)
    ultimately show ?thesis
      using x r(1) 2 touches_mono [OF r(2), of "set (concat (g # gs))" a] by (auto simp: g)
  next
    case 3
    have r: "by_size (fp_remove p s) (Bigger x) (drop_group p gs)" "touches (set (concat gs)) (Bigger x) s (fp_remove p s)"
      using Cons.IH [OF x(4) _ 3(2)] Cons.prems(2) by (auto simp: g)
    have "deref (fp_remove p s) a = deref s a" "deref (fp_remove p s) (Next x) = deref s (Next x)"
      using Cons.prems(2,4) a by (intro touches_deref [OF r(2)]; auto simp: g)+
    moreover have "parent_of (fp_remove p s) x = parent_of s x" using r(2) Cons.prems(2) by (simp add: touches_def g)
    moreover have "same_size (fp_remove p s) (Next x) xs"
      by (rule same_size_frame [OF x(3)])
        (use calculation(2) Cons.prems(2) in \<open>auto simp: g intro!: touches_unchanged [OF r(2)]\<close>)
    ultimately show ?thesis
      using x r(1) 3 touches_mono [OF r(2), of "set (concat (g # gs))" a] by (auto simp: g)
  qed
qed simp


section \<open>The order of the list\<close>

abbreviation fp_key :: "(nat \<Rightarrow> int) \<Rightarrow> nat \<Rightarrow> int \<times> nat" where
  "fp_key sz \<equiv> \<lambda>x. (sz x, x)"

lemma sizes_okE:
  assumes "sizes_ok sz (g # gs)"
  obtains c where "g \<noteq> []" "\<And>y. y \<in> set g \<Longrightarrow> sz y = c" "sz (hd g) = c" "sorted_wrt (<) g"
    "\<And>x. x \<in> set (concat gs) \<Longrightarrow> c < sz x" "sizes_ok sz gs"
  using assms unfolding sizes_ok.simps list_all_iff by blast

lemma sizes_okI:
  assumes "g \<noteq> []" "\<And>y. y \<in> set g \<Longrightarrow> sz y = c" "sorted_wrt (<) g" "\<And>x. x \<in> set (concat gs) \<Longrightarrow> c < sz x" "sizes_ok sz gs"
  shows "sizes_ok sz (g # gs)"
proof -
  have "sz (hd g) = c" using assms(1,2) by simp
  then show ?thesis using assms unfolding sizes_ok.simps list_all_iff by metis
qed

lemma sizes_ok_cong: "(\<And>x. x \<in> set (concat gs) \<Longrightarrow> f x = g x) \<Longrightarrow> sizes_ok f gs = sizes_ok g gs"
proof (induction gs)
  case (Cons h gs)
  have "sizes_ok f gs = sizes_ok g gs" using Cons by simp
  moreover have "list_all (\<lambda>x. f x = f (hd h)) h = list_all (\<lambda>x. g x = g (hd h)) h" if "h \<noteq> []"
    using Cons.prems that unfolding list_all_iff by (metis UnI1 concat.simps(2) hd_in_set set_append)
  moreover have "(\<forall>x \<in> set (concat gs). f (hd h) < f x) = (\<forall>x \<in> set (concat gs). g (hd h) < g x)" if "h \<noteq> []"
    using Cons.prems that by (metis UnI1 UnI2 concat.simps(2) hd_in_set set_append)
  ultimately show ?case unfolding sizes_ok.simps by metis
qed simp

lemma set_add_group: "set (concat (add_group sz p gs)) = insert p (set (concat gs))"
  by (induction gs) (auto simp: set_insort_key)

lemma sizes_ok_add_group:
  "sizes_ok sz gs \<Longrightarrow> p \<notin> set (concat gs) \<Longrightarrow> sizes_ok sz (add_group sz p gs)"
proof (induction gs)
  case (Cons g gs)
  obtain c where g: "g \<noteq> []" "\<And>y. y \<in> set g \<Longrightarrow> sz y = c" "sz (hd g) = c" "sorted_wrt (<) g"
    "\<And>x. x \<in> set (concat gs) \<Longrightarrow> c < sz x" "sizes_ok sz gs" using sizes_okE [OF Cons.prems(1)] by blast
  consider "c < sz p" | "c = sz p" | "sz p < c" by linarith
  then show ?case
  proof cases
    case 1
    have "sizes_ok sz (add_group sz p gs)" using Cons g(6) by simp
    then have "sizes_ok sz (g # add_group sz p gs)"
      using g 1 by (intro sizes_okI [of g sz c]) (auto simp: set_add_group simp del: set_concat)
    then show ?thesis using 1 g(3) by simp
  next
    case 2
    have "sorted_wrt (<) (insort p g)"
      using g(4) Cons.prems(2) by (auto simp: strict_sorted_iff sorted_insort distinct_insort)
    then have "sizes_ok sz (insort p g # gs)"
      using g 2 by (intro sizes_okI [of "insort p g" sz c]) (auto simp: set_insort_key simp del: set_concat)
    then show ?thesis using 2 g(3) by simp
  next
    case 3
    have "sz p < sz x" if "x \<in> set (concat (g # gs))" for x
      using that 3 g(2) [of x] g(5) [of x] by (fastforce simp del: set_concat)
    then have "sizes_ok sz ([p] # g # gs)"
      using Cons.prems(1) by (intro sizes_okI [of "[p]" sz "sz p"]) (auto simp del: set_concat sizes_ok.simps)
    then show ?thesis using 3 g(3) by simp
  qed
qed simp

lemma set_drop_group: "set (concat (drop_group p gs)) \<subseteq> set (concat gs)"
  using set_remove1_subset by (induction gs) (auto split: if_splits dest: notin_set_remove1)

lemma sorted_wrt_remove1: "sorted_wrt (<) (g :: nat list) \<Longrightarrow> sorted_wrt (<) (remove1 p g)"
  by (simp add: strict_sorted_iff sorted_remove1)

lemma sizes_ok_drop_group: "sizes_ok sz gs \<Longrightarrow> sizes_ok sz (drop_group p gs)"
proof (induction gs)
  case (Cons g gs)
  obtain c where g: "g \<noteq> []" "\<And>y. y \<in> set g \<Longrightarrow> sz y = c" "sz (hd g) = c" "sorted_wrt (<) g"
    "\<And>x. x \<in> set (concat gs) \<Longrightarrow> c < sz x" "sizes_ok sz gs" using sizes_okE [OF Cons.prems(1)] by blast
  have "sizes_ok sz (remove1 p g # gs)" if "remove1 p g \<noteq> []"
  proof (rule sizes_okI)
    show "sz y = c" if "y \<in> set (remove1 p g)" for y using that by (intro g(2)) (rule subsetD [OF set_remove1_subset])
  qed (use that g(5,6) sorted_wrt_remove1 [OF g(4)] in simp_all)
  moreover have "sizes_ok sz (g # drop_group p gs)"
  proof (rule sizes_okI)
    show "c < sz x" if "x \<in> set (concat (drop_group p gs))" for x using that set_drop_group g(5) by blast
  qed (use g(1,2,4) Cons.IH [OF g(6)] in simp_all)
  ultimately show ?case using g(6) by (simp del: sizes_ok.simps)
qed simp

lemma concat_drop_group: "p \<in> set (concat gs) \<Longrightarrow> concat (drop_group p gs) = remove1 p (concat gs)"
  by (induction gs) (auto simp: remove1_append)

lemma concat_sorted: "sizes_ok sz gs \<Longrightarrow> sorted_wrt (<) (map (fp_key sz) (concat gs))"
proof (induction gs)
  case (Cons g gs)
  obtain c where g: "g \<noteq> []" "\<And>y. y \<in> set g \<Longrightarrow> sz y = c" "sz (hd g) = c" "sorted_wrt (<) g"
    "\<And>x. x \<in> set (concat gs) \<Longrightarrow> c < sz x" "sizes_ok sz gs" using sizes_okE [OF Cons.prems(1)] by blast
  have "sorted_wrt (\<lambda>x y. fp_key sz x < fp_key sz y) g"
    by (rule sorted_wrt_mono_rel [OF _ g(4)]) (use g(2) in simp)
  moreover have "fp_key sz x < fp_key sz y" if "x \<in> set g" "y \<in> set (concat gs)" for x y
    using g(2) [OF that(1)] g(5) [OF that(2)] by simp
  ultimately show ?case using Cons.IH [OF g(6)]
    by (simp add: sorted_wrt_append sorted_wrt_map del: set_concat less_prod_simp)
qed simp

lemma concat_add_group:
  assumes "sizes_ok sz gs" "p \<notin> set (concat gs)"
  shows "concat (add_group sz p gs) = insort_key (fp_key sz) p (concat gs)"
proof -
  let ?l = "concat (add_group sz p gs)" and ?r = "insort_key (fp_key sz) p (concat gs)"
  have d: "distinct (map (fp_key sz) xs) = distinct xs" for xs by (simp add: distinct_map inj_on_def)
  have "sorted_wrt (<) (map (fp_key sz) ?l)" by (rule concat_sorted [OF sizes_ok_add_group [OF assms]])
  moreover have "sorted_wrt (<) (map (fp_key sz) ?r)"
    using concat_sorted [OF assms(1)] assms(2) sizes_ok_distinct [OF assms(1)]
    by (simp add: strict_sorted_iff sorted_insort_key d distinct_insort)
  moreover have "set (map (fp_key sz) ?r) = set (map (fp_key sz) ?l)"
    by (simp only: set_map set_add_group set_insort_key)
  ultimately have "map (fp_key sz) ?r = map (fp_key sz) ?l" by (rule strict_sorted_equal)
  then have "map snd (map (fp_key sz) ?l) = map snd (map (fp_key sz) ?r)" by simp
  then show ?thesis by (simp add: comp_def)
qed


section \<open>The operations on the list of free extents\<close>

lemma free_list_distinct: "free_list s gs \<Longrightarrow> distinct (concat gs)"
  unfolding free_list_def by (blast intro: sizes_ok_distinct)

lemma fp_add_list:
  assumes "free_list s gs" "p \<notin> set (concat gs)"
  shows "\<exists>s' gs'. fp_add p s = Some s' \<and> free_list s' gs' \<and>
    concat gs' = insort_key (fp_key (size_of s)) p (concat gs) \<and> (\<forall>x. size_of s' x = size_of s x)"
proof -
  have bs: "by_size s Root gs" and ok: "sizes_ok (size_of s) gs" using assms(1) by (simp_all add: free_list_def)
  obtain s' where s': "fp_add p s = Some s'" "by_size s' Root (add_group (size_of s) p gs)"
    "touches (insert p (set (concat gs))) Root s s'"
    using add_at [OF bs ok assms(2)] unfolding fp_add_def by auto
  have sz: "\<forall>x. size_of s' x = size_of s x" using s'(3) by (simp add: touches_def)
  have "sizes_ok (size_of s') (add_group (size_of s) p gs)"
    using sizes_ok_add_group [OF ok assms(2)] sizes_ok_cong [of "add_group (size_of s) p gs" "size_of s'" "size_of s"] sz
    by blast
  then show ?thesis using s' sz concat_add_group [OF ok assms(2)] unfolding free_list_def by blast
qed

lemma fp_remove_list:
  assumes "free_list s gs" "p \<in> set (concat gs)"
  shows "\<exists>gs'. free_list (fp_remove p s) gs' \<and> concat gs' = remove1 p (concat gs) \<and>
    (\<forall>x. size_of (fp_remove p s) x = size_of s x)"
proof -
  have bs: "by_size s Root gs" and ok: "sizes_ok (size_of s) gs" using assms(1) by (simp_all add: free_list_def)
  have r: "by_size (fp_remove p s) Root (drop_group p gs)" "touches (set (concat gs)) Root s (fp_remove p s)"
    using remove_by_size [OF bs sizes_ok_distinct [OF ok] assms(2)] by simp_all
  have sz: "\<forall>x. size_of (fp_remove p s) x = size_of s x" using r(2) by (simp add: touches_def)
  have "sizes_ok (size_of (fp_remove p s)) (drop_group p gs)"
    using sizes_ok_drop_group [OF ok] sizes_ok_cong [of "drop_group p gs" "size_of (fp_remove p s)" "size_of s"] sz
    by blast
  then show ?thesis using r(1) sz concat_drop_group [OF assms(2)] unfolding free_list_def by blast
qed

lemma find_append: "find P (xs @ ys) = (case find P xs of None \<Rightarrow> find P ys | Some x \<Rightarrow> Some x)"
  by (induction xs) auto

lemma fp_first_find:
  assumes "by_size s a gs" "sizes_ok (size_of s) gs"
  shows "fp_first s n (deref s a) = Some (find (\<lambda>x. n \<le> size_of s x) (concat gs))"
  using assms
proof (induction gs arbitrary: a)
  case Nil
  then show ?case by (subst fp_first.simps) simp
next
  case (Cons g gs)
  obtain x xs where g: "g = x # xs" using Cons.prems by (cases g) auto
  have c: "size_of s y = size_of s x" if "y \<in> set xs" for y
    using Cons.prems(2) that unfolding g sizes_ok.simps list_all_iff by simp
  have x: "deref s a = Some x" "by_size s (Bigger x) gs" using Cons.prems(1) by (simp_all add: g)
  show ?case
  proof (cases "size_of s x < n")
    case True
    then have "find (\<lambda>x. n \<le> size_of s x) xs = None" using c by (auto simp: find_None_iff)
    then have "find (\<lambda>x. n \<le> size_of s x) (concat (g # gs)) = find (\<lambda>x. n \<le> size_of s x) (concat gs)"
      using True by (simp add: g find_append)
    moreover have "fp_first s n (deref s (Bigger x)) = Some (find (\<lambda>x. n \<le> size_of s x) (concat gs))"
      using Cons.prems(2) by (intro Cons.IH [OF x(2)]) simp
    ultimately show ?thesis using True x(1) by (subst fp_first.simps) simp
  next
    case False
    then show ?thesis using x(1) by (subst fp_first.simps) (simp add: g)
  qed
qed


text \<open>The first fitting element of a list in the order of size and address is the best fit.\<close>

lemma find_best:
  assumes "sorted_wrt (<) (map (fp_key sz) xs)" "find (\<lambda>x. n \<le> sz x) xs = Some x"
  shows "x \<in> set xs" "n \<le> sz x" "y \<in> set xs \<Longrightarrow> n \<le> sz y \<Longrightarrow> fp_key sz x \<le> fp_key sz y"
proof -
  show "x \<in> set xs" "n \<le> sz x" using assms(2) by (auto simp: find_Some_iff)
  show "fp_key sz x \<le> fp_key sz y" if "y \<in> set xs" "n \<le> sz y" using assms that
    by (induction xs) (auto split: if_splits simp del: less_prod_simp less_eq_prod_simp)
qed

lemma fp_find_list:
  assumes "free_list s gs"
  shows "\<exists>s'. fp_find n s = Some (find (\<lambda>x. n \<le> size_of s x) (concat gs), s') \<and>
    s' = (case find (\<lambda>x. n \<le> size_of s x) (concat gs) of None \<Rightarrow> s | Some x \<Rightarrow> fp_remove x s)"
  using assms fp_first_find [of s Root gs n] by (simp add: fp_find_def free_list_def deref.simps)

section \<open>The interface of the free extents\<close>

text \<open>
  What the allocator of pages relies on: the store holds a set of extents, an extent can be added
  and taken out, and a search returns the smallest extent that is large enough, the lowest in
  memory among those, and takes it out.
\<close>

locale extent_store =
  fixes stored :: "'s \<Rightarrow> nat set \<Rightarrow> bool"
    and ext_size :: "'s \<Rightarrow> nat \<Rightarrow> int"
    and add :: "nat \<Rightarrow> 's \<Rightarrow> 's option"
    and remove :: "nat \<Rightarrow> 's \<Rightarrow> 's"
    and find_ext :: "int \<Rightarrow> 's \<Rightarrow> (nat option \<times> 's) option"
  assumes add_law: "stored s X \<Longrightarrow> p \<notin> X \<Longrightarrow>
      \<exists>s'. add p s = Some s' \<and> stored s' (insert p X) \<and> ext_size s' = ext_size s"
    and remove_law: "stored s X \<Longrightarrow> p \<in> X \<Longrightarrow> stored (remove p s) (X - {p}) \<and> ext_size (remove p s) = ext_size s"
    and find_law: "stored s X \<Longrightarrow> \<exists>r s'. find_ext n s = Some (r, s') \<and>
      (case r of None \<Rightarrow> s' = s \<and> (\<forall>y \<in> X. ext_size s y < n)
       | Some x \<Rightarrow> x \<in> X \<and> n \<le> ext_size s x \<and> s' = remove x s \<and>
           (\<forall>y \<in> X. n \<le> ext_size s y \<longrightarrow> (ext_size s x, x) \<le> (ext_size s y, y)))"
begin

text \<open>A search finds an extent exactly when one is large enough.\<close>

lemma find_succeeds:
  assumes "stored s X" "y \<in> X" "n \<le> ext_size s y"
  shows "\<exists>x s'. find_ext n s = Some (Some x, s') \<and> x \<in> X \<and> n \<le> ext_size s x \<and> ext_size s x \<le> ext_size s y \<and>
    stored s' (X - {x}) \<and> ext_size s' = ext_size s"
proof -
  obtain r s' where r: "find_ext n s = Some (r, s')"
    "case r of None \<Rightarrow> s' = s \<and> (\<forall>y \<in> X. ext_size s y < n)
     | Some x \<Rightarrow> x \<in> X \<and> n \<le> ext_size s x \<and> s' = remove x s \<and>
         (\<forall>y \<in> X. n \<le> ext_size s y \<longrightarrow> (ext_size s x, x) \<le> (ext_size s y, y))"
    using find_law [OF assms(1)] by blast
  then obtain x where x: "r = Some x" using assms(2,3) by (cases r) fastforce+
  then show ?thesis using r assms remove_law [OF assms(1), of x] by (fastforce simp: less_eq_prod_def)
qed

lemma find_fails:
  assumes "stored s X" "\<forall>y \<in> X. ext_size s y < n"
  shows "find_ext n s = Some (None, s)"
  using find_law [OF assms(1), of n] assms(2) by (fastforce split: option.splits)

text \<open>An extent that is put back is there for the next search of that size.\<close>

lemma find_after_add:
  assumes "stored s X" "p \<notin> X" "n \<le> ext_size s p"
  shows "\<exists>s1 x s2. add p s = Some s1 \<and> find_ext n s1 = Some (Some x, s2) \<and> n \<le> ext_size s x \<and>
    ext_size s x \<le> ext_size s p \<and> stored s2 (insert p X - {x})"
proof -
  obtain s1 where s1: "add p s = Some s1" "stored s1 (insert p X)" "ext_size s1 = ext_size s"
    using add_law [OF assms(1,2)] by blast
  then show ?thesis using find_succeeds [OF s1(2), of p n] assms(3) by auto
qed

end

definition fp_stored :: "fpool \<Rightarrow> nat set \<Rightarrow> bool" where
  "fp_stored s X \<longleftrightarrow> (\<exists>gs. free_list s gs \<and> X = set (concat gs))"

interpretation fp: extent_store fp_stored size_of fp_add fp_remove fp_find
proof
  fix s X p n
  assume "fp_stored s X"
  then obtain gs where gs: "free_list s gs" "X = set (concat gs)" by (auto simp: fp_stored_def)
  show "\<exists>s'. fp_add p s = Some s' \<and> fp_stored s' (insert p X) \<and> size_of s' = size_of s" if "p \<notin> X"
    using fp_add_list [OF gs(1), of p] that gs(2) by (fastforce simp: fp_stored_def set_insort_key simp del: set_concat)
  show rm: "fp_stored (fp_remove p s) (X - {p}) \<and> size_of (fp_remove p s) = size_of s" if "p \<in> X"
    using fp_remove_list [OF gs(1), of p] that gs(2) set_remove1_eq [OF free_list_distinct [OF gs(1)]]
    by (fastforce simp: fp_stored_def simp del: set_concat)
  have "sorted_wrt (<) (map (fp_key (size_of s)) (concat gs))"
    using gs(1) by (simp add: free_list_def concat_sorted)
  from find_best [OF this] show "\<exists>r s'. fp_find n s = Some (r, s') \<and>
      (case r of None \<Rightarrow> s' = s \<and> (\<forall>y \<in> X. size_of s y < n)
       | Some x \<Rightarrow> x \<in> X \<and> n \<le> size_of s x \<and> s' = fp_remove x s \<and>
           (\<forall>y \<in> X. n \<le> size_of s y \<longrightarrow> (size_of s x, x) \<le> (size_of s y, y)))"
    using fp_find_list [OF gs(1), of n] gs(2)
    by (cases "find (\<lambda>x. n \<le> size_of s x) (concat gs)")
      (auto simp: find_None_iff not_le simp del: set_concat less_eq_prod_simp)
qed


section \<open>Properties\<close>

text \<open>
  (C23) \<open>fp_add\<close> inserts an extent at its place: on a well-formed list of lists (sizes ascending
  through \<open>bigger\<close>, addresses ascending through \<open>next\<close>, every back pointer right) it returns, the
  list is well-formed again, and the extents in the order of size and address are the old ones
  with the new one inserted.
\<close>

theorem fp_add_inserts:
  assumes "free_list s gs" "p \<notin> set (concat gs)"
  shows "\<exists>s' gs'. fp_add p s = Some s' \<and> free_list s' gs' \<and>
    concat gs' = insort_key (\<lambda>x. (size_of s x, x)) p (concat gs) \<and> (\<forall>x. size_of s' x = size_of s x)"
  by (rule fp_add_list [OF assms])

text \<open>Two extents of two pages at 3 and 9, and one of five pages at 20; an extent at 6 is outside.\<close>

definition fp_example :: fpool where
  "fp_example = \<lparr>fp_root = Some 3, fp_mem = (\<lambda>x.
     if x = 3 then \<lparr>fp_parent = Root, fp_bigger = Some 20, fp_next = Some 9, fp_size = 2\<rparr>
     else if x = 9 then \<lparr>fp_parent = Next 3, fp_bigger = None, fp_next = None, fp_size = 2\<rparr>
     else if x = 20 then \<lparr>fp_parent = Bigger 3, fp_bigger = None, fp_next = None, fp_size = 5\<rparr>
     else \<lparr>fp_parent = Root, fp_bigger = None, fp_next = None, fp_size = 2\<rparr>)\<rparr>"

lemma fp_example_list: "free_list fp_example [[3, 9], [20]]"
  by (simp add: free_list_def fp_example_def deref.simps)

theorem fp_add_inserts_witness:
  "free_list fp_example [[3, 9], [20]] \<and>
   (\<exists>s' gs'. fp_add 6 fp_example = Some s' \<and> free_list s' gs' \<and> concat gs' = [3, 6, 9, 20])"
  using fp_add_inserts [OF fp_example_list, of 6] fp_example_list by (auto simp: fp_example_def)

text \<open>
  \<open>fp_remove\<close> takes an extent out wherever it stands, at the head of a list of its size, in the
  middle, or alone: the list is well-formed afterwards and holds exactly the other extents.
\<close>

theorem fp_remove_removes:
  assumes "free_list s gs" "p \<in> set (concat gs)"
  shows "\<exists>gs'. free_list (fp_remove p s) gs' \<and> concat gs' = remove1 p (concat gs) \<and>
    (\<forall>x. size_of (fp_remove p s) x = size_of s x)"
  by (rule fp_remove_list [OF assms])

theorem fp_remove_removes_witness:
  "free_list fp_example [[3, 9], [20]] \<and> (\<exists>gs'. free_list (fp_remove 3 fp_example) gs' \<and> concat gs' = [9, 20])"
  using fp_remove_removes [OF fp_example_list, of 3] fp_example_list by auto

text \<open>
  (C22) \<open>fp_find\<close> is best fit: it always returns; it returns no extent only when every free extent is
  smaller than asked; otherwise it returns the smallest one that is large enough, the lowest in
  memory among those of that size, and that one alone has left the list.
\<close>

theorem fp_find_best_fit:
  assumes "fp_stored s X"
  shows "\<exists>r s'. fp_find n s = Some (r, s') \<and>
    (case r of None \<Rightarrow> fp_stored s' X \<and> (\<forall>y \<in> X. size_of s y < n)
     | Some x \<Rightarrow> x \<in> X \<and> n \<le> size_of s x \<and> fp_stored s' (X - {x}) \<and>
         (\<forall>y \<in> X. n \<le> size_of s y \<longrightarrow> size_of s x < size_of s y \<or> size_of s x = size_of s y \<and> x \<le> y))"
  using fp.find_law [OF assms, of n] fp.remove_law [OF assms] assms
  by (fastforce split: option.splits)

lemma fp_example_stored: "fp_stored fp_example {3, 9, 20}"
  unfolding fp_stored_def using fp_example_list by (intro exI [of _ "[[3, 9], [20]]"]) auto

theorem fp_find_best_fit_witness:
  "fp_stored fp_example {3, 9, 20} \<and> (\<exists>s'. fp_find 3 fp_example = Some (Some 20, s') \<and> fp_stored s' {3, 9})"
proof -
  obtain r s' where r: "fp_find 3 fp_example = Some (r, s')"
    "case r of None \<Rightarrow> fp_stored s' {3, 9, 20} \<and> (\<forall>y \<in> {3, 9, 20}. size_of fp_example y < 3)
     | Some x \<Rightarrow> x \<in> {3, 9, 20} \<and> 3 \<le> size_of fp_example x \<and> fp_stored s' ({3, 9, 20} - {x}) \<and>
         (\<forall>y \<in> {3, 9, 20}. 3 \<le> size_of fp_example y \<longrightarrow> size_of fp_example x < size_of fp_example y \<or>
            size_of fp_example x = size_of fp_example y \<and> x \<le> y)"
    using fp_find_best_fit [OF fp_example_stored, of 3] by blast
  then have "r = Some 20" by (auto simp: fp_example_def split: option.splits)
  moreover have "{3, 9, 20} - {20} = {3, 9 :: nat}" by auto
  ultimately show ?thesis using r fp_example_stored by auto
qed

end
