(* ===== verification/Extents.thy ===== *)
theory Extents
  imports Page_Sort Free_Pages
begin

text \<open>
  The page allocator of \<open>src/c/malloc.c\<close>: \<open>alloc_pages\<close>, \<open>free_pages\<close>, \<open>setup_extent_descriptor\<close> and the
  part of \<open>msize\<close> for extents. The state is the page table, the list of free extents and
  the end of the pool. A pointer to a page is given by its page number, as \<open>membase\<close> is page aligned;
  the number \<open>end\<close> is \<open>PAGENUM(membase->end)\<close>. The two-level table \<open>membase->pages\<close> is a function from
  page numbers (\<open>NUM2PAGE\<close>). An \<open>unsigned\<close> is a number below \<open>2^32\<close>, with the wrap-around written out.
  The result \<^const>\<open>None\<close> means that the call does not come back: an assertion fails or a loop does not end.
\<close>

section \<open>State\<close>

definition BIG :: nat where "BIG = 26"
definition MIDDLE :: nat where "MIDDLE = 28"
definition BASE :: nat where "BASE = 30"
definition FREE :: nat where "FREE = 1"

lemmas code_defs = BIG_def MIDDLE_def BASE_def FREE_def

record pheap =
  ph_tab :: ptab
  ph_fp :: fpool
  ph_end :: nat

definition set_code :: "nat \<Rightarrow> nat \<Rightarrow> ptab \<Rightarrow> ptab" where
  "set_code x c m = m(x := (m x)\<lparr>pg_code := c\<rparr>)"

text \<open>Conversions to \<open>unsigned\<close> and to \<open>int\<close>, and the subtraction of \<open>unsigned\<close> numbers.\<close>

definition to_unsigned :: "int \<Rightarrow> nat" where
  "to_unsigned x = nat (x mod 2 ^ 32)"

definition to_int :: "int \<Rightarrow> int" where
  "to_int x = (let y = x mod 2 ^ 32 in if y < 2 ^ 31 then y else y - 2 ^ 32)"

definition usub :: "nat \<Rightarrow> nat \<Rightarrow> nat" where
  "usub a b = to_unsigned (int a - int b)"

section \<open>Operations\<close>

text \<open>\<open>while (--i) NUM2PAGE(base + i)->page = v\<close>, with \<open>i\<close> already decremented.\<close>

fun back_loop :: "nat \<Rightarrow> nat \<Rightarrow> nat \<Rightarrow> ptab \<Rightarrow> ptab" where
  "back_loop base v 0 m = m"
| "back_loop base v (Suc i) m = back_loop base v i (set_page (base + Suc i) v m)"

definition alloc_pages :: "int \<Rightarrow> 'a pheap_scheme \<Rightarrow> (nat option \<times> 'a pheap_scheme) option" where
  "alloc_pages n h =
     Option.bind (fp_find (to_int n) (ph_fp h)) (\<lambda>(r, fp).
       case r of
         None \<Rightarrow> Some (None, h\<lparr>ph_fp := fp\<rparr>)
       | Some pn \<Rightarrow>
           let m = set_code pn BIG (ph_tab h)
           in if usub (pg_page (m pn)) pn > to_unsigned n then
                let extra = to_unsigned (int pn + n);
                    m1 = set_code extra (BIG + FREE) m;
                    m2 = set_page extra (pg_page (m1 pn)) m1;
                    i = usub (pg_page (m2 pn)) extra;
                    m3 = back_loop extra extra (usub i 1) m2
                in Option.bind (fp_add extra (set_size extra (to_int (int i)) fp)) (\<lambda>fp'.
                     Some (Some pn, h\<lparr>ph_tab := m3, ph_fp := fp'\<rparr>))
              else Some (Some pn, h\<lparr>ph_tab := m, ph_fp := fp\<rparr>))"

text \<open>\<open>for (; i < q->page; i++) NUM2PAGE(i)->page = v\<close>, where \<open>q\<close> is a descriptor.\<close>

partial_function (option) fwd_loop :: "nat \<Rightarrow> nat \<Rightarrow> nat \<Rightarrow> ptab \<Rightarrow> ptab option" where
  "fwd_loop q v i m = (if i < pg_page (m q) then fwd_loop q v (i + 1) (set_page i v m) else Some m)"

text \<open>The two halves of \<open>free_pages\<close>: merging with the free extent below, and with the one above.\<close>

definition merge_below :: "nat \<Rightarrow> 'a pheap_scheme \<Rightarrow> (nat \<times> 'a pheap_scheme) option" where
  "merge_below p h =
     (let m = ph_tab h;
          adj0 = usub p 1;
          adj = (if pg_code (m adj0) = MIDDLE then pg_page (m adj0) else adj0)
      in if pg_code (m adj) = BIG + FREE then
           let fp = fp_remove adj (ph_fp h);
               m1 = set_code p MIDDLE (set_page adj (pg_page (m p)) m)
           in Option.bind (fwd_loop adj adj p m1) (\<lambda>m2.
                Some (adj, h\<lparr>ph_tab := m2, ph_fp := set_size adj (to_int (int (pg_page (m2 adj)) - int adj)) fp\<rparr>))
         else Some (p, h\<lparr>ph_fp := set_size p (to_int (int (pg_page (m p)) - int p)) (ph_fp h)\<rparr>))"

definition merge_above :: "nat \<Rightarrow> 'a pheap_scheme \<Rightarrow> 'a pheap_scheme option" where
  "merge_above fpage h =
     (let m = ph_tab h; adj = pg_page (m fpage)
      in if adj < ph_end h \<and> pg_code (m adj) = BIG + FREE then
           let fp = fp_remove adj (ph_fp h);
               m1 = set_page fpage (pg_page (m adj)) (set_code adj MIDDLE m)
           in Option.bind (fwd_loop fpage fpage adj m1) (\<lambda>m2.
                Some (h\<lparr>ph_tab := m2, ph_fp := set_size fpage (to_int (int (pg_page (m2 fpage)) - int fpage)) fp\<rparr>))
         else Some h)"

definition free_pages :: "nat \<Rightarrow> 'a pheap_scheme \<Rightarrow> (nat \<times> 'a pheap_scheme) option" where
  "free_pages p h =
     (if pg_code (ph_tab h p) \<noteq> BIG then None
      else Option.bind (merge_below p (h\<lparr>ph_tab := set_code p (BIG + FREE) (ph_tab h)\<rparr>)) (\<lambda>(fpage, h1).
        Option.bind (merge_above fpage h1) (\<lambda>h2.
          Option.bind (fp_add fpage (ph_fp h2)) (\<lambda>fp. Some (fpage, h2\<lparr>ph_fp := fp\<rparr>)))))"

text \<open>\<open>setup_extent_descriptor\<close>, with its loop \<open>while (--size > 0)\<close>.\<close>

fun middle_loop :: "nat \<Rightarrow> nat \<Rightarrow> ptab \<Rightarrow> ptab" where
  "middle_loop p 0 m = m"
| "middle_loop p (Suc i) m = middle_loop p i (set_code (p + Suc i) MIDDLE (set_page (p + Suc i) p m))"

definition setup_extent_descriptor :: "nat \<Rightarrow> int \<Rightarrow> 'a pheap_scheme \<Rightarrow> 'a pheap_scheme" where
  "setup_extent_descriptor p n h =
     h\<lparr>ph_tab := middle_loop p (nat (n - 1)) (set_code p BIG (set_page p (to_unsigned (int p + n)) (ph_tab h)))\<rparr>"

declare fwd_loop.simps [code]

section \<open>The layout of the pool\<close>

text \<open>
  An abstract view: the extents of the pool by their first page, with their length and whether
  they are free. The layout says what the descriptors hold for it.
\<close>

type_synonym extents = "nat \<Rightarrow> (nat \<times> bool) option"

definition extent_ok :: "ptab \<Rightarrow> nat \<Rightarrow> nat \<Rightarrow> bool \<Rightarrow> bool" where
  "extent_ok m p n f \<longleftrightarrow> 0 < p \<and> 0 < n \<and> pg_code (m p) = (if f then BIG + FREE else BIG) \<and> pg_page (m p) = p + n \<and>
     (\<forall>i. p < i \<and> i < p + n \<longrightarrow> pg_code (m i) = MIDDLE \<and> pg_page (m i) = p)"

definition inside :: "extents \<Rightarrow> nat \<Rightarrow> bool" where
  "inside E i \<longleftrightarrow> (\<exists>p n f. E p = Some (n, f) \<and> p \<le> i \<and> i < p + n)"

definition disjoint_extents :: "extents \<Rightarrow> bool" where
  "disjoint_extents E \<longleftrightarrow> (\<forall>p n f q m g. E p = Some (n, f) \<and> E q = Some (m, g) \<and> p < q \<longrightarrow> p + n \<le> q)"

definition free_starts :: "extents \<Rightarrow> nat set" where
  "free_starts E = {p. \<exists>n. E p = Some (n, True)}"

text \<open>The page table describes the extents of a pool of \<open>e\<close> pages.\<close>

definition table_ok :: "ptab \<Rightarrow> nat \<Rightarrow> extents \<Rightarrow> bool" where
  "table_ok m e E \<longleftrightarrow>
     (\<forall>p n f. E p = Some (n, f) \<longrightarrow> extent_ok m p n f \<and> p + n \<le> e) \<and> disjoint_extents E \<and>
     (\<forall>i. i < e \<and> \<not> inside E i \<longrightarrow> pg_code (m i) \<notin> {BIG, BIG + FREE, MIDDLE})"

text \<open>The list holds the free extents with their sizes, except those in \<open>X\<close>.\<close>

definition store_ok :: "fpool \<Rightarrow> extents \<Rightarrow> nat set \<Rightarrow> bool" where
  "store_ok fp E X \<longleftrightarrow> fp_stored fp (free_starts E - X) \<and>
     (\<forall>p n. E p = Some (n, True) \<and> p \<notin> X \<longrightarrow> size_of fp p = int n)"

definition layout :: "'a pheap_scheme \<Rightarrow> extents \<Rightarrow> bool" where
  "layout h E \<longleftrightarrow> ph_end h < 2 ^ 31 \<and> table_ok (ph_tab h) (ph_end h) E \<and> store_ok (ph_fp h) E {}"

text \<open>No two free extents are next to each other.\<close>

definition coalesced :: "extents \<Rightarrow> bool" where
  "coalesced E \<longleftrightarrow> (\<forall>p n. E p = Some (n, True) \<longrightarrow> (\<forall>m. E (p + n) \<noteq> Some (m, True)))"

section \<open>Facts\<close>

lemma set_code_simps [simp]:
  "x \<noteq> y \<Longrightarrow> set_code x c m y = m y" "set_code x c m x = (m x)\<lparr>pg_code := c\<rparr>"
  "pg_page (set_code x c m y) = pg_page (m y)"
  by (simp_all add: set_code_def)

lemma pg_code_set_page [simp]: "pg_code (set_page x v m y) = pg_code (m y)"
  by (simp add: set_page_def)

lemma to_unsigned_small: "0 \<le> x \<Longrightarrow> x < 2 ^ 32 \<Longrightarrow> to_unsigned x = nat x"
  by (simp add: to_unsigned_def)

lemma to_int_small: "0 \<le> x \<Longrightarrow> x < 2 ^ 31 \<Longrightarrow> to_int x = x"
  by (simp add: to_int_def)

lemma usub_small: "b \<le> a \<Longrightarrow> a < 2 ^ 32 \<Longrightarrow> usub a b = a - b"
  by (simp add: usub_def to_unsigned_small)

lemma back_loop_eq:
  "back_loop base v k m i = (if base < i \<and> i \<le> base + k then (m i)\<lparr>pg_page := v\<rparr> else m i)"
  by (induction k arbitrary: m) (auto simp: set_page_def)

lemma middle_loop_eq:
  "middle_loop p k m i = (if p < i \<and> i \<le> p + k then (m i)\<lparr>pg_page := p, pg_code := MIDDLE\<rparr> else m i)"
  by (induction k arbitrary: m) (auto simp: set_page_def set_code_def)

lemma fwd_loop_eq:
  "q < i \<Longrightarrow> \<exists>m'. fwd_loop q v i m = Some m' \<and>
     (\<forall>j. m' j = (if i \<le> j \<and> j < pg_page (m q) then (m j)\<lparr>pg_page := v\<rparr> else m j))"
proof (induction "pg_page (m q) - i" arbitrary: i m)
  case 0
  then show ?case by (subst fwd_loop.simps) auto
next
  case (Suc k)
  have i: "i < pg_page (m q)" using Suc.hyps(2) by simp
  have "k = pg_page (set_page i v m q) - (i + 1)" using Suc.hyps(2) Suc.prems by simp
  then obtain m' where m': "fwd_loop q v (i + 1) (set_page i v m) = Some m'"
    "\<forall>j. m' j = (if i + 1 \<le> j \<and> j < pg_page (m q) then (set_page i v m j)\<lparr>pg_page := v\<rparr> else set_page i v m j)"
    using Suc.hyps(1) [of "set_page i v m" "i + 1"] Suc.prems by auto
  have "m' j = (if i \<le> j \<and> j < pg_page (m q) then (m j)\<lparr>pg_page := v\<rparr> else m j)" for j
    using m'(2) i by (cases "j = i") auto
  then show ?case using m'(1) i by (subst fwd_loop.simps) auto
qed


section \<open>The table\<close>

lemma insideI: "E p = Some (n, f) \<Longrightarrow> p \<le> i \<Longrightarrow> i < p + n \<Longrightarrow> inside E i"
  unfolding inside_def by blast

lemma table_extent: "table_ok m e E \<Longrightarrow> E p = Some (n, f) \<Longrightarrow> extent_ok m p n f \<and> p + n \<le> e"
  by (simp add: table_ok_def)

lemma table_disjoint: "table_ok m e E \<Longrightarrow> E p = Some (n, f) \<Longrightarrow> E q = Some (k, g) \<Longrightarrow> p < q \<Longrightarrow> p + n \<le> q"
  unfolding table_ok_def disjoint_extents_def by blast

text \<open>What the code of a page says about the extent it is in.\<close>

lemma table_code:
  assumes "table_ok m e E" "i < e" "pg_code (m i) \<in> {BIG, BIG + FREE, MIDDLE}"
  obtains p n f where "E p = Some (n, f)" "p \<le> i" "i < p + n"
    "p = i \<and> pg_code (m i) = (if f then BIG + FREE else BIG) \<or> p < i \<and> pg_code (m i) = MIDDLE \<and> pg_page (m i) = p"
proof -
  have "inside E i" using assms unfolding table_ok_def by blast
  then obtain p n f where p: "E p = Some (n, f)" "p \<le> i" "i < p + n" unfolding inside_def by blast
  then have "extent_ok m p n f" using table_extent [OF assms(1)] by blast
  then show thesis using p by (intro that [of p n f]) (cases "p = i"; auto simp: extent_ok_def)+
qed

lemma table_free:
  assumes "table_ok m e E" "i < e" "pg_code (m i) = BIG + FREE"
  shows "\<exists>n. E i = Some (n, True)"
  by (rule table_code [OF assms(1,2)]) (use assms(3) in \<open>auto simp: code_defs split: if_splits\<close>)

text \<open>The descriptor below page \<open>p\<close> leads to the extent that ends there.\<close>

lemma below_extent:
  assumes t: "table_ok m e E" and p: "E p = Some (n, f)"
    and adj: "adj = (if pg_code (m (p - 1)) = MIDDLE then pg_page (m (p - 1)) else p - 1)"
  shows "pg_code (m adj) = BIG + FREE \<longleftrightarrow> (\<exists>a k. E a = Some (k, True) \<and> a + k = p)"
    and "E a = Some (k, True) \<Longrightarrow> a + k = p \<Longrightarrow> a = adj"
proof -
  have p0: "0 < p" "0 < n" "p + n \<le> e" using table_extent [OF t p] by (simp_all add: extent_ok_def)
  then have lt: "p - 1 < e" by simp
  have ends: "a + k = p" if "E a = Some (k, g)" "a \<le> p - 1" "p - 1 < a + k" for a k g
    using table_disjoint [OF t that(1) p] that p0 by linarith
  show a: "a = adj" if "E a = Some (k, True)" "a + k = p" for a k
  proof -
    have "extent_ok m a k True" using table_extent [OF t that(1)] by simp
    then show ?thesis using that adj p0
      by (cases "k = 1") (auto simp: extent_ok_def code_defs)
  qed
  show "pg_code (m adj) = BIG + FREE \<longleftrightarrow> (\<exists>a k. E a = Some (k, True) \<and> a + k = p)"
  proof
    assume c: "pg_code (m adj) = BIG + FREE"
    show "\<exists>a k. E a = Some (k, True) \<and> a + k = p"
    proof (cases "pg_code (m (p - 1)) = MIDDLE")
      case True
      obtain q l g where q: "E q = Some (l, g)" "q \<le> p - 1" "p - 1 < q + l" "pg_page (m (p - 1)) = q"
        by (rule table_code [OF t lt]) (use True in \<open>auto simp: code_defs split: if_splits\<close>)
      then have "pg_code (m q) = BIG + FREE" using c adj True by simp
      moreover have "extent_ok m q l g" using table_extent [OF t q(1)] by simp
      ultimately have g by (auto simp: extent_ok_def code_defs split: if_splits)
      then show ?thesis using q ends [OF q(1,2,3)] by auto
    next
      case False
      then have "pg_code (m (p - 1)) = BIG + FREE" using c adj by simp
      then obtain l where l: "E (p - 1) = Some (l, True)" using table_free [OF t lt] by blast
      then have "0 < l" using table_extent [OF t l] by (simp add: extent_ok_def)
      then show ?thesis using l ends [OF l] by auto
    qed
  next
    assume "\<exists>a k. E a = Some (k, True) \<and> a + k = p"
    then obtain b k where b: "E b = Some (k, True)" "b + k = p" by blast
    then have "b = adj" by (rule a)
    moreover have "extent_ok m b k True" using table_extent [OF t b(1)] by simp
    ultimately show "pg_code (m adj) = BIG + FREE" by (simp add: extent_ok_def)
  qed
qed

lemma below_less:
  assumes t: "table_ok m e E" and p: "E p = Some (n, f)"
  shows "(if pg_code (m (p - 1)) = MIDDLE then pg_page (m (p - 1)) else p - 1) < p"
proof -
  have "0 < p" "p - 1 < e" using table_extent [OF t p] by (auto simp: extent_ok_def)
  moreover have "pg_page (m (p - 1)) < p - 1" if "pg_code (m (p - 1)) = MIDDLE"
    by (rule table_code [OF t calculation(2)]) (use that in \<open>auto simp: code_defs split: if_splits\<close>)
  ultimately show ?thesis by (auto intro: less_trans)
qed

text \<open>Two free extents that are next to each other become one.\<close>

definition joined :: "nat \<Rightarrow> nat \<Rightarrow> nat \<Rightarrow> extents \<Rightarrow> extents" where
  "joined a k n E = E(a + k := None, a := Some (k + n, True))"

lemma table_join:
  assumes t: "table_ok m e E" and a: "E a = Some (k, True)" and b: "E (a + k) = Some (n, True)"
    and m': "\<And>i. pg_code (m' i) = (if i = a + k then MIDDLE else pg_code (m i))"
      "\<And>i. pg_page (m' i) = (if i = a then a + k + n else if a + k \<le> i \<and> i < a + k + n then a else pg_page (m i))"
  shows "table_ok m' e (joined a k n E)"
proof -
  have ea: "extent_ok m a k True" "extent_ok m (a + k) n True" "a + k + n \<le> e"
    using table_extent [OF t a] table_extent [OF t b] by simp_all
  then have pos: "0 < a" "0 < k" "0 < n" by (simp_all add: extent_ok_def)
  have "extent_ok m' a (k + n) True"
    using ea pos unfolding extent_ok_def m' by auto
  moreover have "extent_ok m' p l f" if p: "E p = Some (l, f)" "p \<noteq> a" "p \<noteq> a + k" for p l f
  proof -
    have "extent_ok m p l f" using table_extent [OF t p(1)] by simp
    moreover have "p + l \<le> a \<or> a + k + n \<le> p"
      using table_disjoint [OF t p(1) a] table_disjoint [OF t a p(1)] table_disjoint [OF t b p(1)]
        table_disjoint [OF t p(1) b] p pos by linarith
    ultimately show ?thesis using pos unfolding extent_ok_def m' by auto
  qed
  ultimately have "extent_ok m' p l f \<and> p + l \<le> e" if "joined a k n E p = Some (l, f)" for p l f
    using that ea table_extent [OF t] by (auto simp: joined_def split: if_splits)
  moreover have "disjoint_extents (joined a k n E)"
    unfolding disjoint_extents_def
  proof (intro allI impI, elim conjE)
    fix p l f q l' g
    assume *: "joined a k n E p = Some (l, f)" "joined a k n E q = Some (l', g)" "p < q"
    show "p + l \<le> q"
    proof (cases "p = a")
      case True
      then have "E q = Some (l', g)" "q \<noteq> a + k" "l = k + n" using * by (auto simp: joined_def split: if_splits)
      then show ?thesis using table_disjoint [OF t a _ *(3) [unfolded True]] table_disjoint [OF t b, of q l' g] True by fastforce
    next
      case False
      then have "E p = Some (l, f)" "\<exists>l g. E q = Some (l, g)"
        using * a by (auto simp: joined_def split: if_splits)
      then show ?thesis using table_disjoint [OF t] *(3) by blast
    qed
  qed
  moreover have "inside (joined a k n E) i" if i: "inside E i" for i
  proof -
    obtain p l f where p: "E p = Some (l, f)" "p \<le> i" "i < p + l" using i unfolding inside_def by blast
    show ?thesis
    proof (cases "p = a \<or> p = a + k")
      case True
      then have "a \<le> i \<and> i < a + (k + n)" using p a b by auto
      then show ?thesis unfolding inside_def by (intro exI [of _ a] exI [of _ "k + n"]) (auto simp: joined_def)
    next
      case False
      then show ?thesis using p unfolding inside_def joined_def by fastforce
    qed
  qed
  moreover have "inside E (a + k)" using b pos unfolding inside_def by fastforce
  ultimately show ?thesis using t unfolding table_ok_def m' by (metis (no_types, lifting))
qed


section \<open>The list of free extents\<close>

lemma set_size_simps [simp]:
  "deref (set_size x n s) a = deref s a" "parent_of (set_size x n s) y = parent_of s y"
  "size_of (set_size x n s) y = (if y = x then n else size_of s y)"
  by (cases a) (simp_all add: set_size_def deref.simps)

lemma stored_set_size:
  assumes "fp_stored s X" "p \<notin> X"
  shows "fp_stored (set_size p n s) X"
proof -
  obtain gs where gs: "by_size s Root gs" "sizes_ok (size_of s) gs" "X = set (concat gs)"
    using assms(1) unfolding fp_stored_def free_list_def by blast
  have "by_size (set_size p n s) Root gs" by (rule by_size_frame [OF gs(1)]) (simp_all add: unchanged_def)
  moreover have "sizes_ok (size_of (set_size p n s)) gs = sizes_ok (size_of s) gs"
    using assms(2) gs(3) by (intro sizes_ok_cong) auto
  ultimately show ?thesis using gs unfolding fp_stored_def free_list_def by blast
qed

lemma free_starts_upd:
  "free_starts (E(p := Some (n, f))) = (if f then insert p (free_starts E) else free_starts E - {p})"
  "free_starts (E(p := None)) = free_starts E - {p}"
  by (auto simp: free_starts_def)

lemma free_starts_iff: "p \<in> free_starts E \<longleftrightarrow> (\<exists>n. E p = Some (n, True))"
  by (simp add: free_starts_def)

lemma store_remove:
  assumes "store_ok fp E X" "E p = Some (n, True)" "p \<notin> X"
  shows "store_ok (fp_remove p fp) E (insert p X)" "size_of (fp_remove p fp) = size_of fp"
proof -
  have "p \<in> free_starts E - X" using assms(2,3) by (auto simp: free_starts_iff)
  then have "fp_stored (fp_remove p fp) (free_starts E - X - {p})" "size_of (fp_remove p fp) = size_of fp"
    using fp.remove_law [of fp "free_starts E - X" p] assms(1) by (auto simp: store_ok_def)
  moreover have "free_starts E - X - {p} = free_starts E - insert p X" by blast
  ultimately show "store_ok (fp_remove p fp) E (insert p X)" "size_of (fp_remove p fp) = size_of fp"
    using assms(1) fun_cong [of "size_of (fp_remove p fp)" "size_of fp"] by (auto simp: store_ok_def)
qed

lemma store_joined:
  assumes "store_ok fp E {a, a + k}" "0 < k"
  shows "store_ok (set_size a l fp) (joined a k n E) {a}"
proof -
  have "free_starts (joined a k n E) - {a} = free_starts E - {a, a + k}"
    by (auto simp: joined_def free_starts_upd)
  then show ?thesis using assms stored_set_size [of fp "free_starts E - {a, a + k}" a l]
    by (auto simp: store_ok_def joined_def split: if_splits)
qed

lemma store_add:
  assumes "store_ok fp E {p}" "E p = Some (n, True)" "size_of fp p = int n"
  shows "\<exists>fp'. fp_add p fp = Some fp' \<and> store_ok fp' E {} \<and> size_of fp' = size_of fp"
proof -
  have "fp_stored fp (free_starts E - {p})" using assms(1) by (simp add: store_ok_def)
  from fp.add_law [OF this, of p] obtain fp' where fp': "fp_add p fp = Some fp'"
    "fp_stored fp' (insert p (free_starts E - {p}))" "size_of fp' = size_of fp" by blast
  moreover have "insert p (free_starts E - {p}) = free_starts E" using assms(2) by (auto simp: free_starts_iff)
  moreover have "size_of fp q = int k" if "E q = Some (k, True)" for q k
    using assms that by (cases "q = p") (auto simp: store_ok_def)
  ultimately show ?thesis using fun_cong [OF fp'(3)] by (auto simp: store_ok_def)
qed

section \<open>Merging\<close>

lemma merge_below_ok:
  assumes t: "table_ok (ph_tab h) (ph_end h) E" and st: "store_ok (ph_fp h) E {p}"
    and e: "ph_end h < 2 ^ 31" and p: "E p = Some (n, True)"
  shows "\<exists>h' q l E'. merge_below p h = Some (q, h') \<and> ph_end h' = ph_end h \<and>
    table_ok (ph_tab h') (ph_end h) E' \<and> store_ok (ph_fp h') E' {q} \<and>
    E' q = Some (l, True) \<and> size_of (ph_fp h') q = int l \<and>
    (E' = E \<and> q = p \<and> (\<nexists>a k. E a = Some (k, True) \<and> a + k = p) \<or>
     (\<exists>k. E q = Some (k, True) \<and> q + k = p \<and> E' = joined q k n E))"
proof -
  have po: "0 < p" "0 < n" "p + n \<le> ph_end h" "pg_page (ph_tab h p) = p + n"
    using table_extent [OF t p] by (simp_all add: extent_ok_def)
  have us: "usub p 1 = p - 1" using po e by (simp add: usub_small)
  define adj where "adj = (if pg_code (ph_tab h (p - 1)) = MIDDLE then pg_page (ph_tab h (p - 1)) else p - 1)"
  note below = below_extent [OF t p adj_def]
  show ?thesis
  proof (cases "pg_code (ph_tab h adj) = BIG + FREE")
    case False
    have "merge_below p h = Some (p, h\<lparr>ph_fp := set_size p (int n) (ph_fp h)\<rparr>)"
      using False po e by (simp add: merge_below_def us adj_def [symmetric] Let_def to_int_small del: One_nat_def)
    moreover have "store_ok (set_size p (int n) (ph_fp h)) E {p}"
      using st stored_set_size [of "ph_fp h" "free_starts E - {p}" p "int n"] by (auto simp: store_ok_def)
    ultimately show ?thesis using False below(1) t p by auto
  next
    case True
    then obtain k where k: "E adj = Some (k, True)" "adj + k = p" using below by blast
    have kp: "0 < adj" "0 < k" using table_extent [OF t k(1)] by (simp_all add: extent_ok_def)
    let ?m1 = "set_code p MIDDLE (set_page adj (p + n) (ph_tab h))"
    obtain m2 where m2: "fwd_loop adj adj p ?m1 = Some m2"
      "\<forall>j. m2 j = (if p \<le> j \<and> j < p + n then (?m1 j)\<lparr>pg_page := adj\<rparr> else ?m1 j)"
      using fwd_loop_eq [of adj p adj ?m1] k kp by auto
    have pg: "pg_page (m2 i) = (if i = adj then adj + k + n else if adj + k \<le> i \<and> i < adj + k + n then adj
        else pg_page (ph_tab h i))"
      and cd: "pg_code (m2 i) = (if i = adj + k then MIDDLE else pg_code (ph_tab h i))" for i
      using m2(2) k kp by (auto simp: set_page_def set_code_def)
    have "table_ok m2 (ph_end h) (joined adj k n E)"
      by (rule table_join [OF t k(1)]) (use p k(2) cd pg in simp_all)
    moreover have "store_ok (set_size adj (int (k + n)) (fp_remove adj (ph_fp h))) (joined adj k n E) {adj}"
      using store_remove(1) [OF st k(1)] k(2) kp(2) by (intro store_joined) auto
    moreover have "merge_below p h =
        Some (adj, h\<lparr>ph_tab := m2, ph_fp := set_size adj (int (k + n)) (fp_remove adj (ph_fp h))\<rparr>)"
      using True m2(1) po e k arg_cong [OF k(2), of int, symmetric]
      by (simp add: merge_below_def us adj_def [symmetric] Let_def pg to_int_small del: One_nat_def)
    ultimately show ?thesis using k by (fastforce simp: joined_def)
  qed
qed

lemma merge_above_ok:
  assumes t: "table_ok (ph_tab h) (ph_end h) E" and st: "store_ok (ph_fp h) E {q}"
    and e: "ph_end h < 2 ^ 31" and q: "E q = Some (l, True)" "size_of (ph_fp h) q = int l"
  shows "\<exists>h' l' E'. merge_above q h = Some h' \<and> ph_end h' = ph_end h \<and>
    table_ok (ph_tab h') (ph_end h) E' \<and> store_ok (ph_fp h') E' {q} \<and>
    E' q = Some (l', True) \<and> size_of (ph_fp h') q = int l' \<and>
    (E' = E \<and> (\<nexists>k. E (q + l) = Some (k, True)) \<or> (\<exists>k. E (q + l) = Some (k, True) \<and> E' = joined q l k E))"
proof -
  have qo: "0 < q" "0 < l" "q + l \<le> ph_end h" "pg_page (ph_tab h q) = q + l"
    using table_extent [OF t q(1)] by (simp_all add: extent_ok_def)
  show ?thesis
  proof (cases "\<exists>k. E (q + l) = Some (k, True)")
    case False
    then have "\<not> (q + l < ph_end h \<and> pg_code (ph_tab h (q + l)) = BIG + FREE)" using table_free [OF t] by blast
    then have "merge_above q h = Some h" by (auto simp: merge_above_def qo Let_def)
    then show ?thesis using False t st q by auto
  next
    case True
    then obtain k where k: "E (q + l) = Some (k, True)" by blast
    then have ko: "0 < k" "q + l + k \<le> ph_end h" "pg_page (ph_tab h (q + l)) = q + l + k"
      "pg_code (ph_tab h (q + l)) = BIG + FREE" using table_extent [OF t k] by (simp_all add: extent_ok_def)
    let ?m1 = "set_page q (q + l + k) (set_code (q + l) MIDDLE (ph_tab h))"
    obtain m2 where m2: "fwd_loop q q (q + l) ?m1 = Some m2"
      "\<forall>j. m2 j = (if q + l \<le> j \<and> j < q + l + k then (?m1 j)\<lparr>pg_page := q\<rparr> else ?m1 j)"
      using fwd_loop_eq [of q "q + l" q ?m1] qo by auto
    have pg: "pg_page (m2 i) = (if i = q then q + l + k else if q + l \<le> i \<and> i < q + l + k then q
        else pg_page (ph_tab h i))"
      and cd: "pg_code (m2 i) = (if i = q + l then MIDDLE else pg_code (ph_tab h i))" for i
      using m2(2) qo by (auto simp: set_page_def set_code_def)
    have "table_ok m2 (ph_end h) (joined q l k E)"
      by (rule table_join [OF t q(1) k]) (use cd pg in simp_all)
    moreover have "store_ok (set_size q (int (l + k)) (fp_remove (q + l) (ph_fp h))) (joined q l k E) {q}"
      using store_remove(1) [OF st k] qo(2) by (intro store_joined) (auto simp: insert_commute)
    moreover have "merge_above q h =
        Some (h\<lparr>ph_tab := m2, ph_fp := set_size q (int (l + k)) (fp_remove (q + l) (ph_fp h))\<rparr>)"
      using m2(1) qo ko e by (simp add: merge_above_def Let_def pg to_int_small)
    ultimately show ?thesis using k by (fastforce simp: joined_def)
  qed
qed


section \<open>Freeing\<close>

text \<open>\<open>E'\<close> is \<open>E\<close> with the pages of one new free extent \<open>q\<close>, \<open>l\<close> in the place of the extents in them.\<close>

definition replaced :: "extents \<Rightarrow> nat \<Rightarrow> nat \<Rightarrow> extents \<Rightarrow> bool" where
  "replaced E q l E' \<longleftrightarrow> E' q = Some (l, True) \<and> (\<forall>x. q < x \<and> x < q + l \<longrightarrow> E' x = None) \<and>
     (\<forall>x. x < q \<or> q + l \<le> x \<longrightarrow> E' x = E x)"

lemma replaced_joined:
  assumes "table_ok m e E" "E a = Some (k, True)" "E (a + k) = Some (n, True)"
  shows "replaced E a (k + n) (joined a k n E)"
proof -
  have "E x = None" if "a < x" "x < a + k + n" "x \<noteq> a + k" for x
  proof (rule ccontr)
    assume "E x \<noteq> None"
    then obtain l f where "E x = Some (l, f)" by auto
    then show False
      using table_disjoint [OF assms(1,2), of x l f] table_disjoint [OF assms(1,3), of x l f] that by fastforce
  qed
  moreover have "0 < k" "0 < n" using table_extent [OF assms(1)] assms(2,3) by (auto simp: extent_ok_def)
  ultimately show ?thesis by (auto simp: replaced_def joined_def)
qed

lemma replaced_trans:
  assumes "replaced E q l E1" "replaced E1 q' l' E2" "q' \<le> q" "q + l \<le> q' + l'"
  shows "replaced E q' l' E2"
  using assms unfolding replaced_def by auto

text \<open>Changing the code of the first page changes whether the extent is free.\<close>

lemma table_set_code:
  assumes t: "table_ok m e E" and p: "E p = Some (n, f)" and c: "c = (if g then BIG + FREE else BIG)"
  shows "table_ok (set_code p c m) e (E(p := Some (n, g)))"
proof -
  have "extent_ok (set_code p c m) q l f \<and> q + l \<le> e" if q: "(E(p := Some (n, g))) q = Some (l, f)" for q l f
  proof (cases "q = p")
    case True
    then show ?thesis using table_extent [OF t p] q c by (auto simp: extent_ok_def)
  next
    case False
    then have E: "E q = Some (l, f)" using q by simp
    then show ?thesis using table_extent [OF t E] table_disjoint [OF t E p] False
      by (auto simp: extent_ok_def set_code_def)
  qed
  moreover have "disjoint_extents (E(p := Some (n, g)))"
    using t p unfolding table_ok_def disjoint_extents_def by (simp split: if_splits)
  moreover have "inside (E(p := Some (n, g))) i = inside E i" for i
    using p unfolding inside_def by (metis fun_upd_apply option.inject prod.inject)
  moreover have "inside E p" using table_extent [OF t p] p unfolding inside_def extent_ok_def by fastforce
  ultimately show ?thesis using t unfolding table_ok_def by (metis set_code_simps(1))
qed

lemma replaced_refl:
  assumes "table_ok m e E" "E p = Some (n, True)"
  shows "replaced E p n E"
proof -
  have "E x = None" if "p < x" "x < p + n" for x
    using table_disjoint [OF assms, of x] that by (cases "E x") fastforce+
  moreover have "0 < n" using table_extent [OF assms] by (simp add: extent_ok_def)
  ultimately show ?thesis using assms(2) by (simp add: replaced_def)
qed

lemma merge_below_replaced:
  assumes t: "table_ok (ph_tab h) (ph_end h) E" and st: "store_ok (ph_fp h) E {p}"
    and e: "ph_end h < 2 ^ 31" and p: "E p = Some (n, True)"
  shows "\<exists>h' q E'. merge_below p h = Some (q, h') \<and> ph_end h' = ph_end h \<and>
    table_ok (ph_tab h') (ph_end h') E' \<and> store_ok (ph_fp h') E' {q} \<and>
    replaced E q (p + n - q) E' \<and> size_of (ph_fp h') q = int (p + n - q) \<and> q \<le> p \<and>
    (if q = p then \<nexists>a k. E a = Some (k, True) \<and> a + k = p else E q = Some (p - q, True))"
proof -
  obtain h' q l E' where h': "merge_below p h = Some (q, h')" "ph_end h' = ph_end h"
    "table_ok (ph_tab h') (ph_end h) E'" "store_ok (ph_fp h') E' {q}" "E' q = Some (l, True)"
    "size_of (ph_fp h') q = int l"
    "E' = E \<and> q = p \<and> (\<nexists>a k. E a = Some (k, True) \<and> a + k = p) \<or>
     (\<exists>k. E q = Some (k, True) \<and> q + k = p \<and> E' = joined q k n E)"
    using merge_below_ok [OF assms] by blast
  consider "E' = E" "q = p" "\<nexists>a k. E a = Some (k, True) \<and> a + k = p"
    | k where "E q = Some (k, True)" "q + k = p" "E' = joined q k n E" using h'(7) by blast
  then have "replaced E q (p + n - q) E' \<and> l = p + n - q \<and> q \<le> p \<and>
    (if q = p then \<nexists>a k. E a = Some (k, True) \<and> a + k = p else E q = Some (p - q, True))"
  proof cases
    case 1
    then have "l = p + n - q" using p h'(5) by simp
    then show ?thesis using 1 replaced_refl [OF t p] p h'(5) by simp
  next
    case (2 k)
    have "0 < k" using table_extent [OF t 2(1)] by (simp add: extent_ok_def)
    moreover have "l = k + n" using h'(5) 2(3) by (simp add: joined_def)
    moreover have "replaced E q (k + n) E'" unfolding 2(3) by (rule replaced_joined [OF t 2(1)]) (simp add: 2(2) p)
    moreover have "p + n - q = k + n" using 2(2) by simp
    ultimately show ?thesis using 2(1,2) by auto
  qed
  then show ?thesis using h' by fastforce
qed

lemma merge_above_replaced:
  assumes t: "table_ok (ph_tab h) (ph_end h) E" and st: "store_ok (ph_fp h) E {q}"
    and e: "ph_end h < 2 ^ 31" and q: "E q = Some (l, True)" "size_of (ph_fp h) q = int l"
  shows "\<exists>h' l' E'. merge_above q h = Some h' \<and> ph_end h' = ph_end h \<and>
    table_ok (ph_tab h') (ph_end h') E' \<and> store_ok (ph_fp h') E' {q} \<and>
    replaced E q l' E' \<and> size_of (ph_fp h') q = int l' \<and> l \<le> l' \<and>
    (if l' = l then \<nexists>k. E (q + l) = Some (k, True) else E (q + l) = Some (l' - l, True))"
proof -
  obtain h' l' E' where h': "merge_above q h = Some h'" "ph_end h' = ph_end h"
    "table_ok (ph_tab h') (ph_end h) E'" "store_ok (ph_fp h') E' {q}" "E' q = Some (l', True)"
    "size_of (ph_fp h') q = int l'"
    "E' = E \<and> (\<nexists>k. E (q + l) = Some (k, True)) \<or> (\<exists>k. E (q + l) = Some (k, True) \<and> E' = joined q l k E)"
    using merge_above_ok [OF assms] by blast
  consider "E' = E" "\<nexists>k. E (q + l) = Some (k, True)"
    | k where "E (q + l) = Some (k, True)" "E' = joined q l k E" using h'(7) by blast
  then have "replaced E q l' E' \<and> l \<le> l' \<and>
    (if l' = l then \<nexists>k. E (q + l) = Some (k, True) else E (q + l) = Some (l' - l, True))"
  proof cases
    case 1
    then show ?thesis using replaced_refl [OF t q(1)] h'(5) q(1) by simp
  next
    case (2 k)
    have "0 < k" using table_extent [OF t 2(1)] by (simp add: extent_ok_def)
    moreover have "l' = l + k" using h'(5) 2(2) by (simp add: joined_def)
    moreover have "replaced E q (l + k) E'" unfolding 2(2) by (rule replaced_joined [OF t q(1) 2(1)])
    ultimately show ?thesis using 2(1) by auto
  qed
  then show ?thesis using h' by fastforce
qed

lemma free_pages_replaced:
  assumes lay: "layout h E" and p: "E p = Some (n, False)"
  shows "\<exists>h' q l E'. free_pages p h = Some (q, h') \<and> layout h' E' \<and> ph_end h' = ph_end h \<and>
    replaced E q l E' \<and> q \<le> p \<and> p + n \<le> q + l \<and> size_of (ph_fp h') q = int l \<and>
    (if q = p then \<nexists>a k. E a = Some (k, True) \<and> a + k = p else E q = Some (p - q, True)) \<and>
    (if p + n = q + l then \<nexists>k. E (p + n) = Some (k, True) else E (p + n) = Some (q + l - (p + n), True))"
proof -
  let ?E1 = "E(p := Some (n, True))" and ?h1 = "h\<lparr>ph_tab := set_code p (BIG + FREE) (ph_tab h)\<rparr>"
  have e: "ph_end h < 2 ^ 31" and t: "table_ok (ph_tab h) (ph_end h) E" and st: "store_ok (ph_fp h) E {}"
    using lay by (simp_all add: layout_def)
  have c: "pg_code (ph_tab h p) = BIG" "0 < n" using table_extent [OF t p] by (simp_all add: extent_ok_def)
  have t1: "table_ok (ph_tab ?h1) (ph_end ?h1) ?E1" using table_set_code [OF t p, of "BIG + FREE" True] by simp
  have "free_starts ?E1 - {p} = free_starts E" using p by (auto simp: free_starts_upd free_starts_iff)
  then have st1: "store_ok (ph_fp ?h1) ?E1 {p}" using st by (auto simp: store_ok_def split: if_splits)
  obtain h2 q E2 where 2: "merge_below p ?h1 = Some (q, h2)" "ph_end h2 = ph_end h"
    "table_ok (ph_tab h2) (ph_end h2) E2" "store_ok (ph_fp h2) E2 {q}" "replaced ?E1 q (p + n - q) E2"
    "size_of (ph_fp h2) q = int (p + n - q)" "q \<le> p"
    "if q = p then \<nexists>a k. ?E1 a = Some (k, True) \<and> a + k = p else ?E1 q = Some (p - q, True)"
    using merge_below_replaced [OF t1 st1, of n] e by auto
  have e2: "ph_end h2 < 2 ^ 31" and E2q: "E2 q = Some (p + n - q, True)" using e 2(2,5) by (simp_all add: replaced_def)
  obtain h3 l E3 where 3: "merge_above q h2 = Some h3" "ph_end h3 = ph_end h2"
    "table_ok (ph_tab h3) (ph_end h3) E3" "store_ok (ph_fp h3) E3 {q}" "replaced E2 q l E3"
    "size_of (ph_fp h3) q = int l" "p + n - q \<le> l"
    "if l = p + n - q then \<nexists>k. E2 (q + (p + n - q)) = Some (k, True)
     else E2 (q + (p + n - q)) = Some (l - (p + n - q), True)"
    using merge_above_replaced [OF 2(3,4) e2 E2q 2(6)] by blast
  have "E3 q = Some (l, True)" using 3(5) by (simp add: replaced_def)
  then obtain fp where 4: "fp_add q (ph_fp h3) = Some fp" "store_ok fp E3 {}" "size_of fp = size_of (ph_fp h3)"
    using store_add [OF 3(4)] 3(6) by blast
  have run: "free_pages p h = Some (q, h3\<lparr>ph_fp := fp\<rparr>)" by (simp add: free_pages_def c 2(1) 3(1) 4(1))
  have lay': "layout (h3\<lparr>ph_fp := fp\<rparr>) E3" using 2(2) 3(2,3) 4(2) e by (simp add: layout_def)
  have "replaced ?E1 p n ?E1" by (rule replaced_refl [OF t1]) simp
  then have "replaced E p n ?E1" using c(2) by (auto simp: replaced_def split: if_splits)
  then have r2: "replaced E q (p + n - q) E2" using 2(5,7) by (rule replaced_trans) simp
  then have r: "replaced E q l E3" using 3(5) by (rule replaced_trans) (use 3(7) in simp_all)
  have above: "E2 (p + n) = E (p + n)" using r2 2(7) by (simp add: replaced_def)
  have "if q = p then \<nexists>a k. E a = Some (k, True) \<and> a + k = p else E q = Some (p - q, True)"
  proof (cases "q = p")
    case True
    have "?E1 a = Some (k, True)" if "E a = Some (k, True)" for a k using p that by auto
    then show ?thesis using 2(8) True by (metis (full_types))
  qed (use 2(8) in simp)
  moreover have "if p + n = q + l then \<nexists>k. E (p + n) = Some (k, True) else E (p + n) = Some (q + l - (p + n), True)"
  proof -
    have x: "q + (p + n - q) = p + n" "l = p + n - q \<longleftrightarrow> p + n = q + l" "l - (p + n - q) = q + l - (p + n)"
      using 2(7) 3(7) c(2) by auto
    show ?thesis using 3(8) unfolding x above .
  qed
  moreover have "p + n \<le> q + l" using 3(7) by simp
  moreover have "size_of fp q = int l" using 3(6) fun_cong [OF 4(3)] by simp
  ultimately show ?thesis using run lay' r 2(2,7) 3(2) by (intro exI [of _ "h3\<lparr>ph_fp := fp\<rparr>"] exI) auto
qed


lemma coalesced_replaced:
  assumes co: "coalesced E" and r: "replaced E q l E'"
    and below: "\<nexists>a k. E a = Some (k, True) \<and> a + k = q" and above: "\<nexists>k. E (q + l) = Some (k, True)"
  shows "coalesced E'"
  unfolding coalesced_def
proof (intro allI impI notI)
  fix p n m
  assume p: "E' p = Some (n, True)" and m: "E' (p + n) = Some (m, True)"
  have out: "E' x = E x" if "x < q \<or> q + l \<le> x" for x using r that by (auto simp: replaced_def)
  have pos: "p = q \<or> p < q \<or> q + l \<le> p" if "E' p \<noteq> None" for p using r that unfolding replaced_def by (meson linorder_not_le nat_neq_iff)
  show False
  proof (cases "p = q")
    case True
    then have "n = l" using p r by (simp add: replaced_def)
    then show False using m above out [of "q + l"] True by simp
  next
    case False
    then have E: "E p = Some (n, True)" using p pos [of p] out [of p] by auto
    show False
    proof (cases "p + n = q")
      case True
      then show False using below E by blast
    next
      case False
      then have "E (p + n) = Some (m, True)" using m pos [of "p + n"] out [of "p + n"] by auto
      then show False using co E unfolding coalesced_def by blast
    qed
  qed
qed

text \<open>The free extent that \<open>free_pages\<close> makes has no free neighbour.\<close>

lemma merged_neighbours:
  assumes co: "coalesced E" and le: "p + n \<le> q + l"
    and below: "if q = p then \<nexists>a k. E a = Some (k, True) \<and> a + k = p else E q = Some (p - q, True)"
    and above: "if p + n = q + l then \<nexists>k. E (p + n) = Some (k, True) else E (p + n) = Some (q + l - (p + n), True)"
  shows "\<nexists>a k. E a = Some (k, True) \<and> a + k = q" "\<nexists>k. E (q + l) = Some (k, True)"
proof -
  show "\<nexists>a k. E a = Some (k, True) \<and> a + k = q"
    using below co unfolding coalesced_def by (metis (full_types))
  show "\<nexists>k. E (q + l) = Some (k, True)"
  proof (cases "p + n = q + l")
    case False
    then have "E (p + n) = Some (q + l - (p + n), True)" "p + n + (q + l - (p + n)) = q + l" using above le by auto
    then show ?thesis using co unfolding coalesced_def by metis
  qed (use above in simp)
qed

section \<open>Allocation\<close>

text \<open>The extent that the search finds, by the interface of the list of free extents.\<close>

lemma find_extent:
  assumes lay: "layout h E" and n: "E y = Some (k, True)" "n \<le> k"
  shows "\<exists>p l fp. fp_find (int n) (ph_fp h) = Some (Some p, fp) \<and> E p = Some (l, True) \<and> n \<le> l \<and> l \<le> k \<and>
    store_ok fp E {p}"
proof -
  have st: "store_ok (ph_fp h) E {}" using lay by (simp add: layout_def)
  then have s: "fp_stored (ph_fp h) (free_starts E)" "size_of (ph_fp h) y = int k"
    using n(1) by (auto simp: store_ok_def)
  have "y \<in> free_starts E" using n(1) by (simp add: free_starts_iff)
  then obtain p fp where p: "fp_find (int n) (ph_fp h) = Some (Some p, fp)" "p \<in> free_starts E"
    "int n \<le> size_of (ph_fp h) p" "size_of (ph_fp h) p \<le> size_of (ph_fp h) y" "fp_stored fp (free_starts E - {p})"
    "size_of fp = size_of (ph_fp h)"
    using fp.find_succeeds [OF s(1), of y "int n"] s(2) n(2) by auto
  then obtain l where l: "E p = Some (l, True)" by (auto simp: free_starts_iff)
  then have "size_of (ph_fp h) p = int l" using st by (simp add: store_ok_def)
  moreover have "store_ok fp E {p}" using st p(5) fun_cong [OF p(6)] by (simp add: store_ok_def)
  ultimately show ?thesis using p l s(2) by auto
qed


text \<open>An extent is cut in two.\<close>

definition split_at :: "nat \<Rightarrow> nat \<Rightarrow> nat \<Rightarrow> bool \<Rightarrow> bool \<Rightarrow> extents \<Rightarrow> extents" where
  "split_at p n k f g E = E(p := Some (n, f), p + n := Some (k - n, g))"

lemma table_split:
  assumes t: "table_ok m e E" and p: "E p = Some (k, f0)" and n: "0 < n" "n < k"
    and m': "\<And>i. pg_code (m' i) = (if i = p then (if f then BIG + FREE else BIG)
        else if i = p + n then (if g then BIG + FREE else BIG) else pg_code (m i))"
      "\<And>i. pg_page (m' i) = (if i = p then p + n else if i = p + n then p + k
        else if p + n < i \<and> i < p + k then p + n else pg_page (m i))"
  shows "table_ok m' e (split_at p n k f g E)"
proof -
  have ep: "extent_ok m p k f0" "p + k \<le> e" using table_extent [OF t p] by simp_all
  then have new: "extent_ok m' p n f" "extent_ok m' (p + n) (k - n) g"
    using n unfolding extent_ok_def m' by auto
  have others: "extent_ok m' q l h" if q: "E q = Some (l, h)" "q \<noteq> p" for q l h
  proof -
    have "extent_ok m q l h" using table_extent [OF t q(1)] by simp
    moreover have far: "q + l \<le> p \<or> p + k \<le> q"
      using table_disjoint [OF t q(1) p] table_disjoint [OF t p q(1)] q(2) by linarith
    have "pg_code (m' i) = pg_code (m i)" "pg_page (m' i) = pg_page (m i)" if "q \<le> i" "i < q + l" for i
      using far n that by (simp_all add: m') linarith+
    ultimately show ?thesis unfolding extent_ok_def by simp
  qed
  have "extent_ok m' q l h \<and> q + l \<le> e" if q: "split_at p n k f g E q = Some (l, h)" for q l h
  proof (cases "q = p \<or> q = p + n")
    case True
    then show ?thesis using q ep(2) n new
      by (auto simp: split_at_def split: if_splits)
  next
    case False
    then have "E q = Some (l, h)" "q \<noteq> p" using q by (simp_all add: split_at_def)
    then show ?thesis using others table_extent [OF t, of q] by blast
  qed
  moreover have "disjoint_extents (split_at p n k f g E)"
    unfolding disjoint_extents_def
  proof (intro allI impI, elim conjE)
    fix q l h q' l' h'
    assume *: "split_at p n k f g E q = Some (l, h)" "split_at p n k f g E q' = Some (l', h')" "q < q'"
    consider "q = p" | "q = p + n" | "q \<noteq> p" "q \<noteq> p + n" by blast
    then show "q + l \<le> q'"
    proof cases
      case 1
      then show ?thesis using * n table_disjoint [OF t p, of q' l' h'] by (auto simp: split_at_def split: if_splits)
    next
      case 2
      then show ?thesis using * n table_disjoint [OF t p, of q' l' h'] by (auto simp: split_at_def split: if_splits)
    next
      case 3
      then have q: "E q = Some (l, h)" using *(1) by (simp add: split_at_def)
      then show ?thesis
        using * n 3 table_disjoint [OF t q p] table_disjoint [OF t q, of q' l' h'] table_disjoint [OF t p q]
        by (cases "q < p") (auto simp: split_at_def split: if_splits)
    qed
  qed
  moreover have "inside (split_at p n k f g E) i" if i: "inside E i" for i
  proof -
    obtain q l h where q: "E q = Some (l, h)" "q \<le> i" "i < q + l" using i unfolding inside_def by blast
    consider "q = p" "i < p + n" | "q = p" "p + n \<le> i" | "q \<noteq> p" by linarith
    then show ?thesis
    proof cases
      case 1
      then show ?thesis using q n by (intro insideI [of _ p n f]) (auto simp: split_at_def)
    next
      case 2
      then show ?thesis using q n p by (intro insideI [of _ "p + n" "k - n" g]) (auto simp: split_at_def)
    next
      case 3
      then have "q \<noteq> p + n" using table_disjoint [OF t p q(1)] n by auto
      then show ?thesis using q 3 unfolding inside_def split_at_def by fastforce
    qed
  qed
  moreover have "inside E i" if "i = p \<or> i = p + n" for i using p n that unfolding inside_def by fastforce
  ultimately show ?thesis using t unfolding table_ok_def m' by (metis (no_types, lifting))
qed


lemma table_free_end: "table_ok m e E \<Longrightarrow> E p = Some (k, f) \<Longrightarrow> 0 < n \<Longrightarrow> n < k \<Longrightarrow> E (p + n) = None"
  using table_disjoint [of m e E p k f "p + n"] by (cases "E (p + n)") fastforce+

lemma store_split:
  assumes st: "store_ok fp E {p}" and new: "E (p + n) = None" and n: "0 < n"
  shows "\<exists>fp'. fp_add (p + n) (set_size (p + n) (int (k - n)) fp) = Some fp' \<and>
    store_ok fp' (split_at p n k False True E) {}"
proof -
  let ?E = "split_at p n k False True E" and ?fp = "set_size (p + n) (int (k - n)) fp"
  have "free_starts ?E - {p + n} = free_starts E - {p}"
    using new n by (auto simp: split_at_def free_starts_upd free_starts_iff)
  moreover have "fp_stored ?fp (free_starts E - {p})"
    using st new by (intro stored_set_size) (auto simp: store_ok_def free_starts_iff)
  ultimately have "store_ok ?fp ?E {p + n}" using st by (auto simp: store_ok_def split_at_def split: if_splits)
  then show ?thesis using store_add [of ?fp ?E "p + n" "k - n"] by (auto simp: split_at_def)
qed

lemma alloc_split_run:
  assumes lay: "layout h E" and p: "E p = Some (k, True)" and n: "0 < n" "n < k"
    and find: "fp_find (int n) (ph_fp h) = Some (Some p, fp)" and st: "store_ok fp E {p}"
  shows "\<exists>h'. alloc_pages (int n) h = Some (Some p, h') \<and> ph_end h' = ph_end h \<and> pg_page (ph_tab h' p) = p + k \<and>
    layout (h'\<lparr>ph_tab := set_page p (p + n) (ph_tab h')\<rparr>) (split_at p n k False True E)"
proof -
  have e: "ph_end h < 2 ^ 31" and t: "table_ok (ph_tab h) (ph_end h) E" using lay by (simp_all add: layout_def)
  have po: "p + k \<le> ph_end h" "pg_page (ph_tab h p) = p + k" using table_extent [OF t p] by (simp_all add: extent_ok_def)
  obtain fp' where fp': "fp_add (p + n) (set_size (p + n) (int (k - n)) fp) = Some fp'"
    "store_ok fp' (split_at p n k False True E) {}"
    using store_split [OF st table_free_end [OF t p n] n(1)] by blast
  define m3 where "m3 = back_loop (p + n) (p + n) (k - n - 1)
    (set_page (p + n) (p + k) (set_code (p + n) (BIG + FREE) (set_code p BIG (ph_tab h))))"
  have "to_int (int n) = int n" "to_unsigned (int n) = n" "to_unsigned (int p + int n) = p + n"
    "usub (p + k) p = k" "usub (p + k) (p + n) = k - n" "usub (k - n) 1 = k - n - 1"
    "to_int (int (k - n)) = int (k - n)"
    using e po n by (simp_all add: to_int_small to_unsigned_small usub_small nat_add_distrib)
  then have "alloc_pages (int n) h = Some (Some p, h\<lparr>ph_tab := m3, ph_fp := fp'\<rparr>)"
    using n fp'(1) find po(2) by (simp add: alloc_pages_def Let_def m3_def del: One_nat_def of_nat_diff)
  moreover have code: "pg_code (m3 i) = (if i = p then BIG else if i = p + n then BIG + FREE else pg_code (ph_tab h i))"
    and page: "pg_page (m3 i) = (if i = p + n then p + k else if p + n < i \<and> i < p + k then p + n else pg_page (ph_tab h i))" for i
    using n by (auto simp: m3_def back_loop_eq set_page_def set_code_def)
  have "table_ok (set_page p (p + n) m3) (ph_end h) (split_at p n k False True E)"
    by (rule table_split [OF t p n]) (use n in \<open>auto simp: code page set_page_def\<close>)
  ultimately show ?thesis using e fp'(2) po(2) n by (auto simp: layout_def page)
qed

lemma alloc_exact_run:
  assumes lay: "layout h E" and p: "E p = Some (n, True)"
    and find: "fp_find (int n) (ph_fp h) = Some (Some p, fp)" and st: "store_ok fp E {p}"
  shows "\<exists>h'. alloc_pages (int n) h = Some (Some p, h') \<and> ph_end h' = ph_end h \<and> layout h' (E(p := Some (n, False)))"
proof -
  have e: "ph_end h < 2 ^ 31" and t: "table_ok (ph_tab h) (ph_end h) E" using lay by (simp_all add: layout_def)
  have po: "p + n \<le> ph_end h" "pg_page (ph_tab h p) = p + n" using table_extent [OF t p] by (simp_all add: extent_ok_def)
  have "to_int (int n) = int n" "to_unsigned (int n) = n" "usub (p + n) p = n"
    using e po by (simp_all add: to_int_small to_unsigned_small usub_small)
  then have "alloc_pages (int n) h = Some (Some p, h\<lparr>ph_tab := set_code p BIG (ph_tab h), ph_fp := fp\<rparr>)"
    using find po(2) by (simp add: alloc_pages_def Let_def)
  moreover have "store_ok fp (E(p := Some (n, False))) {}"
    using st by (auto simp: store_ok_def free_starts_upd split: if_splits)
  ultimately show ?thesis using e table_set_code [OF t p, of BIG False] by (auto simp: layout_def)
qed


text \<open>The descriptors of a new extent behind the last page.\<close>

lemma setup_extent_layout:
  assumes lay: "layout h E" and n: "0 < n" "ph_end h + n < 2 ^ 31" "0 < ph_end h"
  shows "layout (setup_extent_descriptor (ph_end h) (int n) (h\<lparr>ph_end := ph_end h + n\<rparr>))
    (E(ph_end h := Some (n, False)))"
proof -
  let ?p = "ph_end h"
  let ?m = "ph_tab (setup_extent_descriptor ?p (int n) (h\<lparr>ph_end := ?p + n\<rparr>))" and ?E = "E(?p := Some (n, False))"
  have t: "table_ok (ph_tab h) ?p E" and st: "store_ok (ph_fp h) E {}" using lay by (simp_all add: layout_def)
  have new: "E q = None" if "?p \<le> q" for q
    using table_extent [OF t, of q] that by (cases "E q") (fastforce simp: extent_ok_def)+
  have u: "to_unsigned (int ?p + int n) = ?p + n" using n by (simp add: to_unsigned_small nat_add_distrib)
  have k: "nat (int n - 1) = n - 1" by simp
  have m: "?m i = (if ?p < i \<and> i < ?p + n then (ph_tab h i)\<lparr>pg_page := ?p, pg_code := MIDDLE\<rparr>
      else if i = ?p then (ph_tab h i)\<lparr>pg_page := ?p + n, pg_code := BIG\<rparr> else ph_tab h i)" for i
    using n(1) by (auto simp: setup_extent_descriptor_def middle_loop_eq u k set_page_def set_code_def)
  have "extent_ok ?m q l f \<and> q + l \<le> ?p + n" if q: "?E q = Some (l, f)" for q l f
  proof (cases "q = ?p")
    case True
    then have "l = n" "\<not> f" using q by simp_all
    then show ?thesis using n unfolding True \<open>l = n\<close> by (simp add: extent_ok_def m)
  next
    case False
    then have "E q = Some (l, f)" using q by simp
    then show ?thesis using table_extent [OF t, of q l f] by (auto simp: extent_ok_def m)
  qed
  moreover have "disjoint_extents ?E"
    unfolding disjoint_extents_def
  proof (intro allI impI, elim conjE)
    fix a l f b l' g
    assume *: "?E a = Some (l, f)" "?E b = Some (l', g)" "a < b"
    then have a: "E a = Some (l, f)" using new [of b] by (auto split: if_splits)
    then have "a + l \<le> ?p" using table_extent [OF t a] by simp
    then show "a + l \<le> b" using * table_disjoint [OF t a, of b l' g] by (auto split: if_splits)
  qed
  moreover have "pg_code (?m i) \<notin> {BIG, BIG + FREE, MIDDLE}" if i: "i < ?p + n" "\<not> inside ?E i" for i
  proof -
    have "i < ?p" using i insideI [of ?E ?p n False i] by fastforce
    moreover have "\<not> inside E i" using i(2) new [of ?p] unfolding inside_def by fastforce
    ultimately show ?thesis using t by (simp add: table_ok_def m)
  qed
  moreover have "store_ok (ph_fp h) ?E {}"
    using st new [of ?p] by (auto simp: store_ok_def free_starts_upd free_starts_iff split: if_splits)
  ultimately show ?thesis using n unfolding layout_def table_ok_def by (auto simp: setup_extent_descriptor_def)
qed

text \<open>\<open>free_pages\<close> where there is nothing to merge; the descriptor of \<open>p\<close> says that the extent has \<open>k\<close> pages.\<close>

lemma free_pages_alone:
  assumes p: "pg_code (ph_tab h p) = BIG" "0 < p" "pg_page (ph_tab h p) = p + k" "p + k \<le> ph_end h" "ph_end h < 2 ^ 31"
    and adj: "adj = (if pg_code (ph_tab h (p - 1)) = MIDDLE then pg_page (ph_tab h (p - 1)) else p - 1)"
      "adj < p" "pg_code (ph_tab h adj) \<noteq> BIG + FREE"
    and above: "\<not> (p + k < ph_end h \<and> pg_code (ph_tab h (p + k)) = BIG + FREE)" and k: "0 < k"
    and X: "fp_stored (ph_fp h) X" "p \<notin> X"
  shows "\<exists>h''. free_pages p h = Some (p, h'') \<and> fp_stored (ph_fp h'') (insert p X) \<and>
    size_of (ph_fp h'') = (size_of (ph_fp h))(p := int k)"
proof -
  let ?m = "set_code p (BIG + FREE) (ph_tab h)" and ?fp = "set_size p (int k) (ph_fp h)"
  have u: "usub p 1 = p - 1" using p by (simp add: usub_small)
  have "(if pg_code (?m (p - 1)) = MIDDLE then pg_page (?m (p - 1)) else p - 1) = adj" using p(2) adj(1) by simp
  moreover have "pg_code (?m adj) \<noteq> BIG + FREE" using adj(2,3) by simp
  moreover have "to_int (int (p + k) - int p) = int k" using p by (simp add: to_int_small)
  ultimately have below: "merge_below p (h\<lparr>ph_tab := ?m\<rparr>) = Some (p, h\<lparr>ph_tab := ?m, ph_fp := ?fp\<rparr>)"
    using p(3) by (simp add: merge_below_def u Let_def del: One_nat_def)
  have "merge_above p (h\<lparr>ph_tab := ?m, ph_fp := ?fp\<rparr>) = Some (h\<lparr>ph_tab := ?m, ph_fp := ?fp\<rparr>)"
    using above p(3) k by (auto simp: merge_above_def Let_def)
  moreover obtain fp' where "fp_add p ?fp = Some fp'" "fp_stored fp' (insert p X)" "size_of fp' = size_of ?fp"
    using fp.add_law [OF stored_set_size [OF X] X(2)] by blast
  moreover have "size_of ?fp = (size_of (ph_fp h))(p := int k)" by auto
  ultimately show ?thesis using below p(1) by (auto simp: free_pages_def)
qed

section \<open>Properties\<close>

text \<open>
  (C27) Freeing merges. On a consistent pool, \<open>free_pages\<close> of a used extent returns; the pool is
  consistent again, with one free extent \<open>q\<close> of \<open>l\<close> pages in the place of it and of the free
  extents next to it, and every other extent as before. If no two free extents were adjacent,
  none are afterwards.
\<close>

theorem free_pages_coalesces:
  assumes "layout h E" "coalesced E" "E p = Some (n, False)"
  shows "\<exists>h' q l E'. free_pages p h = Some (q, h') \<and> layout h' E' \<and> coalesced E' \<and> ph_end h' = ph_end h \<and>
    q \<le> p \<and> p + n \<le> q + l \<and> E' q = Some (l, True) \<and>
    (\<forall>x. q < x \<and> x < q + l \<longrightarrow> E' x = None) \<and> (\<forall>x. x < q \<or> q + l \<le> x \<longrightarrow> E' x = E x) \<and>
    (\<forall>i. q \<le> i \<and> i < q + l \<and> \<not> (p \<le> i \<and> i < p + n) \<longrightarrow>
       (\<exists>x k. E x = Some (k, True) \<and> x \<le> i \<and> i < x + k))"
proof -
  obtain h' q l E' where h': "free_pages p h = Some (q, h')" "layout h' E'" "ph_end h' = ph_end h"
    "replaced E q l E'" "q \<le> p" "p + n \<le> q + l"
    and below: "if q = p then \<nexists>a k. E a = Some (k, True) \<and> a + k = p else E q = Some (p - q, True)"
    and above: "if p + n = q + l then \<nexists>k. E (p + n) = Some (k, True) else E (p + n) = Some (q + l - (p + n), True)"
    using free_pages_replaced [OF assms(1,3)] by blast
  have co: "coalesced E'"
    by (rule coalesced_replaced [OF assms(2) h'(4)]) (use merged_neighbours [OF assms(2) h'(6) below above] in auto)
  have "\<exists>x k. E x = Some (k, True) \<and> x \<le> i \<and> i < x + k"
    if i: "q \<le> i" "i < q + l" "\<not> (p \<le> i \<and> i < p + n)" for i
  proof (cases "i < p")
    case True
    then have "E q = Some (p - q, True)" using below i(1) by (auto split: if_splits)
    then show ?thesis using i(1) True by fastforce
  next
    case False
    then have "E (p + n) = Some (q + l - (p + n), True)" using above i by (auto split: if_splits)
    then show ?thesis using i False by fastforce
  qed
  then show ?thesis using h' co unfolding replaced_def by (intro exI [of _ h'] exI [of _ q] exI [of _ l] exI [of _ E']) simp
qed


text \<open>
  A small pool: three pages of tables, a free extent of three pages at 3, a used one of one page
  at 6 and a used one of two pages at 7.
\<close>

definition demo_pool :: pheap where
  "demo_pool =
     \<lparr>ph_tab = (\<lambda>i. \<lparr>pg_page = (if i = 3 then 6 else if i = 4 then 3 else if i = 5 then 3 else if i = 6 then 7
                            else if i = 7 then 9 else if i = 8 then 7 else 0), pg_free = 0, pg_count = 0,
        pg_code = (if i = 3 then 27 else if i = 4 then 28 else if i = 5 then 28 else if i = 6 then 26
                   else if i = 7 then 26 else if i = 8 then 28 else 30)\<rparr>),
      ph_fp = \<lparr>fp_root = Some 3, fp_mem = (\<lambda>_. \<lparr>fp_parent = Root, fp_bigger = None, fp_next = None, fp_size = 3\<rparr>)\<rparr>,
      ph_end = 9\<rparr>"

definition demo_extents :: extents where
  "demo_extents = [3 \<mapsto> (3, True), 6 \<mapsto> (1, False), 7 \<mapsto> (2, False)]"

lemma demo_extents_iff:
  "demo_extents p = Some (n, f) \<longleftrightarrow> p = 3 \<and> n = 3 \<and> f \<or> p = 6 \<and> n = 1 \<and> \<not> f \<or> p = 7 \<and> n = 2 \<and> \<not> f"
  by (auto simp: demo_extents_def)

lemma demo_layout: "layout demo_pool demo_extents" "coalesced demo_extents"
proof -
  have "free_list (ph_fp demo_pool) [[3]]" by (simp add: demo_pool_def free_list_def deref.simps)
  then have "fp_stored (ph_fp demo_pool) {3}" unfolding fp_stored_def by (intro exI [of _ "[[3]]"]) simp
  moreover have "free_starts demo_extents = {3}" by (auto simp: free_starts_def demo_extents_iff)
  ultimately have "store_ok (ph_fp demo_pool) demo_extents {}"
    by (simp add: store_ok_def demo_extents_iff) (simp add: demo_pool_def)
  moreover have "extent_ok (ph_tab demo_pool) 3 3 True" "extent_ok (ph_tab demo_pool) 6 1 False"
    "extent_ok (ph_tab demo_pool) 7 2 False"
    by (auto simp: extent_ok_def demo_pool_def code_defs)
  moreover have "i \<notin> {3..8}" if "\<not> inside demo_extents i" for i
    using that insideI [of demo_extents 3 3 True i] insideI [of demo_extents 6 1 False i]
      insideI [of demo_extents 7 2 False i] by (cases "i < 6"; cases "i < 7") (auto simp: demo_extents_iff)
  moreover have "pg_code (ph_tab demo_pool i) = BASE" if "i \<notin> {3..8}" for i
    using that by (auto simp: demo_pool_def BASE_def)
  moreover have "ph_end demo_pool = 9" by (simp add: demo_pool_def)
  ultimately show "layout demo_pool demo_extents"
    unfolding layout_def table_ok_def disjoint_extents_def demo_extents_iff by (auto simp: code_defs)
  show "coalesced demo_extents" by (auto simp: coalesced_def demo_extents_iff)
qed

theorem free_pages_coalesces_witness:
  "demo_extents 6 = Some (1, False) \<and>
   (\<exists>h' q l E'. free_pages 6 demo_pool = Some (q, h') \<and> layout h' E' \<and> coalesced E' \<and> q \<le> 6 \<and> E' q = Some (l, True))"
proof -
  have "demo_extents 6 = Some (1, False)" by (simp add: demo_extents_def)
  then show ?thesis using free_pages_coalesces [OF demo_layout] by blast
qed

text \<open>
  What \<open>alloc_pages\<close> gives. It returns no pages exactly when every free extent is too small, and
  then changes nothing. Otherwise it takes a free extent: one of the asked size as a whole, which
  leaves the pool consistent, or the start of a larger one. In that case the rest is on the list of free
  extents, and the pool is consistent but for one field: \<open>pg->page\<close> still holds the old end.
\<close>

theorem alloc_pages_outcome:
  assumes "layout h E" "0 < n" "n < 2 ^ 31"
  shows "if \<forall>x k. E x = Some (k, True) \<longrightarrow> k < n then alloc_pages (int n) h = Some (None, h)
    else \<exists>p k h'. alloc_pages (int n) h = Some (Some p, h') \<and> ph_end h' = ph_end h \<and> E p = Some (k, True) \<and> n \<le> k \<and>
      (if n = k then layout h' (E(p := Some (n, False)))
       else pg_page (ph_tab h' p) = p + k \<and>
         layout (h'\<lparr>ph_tab := (ph_tab h')(p := (ph_tab h' p)\<lparr>pg_page := p + n\<rparr>)\<rparr>)
           (E(p := Some (n, False), p + n := Some (k - n, True))))"
proof (cases "\<forall>x k. E x = Some (k, True) \<longrightarrow> k < n")
  case True
  have st: "store_ok (ph_fp h) E {}" using assms(1) by (simp add: layout_def)
  have "fp_find (int n) (ph_fp h) = Some (None, ph_fp h)"
    by (rule fp.find_fails [of _ "free_starts E"]) (use st True in \<open>auto simp: store_ok_def free_starts_iff\<close>)
  then have "alloc_pages (int n) h = Some (None, h)" using assms(3) by (simp add: alloc_pages_def to_int_small)
  then show ?thesis using True by simp
next
  case False
  then obtain y k' where "E y = Some (k', True)" "n \<le> k'" by (meson not_le)
  then obtain p k fp where p: "fp_find (int n) (ph_fp h) = Some (Some p, fp)" "E p = Some (k, True)" "n \<le> k"
    "store_ok fp E {p}" using find_extent [OF assms(1)] by blast
  show ?thesis
  proof (cases "n = k")
    case True
    then show ?thesis using alloc_exact_run [OF assms(1) _ p(1,4)] p(2) False by auto
  next
    case less: False
    then obtain h' where h': "alloc_pages (int n) h = Some (Some p, h')" "ph_end h' = ph_end h"
      "pg_page (ph_tab h' p) = p + k"
      "layout (h'\<lparr>ph_tab := set_page p (p + n) (ph_tab h')\<rparr>) (split_at p n k False True E)"
      using alloc_split_run [OF assms(1) p(2) assms(2) _ p(1,4)] p(3) by auto
    show ?thesis unfolding if_not_P [OF False]
    proof (intro exI conjI)
      show "alloc_pages (int n) h = Some (Some p, h')" "ph_end h' = ph_end h" by (fact h'(1,2))+
      show "E p = Some (k, True)" "n \<le> k" by (fact p(2,3))+
    qed (use h'(3,4) less in \<open>simp add: set_page_def split_at_def\<close>)
  qed
qed


theorem alloc_pages_outcome_witness:
  "alloc_pages 4 demo_pool = Some (None, demo_pool) \<and>
   (\<exists>p h'. alloc_pages 3 demo_pool = Some (Some p, h') \<and> layout h' (demo_extents(p := Some (3, False))))"
proof -
  have "\<forall>x k. demo_extents x = Some (k, True) \<longrightarrow> k < 4" by (simp add: demo_extents_iff)
  then have "alloc_pages 4 demo_pool = Some (None, demo_pool)"
    using alloc_pages_outcome [OF demo_layout(1), of 4] by simp
  moreover have "\<not> (\<forall>x k. demo_extents x = Some (k, True) \<longrightarrow> k < 3)" by (auto simp: demo_extents_iff)
  then have "\<exists>p h'. alloc_pages 3 demo_pool = Some (Some p, h') \<and> layout h' (demo_extents(p := Some (3, False)))"
    using alloc_pages_outcome [OF demo_layout(1), of 3] by (auto simp: demo_extents_iff)
  ultimately show ?thesis by simp
qed

text \<open>
  (C37) A split corrupts the pool. A block that \<open>alloc_pages\<close> cuts off a larger free extent, and that is
  freed right away, goes back as the whole old extent while the rest of it is still on the list of free
  extents: afterwards two free extents share pages, so two later allocations can return the
  same memory.
\<close>

theorem split_then_free_overlaps:
  assumes "layout h E" "coalesced E" "0 < n" "n < 2 ^ 31"
    and "\<exists>x k. E x = Some (k, True) \<and> n \<le> k" "\<forall>x. E x \<noteq> Some (n, True)"
  shows "\<exists>p k h' h''. alloc_pages (int n) h = Some (Some p, h') \<and> free_pages p h' = Some (p, h'') \<and> n < k \<and>
    (\<exists>X. fp_stored (ph_fp h'') X \<and> p \<in> X \<and> p + n \<in> X) \<and>
    size_of (ph_fp h'') p = int k \<and> size_of (ph_fp h'') (p + n) = int (k - n)"
proof -
  obtain p k fp where p: "fp_find (int n) (ph_fp h) = Some (Some p, fp)" "E p = Some (k, True)" "n \<le> k"
    "store_ok fp E {p}" using find_extent [OF assms(1)] assms(5) by blast
  then have nk: "n < k" using assms(6) by (metis le_neq_implies_less)
  let ?E = "split_at p n k False True E"
  obtain h' where h': "alloc_pages (int n) h = Some (Some p, h')" "ph_end h' = ph_end h"
    "pg_page (ph_tab h' p) = p + k" "layout (h'\<lparr>ph_tab := set_page p (p + n) (ph_tab h')\<rparr>) ?E"
    using alloc_split_run [OF assms(1) p(2) assms(3) nk p(1,4)] by blast
  define m where "m = set_page p (p + n) (ph_tab h')"
  have t: "table_ok m (ph_end h') ?E" and st: "store_ok (ph_fp h') ?E {}" and e: "ph_end h' < 2 ^ 31"
    using h'(4) by (simp_all add: layout_def m_def)
  have old: "table_ok (ph_tab h) (ph_end h) E" using assms(1) by (simp add: layout_def)
  have Ep: "?E p = Some (n, False)" using assms(3) by (simp add: split_at_def)
  have code: "pg_code (ph_tab h' p) = BIG" "0 < p" "p + k \<le> ph_end h'"
    using table_extent [OF t Ep] table_extent [OF old p(2)] h'(2) by (simp_all add: extent_ok_def m_def)
  have other: "E x = Some (l, True)" if "?E x = Some (l, True)" "x \<noteq> p + n" for x l
    using that by (auto simp: split_at_def split: if_splits)
  define adj where "adj = (if pg_code (m (p - 1)) = MIDDLE then pg_page (m (p - 1)) else p - 1)"
  have m1: "m (p - 1) = ph_tab h' (p - 1)" using code(2) by (simp add: m_def)
  have "\<nexists>a l. ?E a = Some (l, True) \<and> a + l = p"
  proof (intro notI, elim exE conjE)
    fix a l assume a: "?E a = Some (l, True)" "a + l = p"
    then have "E a = Some (l, True)" using other [OF a(1)] assms(3) by simp
    then show False using assms(2) p(2) a(2) unfolding coalesced_def by blast
  qed
  then have "pg_code (m adj) \<noteq> BIG + FREE" using below_extent(1) [OF t Ep adj_def] by blast
  then have c1: "pg_code (ph_tab h' adj) \<noteq> BIG + FREE" by (simp add: m_def)
  have "\<not> (p + k < ph_end h' \<and> pg_code (m (p + k)) = BIG + FREE)"
    using table_free [OF t, of "p + k"] other [of "p + k"] assms(2) p(2) nk unfolding coalesced_def by fastforce
  then have c2: "\<not> (p + k < ph_end h' \<and> pg_code (ph_tab h' (p + k)) = BIG + FREE)" by (simp add: m_def)
  have less: "adj < p" using below_less [OF t Ep] by (simp add: adj_def)
  have X: "fp_stored (ph_fp h') (free_starts ?E)" "p \<notin> free_starts ?E" "p + n \<in> free_starts ?E"
    "size_of (ph_fp h') (p + n) = int (k - n)"
    using st Ep by (auto simp: store_ok_def free_starts_iff split_at_def)
  obtain h'' where h'': "free_pages p h' = Some (p, h'')" "fp_stored (ph_fp h'') (insert p (free_starts ?E))"
    "size_of (ph_fp h'') = (size_of (ph_fp h'))(p := int k)"
    using free_pages_alone [OF code(1,2) h'(3) code(3) e adj_def [unfolded m1] less c1 c2 _ X(1,2)] nk by auto
  have "size_of (ph_fp h'') p = int k" "size_of (ph_fp h'') (p + n) = int (k - n)"
    using fun_cong [OF h''(3), of p] fun_cong [OF h''(3), of "p + n"] X(4) assms(3) by simp_all
  then show ?thesis using h'(1) h''(1,2) nk X(3) by blast
qed

theorem split_then_free_overlaps_witness:
  "\<exists>p k h' h''. alloc_pages 1 demo_pool = Some (Some p, h') \<and> free_pages p h' = Some (p, h'') \<and> 1 < k \<and>
    (\<exists>X. fp_stored (ph_fp h'') X \<and> p \<in> X \<and> p + 1 \<in> X) \<and>
    size_of (ph_fp h'') p = int k \<and> size_of (ph_fp h'') (p + 1) = int (k - 1)"
  using split_then_free_overlaps [OF demo_layout, of 1] by (auto simp: demo_extents_iff)

end
