(* ===== verification/Spinlock.thy ===== *)
theory Spinlock
  imports Primitives Transition Size_Class
begin

text \<open>
  The spin locks of the allocator (\<open>LOCKTYPE == SPINLOCK\<close> in \<open>src/c/malloc.c\<close>): \<open>lock_init\<close> and the
  macros \<open>LOCK(q)\<close> and \<open>UNLOCK(q)\<close>. There are \<open>NUMSMALL + 1\<close> of them and they are independent, so one
  lock and the threads that use it are one state machine. A thread tests the byte and then does
  a test-and-set on it, ten times; after that it sleeps a millisecond between two attempts.
\<close>

section \<open>Initialisation\<close>

definition lock_init :: "bool \<Rightarrow> TAS_t list \<Rightarrow> int \<times> TAS_t list" where
  "lock_init init locks = (0, if init then map (\<lambda>_. 0) locks else locks)"

section \<open>The macros as a state machine\<close>

datatype lk_pc =
    Out                 \<comment> \<open>outside\<close>
  | Fast nat            \<comment> \<open>first loop, \<open>_try\<close>: read \<open>*_l\<close>\<close>
  | Fast_TAS nat        \<comment> \<open>first loop: \<open>TAS(*_l)\<close>\<close>
  | Slow                \<comment> \<open>second loop: read \<open>*_l\<close>\<close>
  | Slow_TAS            \<comment> \<open>second loop: \<open>TAS(*_l)\<close>\<close>
  | Select              \<comment> \<open>asleep in \<open>select\<close>\<close>
  | Holding             \<comment> \<open>behind \<open>LOCK\<close>, before \<open>UNLOCK\<close>\<close>

record lk_state =
  lk_byte :: TAS_t
  lk_pcs :: "nat \<Rightarrow> lk_pc"

text \<open>The condition of the first loop is \<open>_try > 0 && (*_l || TAS(*_l))\<close>.\<close>

fun lk_next :: "lk_pc \<Rightarrow> TAS_t \<Rightarrow> lk_pc \<times> TAS_t" where
  "lk_next Out l = (Fast 10, l)"
| "lk_next (Fast n) l =
     (if n = 0 then (Slow, l) else if l \<noteq> 0 then (Fast (n - 1), l) else (Fast_TAS n, l))"
| "lk_next (Fast_TAS n) l =
     (let (old, l') = TAS l in if old \<noteq> 0 then (Fast (n - 1), l') else (Holding, l'))"
| "lk_next Slow l = (if l \<noteq> 0 then (Select, l) else (Slow_TAS, l))"
| "lk_next Slow_TAS l = (let (old, l') = TAS l in if old \<noteq> 0 then (Select, l') else (Holding, l'))"
| "lk_next Select l = (Slow, l)"
| "lk_next Holding l = (Out, 0)"

definition lk_act :: "nat \<Rightarrow> lk_state \<Rightarrow> lk_state" where
  "lk_act i s = (let (c, l) = lk_next (lk_pcs s i) (lk_byte s)
                 in s\<lparr>lk_byte := l, lk_pcs := (lk_pcs s)(i := c)\<rparr>)"

definition lk_step :: "lk_state \<Rightarrow> lk_state \<Rightarrow> bool" where
  "lk_step s s' \<longleftrightarrow> (\<exists>i. s' = lk_act i s)"

definition lk_start :: "lk_state \<Rightarrow> bool" where
  "lk_start s \<longleftrightarrow> lk_byte s = 0 \<and> (\<forall>i. lk_pcs s i = Out)"

definition lk_run :: "nat list \<Rightarrow> lk_state \<Rightarrow> lk_state" where
  "lk_run is s = foldl (\<lambda>s i. lk_act i s) s is"

section \<open>Invariant\<close>

definition holders :: "(nat \<Rightarrow> lk_pc) \<Rightarrow> nat set" where
  "holders pcs = {i. pcs i = Holding}"

definition lk_inv :: "lk_state \<Rightarrow> bool" where
  "lk_inv s \<longleftrightarrow>
     lk_byte s = 0 \<and> holders (lk_pcs s) = {} \<or> lk_byte s = 1 \<and> (\<exists>i. holders (lk_pcs s) = {i})"

lemma holders_upd:
  "holders (pcs(i := c)) = (if c = Holding then insert i (holders pcs) else holders pcs - {i})"
  by (auto simp: holders_def)

lemma holders_iff: "i \<in> holders pcs \<longleftrightarrow> pcs i = Holding"
  by (simp add: holders_def)

lemma lk_next_cases:
  assumes "lk_next c l = (c', l')" "c \<noteq> Holding"
  shows "c' = Holding \<and> l = 0 \<and> l' = 1 \<or> c' \<noteq> Holding \<and> (l' = l \<or> l \<noteq> 0 \<and> l' = 1)"
  using assms by (cases c) (auto simp: TAS_def SWAPB_def Let_def split: if_splits)

lemma lk_act_inv:
  assumes inv: "lk_inv s"
  shows "lk_inv (lk_act i s)"
proof (cases "lk_pcs s i = Holding")
  case True
  then have "i \<in> holders (lk_pcs s)" by (simp add: holders_iff)
  then have "holders (lk_pcs s) - {i} = {}" using inv by (auto simp: lk_inv_def)
  then show ?thesis by (simp add: True lk_inv_def lk_act_def holders_upd)
next
  case False
  obtain c l where n: "lk_next (lk_pcs s i) (lk_byte s) = (c, l)" by (cases "lk_next (lk_pcs s i) (lk_byte s)")
  have "holders (lk_pcs s) - {i} = holders (lk_pcs s)" using False by (simp add: holders_iff)
  moreover have "lk_act i s = s\<lparr>lk_byte := l, lk_pcs := (lk_pcs s)(i := c)\<rparr>" by (simp add: lk_act_def n)
  ultimately show ?thesis
    using lk_next_cases [OF n False] inv unfolding lk_inv_def by (elim disjE conjE) (simp_all add: holders_upd)
qed

interpretation lk: state_machine lk_start lk_step lk_inv
proof unfold_locales
  show "lk_inv s" if "lk_start s" for s
    using that by (simp add: lk_start_def lk_inv_def holders_def)
  show "lk_inv s'" if "lk_inv s" "lk_step s s'" for s s'
    using that by (auto simp: lk_step_def lk_act_inv)
qed

lemma lk_run_Cons: "lk_run (i # is) s = lk_run is (lk_act i s)"
  by (simp add: lk_run_def)

lemma lk_run_steps: "lk_step\<^sup>*\<^sup>* s (lk_run is s)"
proof (induction "is" arbitrary: s)
  case Nil
  then show ?case by (simp add: lk_run_def)
next
  case (Cons i "is")
  have "lk_step s (lk_act i s)" by (auto simp: lk_step_def)
  then show ?case using Cons [of "lk_act i s"] by (simp add: lk_run_Cons converse_rtranclp_into_rtranclp)
qed

lemma lk_run_frame: "i \<notin> set is \<Longrightarrow> lk_pcs (lk_run is s) i = lk_pcs s i"
proof (induction "is" arbitrary: s)
  case (Cons j "is")
  then show ?case by (simp add: lk_run_Cons) (simp add: lk_act_def split: prod.splits)
qed (simp add: lk_run_def)

lemma lk_take:
  assumes "lk_byte s = 0"
  shows "lk_pcs s i = Fast_TAS n \<Longrightarrow> lk_pcs (lk_act i s) i = Holding"
    and "lk_pcs s i = Slow_TAS \<Longrightarrow> lk_pcs (lk_act i s) i = Holding"
    and "lk_pcs s i = Slow \<Longrightarrow> lk_pcs (lk_run [i, i] s) i = Holding"
    and "lk_pcs s i = Fast (Suc n) \<Longrightarrow> lk_pcs (lk_run [i, i] s) i = Holding"
    and "lk_pcs s i = Fast 0 \<Longrightarrow> lk_pcs (lk_run [i, i, i] s) i = Holding"
    and "lk_pcs s i = Select \<Longrightarrow> lk_pcs (lk_run [i, i, i] s) i = Holding"
  using assms by (simp_all add: lk_run_def lk_act_def TAS_def SWAPB_def)

section \<open>Properties\<close>

text \<open>
  (C24) Mutual exclusion. For every number of threads and every interleaving of the tests, the
  test-and-set instructions and the unlocking stores, at most one thread is between \<open>LOCK\<close> and
  \<open>UNLOCK\<close>, and the byte is 0 exactly when no thread is.
\<close>

theorem lock_mutual_exclusion:
  assumes "lk_start s0" "lk_step\<^sup>*\<^sup>* s0 s" "lk_pcs s i = Holding" "lk_pcs s j = Holding"
  shows "i = j \<and> lk_byte s = 1"
proof -
  have "lk_inv s" using assms(1,2) by (rule lk.reachable_inv)
  moreover have "i \<in> holders (lk_pcs s)" "j \<in> holders (lk_pcs s)" using assms(3,4) by (simp_all add: holders_iff)
  ultimately show ?thesis by (auto simp: lk_inv_def)
qed

definition demo_lock :: lk_state where
  "demo_lock = \<lparr>lk_byte = 0, lk_pcs = (\<lambda>_. Out)\<rparr>"

theorem lock_mutual_exclusion_witness:
  "lk_pcs (lk_run [0, 1, 0, 1, 0, 1] demo_lock) 0 = Holding \<and> lk_byte (lk_run [0, 1, 0, 1, 0, 1] demo_lock) = 1"
proof -
  have h: "lk_pcs (lk_run [0, 1, 0, 1, 0, 1] demo_lock) 0 = Holding" by code_simp
  have "lk_start demo_lock" by (simp add: lk_start_def demo_lock_def)
  from lock_mutual_exclusion [OF this lk_run_steps h h] h show ?thesis by simp
qed

text \<open>
  A free lock is taken. From any reachable state in which no thread holds the lock, a thread
  that is inside \<open>LOCK\<close> (in the first or the second loop, or asleep in \<open>select\<close>) and runs alone
  holds it after at most three steps.
\<close>

theorem free_lock_is_taken:
  assumes "lk_start s0" "lk_step\<^sup>*\<^sup>* s0 s" "\<forall>j. lk_pcs s j \<noteq> Holding" "lk_pcs s i \<noteq> Out"
  shows "\<exists>is. set is \<subseteq> {i} \<and> length is \<le> 3 \<and> lk_pcs (lk_run is s) i = Holding"
proof -
  have "lk_byte s = 0"
    using lk.reachable_inv [OF assms(1,2)] assms(3) by (auto simp: lk_inv_def holders_def)
  note take = lk_take [OF this, of i]
  have run1: "lk_run [i] s = lk_act i s" by (simp add: lk_run_def)
  have "\<exists>is \<in> {[i], [i, i], [i, i, i]}. lk_pcs (lk_run is s) i = Holding"
  proof (cases "lk_pcs s i")
    case (Fast n)
    then show ?thesis using take(4,5) by (cases n) auto
  qed (use assms(3,4) take run1 in auto)
  then obtain "is" where "is \<in> {[i], [i, i], [i, i, i]}" "lk_pcs (lk_run is s) i = Holding" by blast
  moreover from this(1) have "set is \<subseteq> {i} \<and> length is \<le> 3" by auto
  ultimately show ?thesis by blast
qed

theorem free_lock_is_taken_witness:
  "\<exists>is. set is \<subseteq> {1} \<and> length is \<le> 3 \<and>
     lk_pcs (lk_run is (lk_run (replicate 3 0 @ replicate 12 1 @ [0]) demo_lock)) 1 = Holding"
proof -
  let ?s = "lk_run (replicate 3 0 @ replicate 12 1 @ [0]) demo_lock"
  have "lk_start demo_lock" by (simp add: lk_start_def demo_lock_def)
  moreover have "lk_pcs ?s 1 = Slow" "lk_pcs ?s 0 = Out" by code_simp+
  moreover have "lk_pcs ?s j \<noteq> Holding" for j
  proof -
    have "lk_pcs ?s j = Out" if "j \<noteq> 0" "j \<noteq> 1" using that by (subst lk_run_frame) (auto simp: demo_lock_def)
    then show ?thesis using calculation(2,3) by (cases "j = 0"; cases "j = 1") simp_all
  qed
  ultimately show ?thesis
    using free_lock_is_taken [OF _ lk_run_steps, of demo_lock "replicate 3 0 @ replicate 12 1 @ [0]" 1] by simp
qed

end
