(* ===== verification/Shm.thy ===== *)
theory Shm
  imports Extents Spinlock
begin

text \<open>
  The state of the allocator in shared memory (\<open>struct basepage\<close> at \<open>membase\<close>) together with what a
  process keeps for itself, and the functions of \<open>src/c/malloc.c\<close> that set up, attach, grow and shrink
  the pool: \<open>msetup\<close>, \<open>msetup_valid\<close>, \<open>shm_init\<close>, \<open>shm_segv\<close>, \<open>shm_child\<close>, \<open>shm_brk\<close>, \<open>shm_sbrk\<close>,
  \<open>shm_global\<close>, \<open>shm_set_global\<close> and \<open>shm_destroy\<close>. An address is its distance from \<open>membase\<close> in bytes; \<open>membase\<close>
  itself is the constant \<open>0x1000000000\<close>.

  The operating system is a parameter: a record that says which calls of \<open>ftruncate\<close>, \<open>lseek\<close>,
  \<open>write\<close> and \<open>mmap\<close> succeed. The field \<open>hp_mapped\<close> is the end of the memory that is really mapped into the
  process; the program keeps its own idea of it in \<open>localbrk\<close>.
\<close>

section \<open>State\<close>

record localfree =
  lf_free :: nat
  lf_aux :: nat
  lf_count :: nat
  lf_target :: nat

record heap = pheap +
  \<comment> \<open>\<open>struct basepage\<close>\<close>
  hp_magic :: string
  hp_param :: "nat list"
  hp_base :: int
  hp_freechunks :: "nat \<Rightarrow> nat"
  hp_init :: int
  hp_brk :: int
  hp_eof :: int
  hp_global :: nat
  hp_locks :: "TAS_t list"
  hp_mfile :: string
  \<comment> \<open>the top level of the page table: its page, and the page that holds each part of the table\<close>
  hp_master :: nat
  hp_dir :: "nat \<Rightarrow> nat"
  \<comment> \<open>the memory of the blocks: links of free chunks, and contents\<close>
  hp_next :: "nat \<Rightarrow> nat"
  hp_data :: "nat \<Rightarrow> 8 word"
  \<comment> \<open>static variables of the process and the thread, and the operating system's view\<close>
  hp_mfd :: int
  hp_localbrk :: int
  hp_local :: "nat \<Rightarrow> localfree"
  hp_mapped :: int

record os =
  os_ftruncate :: "int \<Rightarrow> bool"
  os_lseek :: "int \<Rightarrow> bool"
  os_write :: bool
  os_mmap :: "int \<Rightarrow> int \<Rightarrow> bool"

definition membase :: int where
  "membase = 0x1000000000"

definition MMAP_INCR :: nat where
  "MMAP_INCR = 16"

definition LOCKTYPE :: nat where
  "LOCKTYPE = 3"

abbreviation page_size :: int where
  "page_size \<equiv> int PAGESIZE"

section \<open>Calls of the operating system\<close>

text \<open>\<open>mmap\<close> with \<open>MAP_FIXED\<close> at \<open>from\<close>; \<open>munmap\<close> of everything from an address on. A bad file descriptor fails.\<close>

definition do_mmap :: "os \<Rightarrow> int \<Rightarrow> int \<Rightarrow> heap \<Rightarrow> bool \<times> heap" where
  "do_mmap os from n h =
     (if os_mmap os from n
      then (True, if from \<le> hp_mapped h then h\<lparr>hp_mapped := max (hp_mapped h) (from + n)\<rparr> else h)
      else (False, h))"

definition do_munmap :: "int \<Rightarrow> heap \<Rightarrow> heap" where
  "do_munmap from h = h\<lparr>hp_mapped := min (hp_mapped h) from\<rparr>"

definition do_ftruncate :: "os \<Rightarrow> int \<Rightarrow> heap \<Rightarrow> bool" where
  "do_ftruncate os n h \<longleftrightarrow> 0 \<le> hp_mfd h \<and> 0 \<le> n \<and> os_ftruncate os n"

section \<open>The break\<close>

definition shm_brk :: "os \<Rightarrow> int \<Rightarrow> heap \<Rightarrow> int \<times> heap" where
  "shm_brk os newbrk h =
     (if newbrk \<le> hp_brk h then
        if \<not> do_ftruncate os newbrk h then (- 1, h)
        else let h1 = (if newbrk < hp_eof h then do_munmap newbrk h else h)
             in (0, h1\<lparr>hp_brk := newbrk, hp_eof := newbrk, hp_localbrk := newbrk\<rparr>)
      else if newbrk \<le> hp_eof h then
        let h1 = h\<lparr>hp_brk := newbrk\<rparr>
        in if newbrk > hp_localbrk h1 then
             let (ok, h2) = do_mmap os (hp_localbrk h1) (hp_eof h1 - hp_localbrk h1) h1
             in if \<not> ok then (- 1, h2) else (0, h2\<lparr>hp_localbrk := hp_eof h2\<rparr>)
           else (0, h1)
      else
        let neweof = max newbrk (hp_brk h + page_size * int MMAP_INCR)
        in if 0 \<le> hp_mfd h \<and> \<not> do_ftruncate os neweof h then (- 1, h)
           else if 0 \<le> hp_mfd h \<and> \<not> os_lseek os (neweof - 1) then (- 1, h)
           else if 0 \<le> hp_mfd h \<and> \<not> os_write os then (- 1, h)
           else let h1 = h\<lparr>hp_eof := neweof\<rparr>;
                    (ok, h2) = do_mmap os (hp_localbrk h1) (neweof - hp_localbrk h1) h1
                in if \<not> ok then (- 1, h2) else (0, h2\<lparr>hp_localbrk := neweof, hp_brk := newbrk\<rparr>))"

text \<open>\<open>shm_sbrk\<close> takes an \<open>int\<close>: the argument is cut to 32 bits. \<^const>\<open>None\<close> is \<open>(void *)-1\<close>.\<close>

definition shm_sbrk :: "os \<Rightarrow> int \<Rightarrow> heap \<Rightarrow> int option \<times> heap" where
  "shm_sbrk os delta h =
     (let oldbrk = hp_brk h; (r, h') = shm_brk os (hp_brk h + to_int delta) h
      in (if r < 0 then None else Some oldbrk, h'))"

text \<open>The handler of \<open>SIGSEGV\<close>; the result says whether the access is retried.\<close>

definition shm_segv :: "os \<Rightarrow> heap \<Rightarrow> bool \<times> heap" where
  "shm_segv os h =
     (let newbrk = hp_eof h
      in if newbrk > hp_localbrk h
         then let (_, h1) = do_mmap os (hp_localbrk h) (newbrk - hp_localbrk h) h
              in (True, h1\<lparr>hp_localbrk := newbrk\<rparr>)
         else (False, h))"

section \<open>Setting up\<close>

definition zero_page :: page where
  "zero_page = \<lparr>pg_page = 0, pg_free = 0, pg_count = 0, pg_code = 0\<rparr>"

definition empty_local :: localfree where
  "empty_local = \<lparr>lf_free = 0, lf_aux = 0, lf_count = 0, lf_target = 0\<rparr>"

definition msetup :: "heap \<Rightarrow> heap" where
  "msetup h =
     (let h1 = h\<lparr>ph_tab := (\<lambda>i. if i < PAGESIZE div sizeof_page then zero_page else ph_tab h i),
                 ph_fp := (ph_fp h)\<lparr>fp_root := None\<rparr>, hp_freechunks := (\<lambda>_. 0), hp_init := 0, hp_brk := 0,
                 hp_eof := 0, hp_global := 0, hp_locks := replicate (NUMSMALL + 1) 0, hp_mfile := [],
                 hp_dir := (\<lambda>i. if i < PAGESIZE div 8 then 0 else hp_dir h i)\<rparr>
      in h1\<lparr>hp_magic := ''SHM '', hp_param := [0, 8, LOCKTYPE, NUMSMALL], hp_base := membase,
            hp_master := 1, ph_end := 3, hp_dir := (hp_dir h1)(0 := 2),
            ph_tab := set_code 2 BASE (set_code 1 BASE (set_code 0 BASE (ph_tab h1)))\<rparr>)"

definition msetup_valid :: "heap \<Rightarrow> bool" where
  "msetup_valid h \<longleftrightarrow>
     hp_magic h = ''SHM '' \<and> hp_param h ! 0 = 0 \<and> hp_param h ! 1 = 8 \<and> hp_param h ! 2 AND 0x7f = LOCKTYPE \<and>
     hp_param h ! 2 AND 0x80 = 0 \<and> hp_param h ! 3 = NUMSMALL \<and> hp_base h = membase"

text \<open>
  \<open>shm_init\<close>. What happens at each \<open>open\<close> is an argument: the file is there, or it is missing and
  creating it succeeds, fails because another process was faster, or fails otherwise; or the
  \<open>open\<close> fails with another error. \<open>empties\<close> is the number of reads that find the file
  empty, \<open>polls\<close> the number of seconds until another process has set \<open>init\<close>.
\<close>

datatype creat_ans = Created | Already_there | Creat_error

datatype open_ans = Opened | Missing creat_ans | Open_error

text \<open>\<open>while (read(mfd, &tmp, sizeof(tmp)) == 0) { if (wait-- < 0) ...; sleep(1); }\<close>: the rest of \<open>wait\<close>.\<close>

fun read_wait :: "nat \<Rightarrow> int \<Rightarrow> int option" where
  "read_wait 0 w = Some w"
| "read_wait (Suc e) w = (if w < 0 then None else read_wait e (w - 1))"

text \<open>\<open>while (!membase->init && wait-- > 0) sleep(1)\<close>: whether \<open>init\<close> is set in the end.\<close>

fun init_wait :: "nat \<Rightarrow> int \<Rightarrow> bool" where
  "init_wait 0 w = True"
| "init_wait (Suc k) w = (if w > 0 then init_wait k (w - 1) else False)"

definition shm_attach :: "os \<Rightarrow> nat \<Rightarrow> nat \<Rightarrow> heap \<Rightarrow> heap option" where
  "shm_attach os empties polls h =
     (case read_wait empties 5 of
        None \<Rightarrow> None
      | Some w \<Rightarrow>
          let (ok, h1) = do_mmap os 0 page_size h
          in if \<not> ok then None
             else if \<not> init_wait polls w \<or> hp_init h1 = 0 \<or> \<not> msetup_valid h1 then None
             else let h2 = h1\<lparr>hp_localbrk := hp_eof h1\<rparr>;
                      (ok, h3) = do_mmap os page_size (hp_localbrk h2 - page_size) h2
                  in if \<not> ok then None else Some h3)"

definition shm_create :: "os \<Rightarrow> string option \<Rightarrow> heap \<Rightarrow> heap option" where
  "shm_create os mfile h =
     (if 0 \<le> hp_mfd h \<and> \<not> do_ftruncate os (3 * page_size) h then None
      else let (ok, h1) = do_mmap os 0 (3 * page_size) h
           in if \<not> ok then None
              else let h2 = msetup h1; e = page_size * int (ph_end h2)
                   in Some (h2\<lparr>hp_eof := e, hp_brk := e, hp_localbrk := e,
                               hp_mfile := (case mfile of None \<Rightarrow> [] | Some f \<Rightarrow> f), hp_global := 0\<rparr>))"

text \<open>The end of \<open>shm_init\<close>, when the pool is mapped: locks, the caller's function, the handler.\<close>

definition shm_ready :: "(heap \<Rightarrow> heap) option \<Rightarrow> heap \<Rightarrow> heap" where
  "shm_ready init_fn h =
     (let h1 = h\<lparr>hp_locks := snd (lock_init (hp_init h = 0) (hp_locks h))\<rparr>;
          h2 = (if hp_init h1 = 0 then (case init_fn of None \<Rightarrow> h1 | Some f \<Rightarrow> f h1) else h1)
      in h2\<lparr>hp_init := 1\<rparr>)"

fun shm_init :: "os \<Rightarrow> string option \<Rightarrow> (heap \<Rightarrow> heap) option \<Rightarrow> nat \<Rightarrow> nat \<Rightarrow> open_ans list \<Rightarrow> heap \<Rightarrow> (int \<times> heap) option" where
  "shm_init os None init_fn empties polls tries h =
     (case shm_create os None (h\<lparr>hp_mfd := - 1\<rparr>) of
        None \<Rightarrow> Some (- 1, h) | Some h' \<Rightarrow> Some (0, shm_ready init_fn h'))"
| "shm_init os (Some f) init_fn empties polls [] h = None"
| "shm_init os (Some f) init_fn empties polls (Opened # tries) h =
     (case shm_attach os empties polls (h\<lparr>hp_mfd := 3\<rparr>) of
        None \<Rightarrow> Some (- 1, h) | Some h' \<Rightarrow> Some (0, shm_ready init_fn h'))"
| "shm_init os (Some f) init_fn empties polls (Missing Created # tries) h =
     (case shm_create os (Some f) (h\<lparr>hp_mfd := 3\<rparr>) of
        None \<Rightarrow> Some (- 1, h) | Some h' \<Rightarrow> Some (0, shm_ready init_fn h'))"
| "shm_init os (Some f) init_fn empties polls (Missing Already_there # tries) h =
     shm_init os (Some f) init_fn empties polls tries h"
| "shm_init os (Some f) init_fn empties polls (Missing Creat_error # tries) h = Some (- 1, h)"
| "shm_init os (Some f) init_fn empties polls (Open_error # tries) h = Some (- 1, h)"

section \<open>The rest of the interface\<close>

definition shm_child :: "heap \<Rightarrow> int \<times> heap" where
  "shm_child h =
     (0, h\<lparr>hp_local := (\<lambda>l. if l < NUMSMALL then (hp_local h l)\<lparr>lf_aux := 0, lf_free := 0\<rparr> else hp_local h l)\<rparr>)"

definition shm_global :: "heap \<Rightarrow> nat" where
  "shm_global h = hp_global h"

definition shm_set_global :: "nat \<Rightarrow> heap \<Rightarrow> heap" where
  "shm_set_global v h = h\<lparr>hp_global := v\<rparr>"

definition shm_destroy :: "heap \<Rightarrow> int \<times> heap" where
  "shm_destroy h = (0, do_munmap 0 h)"


section \<open>Properties\<close>

text \<open>
  The file is never shorter than the break, and what the process takes for mapped is in the file and is
  mapped.
\<close>

definition brk_inv :: "heap \<Rightarrow> bool" where
  "brk_inv h \<longleftrightarrow> 0 \<le> hp_brk h \<and> hp_brk h \<le> hp_eof h \<and> hp_localbrk h \<le> hp_eof h \<and> hp_localbrk h \<le> hp_mapped h"

text \<open>The fields that the functions for the break never touch.\<close>

definition brk_frame :: "heap \<Rightarrow> heap \<Rightarrow> bool" where
  "brk_frame h h' \<longleftrightarrow>
     h' = h\<lparr>hp_brk := hp_brk h', hp_eof := hp_eof h', hp_localbrk := hp_localbrk h', hp_mapped := hp_mapped h'\<rparr>"

lemma shm_brk_frame: "shm_brk os b h = (r, h') \<Longrightarrow> brk_frame h h'"
  by (auto simp: shm_brk_def do_mmap_def do_munmap_def brk_frame_def Let_def split: if_splits prod.splits)

lemma shm_sbrk_frame: "shm_sbrk os d h = (r, h') \<Longrightarrow> brk_frame h h'"
  by (auto simp: shm_sbrk_def Let_def split: prod.splits dest: shm_brk_frame)


definition good_os :: os where
  "good_os = \<lparr>os_ftruncate = (\<lambda>_. True), os_lseek = (\<lambda>_. True), os_write = True, os_mmap = (\<lambda>_ _. True)\<rparr>"

definition blank :: heap where
  "blank = \<lparr>ph_tab = (\<lambda>_. zero_page),
     ph_fp = \<lparr>fp_root = None, fp_mem = (\<lambda>_. \<lparr>fp_parent = Root, fp_bigger = None, fp_next = None, fp_size = 0\<rparr>)\<rparr>,
     ph_end = 0, hp_magic = [], hp_param = [], hp_base = 0, hp_freechunks = (\<lambda>_. 0), hp_init = 0, hp_brk = 0,
     hp_eof = 0, hp_global = 0, hp_locks = [], hp_mfile = [], hp_master = 0, hp_dir = (\<lambda>_. 0),
     hp_next = (\<lambda>_. 0), hp_data = (\<lambda>_. 0), hp_mfd = - 1, hp_localbrk = 0, hp_local = (\<lambda>_. empty_local), hp_mapped = 0\<rparr>"

text \<open>The state that the first call of \<open>shm_init\<close> leaves.\<close>

definition fresh :: heap where
  "fresh = snd (the (shm_init good_os (Some ''tshm_file'') None 0 0 [Missing Created] blank))"

lemma fresh_simps:
  "hp_brk fresh = 12288" "hp_eof fresh = 12288" "hp_localbrk fresh = 12288" "hp_mapped fresh = 12288"
  "ph_end fresh = 3" "hp_locks fresh = replicate (NUMSMALL + 1) 0" "hp_mfd fresh = 3" "hp_init fresh = 1"
  "hp_local fresh = (\<lambda>_. empty_local)" "hp_freechunks fresh = (\<lambda>_. 0)" "hp_next fresh = (\<lambda>_. 0)"
  by (simp_all add: fresh_def blank_def good_os_def shm_create_def shm_ready_def do_mmap_def do_ftruncate_def msetup_def
      lock_init_def Let_def PAGESIZE_def)

lemma fresh_brk_inv: "brk_inv fresh"
  by (simp add: brk_inv_def fresh_simps)



lemma msetup_layout: "layout (msetup h) Map.empty" "coalesced Map.empty"
proof -
  have "fp_stored (ph_fp (msetup h)) {}"
    unfolding fp_stored_def free_list_def by (rule exI [of _ "[]"]) (simp add: msetup_def deref.simps Let_def)
  moreover have "free_starts Map.empty = {}" by (simp add: free_starts_def)
  ultimately have "store_ok (ph_fp (msetup h)) Map.empty {}" by (simp add: store_ok_def)
  moreover have "ph_end (msetup h) = 3" by (simp add: msetup_def Let_def)
  moreover have "pg_code (ph_tab (msetup h) i) = BASE" if "i < 3" for i
  proof -
    have "i = 0 \<or> i = 1 \<or> i = 2" using that by auto
    then show ?thesis by (auto simp: msetup_def Let_def set_code_def)
  qed
  ultimately show "layout (msetup h) Map.empty"
    by (simp add: layout_def table_ok_def disjoint_extents_def inside_def) (simp add: code_defs)
  show "coalesced Map.empty" by (simp add: coalesced_def)
qed

lemma msetup_is_valid: "msetup_valid (msetup h)"
  by (simp add: msetup_valid_def msetup_def Let_def LOCKTYPE_def)

lemma read_wait_eq: "read_wait e w = (if e = 0 \<or> int e \<le> w + 1 then Some (w - int e) else None)"
  by (induction e arbitrary: w) auto

lemma init_wait_eq: "init_wait k w \<longleftrightarrow> k = 0 \<or> int k \<le> w"
  by (induction k arbitrary: w) auto

lemma shm_init_retry:
  "shm_init os (Some f) fn e p (replicate k (Missing Already_there) @ tries) h = shm_init os (Some f) fn e p tries h"
  by (induction k) simp_all

text \<open>
  (C33) Two processes share one pool. The first call of \<open>shm_init\<close>, which creates the file, leaves a
  consistent pool without extents. A later process, which may have lost the race for creating the file any
  number of times, attaches to whatever state the pool \<open>h\<close> is in by then, exactly when the file is no longer
  empty after six reads, the other process has set \<open>init\<close> in the rest of the five seconds, and the header is
  that of this version. It maps the whole file and changes nothing that is shared: it does not reset the locks
  and does not run \<open>init_fn\<close>. Otherwise it returns \<open>-1\<close>.
\<close>

theorem shm_init_attach:
  assumes "\<forall>a n. os_mmap os a n" "\<forall>n. os_ftruncate os n" "hp_mapped h0 = 0" "hp_mapped h = 0" "page_size \<le> hp_eof h"
    "hp_init h = 0 \<or> hp_init h = 1"
  shows "(\<exists>h1. shm_init os (Some f) None e p (replicate k (Missing Already_there) @ [Missing Created]) h0 = Some (0, h1) \<and>
       layout h1 Map.empty \<and> brk_inv h1 \<and> msetup_valid h1 \<and> hp_init h1 = 1 \<and> hp_mfile h1 = f) \<and>
    shm_init os (Some f) init_fn e p (replicate k (Missing Already_there) @ [Opened]) h =
      (if e \<le> 6 \<and> (p = 0 \<or> e + p \<le> 5) \<and> hp_init h = 1 \<and> msetup_valid h
       then Some (0, h\<lparr>hp_mfd := 3, hp_localbrk := hp_eof h, hp_mapped := hp_eof h\<rparr>) else Some (- 1, h))"
proof (intro conjI)
  have m: "hp_mfile (msetup h1) = []" "hp_mapped (msetup h1) = hp_mapped h1" "ph_end (msetup h1) = 3" for h1
    by (simp_all add: msetup_def Let_def)
  show "\<exists>h1. shm_init os (Some f) None e p (replicate k (Missing Already_there) @ [Missing Created]) h0 = Some (0, h1) \<and>
      layout h1 Map.empty \<and> brk_inv h1 \<and> msetup_valid h1 \<and> hp_init h1 = 1 \<and> hp_mfile h1 = f"
    unfolding shm_init_retry using assms(1-3) msetup_layout(1) [of "h0\<lparr>hp_mfd := 3, hp_mapped := 3 * page_size\<rparr>"]
      msetup_is_valid [of "h0\<lparr>hp_mfd := 3, hp_mapped := 3 * page_size\<rparr>"]
    by (simp add: shm_create_def do_ftruncate_def do_mmap_def m shm_ready_def Let_def layout_def brk_inv_def msetup_valid_def
        PAGESIZE_def)
  have v: "msetup_valid (h\<lparr>hp_mfd := x, hp_mapped := y\<rparr>) = msetup_valid h" for x y by (simp add: msetup_valid_def)
  have "read_wait e 5 = (if e \<le> 6 then Some (5 - int e) else None)" by (auto simp: read_wait_eq)
  moreover have "init_wait p (5 - int e) \<longleftrightarrow> p = 0 \<or> e + p \<le> 5" by (auto simp: init_wait_eq)
  ultimately show "shm_init os (Some f) init_fn e p (replicate k (Missing Already_there) @ [Opened]) h =
      (if e \<le> 6 \<and> (p = 0 \<or> e + p \<le> 5) \<and> hp_init h = 1 \<and> msetup_valid h
       then Some (0, h\<lparr>hp_mfd := 3, hp_localbrk := hp_eof h, hp_mapped := hp_eof h\<rparr>) else Some (- 1, h))"
    unfolding shm_init_retry using assms(1,4-6)
    by (auto simp: shm_attach_def do_mmap_def v shm_ready_def lock_init_def Let_def PAGESIZE_def split: option.splits)
qed


theorem shm_init_attach_witness:
  "shm_init good_os (Some ''tshm_file'') None 2 1 [Missing Already_there, Opened] (fresh\<lparr>hp_mapped := 0\<rparr>) =
     Some (0, fresh)"
proof -
  have "msetup_valid (fresh\<lparr>hp_mapped := 0\<rparr>)"
    by (simp add: msetup_valid_def fresh_def blank_def good_os_def shm_create_def shm_ready_def do_mmap_def do_ftruncate_def
        msetup_def Let_def LOCKTYPE_def PAGESIZE_def)
  moreover have "shm_init good_os (Some ''tshm_file'') None 2 1 (replicate 1 (Missing Already_there) @ [Opened])
      (fresh\<lparr>hp_mapped := 0\<rparr>) =
    (if (2 :: nat) \<le> 6 \<and> ((1 :: nat) = 0 \<or> (2 :: nat) + 1 \<le> 5) \<and> hp_init (fresh\<lparr>hp_mapped := 0\<rparr>) = 1 \<and>
       msetup_valid (fresh\<lparr>hp_mapped := 0\<rparr>)
     then Some (0, fresh\<lparr>hp_mapped := 0, hp_mfd := 3, hp_localbrk := hp_eof fresh, hp_mapped := hp_eof fresh\<rparr>)
     else Some (- 1, fresh\<lparr>hp_mapped := 0\<rparr>))"
    using shm_init_attach [of good_os blank "fresh\<lparr>hp_mapped := 0\<rparr>" "''tshm_file''" 2 1 1 None]
    by (simp add: good_os_def blank_def fresh_simps PAGESIZE_def)
  moreover have "fresh\<lparr>hp_mapped := 0, hp_mfd := 3, hp_localbrk := hp_eof fresh, hp_mapped := hp_eof fresh\<rparr> = fresh"
    by (rule heap.equality) (simp_all add: fresh_simps)
  ultimately show ?thesis by (simp add: fresh_simps)
qed

text \<open>
  The handler of \<open>SIGSEGV\<close> maps what other processes have added to the file. It does not look at the result
  of \<open>mmap\<close>: when that fails, the process believes that memory is mapped which is not.
\<close>

lemma shm_segv_maps:
  assumes "brk_inv h" "hp_localbrk h < hp_eof h" "os_mmap os (hp_localbrk h) (hp_eof h - hp_localbrk h)"
  shows "fst (shm_segv os h) \<and> brk_inv (snd (shm_segv os h)) \<and> hp_localbrk (snd (shm_segv os h)) = hp_eof h"
  using assms by (auto simp: shm_segv_def brk_inv_def do_mmap_def Let_def)

lemma shm_segv_trusts_mmap:
  assumes "hp_localbrk h < hp_eof h" "hp_mapped h < hp_eof h" "\<not> os_mmap os (hp_localbrk h) (hp_eof h - hp_localbrk h)"
  shows "fst (shm_segv os h) \<and> \<not> brk_inv (snd (shm_segv os h))"
  using assms by (auto simp: shm_segv_def brk_inv_def do_mmap_def Let_def)

end
