(* ===== verification/Heap.thy ===== *)
theory Heap
  imports Shm "HOL-Library.Monad_Syntax"
begin

text \<open>
  The allocator proper of \<open>src/c/malloc.c\<close>: \<open>valloc\<close> with \<open>expand_page_table\<close>, \<open>malloc_small\<close>,
  \<open>flush_to_global_freelist\<close>, \<open>free\<close>, \<open>malloc\<close>, \<open>mresize\<close>, \<open>msize\<close>, \<open>realloc\<close>, \<open>calloc\<close> and \<open>shm_fini\<close>, as one thread
  runs them. A pointer is an address relative to \<open>membase\<close>, with 0 for \<open>NULL\<close>. \<^const>\<open>None\<close> means that the call does
  not come back: an assertion fails, a loop does not end, or the thread waits for a lock it holds itself.
\<close>

section \<open>Locks\<close>

definition LOCK :: "nat \<Rightarrow> heap \<Rightarrow> heap option" where
  "LOCK q h = (if hp_locks h ! q \<noteq> 0 then None else Some (h\<lparr>hp_locks := (hp_locks h)[q := 1]\<rparr>))"

definition UNLOCK :: "nat \<Rightarrow> heap \<Rightarrow> heap" where
  "UNLOCK q h = h\<lparr>hp_locks := (hp_locks h)[q := 0]\<rparr>"

section \<open>Pages\<close>

text \<open>\<open>ADDR2PAGE\<close> and \<open>PAGEADDR\<close> on relative addresses, and the truncation to \<open>unsigned long\<close>.\<close>

definition page_of :: "nat \<Rightarrow> nat" where
  "page_of p = p div PAGESIZE"

definition page_addr :: "nat \<Rightarrow> nat" where
  "page_addr n = n * PAGESIZE"

definition to_ulong :: "int \<Rightarrow> nat" where
  "to_ulong x = nat (x mod 2 ^ 64)"

text \<open>
  \<open>expand_page_table\<close>. The variable \<open>oldmaster\<close> of the inner block hides the outer one, which stays 0,
  so the calls \<open>free_pages(oldmaster)\<close> are never made. \<open>per_master\<close> is \<open>PAGESIZE/sizeof(struct page *)\<close>. The result
  is \<^const>\<open>None\<close> for failure (0) in the first component.
\<close>

definition per_master :: nat where
  "per_master = PAGESIZE div 8"

text \<open>The block that makes a larger top-level table; the results are \<open>to\<close> and \<open>newmastersize\<close>.\<close>

definition grow_master :: "os \<Rightarrow> nat \<Rightarrow> nat \<Rightarrow> heap \<Rightarrow> ((nat \<times> nat) option \<times> heap) option" where
  "grow_master os old to h =
     (let oldsize = I1 old div per_master + 1; newsize = I1 to div per_master + 1
      in do {
        (m, h1) \<leftarrow> alloc_pages (int newsize) h;
        let (r, h2) = (case m of
              Some m \<Rightarrow> (Some (m, to, newsize), h1)
            | None \<Rightarrow>
                let to' = to + newsize; newsize' = I1 to' div per_master + 1;
                    (b, h2) = shm_sbrk os (int (newsize' * PAGESIZE)) h1
                in (case b of
                      None \<Rightarrow> (None, h2)
                    | Some a \<Rightarrow> let m = nat a div PAGESIZE
                                 in (Some (m, to', newsize'), h2\<lparr>ph_end := m + newsize'\<rparr>)));
        case r of
          None \<Rightarrow> Some (None, h2)
        | Some (m, to', newsize') \<Rightarrow>
            let h3 = h2\<lparr>hp_dir := (\<lambda>i. if i < oldsize * per_master then hp_dir h2 i
                                      else if i < newsize' * per_master then 0 else hp_dir h2 i),
                        hp_master := m\<rparr>
            in Some (Some (to', newsize'), setup_extent_descriptor (hp_master h2) (int oldsize) h3)
      })"

text \<open>
  The loop that adds pages of descriptors, \<open>n\<close> of them from entry \<open>i\<close> on. The result is \<open>added_pages\<close>, or
  nothing when \<open>sbrk\<close> fails; its result \<open>(void *)-1\<close> is in the table by then.
\<close>

definition clear_table :: "nat \<Rightarrow> heap \<Rightarrow> heap" where
  "clear_table i h = h\<lparr>ph_tab := (\<lambda>pn. if I1 pn = i then zero_page else ph_tab h pn)\<rparr>"

definition bad_table :: nat where
  "bad_table = to_ulong (- 1 - membase) div PAGESIZE"

fun add_tables :: "os \<Rightarrow> nat \<Rightarrow> nat \<Rightarrow> nat \<Rightarrow> heap \<Rightarrow> (nat option \<times> heap) option" where
  "add_tables os 0 i added h = Some (Some added, h)"
| "add_tables os (Suc n) i added h =
     (if hp_dir h i \<noteq> 0 then None
      else do {
        (p, h1) \<leftarrow> alloc_pages 1 h;
        case p of
          Some p \<Rightarrow>
            add_tables os n (i + 1) added
              (clear_table i (h1\<lparr>hp_dir := (hp_dir h1)(i := p), ph_tab := set_code p BASE (ph_tab h1)\<rparr>))
        | None \<Rightarrow>
            (case shm_sbrk os page_size h1 of
               (None, h2) \<Rightarrow> Some (None, h2\<lparr>hp_dir := (hp_dir h2)(i := bad_table)\<rparr>)
             | (Some a, h2) \<Rightarrow>
                 add_tables os n (i + 1) (added + 1)
                   (clear_table i (h2\<lparr>hp_dir := (hp_dir h2)(i := nat a div PAGESIZE)\<rparr>)))
      })"

text \<open>The loops that mark pages as \<open>BASE\<close>: those of the top-level table, and those that were added.\<close>

fun base_master :: "nat \<Rightarrow> heap \<Rightarrow> heap" where
  "base_master 0 h = h"
| "base_master (Suc n) h = base_master n (h\<lparr>ph_tab := set_code (hp_master h + n) BASE (ph_tab h)\<rparr>)"

fun base_added :: "nat \<Rightarrow> nat \<Rightarrow> heap \<Rightarrow> heap" where
  "base_added i 0 h = h"
| "base_added i (Suc n) h = base_added (i - 1) n (h\<lparr>ph_tab := set_code (hp_dir h i) BASE (ph_tab h)\<rparr>)"

partial_function (option) expand_page_table :: "os \<Rightarrow> nat \<Rightarrow> heap \<Rightarrow> (bool \<times> heap) option" where
  "expand_page_table os to h =
     (let old = ph_end h - 1
      in do {
        (r, h1) \<leftarrow> (if I1 to div per_master \<noteq> I1 old div per_master then grow_master os old to h
                    else Some (Some (to, 0), h));
        case r of
          None \<Rightarrow> Some (False, h1)
        | Some (to1, newsize) \<Rightarrow> do {
            (added, h2) \<leftarrow> add_tables os (I1 to1 - I1 old) (I1 old + 1) 0 h1;
            case added of
              None \<Rightarrow> Some (False, h2)
            | Some k \<Rightarrow>
                let h3 = base_master newsize (h2\<lparr>ph_end := to1 + 1\<rparr>)
                in if k = 0 then Some (True, h3)
                   else do {
                     (ok, h4) \<leftarrow> expand_page_table os (to1 + k) h3;
                     if ok then Some (True, base_added (I1 to1) k h4) else Some (False, h4)
                   }
          }
      })"

declare expand_page_table.simps [code]

section \<open>Extents\<close>

text \<open>\<open>valloc\<close>. A size is a \<open>size_t\<close>; the number of pages is cut to an \<open>int\<close> by \<open>alloc_pages\<close>, \<open>sbrk\<close> and \<open>setup_extent_descriptor\<close>.\<close>

definition valloc_pages :: "nat \<Rightarrow> nat" where
  "valloc_pages sz = ((sz + PAGESIZE - 1) mod 2 ^ 64) div PAGESIZE"

text \<open>The break is moved up to the next page; \<^const>\<open>None\<close> means that this failed.\<close>

definition align_brk :: "os \<Rightarrow> int \<Rightarrow> heap \<Rightarrow> int option \<times> heap" where
  "align_brk os new h =
     (if new mod page_size = 0 then (Some new, h)
      else case shm_sbrk os (page_size - new mod page_size) h of
             (None, h1) \<Rightarrow> (None, snd (shm_brk os new h1))
           | (Some _, h1) \<Rightarrow> (Some (new + (page_size - new mod page_size)), h1))"

definition valloc :: "os \<Rightarrow> nat \<Rightarrow> heap \<Rightarrow> (nat \<times> heap) option" where
  "valloc os sz h =
     (let n = valloc_pages sz
      in do {
        h0 \<leftarrow> LOCK NUMSMALL h;
        (p, h1) \<leftarrow> alloc_pages (int n) h0;
        case p of
          Some p \<Rightarrow> Some (page_addr p, UNLOCK NUMSMALL h1)
        | None \<Rightarrow>
            (case shm_sbrk os (int (n * PAGESIZE)) h1 of
               (None, h2) \<Rightarrow> Some (0, UNLOCK NUMSMALL h2)
             | (Some b, h2) \<Rightarrow>
                 (case align_brk os b h2 of
                    (None, h3) \<Rightarrow> Some (0, UNLOCK NUMSMALL h3)
                  | (Some new, h3) \<Rightarrow>
                      let pn = nat new div PAGESIZE
                      in if I1 (to_ulong (int pn + int n - 1)) \<noteq> I1 (ph_end h3 - 1) then do {
                           (ok, h4) \<leftarrow> expand_page_table os (to_unsigned (int pn + int n - 1)) h3;
                           if \<not> ok \<and> new > int (page_addr (ph_end h4))
                           then Some (0, UNLOCK NUMSMALL (snd (shm_brk os new h4)))
                           else Some (page_addr pn, UNLOCK NUMSMALL (setup_extent_descriptor pn (to_int (int n)) h4))
                         }
                         else Some (page_addr pn,
                           UNLOCK NUMSMALL (setup_extent_descriptor pn (to_int (int n)) (h3\<lparr>ph_end := pn + n\<rparr>)))))
      })"

text \<open>
  The part of \<open>free\<close> for extents: pages at the end of the pool go back to the operating system. The test calls
  \<open>sbrk(0)\<close>, which itself cuts the file to the break; \<open>fpage->size * PAGESIZE\<close> is an \<open>int\<close>.
\<close>

definition free_extent :: "os \<Rightarrow> nat \<Rightarrow> heap \<Rightarrow> heap option" where
  "free_extent os p h =
     (if pg_code (ph_tab h (page_of p)) \<noteq> BIG \<or> p mod PAGESIZE \<noteq> 0 then None
      else do {
        h0 \<leftarrow> LOCK NUMSMALL h;
        (f, h1) \<leftarrow> free_pages (page_of p) h0;
        let h2 =
          (if int (page_addr f) + to_int (size_of (ph_fp h1) f * page_size) = int (page_addr (ph_end h1)) then
             case shm_sbrk os 0 h1 of
               (None, h2) \<Rightarrow> h2
             | (Some b, h2) \<Rightarrow>
                 if b = int (page_addr (ph_end h2)) then
                   (snd (shm_sbrk os (int (page_addr f) - int (page_addr (ph_end h2)))
                      (h2\<lparr>ph_fp := fp_remove f (ph_fp h2)\<rparr>)))\<lparr>ph_end := f\<rparr>
                 else h2
           else h1);
        Some (UNLOCK NUMSMALL h2)
      })"

section \<open>Chunks\<close>

text \<open>Stores into the bit fields \<open>unsigned free:11\<close> and \<open>int count:12\<close> of \<open>struct page\<close> keep the low bits.\<close>

definition bits11 :: "int \<Rightarrow> nat" where
  "bits11 x = nat (x mod 2 ^ 11)"

definition bits12 :: "int \<Rightarrow> int" where
  "bits12 x = (x + 2 ^ 11) mod 2 ^ 12 - 2 ^ 11"

text \<open>A new page is cut into chunks; \<open>while (--j) { prev = new; new += SIZE(l); prev->next = new; }\<close>.\<close>

fun link_chunks :: "nat \<Rightarrow> nat \<Rightarrow> nat \<Rightarrow> (nat \<Rightarrow> nat) \<Rightarrow> (nat \<Rightarrow> nat)" where
  "link_chunks 0 new sz nx = nx(new := 0)"
| "link_chunks (Suc j) new sz nx = link_chunks j (new + sz) sz (nx(new := new + sz))"

definition cut_page :: "nat \<Rightarrow> nat \<Rightarrow> heap \<Rightarrow> heap" where
  "cut_page l new h =
     (let pn = page_of new
      in h\<lparr>ph_tab := (ph_tab h)(pn := (ph_tab h pn)\<lparr>pg_code := l, pg_count := bits12 (int (PERPAGE l)), pg_free := 0, pg_page := 0\<rparr>),
           hp_next := link_chunks (PERPAGE l - 1) new (SIZE l) (hp_next h),
           hp_freechunks := (hp_freechunks h)(l := pn)\<rparr>)"

text \<open>One chunk is taken from the first page that has free ones.\<close>

definition take_chunk :: "nat \<Rightarrow> heap \<Rightarrow> (nat \<times> heap) option" where
  "take_chunk l h =
     (let pn = hp_freechunks h l;
          new = page_addr pn + pg_free (ph_tab h pn) * SIZE l;
          p = (ph_tab h pn)\<lparr>pg_free := (if hp_next h new \<noteq> 0
                 then bits11 (int (to_ulong (int (hp_next h new) - int (page_addr pn)) div SIZE l)) else 0)\<rparr>
      in if hp_next h new = 0 \<and> pg_count p \<noteq> 1 then None
         else let p' = p\<lparr>pg_count := bits12 (pg_count p - 1)\<rparr>
              in if pg_count p' = 0 \<and> pg_free p' \<noteq> 0 then None
                 else Some (new, h\<lparr>ph_tab := (ph_tab h)(pn := p'),
                                   hp_freechunks := (if pg_count p' = 0 then (hp_freechunks h)(l := pg_page p')
                                                     else hp_freechunks h)\<rparr>))"

text \<open>
  The loop of \<open>malloc_small\<close> that collects \<open>i\<close> chunks in \<open>new_fl\<close>; the result is nothing when \<open>valloc\<close>
  returns 0, and then the chunks that were collected are lost.
\<close>

fun refill :: "os \<Rightarrow> nat \<Rightarrow> nat \<Rightarrow> nat \<Rightarrow> heap \<Rightarrow> (nat option \<times> heap) option" where
  "refill os l 0 new_fl h = Some (Some new_fl, h)"
| "refill os l (Suc i) new_fl h = do {
     (ok, h1) \<leftarrow> (if hp_freechunks h l \<noteq> 0 then Some (True, h)
                  else do {
                    (new, h1) \<leftarrow> valloc os PAGESIZE h;
                    Some (if new = 0 then (False, h1) else (True, cut_page l new h1))
                  });
     if \<not> ok then Some (None, h1)
     else do {
       (new, h2) \<leftarrow> take_chunk l h1;
       refill os l i new (h2\<lparr>hp_next := (hp_next h2)(new := new_fl)\<rparr>)
     }
   }"

definition to_ushort :: "int \<Rightarrow> nat" where
  "to_ushort x = nat (x mod 2 ^ 16)"

definition set_local :: "nat \<Rightarrow> localfree \<Rightarrow> heap \<Rightarrow> heap" where
  "set_local l f h = h\<lparr>hp_local := (hp_local h)(l := f)\<rparr>"

text \<open>The end of \<open>malloc_small\<close>: the first chunk of the thread's list.\<close>

definition pop_local :: "nat \<Rightarrow> heap \<Rightarrow> nat \<times> heap" where
  "pop_local l h =
     (let f = hp_local h l; new = lf_free f
      in (new, set_local l (f\<lparr>lf_free := hp_next h new, lf_count := to_ushort (int (lf_count f) - 1)\<rparr>) h))"


definition malloc_small :: "os \<Rightarrow> nat \<Rightarrow> heap \<Rightarrow> (nat \<times> heap) option" where
  "malloc_small os l h =
     (if l \<ge> NUMSMALL then None
      else let f = hp_local h l
           in if lf_free f \<noteq> 0 then Some (pop_local l h)
              else if lf_aux f \<noteq> 0 then
                Some (pop_local l (set_local l (f\<lparr>lf_free := lf_aux f, lf_aux := 0, lf_count := lf_target f\<rparr>) h))
              else do {
                let f1 = (if lf_target f = 0 then f\<lparr>lf_target := to_ushort (int (TARGET l))\<rparr> else f);
                h1 \<leftarrow> LOCK l (set_local l f1 h);
                (fl, h2) \<leftarrow> refill os l (lf_target f1) 0 h1;
                case fl of
                  None \<Rightarrow> Some (0, UNLOCK l h2)
                | Some fl \<Rightarrow>
                    Some (pop_local l (set_local l (f1\<lparr>lf_free := fl, lf_count := lf_target f1\<rparr>) (UNLOCK l h2)))
              })"

text \<open>\<open>flush_to_global_freelist\<close>: one chunk goes back to its page, then the loop over both lists.\<close>

definition give_chunk :: "nat \<Rightarrow> nat \<Rightarrow> heap \<Rightarrow> heap" where
  "give_chunk l cp h =
     (let pn = page_of cp; p = ph_tab h pn;
          nx = (if pg_count p \<noteq> 0 then page_addr pn + pg_free p * SIZE l else 0);
          p1 = p\<lparr>pg_free := bits11 (int ((cp - page_addr pn) div SIZE l))\<rparr>;
          p2 = (if pg_count p1 = 0 then p1\<lparr>pg_page := hp_freechunks h l\<rparr> else p1);
          n = bits12 (pg_count p2 + 1);
          p3 = p2\<lparr>pg_count := (if n \<ge> int (PERPAGE l) then - 1 else n)\<rparr>
      in h\<lparr>hp_next := (hp_next h)(cp := nx), ph_tab := (ph_tab h)(pn := p3),
           hp_freechunks := (if pg_count p1 = 0 then (hp_freechunks h)(l := pn) else hp_freechunks h)\<rparr>)"

partial_function (option) give_loop :: "nat \<Rightarrow> nat \<Rightarrow> nat \<Rightarrow> heap \<Rightarrow> heap option" where
  "give_loop l cp cp2 h =
     (if cp = 0 then Some h
      else let tmp = hp_next h cp; h' = give_chunk l cp h
           in if tmp = 0 then give_loop l cp2 0 h' else give_loop l tmp cp2 h')"

text \<open>The loop that frees the pages all of whose chunks are free; they are first in the sorted list.\<close>

partial_function (option) release_loop :: "os \<Rightarrow> nat \<Rightarrow> heap \<Rightarrow> heap option" where
  "release_loop os l h =
     (let pn = hp_freechunks h l; p = ph_tab h pn
      in if pn \<noteq> 0 \<and> pg_count p < 0 then do {
           h' \<leftarrow> free_extent os (page_addr pn)
                 (h\<lparr>hp_freechunks := (hp_freechunks h)(l := pg_page p),
                    ph_tab := (ph_tab h)(pn := p\<lparr>pg_code := BIG, pg_count := 0, pg_free := 0, pg_page := pn + 1\<rparr>)\<rparr>);
           release_loop os l h'
         }
         else Some h)"

definition flush_to_global_freelist :: "os \<Rightarrow> nat \<Rightarrow> nat \<Rightarrow> nat \<Rightarrow> heap \<Rightarrow> heap option" where
  "flush_to_global_freelist os l cp cp2 h = do {
     h0 \<leftarrow> LOCK l h;
     h1 \<leftarrow> (if cp = 0 then give_loop l cp2 0 h0 else give_loop l cp cp2 h0);
     (pn, m) \<leftarrow> page_list_sort (hp_freechunks h1 l) (ph_tab h1);
     h2 \<leftarrow> release_loop os l (h1\<lparr>ph_tab := m, hp_freechunks := (hp_freechunks h1)(l := pn)\<rparr>);
     Some (UNLOCK l h2)
   }"

definition free :: "os \<Rightarrow> nat \<Rightarrow> heap \<Rightarrow> heap option" where
  "free os old h =
     (if old = 0 then Some h
      else let l = pg_code (ph_tab h (page_of old))
           in if l < NUMSMALL then do {
                h1 \<leftarrow> (if lf_count (hp_local h l) = lf_target (hp_local h l) then do {
                        h1 \<leftarrow> (if lf_aux (hp_local h l) \<noteq> 0
                               then flush_to_global_freelist os l (lf_aux (hp_local h l)) 0
                                      (set_local l ((hp_local h l)\<lparr>lf_aux := 0\<rparr>) h)
                               else Some h);
                        Some (set_local l ((hp_local h1 l)\<lparr>lf_aux := lf_free (hp_local h1 l), lf_free := 0, lf_count := 0\<rparr>) h1)
                      } else Some h);
                let f = hp_local h1 l;
                Some (set_local l (f\<lparr>lf_count := to_ushort (int (lf_count f) + 1), lf_free := old\<rparr>)
                        (h1\<lparr>hp_next := (hp_next h1)(old := lf_free f)\<rparr>))
              }
              else free_extent os old h)"

declare give_loop.simps [code] release_loop.simps [code]

section \<open>The public functions\<close>

definition malloc :: "os \<Rightarrow> nat \<Rightarrow> heap \<Rightarrow> (nat \<times> heap) option" where
  "malloc os sz h =
     (let sc = SMLIST (ucast (of_nat sz :: u64))
      in if sc \<ge> 0 then malloc_small os (nat sc) h else valloc os sz h)"

definition msize :: "nat \<Rightarrow> heap \<Rightarrow> nat option" where
  "msize p h =
     (let pg = ph_tab h (page_of p)
      in if pg_code pg < NUMSMALL then (if p mod SIZE (pg_code pg) \<noteq> 0 then None else Some (SIZE (pg_code pg)))
         else if (pg_code pg \<noteq> BIG \<and> pg_code pg \<noteq> BIG + FREE) \<or> p mod PAGESIZE \<noteq> 0 then None
         else Some (to_ulong ((int (pg_page pg) - int (page_of p)) * page_size)))"


text \<open>
  \<open>mresize\<close>, first the two blocks for extents: taking pages of the free extent behind, and giving
  pages back. The comparisons are made in \<open>unsigned long\<close>.
\<close>

fun fill_pages :: "nat \<Rightarrow> nat \<Rightarrow> nat \<Rightarrow> ptab \<Rightarrow> ptab" where
  "fill_pages i 0 v m = m"
| "fill_pages i (Suc k) v m = fill_pages (i + 1) k v (set_page i v m)"

definition extent_len :: "nat \<Rightarrow> heap \<Rightarrow> nat" where
  "extent_len p h = to_ulong (int (pg_page (ph_tab h p)) - int p)"

definition grow_extent :: "nat \<Rightarrow> nat \<Rightarrow> heap \<Rightarrow> (bool \<times> heap) option" where
  "grow_extent p n h = do {
     h0 \<leftarrow> LOCK NUMSMALL h;
     let e = pg_page (ph_tab h0 p);
     let tpg = ph_tab h0 e;
     if e = ph_end h0 \<or> pg_code tpg \<noteq> BIG + FREE \<or> to_ulong (int (pg_page tpg) - int p) < n
     then Some (False, UNLOCK NUMSMALL h0)
     else let t = pg_page tpg;
              m = set_page p t (set_code e MIDDLE (ph_tab h0))
          in Some (True, UNLOCK NUMSMALL
               (h0\<lparr>ph_fp := fp_remove e (ph_fp h0), ph_tab := fill_pages e (t - e) p m\<rparr>))
   }"

definition shrink_extent :: "os \<Rightarrow> nat \<Rightarrow> nat \<Rightarrow> heap \<Rightarrow> heap option" where
  "shrink_extent os p n h = do {
     h0 \<leftarrow> LOCK NUMSMALL h;
     let t = to_unsigned (int p + int n);
     let e = pg_page (ph_tab h0 p);
     let m = set_page t e (set_code t BIG (ph_tab h0));
     let m' = set_page p t (back_loop t t (e - 1 - t) m);
     free_extent os (page_addr t) (UNLOCK NUMSMALL (h0\<lparr>ph_tab := m'\<rparr>))
   }"

definition mresize :: "os \<Rightarrow> nat \<Rightarrow> nat \<Rightarrow> heap \<Rightarrow> (bool \<times> heap) option" where
  "mresize os old sz h =
     (if old = 0 then Some (False, h)
      else let p = page_of old; code = pg_code (ph_tab h p); nl = SMLIST (ucast (of_nat sz :: u64))
           in if int code = nl then Some (True, h)
              else if code = BIG \<and> nl = - 1 then
                let n = to_ulong (to_int (int (valloc_pages sz)))
                in do {
                  (ok, h1) \<leftarrow> (if n > extent_len p h then grow_extent p n h else Some (True, h));
                  if \<not> ok then Some (False, h1)
                  else do {
                    h2 \<leftarrow> (if n < extent_len p h1 then shrink_extent os p (valloc_pages sz) h1 else Some h1);
                    if n = extent_len p h2 then Some (True, h2) else None
                  }
                }
              else Some (False, h))"

definition copy_data :: "nat \<Rightarrow> nat \<Rightarrow> nat \<Rightarrow> heap \<Rightarrow> heap" where
  "copy_data new old n h =
     h\<lparr>hp_data := (\<lambda>a. if new \<le> a \<and> a < new + n then hp_data h (old + (a - new)) else hp_data h a)\<rparr>"

definition realloc :: "os \<Rightarrow> nat \<Rightarrow> nat \<Rightarrow> heap \<Rightarrow> (nat \<times> heap) option" where
  "realloc os old sz h =
     (if sz = 0 then do { h' \<leftarrow> free os old h; Some (0, h') }
      else if old = 0 then malloc os sz h
      else do {
        (ok, h1) \<leftarrow> mresize os old sz h;
        if ok then Some (old, h1)
        else do {
          osize \<leftarrow> msize old h1;
          (new, h2) \<leftarrow> malloc os sz h1;
          if new = 0 then Some (0, h2)
          else do {
            h3 \<leftarrow> free os old (copy_data new old (min sz osize) h2);
            Some (new, h3)
          }
        }
      })"

definition calloc :: "os \<Rightarrow> nat \<Rightarrow> nat \<Rightarrow> heap \<Rightarrow> (nat \<times> heap) option" where
  "calloc os n1 n2 h =
     (let sz = (n1 * n2) mod 2 ^ 64
      in do {
        (new, h1) \<leftarrow> malloc os sz h;
        Some (new, if new = 0 then h1
                   else h1\<lparr>hp_data := (\<lambda>a. if new \<le> a \<and> a < new + sz then 0 else hp_data h1 a)\<rparr>)
      })"

text \<open>\<open>shm_fini\<close>: the loop from class \<open>l\<close> on.\<close>

fun fini_loop :: "os \<Rightarrow> nat \<Rightarrow> nat \<Rightarrow> heap \<Rightarrow> heap option" where
  "fini_loop os 0 l h = Some h"
| "fini_loop os (Suc n) l h = do {
     h1 \<leftarrow> (if lf_aux (hp_local h l) \<noteq> 0 \<or> lf_free (hp_local h l) \<noteq> 0
            then flush_to_global_freelist os l (lf_free (hp_local h l)) (lf_aux (hp_local h l)) h
            else Some h);
     fini_loop os n (l + 1) (set_local l ((hp_local h1 l)\<lparr>lf_aux := 0, lf_free := 0, lf_count := 0\<rparr>) h1)
   }"

definition shm_fini :: "os \<Rightarrow> heap \<Rightarrow> (int \<times> heap) option" where
  "shm_fini os h = do { h' \<leftarrow> fini_loop os NUMSMALL 0 h; Some (0, h') }"

end
