(* ===== verification/Heap_Frame.thy ===== *)
theory Heap_Frame
  imports Heap
begin

text \<open>
  What no function of the allocator changes: the contents of blocks, and the locks once it has
  returned. The proofs follow the call graph of \<open>src/c/malloc.c\<close>.
\<close>

section \<open>Frames\<close>

definition kept :: "heap \<Rightarrow> (nat \<Rightarrow> 8 word) \<times> TAS_t list" where
  "kept h = (hp_data h, hp_locks h)"

named_theorems frame_rules \<open>the functions keep contents and locks\<close>

lemma kept_upd [simp]:
  "kept (h\<lparr>ph_tab := a\<rparr>) = kept h" "kept (h\<lparr>ph_fp := b\<rparr>) = kept h" "kept (h\<lparr>ph_end := c\<rparr>) = kept h"
  "kept (h\<lparr>hp_freechunks := d\<rparr>) = kept h" "kept (h\<lparr>hp_dir := e\<rparr>) = kept h" "kept (h\<lparr>hp_master := f\<rparr>) = kept h"
  "kept (h\<lparr>hp_next := g\<rparr>) = kept h" "kept (h\<lparr>hp_local := i\<rparr>) = kept h" "kept (set_local l x h) = kept h"
  "kept (clear_table j h) = kept h" "kept (setup_extent_descriptor p n h) = kept h"
  by (simp_all add: kept_def set_local_def clear_table_def setup_extent_descriptor_def)

text \<open>A section between \<open>LOCK\<close> and \<open>UNLOCK\<close>.\<close>

lemma kept_locked:
  assumes "LOCK q h = Some h0" "kept h1 = kept h0"
  shows "kept (UNLOCK q h1) = kept h"
proof -
  have "hp_locks h0 = (hp_locks h)[q := 1]" "hp_locks h ! q = 0" "hp_data h0 = hp_data h"
    using assms(1) by (auto simp: LOCK_def split: if_splits)
  moreover have "(hp_locks h)[q := 0] = hp_locks h" using calculation(2) by (metis list_update_id)
  ultimately show ?thesis using assms(2) by (simp add: kept_def UNLOCK_def)
qed

lemma kept_alloc_pages [frame_rules]: "alloc_pages n h = Some (r, h') \<Longrightarrow> kept h' = kept h"
  by (auto simp: alloc_pages_def Let_def split: option.splits if_splits bind_splits)

lemma kept_merge [frame_rules]:
  "merge_below p h = Some (q, h') \<Longrightarrow> kept h' = kept h" "merge_above q h = Some h' \<Longrightarrow> kept h' = kept h"
  by (auto simp: merge_below_def merge_above_def Let_def split: if_splits bind_splits)

lemma kept_free_pages [frame_rules]: "free_pages p h = Some (q, h') \<Longrightarrow> kept h' = kept h"
  by (auto simp: free_pages_def split: if_splits bind_splits dest!: frame_rules)

lemma kept_brk [frame_rules]:
  "shm_brk os b h = (i, h') \<Longrightarrow> kept h' = kept h" "shm_sbrk os d h = (r, h') \<Longrightarrow> kept h' = kept h"
proof -
  have "kept h' = kept h" if "brk_frame h h'" for h h'
    using arg_cong [OF that [unfolded brk_frame_def], of kept] by (simp add: kept_def)
  then show "shm_brk os b h = (i, h') \<Longrightarrow> kept h' = kept h" "shm_sbrk os d h = (r, h') \<Longrightarrow> kept h' = kept h"
    by (blast intro: shm_brk_frame shm_sbrk_frame)+
qed

lemma kept_snd_brk [simp]: "kept (snd (shm_brk os b h)) = kept h" "kept (snd (shm_sbrk os d h)) = kept h"
  by (metis frame_rules prod.collapse)+

lemma kept_grow_master [frame_rules]: "grow_master os old to h = Some (r, h') \<Longrightarrow> kept h' = kept h"
  by (auto simp: grow_master_def Let_def split: option.splits prod.splits bind_splits dest!: frame_rules)

lemma kept_add_tables [frame_rules]: "add_tables os n i k h = Some (r, h') \<Longrightarrow> kept h' = kept h"
  by (induction os n i k h arbitrary: r h' rule: add_tables.induct)
    (auto split: option.splits prod.splits bind_splits if_splits dest!: frame_rules)

lemma kept_base [simp]: "kept (base_master n h) = kept h" "kept (base_added i n h) = kept h"
  by (induction n arbitrary: h i) simp_all

lemma kept_expand_snd:
  assumes "expand_page_table os to h = Some y"
  shows "kept (snd y) = kept h"
proof (rule expand_page_table.raw_induct [of "\<lambda>os to h y. kept (snd y) = kept h", OF _ assms], goal_cases)
  case (1 f os to h y)
  show ?case using 1(2)
    by (auto simp: Let_def split: option.splits prod.splits bind_splits if_splits dest!: 1(1) frame_rules)
qed

lemma kept_expand [frame_rules]: "expand_page_table os to h = Some (r, h') \<Longrightarrow> kept h' = kept h"
  using kept_expand_snd by fastforce

lemma kept_align_brk [frame_rules]: "align_brk os b h = (r, h') \<Longrightarrow> kept h' = kept h"
  by (auto simp: align_brk_def split: prod.splits option.splits if_splits dest!: frame_rules)

text \<open>\<open>valloc\<close>, up to the release of the lock.\<close>

lemma kept_valloc [frame_rules]: "valloc os sz h = Some (r, h') \<Longrightarrow> kept h' = kept h"
  by (auto simp: valloc_def Let_def split: option.splits prod.splits bind_splits if_splits
      intro!: kept_locked dest!: frame_rules)

lemma kept_free_extent [frame_rules]: "free_extent os p h = Some h' \<Longrightarrow> kept h' = kept h"
  by (auto simp: free_extent_def Let_def split: option.splits prod.splits bind_splits if_splits
      intro!: kept_locked dest!: frame_rules)

lemma kept_cut_take [frame_rules]:
  "take_chunk l h = Some (r, h') \<Longrightarrow> kept h' = kept h" and kept_cut_page [simp]: "kept (cut_page l new h) = kept h"
  by (auto simp: take_chunk_def cut_page_def Let_def split: if_splits)

lemma kept_refill [frame_rules]: "refill os l n fl h = Some (r, h') \<Longrightarrow> kept h' = kept h"
  by (induction os l n fl h arbitrary: r h' rule: refill.induct)
    (auto split: option.splits prod.splits bind_splits if_splits dest!: frame_rules)

lemma kept_pop_local [simp]: "kept (snd (pop_local l h)) = kept h"
  by (simp add: pop_local_def Let_def)

lemma kept_popped [frame_rules]: "pop_local l h = (r, h') \<Longrightarrow> kept h' = kept h"
  by (metis kept_pop_local snd_conv)

lemma kept_malloc_small [frame_rules]:
  assumes "malloc_small os l h = Some (r, h')"
  shows "kept h' = kept h"
proof -
  let ?f = "hp_local h l"
  have l: "l < NUMSMALL" using assms by (auto simp: malloc_small_def split: if_splits)
  consider "lf_free ?f \<noteq> 0" | "lf_free ?f = 0" "lf_aux ?f \<noteq> 0" | "lf_free ?f = 0" "lf_aux ?f = 0" by blast
  then show ?thesis
  proof cases
    case 3
    define f1 where "f1 = (if lf_target ?f = 0 then ?f\<lparr>lf_target := to_ushort (int (TARGET l))\<rparr> else ?f)"
    obtain h1 fl h2 where run: "LOCK l (set_local l f1 h) = Some h1" "refill os l (lf_target f1) 0 h1 = Some (fl, h2)"
      "(case fl of None \<Rightarrow> (0, UNLOCK l h2)
        | Some fl \<Rightarrow> pop_local l (set_local l (f1\<lparr>lf_free := fl, lf_count := lf_target f1\<rparr>) (UNLOCK l h2))) = (r, h')"
      using assms l 3 by (auto simp: malloc_small_def f1_def [symmetric] Let_def split: bind_splits option.splits)
    have "kept (UNLOCK l h2) = kept (set_local l f1 h)"
      by (rule kept_locked [OF run(1)]) (rule kept_refill [OF run(2)])
    then show ?thesis using run(3) by (auto split: option.splits dest!: kept_popped)
  qed (use assms l in \<open>auto simp: malloc_small_def Let_def dest!: kept_popped\<close>)
qed

lemma kept_give [simp]: "kept (give_chunk l cp h) = kept h"
  by (simp add: give_chunk_def Let_def)

lemma kept_give_loop [frame_rules]:
  assumes "give_loop l cp cp2 h = Some h'"
  shows "kept h' = kept h"
proof (rule give_loop.raw_induct [of "\<lambda>l cp cp2 h h'. kept h' = kept h", OF _ assms], goal_cases)
  case (1 f l cp cp2 h y)
  show ?case using 1(2) by (auto simp: Let_def split: if_splits dest!: 1(1))
qed

lemma kept_release_loop [frame_rules]:
  assumes "release_loop os l h = Some h'"
  shows "kept h' = kept h"
proof (rule release_loop.raw_induct [of "\<lambda>os l h h'. kept h' = kept h", OF _ assms], goal_cases)
  case (1 f os l h y)
  show ?case using 1(2) by (auto simp: Let_def split: if_splits bind_splits dest!: 1(1) frame_rules)
qed

lemma kept_flush [frame_rules]: "flush_to_global_freelist os l cp cp2 h = Some h' \<Longrightarrow> kept h' = kept h"
  by (auto simp: flush_to_global_freelist_def split: if_splits prod.splits bind_splits intro!: kept_locked dest!: frame_rules)

lemma kept_free [frame_rules]: "free os p h = Some h' \<Longrightarrow> kept h' = kept h"
  by (auto simp: free_def Let_def split: if_splits bind_splits dest!: frame_rules)

lemma kept_malloc [frame_rules]: "malloc os sz h = Some (r, h') \<Longrightarrow> kept h' = kept h"
  by (auto simp: malloc_def Let_def split: if_splits dest!: frame_rules)

lemma kept_resize [frame_rules]:
  "grow_extent p n h = Some (b, h') \<Longrightarrow> kept h' = kept h" "shrink_extent os p n h = Some h' \<Longrightarrow> kept h' = kept h"
  "mresize os p sz h = Some (b, h') \<Longrightarrow> kept h' = kept h"
proof -
  show grow: "grow_extent p n h = Some (b, h') \<Longrightarrow> kept h' = kept h" for p n h b h'
    by (auto simp: grow_extent_def Let_def split: bind_splits if_splits intro!: kept_locked)
  show shrink: "shrink_extent os p n h = Some h' \<Longrightarrow> kept h' = kept h" for os p n h h'
    by (auto simp: shrink_extent_def Let_def split: bind_splits dest!: frame_rules intro!: kept_locked)
  show "mresize os p sz h = Some (b, h') \<Longrightarrow> kept h' = kept h"
    by (auto simp: mresize_def Let_def split: bind_splits if_splits dest!: grow shrink)
qed


lemma kept_fini [frame_rules]: "fini_loop os n l h = Some h' \<Longrightarrow> kept h' = kept h"
  by (induction os n l h rule: fini_loop.induct) (auto split: bind_splits if_splits dest!: frame_rules)

end
