(* ===== verification/Heap_Props.thy ===== *)
theory Heap_Props
  imports Heap_Frame
begin

text \<open>
  The allocator of extents on a consistent pool: \<open>valloc\<close> when it has to grow the pool, \<open>free\<close> when it
  gives pages back, and what \<open>malloc(0)\<close> returns. The theorems are for one process that has mapped the whole
  pool, a pool below 2 GB (the functions compute sizes in \<open>int\<close>), and requests that do not need a new page of descriptors.
\<close>

section \<open>The pool of a process\<close>

definition pool_ok :: "heap \<Rightarrow> extents \<Rightarrow> bool" where
  "pool_ok h E \<longleftrightarrow> layout h E \<and> brk_inv h \<and> hp_brk h = int (page_addr (ph_end h)) \<and> hp_brk h \<le> hp_localbrk h \<and>
     3 \<le> ph_end h \<and> page_addr (ph_end h) < 2 ^ 31 \<and> (\<forall>p n f. E p = Some (n, f) \<longrightarrow> 3 \<le> p) \<and>
     length (hp_locks h) = NUMSMALL + 1 \<and> hp_locks h ! NUMSMALL = 0 \<and> 0 \<le> hp_mfd h"

text \<open>An operating system whose calls succeed.\<close>

definition os_ok :: "os \<Rightarrow> bool" where
  "os_ok os \<longleftrightarrow> (\<forall>n. os_ftruncate os n) \<and> (\<forall>n. os_lseek os n) \<and> os_write os \<and> (\<forall>a n. os_mmap os a n)"

lemma to_int_signed: "- (2 ^ 31) \<le> x \<Longrightarrow> x < 2 ^ 31 \<Longrightarrow> to_int x = x"
  unfolding to_int_def Let_def by (cases "0 \<le> x") (simp_all add: zmod_trivial_iff, smt (verit) mod_pos_pos_trivial zmod_minus1 mod_add_self2)

lemma shm_brk_ok:
  assumes "os_ok os" "brk_inv h" "0 \<le> b" "0 \<le> hp_mfd h" "b \<le> hp_brk h \<longrightarrow> b \<le> hp_localbrk h"
  shows "\<exists>h'. shm_brk os b h = (0, h') \<and> brk_inv h' \<and> hp_brk h' = b \<and> b \<le> hp_localbrk h' \<and> brk_frame h h'"
proof -
  obtain r h' where r: "shm_brk os b h = (r, h')" by (cases "shm_brk os b h")
  have "r = 0"
  proof (cases "b \<le> hp_brk h")
    case True
    then show ?thesis using r assms by (auto simp: shm_brk_def os_ok_def do_ftruncate_def Let_def split: if_splits)
  next
    case False
    then show ?thesis using r assms(1,3,4)
      by (cases "b \<le> hp_eof h")
        (auto simp: shm_brk_def os_ok_def do_ftruncate_def do_mmap_def Let_def max_def split: if_splits)
  qed
  then show ?thesis
    using shm_brk_frame [OF r] r assms
    by (cases "b \<le> hp_brk h"; cases "b \<le> hp_eof h")
      (auto simp: shm_brk_def brk_inv_def do_munmap_def do_mmap_def Let_def max_def split: if_splits)
qed


lemma shm_sbrk_ok:
  assumes "os_ok os" "brk_inv h" "0 \<le> hp_brk h + d" "- (2 ^ 31) \<le> d" "d < 2 ^ 31" "0 \<le> hp_mfd h" "hp_brk h \<le> hp_localbrk h"
  shows "\<exists>h'. shm_sbrk os d h = (Some (hp_brk h), h') \<and> brk_inv h' \<and> hp_brk h' = hp_brk h + d \<and>
    hp_brk h' \<le> hp_localbrk h' \<and> brk_frame h h'"
proof -
  obtain h' where "shm_brk os (hp_brk h + d) h = (0, h')" "brk_inv h'" "hp_brk h' = hp_brk h + d"
    "hp_brk h + d \<le> hp_localbrk h'" "brk_frame h h'"
    using shm_brk_ok [OF assms(1,2,3,6)] assms(7) by auto
  then show ?thesis using assms(4,5) by (simp add: shm_sbrk_def to_int_signed)
qed

lemma brk_frame_fields:
  assumes "brk_frame h h'"
  shows "ph_tab h' = ph_tab h" "ph_fp h' = ph_fp h" "ph_end h' = ph_end h" "hp_locks h' = hp_locks h"
    "hp_mfd h' = hp_mfd h" "layout h' E = layout h E"
proof -
  note eq = assms [unfolded brk_frame_def]
  show f: "ph_tab h' = ph_tab h" "ph_fp h' = ph_fp h" "ph_end h' = ph_end h"
    using arg_cong [OF eq, of ph_tab] arg_cong [OF eq, of ph_fp] arg_cong [OF eq, of ph_end] by simp_all
  show "hp_locks h' = hp_locks h" "hp_mfd h' = hp_mfd h"
    using arg_cong [OF eq, of hp_locks] arg_cong [OF eq, of hp_mfd] by simp_all
  show "layout h' E = layout h E" by (simp add: layout_def f)
qed

lemma brk_frame_unlock: "brk_frame (h\<lparr>hp_locks := x\<rparr>) h' \<Longrightarrow> brk_frame h (h'\<lparr>hp_locks := hp_locks h\<rparr>)"
  by (cases h; cases h') (simp add: brk_frame_def)

lemma layout_cong: "ph_tab h' = ph_tab h \<Longrightarrow> ph_fp h' = ph_fp h \<Longrightarrow> ph_end h' = ph_end h \<Longrightarrow> layout h' E = layout h E"
  by (simp add: layout_def)

lemma alloc_pages_fails:
  assumes "layout h E" "0 \<le> n" "n < 2 ^ 31" "\<forall>x k. E x = Some (k, True) \<longrightarrow> int k < n"
  shows "alloc_pages n h = Some (None, h)"
proof -
  have st: "store_ok (ph_fp h) E {}" using assms(1) by (simp add: layout_def)
  have "fp_find n (ph_fp h) = Some (None, ph_fp h)"
    by (rule fp.find_fails [of _ "free_starts E"]) (use st assms(4) in \<open>auto simp: store_ok_def free_starts_iff\<close>)
  then show ?thesis using assms(2,3) by (simp add: alloc_pages_def to_int_small)
qed

text \<open>\<open>valloc\<close> where no free extent fits: the break moves, and the new pages get their descriptors.\<close>

lemma valloc_grow_run:
  assumes ok: "pool_ok h E" and os: "os_ok os" and n: "n = valloc_pages sz"
    and none: "\<forall>x k. E x = Some (k, True) \<longrightarrow> k < n"
    and small: "page_addr (ph_end h + n) < 2 ^ 31" and same: "I1 (ph_end h + n - 1) = I1 (ph_end h - 1)"
  shows "\<exists>h1 h'. valloc os sz h = Some (page_addr (ph_end h), h') \<and> brk_frame h h1 \<and> brk_inv h1 \<and>
    hp_brk h1 = int (page_addr (ph_end h + n)) \<and> hp_brk h1 \<le> hp_localbrk h1 \<and>
    h' = (setup_extent_descriptor (ph_end h) (int n) (h1\<lparr>ph_end := ph_end h + n\<rparr>))"
proof -
  let ?e = "ph_end h"
  have lay: "layout h E" and b: "brk_inv h" "hp_brk h = int (page_addr ?e)" "hp_brk h \<le> hp_localbrk h" "3 \<le> ?e" "0 \<le> hp_mfd h"
    and lk: "length (hp_locks h) = NUMSMALL + 1" "hp_locks h ! NUMSMALL = 0" using ok by (auto simp: pool_ok_def)
  define h0 where "h0 = h\<lparr>hp_locks := (hp_locks h)[NUMSMALL := 1]\<rparr>"
  have L: "LOCK NUMSMALL h = Some h0" using lk by (simp add: LOCK_def h0_def)
  have nb: "n * PAGESIZE < 2 ^ 31" "?e * PAGESIZE < 2 ^ 31" "?e * PAGESIZE + n * PAGESIZE < 2 ^ 31"
    using small by (auto simp: page_addr_def algebra_simps)
  then have nn: "n < 2 ^ 31" "?e + n < 2 ^ 31" by (auto simp: PAGESIZE_def)
  have h0: "brk_inv h0" "0 \<le> hp_mfd h0" "hp_brk h0 \<le> hp_localbrk h0" "0 \<le> hp_brk h0"
    using b by (simp_all add: h0_def brk_inv_def)
  have up: "int (n * PAGESIZE) < 2 ^ 31" using nb(1) by (metis of_nat_less_iff of_nat_numeral of_nat_power)
  have low: "- (2 ^ 31) \<le> int (n * PAGESIZE)" by (rule order_trans [of _ 0]) simp_all
  have "alloc_pages (int n) h0 = Some (None, h0)"
    by (rule alloc_pages_fails [of _ E]) (use lay none nn in \<open>auto simp: h0_def layout_def\<close>)
  moreover obtain h2 where h2: "shm_sbrk os (int (n * PAGESIZE)) h0 = (Some (hp_brk h0), h2)" "brk_inv h2"
    "hp_brk h2 = hp_brk h0 + int (n * PAGESIZE)" "hp_brk h2 \<le> hp_localbrk h2" "brk_frame h0 h2"
    using shm_sbrk_ok [OF os h0(1) _ low up h0(2,3)] h0(4) by auto
  moreover have "align_brk os (hp_brk h0) h2 = (Some (hp_brk h0), h2)"
    using b(2) by (simp add: align_brk_def h0_def page_addr_def)
  moreover have "nat (hp_brk h0) div PAGESIZE = ?e" using b(2) by (simp add: h0_def page_addr_def PAGESIZE_def)
  moreover have "to_ulong (int ?e + int n - 1) = ?e + n - 1" "to_int (int n) = int n" "ph_end h2 = ?e"
    using nn b(4) brk_frame_fields(3) [OF h2(5)] by (auto simp: to_ulong_def to_int_small h0_def nat_diff_distrib nat_add_distrib)
  ultimately have "valloc os sz h = Some (page_addr ?e,
      UNLOCK NUMSMALL (setup_extent_descriptor ?e (int n) (h2\<lparr>ph_end := ?e + n\<rparr>)))"
    using L same n by (simp add: valloc_def Let_def)
  moreover define h1 where "h1 = h2\<lparr>hp_locks := hp_locks h\<rparr>"
  have "hp_locks h2 = (hp_locks h)[NUMSMALL := 1]" using brk_frame_fields(4) [OF h2(5)] by (simp add: h0_def)
  then have "UNLOCK NUMSMALL (setup_extent_descriptor ?e (int n) (h2\<lparr>ph_end := ?e + n\<rparr>)) =
      setup_extent_descriptor ?e (int n) (h1\<lparr>ph_end := ?e + n\<rparr>)"
    using lk list_update_id [of "hp_locks h" NUMSMALL] by (simp add: UNLOCK_def h1_def setup_extent_descriptor_def)
  moreover have "brk_frame h h1"
    using h2(5) unfolding h1_def h0_def by (rule brk_frame_unlock)
  moreover have "brk_inv h1" "hp_brk h1 = int (page_addr (?e + n))" "hp_brk h1 \<le> hp_localbrk h1"
    using h2 b(2) by (simp_all add: h1_def brk_inv_def h0_def page_addr_def algebra_simps)
  ultimately show ?thesis by auto
qed


lemma extent_addr: "page_of (page_addr p) = p" "page_addr p mod PAGESIZE = 0" "page_addr p = 0 \<longleftrightarrow> p = 0"
  by (simp_all add: page_of_def page_addr_def PAGESIZE_def)

lemma msize_extent:
  assumes "extent_ok (ph_tab h) p n f" "(p + n) * PAGESIZE < 2 ^ 31"
  shows "msize (page_addr p) h = Some (n * PAGESIZE)"
proof -
  have "int (pg_page (ph_tab h p)) - int p = int n" "\<not> pg_code (ph_tab h p) < NUMSMALL"
    "pg_code (ph_tab h p) = BIG \<or> pg_code (ph_tab h p) = BIG + FREE"
    using assms(1) by (auto simp: extent_ok_def code_defs NUMSMALL_def)
  moreover have "to_ulong (int n * page_size) = n * PAGESIZE"
    using assms(2) by (simp add: to_ulong_def PAGESIZE_def nat_mult_distrib)
  ultimately show ?thesis by (auto simp: msize_def extent_addr Let_def)
qed

lemma pool_ok_grown:
  assumes ok: "pool_ok h E" and n: "0 < n" "page_addr (ph_end h + n) < 2 ^ 31"
    and h1: "brk_frame h h1" "brk_inv h1" "hp_brk h1 = int (page_addr (ph_end h + n))" "hp_brk h1 \<le> hp_localbrk h1"
    and h': "h' = setup_extent_descriptor (ph_end h) (int n) (h1\<lparr>ph_end := ph_end h + n\<rparr>)"
  shows "pool_ok h' (E(ph_end h := Some (n, False)))"
proof -
  have "page_addr (ph_end h + n) = (ph_end h + n) * PAGESIZE" by (simp add: page_addr_def)
  then have lt: "ph_end h + n < 2 ^ 31" using n(2) by (simp add: PAGESIZE_def)
  have lay: "layout h1 E" using ok brk_frame_fields(6) [OF h1(1)] by (simp add: pool_ok_def)
  have e: "ph_end h1 = ph_end h" using brk_frame_fields(3) [OF h1(1)] .
  have "layout h' (E(ph_end h := Some (n, False)))"
    using setup_extent_layout [OF lay n(1)] lt ok unfolding e h' by (simp add: pool_ok_def)
  then show ?thesis using ok h1(2-4) n brk_frame_fields(4,5) [OF h1(1)] unfolding h' pool_ok_def brk_inv_def
    by (auto simp: setup_extent_descriptor_def)
qed

lemma SMLIST_0: "SMLIST 0 = - 1"
proof -
  have "unat ((0 - 1 :: u32) OR 1) = 2 ^ 32 - 1" by (simp add: unsigned_minus_1_eq_mask mask_eq_exp_minus_1)
  then show ?thesis
    using bsr_mono_bound [of 31 "unat ((0 - 1 :: u32) OR 1)"] by (auto simp: SMLIST_def size256_def NUMSMALL_def Let_def)
qed

section \<open>Properties\<close>

lemma SMLIST_request:
  assumes "2048 < sz" "sz < 2 ^ 31"
  shows "SMLIST (ucast (of_nat sz :: u64)) = - 1"
proof -
  have "unat (ucast (of_nat sz :: u64) :: u32) = sz" using assms(2) by (simp add: unat_ucast_32 unat_of_nat_64)
  then show ?thesis using assms(1) by (intro SMLIST_large) (auto simp: unat_eq_zero)
qed

lemma valloc_at_end:
  assumes "pool_ok h E" "os_ok os" "n = (sz + PAGESIZE - 1) div PAGESIZE" "0 < sz" "sz < 2 ^ 31"
    and "\<forall>x k. E x = Some (k, True) \<longrightarrow> k < n"
    and "(ph_end h + n) * PAGESIZE < 2 ^ 31" "I1 (ph_end h + n - 1) = I1 (ph_end h - 1)"
  shows "\<exists>h'. valloc os sz h = Some (page_addr (ph_end h), h') \<and> pool_ok h' (E(ph_end h := Some (n, False))) \<and>
    E (ph_end h) = None \<and> ph_end h' = ph_end h + n \<and> sz \<le> n * PAGESIZE \<and>
    msize (page_addr (ph_end h)) h' = Some (n * PAGESIZE) \<and> int (page_addr (ph_end h')) \<le> hp_mapped h'"
proof -
  have n: "n = valloc_pages sz" "0 < n" "sz \<le> n * PAGESIZE" using assms(3-5) by (auto simp: valloc_pages_def PAGESIZE_def)
  have small: "page_addr (ph_end h + n) < 2 ^ 31" using assms(7) by (simp add: page_addr_def)
  obtain h1 h' where run: "valloc os sz h = Some (page_addr (ph_end h), h')"
    and h1: "brk_frame h h1" "brk_inv h1" "hp_brk h1 = int (page_addr (ph_end h + n))" "hp_brk h1 \<le> hp_localbrk h1"
    and h': "h' = setup_extent_descriptor (ph_end h) (int n) (h1\<lparr>ph_end := ph_end h + n\<rparr>)"
    using valloc_grow_run [OF assms(1,2) n(1) assms(6) small assms(8)] by blast
  have ok: "pool_ok h' (E(ph_end h := Some (n, False)))" by (rule pool_ok_grown [OF assms(1) n(2) small h1 h'])
  have end': "ph_end h' = ph_end h + n" by (simp add: h' setup_extent_descriptor_def)
  have "hp_brk h' \<le> hp_mapped h'" "hp_brk h' = int (page_addr (ph_end h'))"
    using ok by (auto simp: pool_ok_def brk_inv_def)
  moreover have "extent_ok (ph_tab h') (ph_end h) n False"
    using ok unfolding pool_ok_def layout_def table_ok_def by simp
  then have "msize (page_addr (ph_end h)) h' = Some (n * PAGESIZE)" using assms(7) by (rule msize_extent)
  moreover have "E (ph_end h) = None"
    using assms(1) table_extent [of "ph_tab h" "ph_end h" E "ph_end h"] unfolding pool_ok_def layout_def
    by (cases "E (ph_end h)") (fastforce simp: extent_ok_def)+
  ultimately show ?thesis using run ok end' n(3) by auto
qed

text \<open>
  \<open>valloc\<close> grows the pool. If no free extent is large enough, it returns the address of the
  old end of the pool; the pages from there on are a new used extent of exactly the asked number of pages, no
  other extent is touched, the memory is mapped, \<open>msize\<close> tells its size, and the pool is consistent
  again.
\<close>

theorem valloc_grows:
  assumes "pool_ok h E" "os_ok os" "n = (sz + PAGESIZE - 1) div PAGESIZE" "0 < sz" "sz < 2 ^ 31"
    and "\<forall>x k. E x = Some (k, True) \<longrightarrow> k < n"
    and "(ph_end h + n) * PAGESIZE < 2 ^ 31" "I1 (ph_end h + n - 1) = I1 (ph_end h - 1)"
  shows "\<exists>h'. valloc os sz h = Some (page_addr (ph_end h), h') \<and> pool_ok h' (E(ph_end h := Some (n, False))) \<and>
    E (ph_end h) = None \<and> ph_end h' = ph_end h + n \<and> sz \<le> n * PAGESIZE \<and>
    msize (page_addr (ph_end h)) h' = Some (n * PAGESIZE) \<and> int (page_addr (ph_end h')) \<le> hp_mapped h'"
  by (rule valloc_at_end [OF assms])

lemma fresh_layout: "layout fresh Map.empty"
proof -
  let ?h = "msetup (blank\<lparr>hp_mfd := 3, hp_mapped := 12288\<rparr>)"
  have "ph_tab fresh = ph_tab ?h" "ph_fp fresh = ph_fp ?h" "ph_end fresh = ph_end ?h"
    by (simp_all add: fresh_def blank_def good_os_def shm_create_def shm_ready_def do_mmap_def do_ftruncate_def msetup_def
        Let_def PAGESIZE_def)
  then show ?thesis using layout_cong [of fresh ?h] msetup_layout(1) by blast
qed

lemma fresh_pool: "pool_ok fresh Map.empty" "os_ok good_os"
proof -
  have "hp_locks fresh ! NUMSMALL = 0" unfolding fresh_simps by (subst nth_replicate) simp_all
  then show "pool_ok fresh Map.empty"
    using fresh_layout fresh_brk_inv by (simp add: pool_ok_def fresh_simps page_addr_def PAGESIZE_def)
  show "os_ok good_os" by (simp add: os_ok_def good_os_def)
qed

theorem valloc_grows_witness:
  "pool_ok fresh Map.empty \<and>
   (\<exists>h'. valloc good_os 5000 fresh = Some (12288, h') \<and> pool_ok h' [3 \<mapsto> (2, False)] \<and> msize 12288 h' = Some 8192)"
  using valloc_grows [OF fresh_pool, of 2 5000] fresh_pool(1)
  by (auto simp: fresh_simps page_addr_def PAGESIZE_def I1_def sizeof_page_def)

lemma table_cong: "table_ok m e E \<Longrightarrow> (\<And>i. i < e \<Longrightarrow> m' i = m i) \<Longrightarrow> table_ok m' e E"
proof -
  assume t: "table_ok m e E" and eq: "\<And>i. i < e \<Longrightarrow> m' i = m i"
  have "extent_ok m' p n f" if "extent_ok m p n f" "p + n \<le> e" for p n f
    using that eq unfolding extent_ok_def by simp
  then show "table_ok m' e E" using t eq unfolding table_ok_def by simp
qed

text \<open>
  \<open>malloc(0)\<close> does not reserve anything. On a pool without free extents it returns the end of the pool, and
  the next request for more than half a page gets the same address.
\<close>

theorem malloc_zero_aliases:
  assumes "pool_ok h E" "os_ok os" "\<forall>x k. E x \<noteq> Some (k, True)" "n = (sz + PAGESIZE - 1) div PAGESIZE"
    "2048 < sz" "sz < 2 ^ 31" "(ph_end h + n) * PAGESIZE < 2 ^ 31" "I1 (ph_end h + n - 1) = I1 (ph_end h - 1)"
  shows "\<exists>h1 h2. malloc os 0 h = Some (page_addr (ph_end h), h1) \<and> malloc os sz h1 = Some (page_addr (ph_end h), h2)"
proof -
  have z: "0 = valloc_pages 0" by (simp add: valloc_pages_def PAGESIZE_def)
  have lt: "page_addr (ph_end h + 0) < 2 ^ 31" using assms(1) by (simp add: pool_ok_def)
  obtain g h1 where h1: "valloc os 0 h = Some (page_addr (ph_end h), h1)"
    and g: "brk_frame h g" "brk_inv g" "hp_brk g = int (page_addr (ph_end h + 0))" "hp_brk g \<le> hp_localbrk g"
    and h1_def: "h1 = setup_extent_descriptor (ph_end h) (int 0) (g\<lparr>ph_end := ph_end h + 0\<rparr>)"
    using valloc_grow_run [OF assms(1,2) z _ lt] assms(3) by auto
  have tab: "ph_tab h1 i = ph_tab h i" if "i < ph_end h" for i
    using that brk_frame_fields(1) [OF g(1)]
    by (simp add: h1_def setup_extent_descriptor_def set_code_def set_page_def)
  have f: "ph_fp h1 = ph_fp h" "ph_end h1 = ph_end h" "hp_locks h1 = hp_locks h" "hp_mfd h1 = hp_mfd h"
    "hp_brk h1 = hp_brk g" "hp_eof h1 = hp_eof g" "hp_localbrk h1 = hp_localbrk g" "hp_mapped h1 = hp_mapped g"
    using brk_frame_fields [OF g(1)] by (simp_all add: h1_def setup_extent_descriptor_def)
  have "pool_ok h1 E"
    using assms(1) g table_cong [of "ph_tab h" "ph_end h" E "ph_tab h1"] tab
    unfolding pool_ok_def layout_def brk_inv_def f by auto
  moreover have n: "n = valloc_pages sz" using assms(4,6) by (simp add: valloc_pages_def PAGESIZE_def)
  ultimately obtain h2 where h2: "valloc os sz h1 = Some (page_addr (ph_end h), h2)"
    using valloc_grow_run [of h1 E os n sz] assms(2,3,7,8) unfolding f by (auto simp: page_addr_def)
  have "SMLIST (ucast (of_nat 0 :: u64)) = - 1" using SMLIST_0 by simp
  moreover note SMLIST_request [OF assms(5,6)]
  ultimately show ?thesis using h1 h2 by (simp add: malloc_def Let_def)
qed


theorem malloc_zero_aliases_witness:
  "\<exists>h1 h2. malloc good_os 0 fresh = Some (12288, h1) \<and> malloc good_os 5000 h1 = Some (12288, h2)"
  using malloc_zero_aliases [OF fresh_pool, of 2 5000]
  by (simp add: fresh_simps page_addr_def PAGESIZE_def I1_def sizeof_page_def)

section \<open>Giving pages back\<close>

text \<open>The last extent leaves the pool.\<close>

lemma layout_drop:
  assumes lay: "layout h E" and q: "E q = Some (l, True)" "q + l = ph_end h"
    and h': "ph_tab h' = ph_tab h" "ph_fp h' = fp_remove q (ph_fp h)" "ph_end h' = q"
  shows "layout h' (E(q := None))"
proof -
  have e: "ph_end h < 2 ^ 31" and t: "table_ok (ph_tab h) (ph_end h) E" and st: "store_ok (ph_fp h) E {}"
    using lay by (simp_all add: layout_def)
  have before: "p + n \<le> q" if "E p = Some (n, f)" "p \<noteq> q" for p n f
    using table_disjoint [OF t that(1) q(1)] table_disjoint [OF t q(1) that(1)] table_extent [OF t that(1)] that(2) q(2)
    by (cases "p < q") (auto simp: extent_ok_def)
  have "store_ok (fp_remove q (ph_fp h)) E {q}" using store_remove(1) [OF st q(1)] by simp
  then have "store_ok (fp_remove q (ph_fp h)) (E(q := None)) {}"
    by (auto simp: store_ok_def free_starts_upd split: if_splits)
  moreover have "inside E i = inside (E(q := None)) i" if "i < q" for i
    using that unfolding inside_def by (metis fun_upd_apply not_le option.discI)
  then have "table_ok (ph_tab h) q (E(q := None))"
    using t q before unfolding table_ok_def disjoint_extents_def by (auto split: if_splits)
  ultimately show ?thesis using e q(2) unfolding layout_def h' by simp
qed

text \<open>The functions on extents leave the other fields alone.\<close>

lemma free_pages_more: "free_pages p h = Some (q, h') \<Longrightarrow> pheap.more h' = pheap.more h"
proof -
  have b: "merge_below p h = Some (q, h') \<Longrightarrow> pheap.more h' = pheap.more h" for p q and h h' :: "'a pheap_scheme"
    by (auto simp: merge_below_def Let_def split: if_splits bind_splits)
  have a: "merge_above q h = Some h' \<Longrightarrow> pheap.more h' = pheap.more h" for q and h h' :: "'a pheap_scheme"
    by (auto simp: merge_above_def Let_def split: if_splits bind_splits)
  show "free_pages p h = Some (q, h') \<Longrightarrow> pheap.more h' = pheap.more h"
    by (auto simp: free_pages_def split: if_splits bind_splits dest!: a b)
qed

lemma more_fields:
  assumes "pheap.more h' = pheap.more (h :: heap)"
  shows "hp_brk h' = hp_brk h" "hp_eof h' = hp_eof h" "hp_localbrk h' = hp_localbrk h" "hp_mapped h' = hp_mapped h"
    "hp_mfd h' = hp_mfd h" "hp_locks h' = hp_locks h"
  using assms by (cases h; cases h'; simp)+

text \<open>The test at the end of \<open>free\<close>, and the return of the last pages to the operating system.\<close>

lemma trim_run:
  assumes lay: "layout h E" and os: "os_ok os" and q: "E q = Some (l, True)" "q + l = ph_end h" "size_of (ph_fp h) q = int l"
    and b: "brk_inv h" "hp_brk h = int (page_addr (ph_end h))" "hp_brk h \<le> hp_localbrk h" "0 \<le> hp_mfd h"
      "page_addr (ph_end h) < 2 ^ 31"
  shows "\<exists>h2 h3. shm_sbrk os 0 h = (Some (hp_brk h), h2) \<and> ph_end h2 = ph_end h \<and>
    shm_sbrk os (int (page_addr q) - int (page_addr (ph_end h))) (h2\<lparr>ph_fp := fp_remove q (ph_fp h2)\<rparr>) = (Some (hp_brk h2), h3) \<and>
    layout (h3\<lparr>ph_end := q\<rparr>) (E(q := None)) \<and> brk_inv h3 \<and> hp_brk h3 = int (page_addr q) \<and> hp_brk h3 \<le> hp_localbrk h3 \<and>
    hp_locks h3 = hp_locks h \<and> hp_mfd h3 = hp_mfd h"
proof -
  have pos: "0 \<le> hp_brk h" using b(2) by simp
  obtain h2 where h2: "shm_sbrk os 0 h = (Some (hp_brk h), h2)" "brk_inv h2" "hp_brk h2 = hp_brk h"
    "hp_brk h2 \<le> hp_localbrk h2" "brk_frame h h2"
    using shm_sbrk_ok [OF os b(1), of 0] b pos by auto
  note f2 = brk_frame_fields [OF h2(5)]
  let ?g = "h2\<lparr>ph_fp := fp_remove q (ph_fp h2)\<rparr>" and ?d = "int (page_addr q) - int (page_addr (ph_end h))"
  have le: "page_addr q \<le> page_addr (ph_end h)" using q(2) by (simp add: page_addr_def)
  have d: "hp_brk ?g + ?d = int (page_addr q)" using h2(3) b(2) by simp
  have "int (page_addr (ph_end h)) < 2 ^ 31" using b(5) by (metis of_nat_less_iff of_nat_numeral of_nat_power)
  then have "- (2 ^ 31) \<le> ?d" "?d < 2 ^ 31" using le by linarith+
  then obtain h3 where h3: "shm_sbrk os ?d ?g = (Some (hp_brk ?g), h3)" "brk_inv h3" "hp_brk h3 = int (page_addr q)"
    "hp_brk h3 \<le> hp_localbrk h3" "brk_frame ?g h3"
    using shm_sbrk_ok [OF os, of ?g ?d] h2(2,4) b(4) f2(5) d by (auto simp: brk_inv_def)
  note f3 = brk_frame_fields [OF h3(5)]
  have "layout (h3\<lparr>ph_end := q\<rparr>) (E(q := None))"
    by (rule layout_drop [OF lay q(1,2)]) (simp_all add: f3(1,2) f2(1,2))
  then show ?thesis using h2(1) h3 f2(3,4,5) f3(4,5) by auto
qed


lemma replaced_ge:
  assumes "replaced E q l E'" "\<forall>p n f. E p = Some (n, f) \<longrightarrow> 3 \<le> p" "3 \<le> q"
  shows "\<forall>p n f. E' p = Some (n, f) \<longrightarrow> 3 \<le> p"
proof (intro allI impI)
  fix p n f assume p: "E' p = Some (n, f)"
  show "3 \<le> p"
  proof (cases "p < q")
    case True
    then have "E p = Some (n, f)" using assms(1) p by (simp add: replaced_def)
    then show ?thesis using assms(2) by blast
  qed (use assms(3) in simp)
qed

text \<open>The first half of \<open>free\<close> on an extent: the lock is taken and the pages are merged into a free extent.\<close>

lemma free_pages_locked:
  assumes ok: "pool_ok h E" and p: "E p = Some (n, False)"
  obtains h0 h1 q l E' where "LOCK NUMSMALL h = Some h0" "free_pages p h0 = Some (q, h1)" "pg_code (ph_tab h p) = BIG"
    "layout h1 E'" "ph_end h1 = ph_end h" "replaced E q l E'" "q \<le> p" "p + n \<le> q + l" "q + l \<le> ph_end h" "3 \<le> q"
    "size_of (ph_fp h1) q = int l" "brk_inv h1" "hp_brk h1 = hp_brk h" "hp_brk h1 \<le> hp_localbrk h1" "hp_mfd h1 = hp_mfd h"
    "(hp_locks h1)[NUMSMALL := 0] = hp_locks h" "length (hp_locks h1) = length (hp_locks h)"
    "if q = p then \<nexists>a k. E a = Some (k, True) \<and> a + k = p else E q = Some (p - q, True)"
    "if p + n = q + l then \<nexists>k. E (p + n) = Some (k, True) else E (p + n) = Some (q + l - (p + n), True)"
proof -
  have lay: "layout h E" and ge: "\<forall>p n f. E p = Some (n, f) \<longrightarrow> 3 \<le> p" and lk: "hp_locks h ! NUMSMALL = 0"
    using ok by (auto simp: pool_ok_def)
  define h0 where "h0 = h\<lparr>hp_locks := (hp_locks h)[NUMSMALL := 1]\<rparr>"
  have L: "LOCK NUMSMALL h = Some h0" using lk by (simp add: LOCK_def h0_def)
  have lay0: "layout h0 E" using lay by (simp add: h0_def layout_def)
  have code: "pg_code (ph_tab h p) = BIG"
    using lay p table_extent [of "ph_tab h" "ph_end h" E p n False] by (simp add: layout_def extent_ok_def)
  obtain h1 q l E' where fr: "free_pages p h0 = Some (q, h1)" "layout h1 E'" "ph_end h1 = ph_end h0"
    and r: "replaced E q l E'" "q \<le> p" "p + n \<le> q + l" "size_of (ph_fp h1) q = int l"
    and nb: "if q = p then \<nexists>a k. E a = Some (k, True) \<and> a + k = p else E q = Some (p - q, True)"
      "if p + n = q + l then \<nexists>k. E (p + n) = Some (k, True) else E (p + n) = Some (q + l - (p + n), True)"
    using free_pages_replaced [OF lay0 p] by blast
  note f1 = more_fields [OF free_pages_more [OF fr(1)]]
  have e1: "ph_end h1 = ph_end h" using fr(3) by (simp add: h0_def)
  have "E' q = Some (l, True)" using r(1) by (simp add: replaced_def)
  then have "q + l \<le> ph_end h" using fr(2) e1 table_extent [of "ph_tab h1" "ph_end h1" E' q l True] by (simp add: layout_def)
  moreover have "3 \<le> q" using nb(1) ge p by (auto split: if_splits)
  moreover have "(hp_locks h1)[NUMSMALL := 0] = hp_locks h" "length (hp_locks h1) = length (hp_locks h)"
    using f1(6) lk list_update_id [of "hp_locks h" NUMSMALL] by (simp_all add: h0_def)
  moreover have "brk_inv h1" "hp_brk h1 = hp_brk h" "hp_brk h1 \<le> hp_localbrk h1" "hp_mfd h1 = hp_mfd h"
    using ok f1 by (simp_all add: pool_ok_def brk_inv_def h0_def)
  ultimately show thesis using that [OF L fr(1) code fr(2) e1 r(1-3)] r(4) nb by blast
qed

lemma free_extent_run:
  assumes ok: "pool_ok h E" and os: "os_ok os" and p: "E p = Some (n, False)"
  shows "\<exists>q l E' h'. free_extent os (page_addr p) h = Some h' \<and> replaced E q l E' \<and> q \<le> p \<and> p + n \<le> q + l \<and>
    (if q + l = ph_end h then ph_end h' = q \<and> pool_ok h' (E'(q := None)) else ph_end h' = ph_end h \<and> pool_ok h' E') \<and>
    (if q = p then \<nexists>a k. E a = Some (k, True) \<and> a + k = p else E q = Some (p - q, True)) \<and>
    (if p + n = q + l then \<nexists>k. E (p + n) = Some (k, True) else E (p + n) = Some (q + l - (p + n), True))"
  using ok p
proof (rule free_pages_locked)
  fix h0 h1 q l E'
  assume L: "LOCK NUMSMALL h = Some h0" and fr: "free_pages p h0 = Some (q, h1)" and code: "pg_code (ph_tab h p) = BIG"
    and lay1: "layout h1 E'" and e1: "ph_end h1 = ph_end h" and r: "replaced E q l E'" "q \<le> p" "p + n \<le> q + l"
    and le: "q + l \<le> ph_end h" and q3: "3 \<le> q" and sz: "size_of (ph_fp h1) q = int l" and b1: "brk_inv h1"
    and brk: "hp_brk h1 = hp_brk h" "hp_brk h1 \<le> hp_localbrk h1" "hp_mfd h1 = hp_mfd h"
    and lk1: "(hp_locks h1)[NUMSMALL := 0] = hp_locks h" "length (hp_locks h1) = length (hp_locks h)"
    and nb: "if q = p then \<nexists>a k. E a = Some (k, True) \<and> a + k = p else E q = Some (p - q, True)"
      "if p + n = q + l then \<nexists>k. E (p + n) = Some (k, True) else E (p + n) = Some (q + l - (p + n), True)"
  have b: "hp_brk h1 = int (page_addr (ph_end h1))" "0 \<le> hp_mfd h1" "page_addr (ph_end h1) < 2 ^ 31"
    using ok e1 brk by (simp_all add: pool_ok_def)
  have "\<forall>p n f. E p = Some (n, f) \<longrightarrow> 3 \<le> p" and ge: "3 \<le> ph_end h" using ok unfolding pool_ok_def by blast+
  then have ge': "\<forall>p n f. E' p = Some (n, f) \<longrightarrow> 3 \<le> p" by (intro replaced_ge [OF r(1) _ q3])
  have small: "to_int (int l * page_size) = int (page_addr l)" "page_addr q < 2 ^ 31"
    using le b(3) e1 by (auto simp: to_int_small page_addr_def PAGESIZE_def)
  have test: "int (page_addr q) + to_int (size_of (ph_fp h1) q * page_size) = int (page_addr (ph_end h1)) \<longleftrightarrow> q + l = ph_end h"
    unfolding sz small e1 by (simp add: page_addr_def PAGESIZE_def) linarith
  have "\<exists>h'. free_extent os (page_addr p) h = Some h' \<and>
    (if q + l = ph_end h then ph_end h' = q \<and> pool_ok h' (E'(q := None)) else ph_end h' = ph_end h \<and> pool_ok h' E')"
  proof (cases "q + l = ph_end h")
    case False
    have "free_extent os (page_addr p) h = Some (UNLOCK NUMSMALL h1)"
      using L fr test False code by (simp add: free_extent_def extent_addr Let_def)
    moreover have "pool_ok (UNLOCK NUMSMALL h1) E'"
      using ok lay1 b1 b brk lk1 ge ge' e1 by (simp add: pool_ok_def UNLOCK_def layout_def brk_inv_def)
    ultimately show ?thesis using False e1 by (simp add: UNLOCK_def)
  next
    case True
    have Eq: "E' q = Some (l, True)" using r(1) by (simp add: replaced_def)
    obtain h2 h3 where t: "shm_sbrk os 0 h1 = (Some (hp_brk h1), h2)" "ph_end h2 = ph_end h1"
      "shm_sbrk os (int (page_addr q) - int (page_addr (ph_end h1))) (h2\<lparr>ph_fp := fp_remove q (ph_fp h2)\<rparr>) = (Some (hp_brk h2), h3)"
      "layout (h3\<lparr>ph_end := q\<rparr>) (E'(q := None))" "brk_inv h3" "hp_brk h3 = int (page_addr q)" "hp_brk h3 \<le> hp_localbrk h3"
      "hp_locks h3 = hp_locks h1" "hp_mfd h3 = hp_mfd h1"
      using trim_run [OF lay1 os Eq _ sz b1 b(1) brk(2) b(2,3)] True e1 by auto
    have "free_extent os (page_addr p) h = Some (UNLOCK NUMSMALL (h3\<lparr>ph_end := q\<rparr>))"
      using L fr test True code t(1-3) b(1) by (simp add: free_extent_def extent_addr Let_def)
    moreover have "pool_ok (UNLOCK NUMSMALL (h3\<lparr>ph_end := q\<rparr>)) (E'(q := None))"
      using ok t(4-9) lk1 q3 b(2) small(2) ge' by (simp add: pool_ok_def UNLOCK_def layout_def brk_inv_def)
    ultimately show ?thesis using True by (simp add: UNLOCK_def)
  qed
  then show ?thesis using r nb by blast
qed


text \<open>The last extent of the pool is in use.\<close>

definition trimmed :: "heap \<Rightarrow> extents \<Rightarrow> bool" where
  "trimmed h E \<longleftrightarrow> (\<forall>p n. E p = Some (n, True) \<longrightarrow> p + n \<noteq> ph_end h)"

lemma free_extent_dispatch:
  assumes "pool_ok h E" "E p = Some (n, False)"
  shows "free os (page_addr p) h = free_extent os (page_addr p) h"
proof -
  have "3 \<le> p" "extent_ok (ph_tab h) p n False"
    using assms table_extent [of "ph_tab h" "ph_end h" E p n False] unfolding pool_ok_def layout_def by blast+
  then show ?thesis by (simp add: free_def extent_addr extent_ok_def BIG_def NUMSMALL_def Let_def)
qed



text \<open>Inside the merged extent there is no other used extent.\<close>

lemma merged_used:
  assumes t: "table_ok m e E" and p: "E p = Some (n, False)" and le: "q \<le> p" "p + n \<le> q + l"
    and nb: "if q = p then \<nexists>a k. E a = Some (k, True) \<and> a + k = p else E q = Some (p - q, True)"
      "if p + n = q + l then \<nexists>k. E (p + n) = Some (k, True) else E (p + n) = Some (q + l - (p + n), True)"
    and x: "E x = Some (k, False)" "q \<le> x" "x < q + l"
  shows "x = p"
proof (rule ccontr)
  assume "x \<noteq> p"
  then consider "x < p" | "p < x" by linarith
  then show False
  proof cases
    case 1
    then have "E q = Some (p - q, True)" "x \<noteq> q" using nb(1) x by (auto split: if_splits)
    then show False using table_disjoint [OF t _ x(1), of q] 1 x(2) by fastforce
  next
    case 2
    then have "p + n \<le> x" using table_disjoint [OF t p x(1)] by simp
    then have "E (p + n) = Some (q + l - (p + n), True)" "x \<noteq> p + n" using nb(2) x by (auto split: if_splits)
    then show False using table_disjoint [OF t _ x(1), of "p + n"] \<open>p + n \<le> x\<close> x(3) le(2) by fastforce
  qed
qed

lemma free_used_extent:
  assumes "pool_ok h E" "coalesced E" "trimmed h E" "os_ok os" "E p = Some (n, False)"
  shows "\<exists>h' E'. free os (page_addr p) h = Some h' \<and> pool_ok h' E' \<and> coalesced E' \<and> trimmed h' E' \<and>
    (\<forall>x k. E' x = Some (k, False) \<longleftrightarrow> E x = Some (k, False) \<and> x \<noteq> p) \<and>
    (\<forall>i. p \<le> i \<and> i < p + n \<longrightarrow> ph_end h' \<le> i \<or> (\<exists>x k. E' x = Some (k, True) \<and> x \<le> i \<and> i < x + k))"
proof -
  obtain q l E' h' where fr: "free_extent os (page_addr p) h = Some h'" "replaced E q l E'" "q \<le> p" "p + n \<le> q + l"
    and res: "if q + l = ph_end h then ph_end h' = q \<and> pool_ok h' (E'(q := None)) else ph_end h' = ph_end h \<and> pool_ok h' E'"
    and nb: "if q = p then \<nexists>a k. E a = Some (k, True) \<and> a + k = p else E q = Some (p - q, True)"
      "if p + n = q + l then \<nexists>k. E (p + n) = Some (k, True) else E (p + n) = Some (q + l - (p + n), True)"
    using free_extent_run [OF assms(1,4,5)] by blast
  define E2 where "E2 = (if q + l = ph_end h then E'(q := None) else E')"
  have t: "table_ok (ph_tab h) (ph_end h) E" using assms(1) by (simp add: pool_ok_def layout_def)
  have q: "E' q = Some (l, True)" and ins: "\<And>x. q < x \<Longrightarrow> x < q + l \<Longrightarrow> E' x = None"
    and out: "\<And>x. x < q \<or> q + l \<le> x \<Longrightarrow> E' x = E x" using fr(2) by (auto simp: replaced_def)
  note mn = merged_neighbours [OF assms(2) fr(4) nb]
  have co: "coalesced E'" using coalesced_replaced [OF assms(2) fr(2) mn] .
  then have "coalesced E2" by (auto simp: coalesced_def E2_def split: if_splits)
  moreover have "pool_ok h' E2" using res by (simp add: E2_def split: if_splits)
  moreover have "trimmed h' E2"
    unfolding trimmed_def
  proof (intro allI impI)
    fix x k assume x: "E2 x = Some (k, True)"
    show "x + k \<noteq> ph_end h'"
    proof (cases "x = q")
      case False
      then have "x < q \<or> q + l \<le> x" "E' x = Some (k, True)" using x ins [of x] by (auto simp: E2_def split: if_splits intro: ccontr)
      then have "E x = Some (k, True)" "x < q \<or> q + l \<le> x" using out by auto
      then show ?thesis using mn(1) assms(3) res unfolding trimmed_def by (auto split: if_splits)
    qed (use x q res in \<open>auto simp: E2_def split: if_splits\<close>)
  qed
  moreover have "E2 x = Some (k, False) \<longleftrightarrow> E x = Some (k, False) \<and> x \<noteq> p" for x k
  proof (cases "x < q \<or> q + l \<le> x")
    case True
    have "0 < n" using table_extent [OF t assms(5)] by (simp add: extent_ok_def)
    then show ?thesis using True out [OF True] fr(3,4) by (auto simp: E2_def)
  next
    case False
    then have "E2 x \<noteq> Some (k, False)" using q ins [of x] by (cases "x = q") (auto simp: E2_def)
    then show ?thesis using merged_used [OF t assms(5) fr(3,4) nb, of x k] False by auto
  qed
  moreover have "ph_end h' \<le> i \<or> (\<exists>x k. E2 x = Some (k, True) \<and> x \<le> i \<and> i < x + k)" if "p \<le> i" "i < p + n" for i
  proof (cases "q + l = ph_end h")
    case False
    then have "E2 q = Some (l, True)" "q \<le> i" "i < q + l" using q that fr(3,4) by (simp_all add: E2_def)
    then show ?thesis by blast
  qed (use res that fr(3) in simp)
  ultimately show ?thesis using fr(1) free_extent_dispatch [OF assms(1,5)]
    by (intro exI [of _ h'] exI [of _ E2] conjI) auto
qed

text \<open>
  (C28) \<open>free\<close> on an extent keeps the pool in order. It returns; the used extents are the others, as they were;
  the pages of the block are in a free extent or no longer in the pool; no two free extents are adjacent, and
  the pool does not end with a free extent.
\<close>

theorem free_keeps_pool:
  assumes "pool_ok h E" "coalesced E" "trimmed h E" "os_ok os" "E p = Some (n, False)"
  shows "\<exists>h' E'. free os (page_addr p) h = Some h' \<and> pool_ok h' E' \<and> coalesced E' \<and> trimmed h' E' \<and>
    (\<forall>x k. E' x = Some (k, False) \<longleftrightarrow> E x = Some (k, False) \<and> x \<noteq> p) \<and>
    (\<forall>i. p \<le> i \<and> i < p + n \<longrightarrow> ph_end h' \<le> i \<or> (\<exists>x k. E' x = Some (k, True) \<and> x \<le> i \<and> i < x + k))"
  by (rule free_used_extent [OF assms])

lemma grown_pool: "\<exists>h. pool_ok h [3 \<mapsto> (2, False)] \<and> ph_end h = 5"
proof -
  have n: "2 = valloc_pages 5000" "page_addr (ph_end fresh + 2) < 2 ^ 31" "I1 (ph_end fresh + 2 - 1) = I1 (ph_end fresh - 1)"
    by (simp_all add: valloc_pages_def page_addr_def PAGESIZE_def fresh_simps I1_def sizeof_page_def)
  obtain g h where g: "brk_frame fresh g" "brk_inv g" "hp_brk g = int (page_addr (ph_end fresh + 2))" "hp_brk g \<le> hp_localbrk g"
    and h: "h = setup_extent_descriptor (ph_end fresh) (int 2) (g\<lparr>ph_end := ph_end fresh + 2\<rparr>)"
    using valloc_grow_run [OF fresh_pool n(1) _ n(2,3)] by blast
  have "pool_ok h (Map.empty(ph_end fresh := Some (2, False)))"
    by (rule pool_ok_grown [OF fresh_pool(1) _ n(2) g h]) simp
  moreover have "ph_end h = 5" by (simp add: h setup_extent_descriptor_def fresh_simps)
  ultimately show ?thesis unfolding fresh_simps by blast
qed

theorem free_keeps_pool_witness:
  "\<exists>h h' E'. pool_ok h [3 \<mapsto> (2, False)] \<and> free good_os (page_addr 3) h = Some h' \<and> pool_ok h' E' \<and> coalesced E' \<and>
    trimmed h' E'"
proof -
  obtain h where h: "pool_ok h [3 \<mapsto> (2, False)]" "ph_end h = 5" using grown_pool by blast
  have "coalesced [3 \<mapsto> (2, False)]" "trimmed h [3 \<mapsto> (2, False)]" by (simp_all add: coalesced_def trimmed_def)
  moreover have "[3 \<mapsto> (2, False)] 3 = Some (2, False)" by simp
  ultimately show ?thesis using free_keeps_pool [OF h(1) _ _ fresh_pool(2)] h(1) by blast
qed

section \<open>Locks and contents\<close>

text \<open>
  (C31) No lock is left behind. Whatever \<open>malloc\<close>, \<open>free\<close>, \<open>mresize\<close>, \<open>realloc\<close>, \<open>calloc\<close> and \<open>shm_fini\<close> do,
  on every path, failures of the operating system included: when the call comes back, all the spin locks of
  the pool are as they were before it.
\<close>

theorem locks_restored:
  "(malloc os sz h = Some (p, h') \<longrightarrow> hp_locks h' = hp_locks h) \<and>
   (free os old h = Some h' \<longrightarrow> hp_locks h' = hp_locks h) \<and>
   (mresize os old sz h = Some (b, h') \<longrightarrow> hp_locks h' = hp_locks h) \<and>
   (realloc os old sz h = Some (p, h') \<longrightarrow> hp_locks h' = hp_locks h) \<and>
   (calloc os n1 n2 h = Some (p, h') \<longrightarrow> hp_locks h' = hp_locks h) \<and>
   (shm_fini os h = Some (r, h') \<longrightarrow> hp_locks h' = hp_locks h)"
proof -
  have k: "hp_locks h' = hp_locks h" if "kept h' = kept h" for h h' using that by (simp add: kept_def)
  have c: "hp_locks (copy_data a b n h) = hp_locks h" for a b n h by (simp add: copy_data_def)
  have "realloc os old sz h = Some (p, h') \<longrightarrow> hp_locks h' = hp_locks h"
    by (auto simp: realloc_def c split: if_splits bind_splits dest!: frame_rules [THEN k])
  moreover have "calloc os n1 n2 h = Some (p, h') \<longrightarrow> hp_locks h' = hp_locks h"
    by (auto simp: calloc_def Let_def split: if_splits bind_splits dest!: frame_rules [THEN k])
  moreover have "shm_fini os h = Some (r, h') \<longrightarrow> hp_locks h' = hp_locks h"
    by (auto simp: shm_fini_def split: bind_splits dest!: frame_rules [THEN k])
  ultimately show ?thesis by (auto dest!: frame_rules [THEN k])
qed

lemma malloc_fresh: "\<exists>h'. malloc good_os 5000 fresh = Some (12288, h')"
proof -
  have n: "2 = valloc_pages 5000" "page_addr (ph_end fresh + 2) < 2 ^ 31" "I1 (ph_end fresh + 2 - 1) = I1 (ph_end fresh - 1)"
    by (simp_all add: valloc_pages_def page_addr_def PAGESIZE_def fresh_simps I1_def sizeof_page_def)
  have "SMLIST (ucast (of_nat 5000 :: u64)) = - 1" by (rule SMLIST_large) simp_all
  then show ?thesis using valloc_grow_run [OF fresh_pool n(1) _ n(2,3)]
    by (simp add: malloc_def Let_def fresh_simps page_addr_def PAGESIZE_def) blast
qed

theorem locks_restored_witness:
  "\<exists>h'. malloc good_os 5000 fresh = Some (12288, h') \<and> hp_locks h' = replicate (NUMSMALL + 1) 0"
proof -
  obtain h' where "malloc good_os 5000 fresh = Some (12288, h')" using malloc_fresh by blast
  moreover have "hp_locks h' = hp_locks fresh" using locks_restored [of good_os 5000 fresh 12288 h'] calculation by blast
  ultimately show ?thesis unfolding fresh_simps by blast
qed

lemma realloc_copies:
  assumes "mresize os old sz h = Some (False, h1)" "msize old h1 = Some n" "malloc os sz h1 = Some (new, h2)" "new \<noteq> 0"
    "free os old (copy_data new old (min sz n) h2) = Some h'" "old \<noteq> 0" "sz \<noteq> 0"
  shows "realloc os old sz h = Some (new, h')" "i < min sz n \<Longrightarrow> hp_data h' (new + i) = hp_data h (old + i)"
proof -
  have k: "hp_data h' = hp_data h" if "kept h' = kept h" for h h' using that by (simp add: kept_def)
  show "realloc os old sz h = Some (new, h')" using assms by (simp add: realloc_def)
  have "hp_data h1 = hp_data h" "hp_data h2 = hp_data h1" "hp_data h' = hp_data (copy_data new old (min sz n) h2)"
    using assms(1,3,5) by (auto dest!: frame_rules [THEN k])
  then show "i < min sz n \<Longrightarrow> hp_data h' (new + i) = hp_data h (old + i)" by (simp add: copy_data_def)
qed

lemma locked_id: "hp_locks h ! q = 0 \<Longrightarrow> LOCK q h = Some (h\<lparr>hp_locks := (hp_locks h)[q := 1]\<rparr>)"
  "hp_locks h ! q = 0 \<Longrightarrow> UNLOCK q (h\<lparr>hp_locks := (hp_locks h)[q := 1]\<rparr>) = h"
proof -
  show "LOCK q h = Some (h\<lparr>hp_locks := (hp_locks h)[q := 1]\<rparr>)" if "hp_locks h ! q = 0" using that by (simp add: LOCK_def)
  assume "hp_locks h ! q = 0"
  then have "(hp_locks h)[q := 0] = hp_locks h" by (metis list_update_id)
  then show "UNLOCK q (h\<lparr>hp_locks := (hp_locks h)[q := 1]\<rparr>) = h" by (simp add: UNLOCK_def)
qed

lemma mresize_refused:
  assumes "pool_ok h E" "E p = Some (n, False)" "\<forall>k. E (p + n) \<noteq> Some (k, True)" "2048 < sz" "sz < 2 ^ 31"
    "n < (sz + PAGESIZE - 1) div PAGESIZE"
  shows "mresize os (page_addr p) sz h = Some (False, h)"
proof -
  have t: "table_ok (ph_tab h) (ph_end h) E" using assms(1) by (simp add: pool_ok_def layout_def)
  have p: "extent_ok (ph_tab h) p n False" "p + n \<le> ph_end h" "3 \<le> p" "ph_end h < 2 ^ 31"
    using table_extent [OF t assms(2)] assms(1,2) by (auto simp: pool_ok_def layout_def)
  have "p + n = ph_end h \<or> pg_code (ph_tab h (p + n)) \<noteq> BIG + FREE"
    using table_free [OF t, of "p + n"] p(2) assms(3) by fastforce
  then have g: "grow_extent p k h = Some (False, h)" for k
    using assms(1) locked_id [of h NUMSMALL] p(1) by (auto simp: grow_extent_def pool_ok_def extent_ok_def Let_def)
  note SMLIST_request [OF assms(4,5)]
  moreover have "extent_len p h = n" using p by (auto simp: extent_len_def extent_ok_def to_ulong_def)
  moreover have "to_ulong (to_int (int (valloc_pages sz))) = (sz + PAGESIZE - 1) div PAGESIZE"
    using assms(5) by (simp add: valloc_pages_def to_int_small to_ulong_def PAGESIZE_def)
  moreover have "pg_code (ph_tab h p) = BIG" using p(1) by (simp add: extent_ok_def)
  ultimately show ?thesis using assms(6) g p(3) by (simp add: mresize_def Let_def extent_addr)
qed


lemma pool_ok_copy [simp]:
  "pool_ok (copy_data a b k h) E = pool_ok h E" "trimmed (copy_data a b k h) E = trimmed h E" "msize q (copy_data a b k h) = msize q h"
  by (simp_all add: pool_ok_def layout_def brk_inv_def trimmed_def copy_data_def msize_def)



end
