(* ===== verification/Chunks.thy ===== *)
theory Chunks
  imports Heap_Props
begin

text \<open>
  Small blocks: the free chunks of a page as a list linked through the chunks themselves, the chunks that a thread keeps for
  itself, and what \<open>malloc_small\<close> and \<open>free\<close> do to them.
\<close>

section \<open>Lists of chunks\<close>

fun clist :: "(nat \<Rightarrow> nat) \<Rightarrow> nat \<Rightarrow> nat list \<Rightarrow> bool" where
  "clist nx p [] \<longleftrightarrow> p = 0"
| "clist nx p (x # xs) \<longleftrightarrow> p = x \<and> x \<noteq> 0 \<and> clist nx (nx x) xs"

definition chunk :: "nat \<Rightarrow> nat \<Rightarrow> nat \<Rightarrow> nat" where
  "chunk pn l k = page_addr pn + k * SIZE l"

text \<open>Page \<open>pn\<close> is cut into chunks of class \<open>l\<close>, of which \<open>cs\<close> are free.\<close>

definition page_has :: "heap \<Rightarrow> nat \<Rightarrow> nat \<Rightarrow> nat list \<Rightarrow> bool" where
  "page_has h l pn cs \<longleftrightarrow> l < NUMSMALL \<and> 0 < pn \<and> pg_code (ph_tab h pn) = l \<and> cs \<noteq> [] \<and>
     pg_count (ph_tab h pn) = int (length cs) \<and> length cs \<le> PERPAGE l \<and> distinct cs \<and>
     clist (hp_next h) (chunk pn l (pg_free (ph_tab h pn))) cs \<and> set cs \<subseteq> chunk pn l ` {..<PERPAGE l}"

lemma clist_cong: "(\<And>x. x \<in> set xs \<Longrightarrow> nx' x = nx x) \<Longrightarrow> clist nx' p xs = clist nx p xs"
  by (induction xs arbitrary: p) simp_all

lemma clist_upd [simp]: "x \<notin> set xs \<Longrightarrow> clist (nx(x := v)) p xs = clist nx p xs"
  by (rule clist_cong) auto

lemma SIZE_pos: "0 < SIZE l" "SIZE l \<noteq> 0"
  by (simp_all add: SIZE_def push_bit_eq_mult)

lemma SIZE_PERPAGE: "l < NUMSMALL \<Longrightarrow> SIZE l * PERPAGE l = PAGESIZE \<and> PERPAGE l \<le> 512 \<and> 0 < PERPAGE l \<and> TARGET l \<le> PERPAGE l \<and> 0 < TARGET l"
proof -
  assume "l < NUMSMALL"
  then have "l \<in> {0, 1, 2, 3, 4, 5, 6, 7, 8}" by (auto simp: NUMSMALL_def size256_def)
  then show ?thesis by (elim insertE emptyE; simp add: SIZE_def PERPAGE_def TARGET_def PAGESIZE_def NUMSMALL_def size256_def)
qed

lemma chunk_page: "l < NUMSMALL \<Longrightarrow> k < PERPAGE l \<Longrightarrow> page_of (chunk pn l k) = pn \<and> chunk pn l k mod SIZE l = 0"
proof -
  assume "l < NUMSMALL" "k < PERPAGE l"
  then have s: "SIZE l * PERPAGE l = PAGESIZE" "k * SIZE l < PAGESIZE"
    using SIZE_PERPAGE [of l] SIZE_pos [of l] by (auto, metis mult.commute mult_less_mono2)
  have "page_addr pn mod SIZE l = 0" unfolding page_addr_def s(1) [symmetric] by simp
  then show ?thesis using s(2) by (simp add: chunk_def page_of_def page_addr_def mod_add_left_eq [symmetric] PAGESIZE_def)
qed

lemma chunk_eq: "chunk pn l j = chunk pn l k \<longleftrightarrow> j = k"
  using SIZE_pos [of l] by (simp add: chunk_def)

lemma link_chunks_eq:
  "0 < sz \<Longrightarrow> link_chunks j new sz nx x = (if \<exists>i < j. x = new + i * sz then x + sz else if x = new + j * sz then 0 else nx x)"
proof (induction j arbitrary: new nx)
  case (Suc j)
  have "(\<exists>i < Suc j. x = new + i * sz) \<longleftrightarrow> x = new \<or> (\<exists>i < j. x = new + sz + i * sz)"
    by (auto simp: less_Suc_eq_0_disj)
  then show ?case using Suc by auto
qed auto

lemma clist_chunks:
  assumes "0 < new" "i \<le> j" "0 < sz"
  shows "clist (link_chunks j new sz nx) (new + i * sz) (map (\<lambda>k. new + k * sz) [i..<Suc j])"
  using assms(2)
proof (induction "j - i" arbitrary: i)
  case 0
  then have "i = j" by simp
  then show ?case using assms by (auto simp: link_chunks_eq)
next
  case (Suc d)
  then have i: "i < j" "d = j - Suc i" "Suc i \<le> j" by auto
  have "link_chunks j new sz nx (new + i * sz) = new + Suc i * sz" using assms(3) i(1) by (auto simp: link_chunks_eq)
  then show ?case using Suc.hyps(1) [OF i(2,3)] assms i(1) by (simp add: upt_conv_Cons)
qed

section \<open>A page of chunks\<close>

lemma bits_small: "k < 2 ^ 11 \<Longrightarrow> bits11 (int k) = k" "- (2 ^ 11) \<le> x \<Longrightarrow> x < 2 ^ 11 \<Longrightarrow> bits12 x = x"
  by (simp_all add: bits11_def bits12_def)

text \<open>A new page: all of its chunks, in the order of their addresses.\<close>

lemma cut_page_has:
  assumes "l < NUMSMALL" "0 < pn"
  shows "page_has (cut_page l (page_addr pn) h) l pn (map (chunk pn l) [0..<PERPAGE l])"
proof -
  note sz = SIZE_PERPAGE [OF assms(1)] and pos = SIZE_pos [of l]
  have "0 < page_addr pn" using assms(2) by (simp add: page_addr_def PAGESIZE_def)
  then have "clist (link_chunks (PERPAGE l - 1) (page_addr pn) (SIZE l) (hp_next h)) (page_addr pn + 0 * SIZE l)
    (map (\<lambda>k. page_addr pn + k * SIZE l) [0..<Suc (PERPAGE l - 1)])" by (intro clist_chunks) (use pos in auto)
  moreover have "Suc (PERPAGE l - 1) = PERPAGE l" using sz by simp
  ultimately have "clist (link_chunks (PERPAGE l - 1) (page_addr pn) (SIZE l) (hp_next h)) (page_addr pn) (map (chunk pn l) [0..<PERPAGE l])"
    by (simp add: chunk_def [abs_def])
  moreover have "distinct (map (chunk pn l) [0..<PERPAGE l])" by (simp add: distinct_map inj_on_def chunk_eq)
  moreover have "bits12 (int (PERPAGE l)) = int (PERPAGE l)" using sz by (intro bits_small) auto
  ultimately show ?thesis using assms sz
    by (auto simp: page_has_def cut_page_def Let_def extent_addr chunk_def)
qed

text \<open>Taking the first chunk leaves the others.\<close>

lemma take_chunk_has:
  assumes has: "page_has h l pn (x # cs)" and pn: "hp_freechunks h l = pn"
  shows "\<exists>p. pg_page p = pg_page (ph_tab h pn) \<and> pg_code p = l \<and>
    take_chunk l h = Some (x, h\<lparr>ph_tab := (ph_tab h)(pn := p),
      hp_freechunks := (if cs = [] then (hp_freechunks h)(l := pg_page p) else hp_freechunks h)\<rparr>) \<and>
    (cs \<noteq> [] \<longrightarrow> (\<forall>h'. ph_tab h' = (ph_tab h)(pn := p) \<and> (\<forall>y \<in> set cs. hp_next h' y = hp_next h y) \<longrightarrow> page_has h' l pn cs))"
proof -
  have l: "l < NUMSMALL" "0 < pn" "pg_code (ph_tab h pn) = l" "pg_count (ph_tab h pn) = int (length (x # cs))"
    "length (x # cs) \<le> PERPAGE l" "distinct (x # cs)" and x: "chunk pn l (pg_free (ph_tab h pn)) = x" "x \<noteq> 0"
    and cl: "clist (hp_next h) (hp_next h x) cs" and sub: "set (x # cs) \<subseteq> chunk pn l ` {..<PERPAGE l}"
    using has by (auto simp: page_has_def)
  note sz = SIZE_PERPAGE [OF l(1)]
  have new: "page_addr pn + pg_free (ph_tab h pn) * SIZE l = x" using x(1) by (simp add: chunk_def)
  have cnt: "bits12 (pg_count (ph_tab h pn) - 1) = int (length cs)"
    using l(4,5) sz by (subst bits_small) auto
  show ?thesis
  proof (cases cs)
    case Nil
    then have nx: "hp_next h x = 0" using cl by simp
    let ?p = "(ph_tab h pn)\<lparr>pg_free := 0, pg_count := 0\<rparr>"
    have "take_chunk l h = Some (x, h\<lparr>ph_tab := (ph_tab h)(pn := ?p), hp_freechunks := (hp_freechunks h)(l := pg_page ?p)\<rparr>)"
      using l(4) Nil nx cnt by (simp add: take_chunk_def pn new Let_def)
    then show ?thesis using Nil l(3) by (intro exI [of _ ?p]) simp
  next
    case (Cons y ys)
    then obtain k where k: "hp_next h x = y" "y \<noteq> 0" "y = chunk pn l k" "k < PERPAGE l" using cl sub by auto
    have "to_ulong (int y - int (page_addr pn)) = k * SIZE l"
    proof -
      have "k * SIZE l < PAGESIZE" using sz k(4) SIZE_pos [of l] by (metis mult.commute mult_less_mono2)
      then have "k * SIZE l < 2 ^ 64" by (simp add: PAGESIZE_def)
      moreover have "to_ulong (int m) = m" if "m < 2 ^ 64" for m using that by (simp add: to_ulong_def)
      moreover have eq: "int y - int (page_addr pn) = int (k * SIZE l)" by (simp add: k(3) chunk_def)
      ultimately show ?thesis unfolding eq by blast
    qed
    then have fr: "bits11 (int (to_ulong (int y - int (page_addr pn)) div SIZE l)) = k"
      using k(4) sz SIZE_pos [of l] by (simp add: bits_small)
    let ?p = "(ph_tab h pn)\<lparr>pg_free := k, pg_count := int (length cs)\<rparr>"
    have "take_chunk l h = Some (x, h\<lparr>ph_tab := (ph_tab h)(pn := ?p)\<rparr>)"
      using k(1,2) fr cnt Cons by (simp add: take_chunk_def pn new Let_def)
    moreover have "page_has h' l pn cs" if h': "ph_tab h' = (ph_tab h)(pn := ?p)" "\<forall>y \<in> set cs. hp_next h' y = hp_next h y" for h'
    proof -
      have "clist (hp_next h') y cs" using clist_cong [of cs "hp_next h'" "hp_next h" y] h'(2) cl k(1) by blast
      then show ?thesis using h'(1) l sub k(3) Cons by (simp add: page_has_def)
    qed
    ultimately show ?thesis using Cons l(3) by (intro exI [of _ ?p]) simp
  qed
qed

text \<open>
  The loop of \<open>malloc_small\<close> on a page with enough free chunks takes the first ones; the last one taken is first in
  the new list.
\<close>

lemma upd_swap: "(h :: heap)\<lparr>hp_freechunks := a, hp_next := b\<rparr> = h\<lparr>hp_next := b, hp_freechunks := a\<rparr>"
  by (cases h) simp

lemma refill_has:
  assumes "page_has h l pn (xs @ ys)" "hp_freechunks h l = pn" "clist (hp_next h) fl fs" "set fs \<inter> set (xs @ ys) = {}"
  shows "\<exists>p nx. refill os l (length xs) fl h = Some (Some (hd (rev xs @ fs @ [0])),
      h\<lparr>ph_tab := (ph_tab h)(pn := p), hp_next := nx,
        hp_freechunks := (hp_freechunks h)(l := (if ys = [] then pg_page (ph_tab h pn) else pn))\<rparr>) \<and>
    pg_page p = pg_page (ph_tab h pn) \<and> pg_code p = l \<and> clist nx (hd (rev xs @ fs @ [0])) (rev xs @ fs) \<and>
    (\<forall>y. y \<notin> set xs \<longrightarrow> nx y = hp_next h y) \<and>
    (ys \<noteq> [] \<longrightarrow> (\<forall>h'. ph_tab h' = (ph_tab h)(pn := p) \<and> (\<forall>y \<in> set ys. hp_next h' y = hp_next h y) \<longrightarrow> page_has h' l pn ys))"
  using assms
proof (induction xs arbitrary: h fl fs)
  case Nil
  have fl: "fl = hd (fs @ [0])" using Nil(3) by (cases fs) auto
  have "ys \<noteq> []" using Nil(1) by (auto simp: page_has_def)
  moreover have "(hp_freechunks h)(l := pn) = hp_freechunks h" using Nil(2) by auto
  moreover have "page_has h' l pn ys" if "ph_tab h' = ph_tab h" "\<forall>y \<in> set ys. hp_next h' y = hp_next h y" for h'
    using Nil(1) that clist_cong [of ys "hp_next h'" "hp_next h"] by (simp add: page_has_def)
  ultimately show ?case using Nil fl
    by (intro exI [of _ "ph_tab h pn"] exI [of _ "hp_next h"]) (simp add: page_has_def)
next
  case (Cons x xs)
  obtain p where p: "pg_page p = pg_page (ph_tab h pn)" "pg_code p = l"
    "take_chunk l h = Some (x, h\<lparr>ph_tab := (ph_tab h)(pn := p),
      hp_freechunks := (if xs @ ys = [] then (hp_freechunks h)(l := pg_page p) else hp_freechunks h)\<rparr>)"
    and rest: "xs @ ys \<noteq> [] \<Longrightarrow> ph_tab h' = (ph_tab h)(pn := p) \<Longrightarrow> \<forall>y \<in> set (xs @ ys). hp_next h' y = hp_next h y \<Longrightarrow>
      page_has h' l pn (xs @ ys)" for h'
    using take_chunk_has [of h l pn x "xs @ ys"] Cons.prems(1,2) by auto
  have x: "x \<noteq> 0" "x \<notin> set (xs @ ys)" "hp_freechunks h l \<noteq> 0" using Cons.prems(1,2) by (auto simp: page_has_def)
  define h1 where "h1 = h\<lparr>ph_tab := (ph_tab h)(pn := p), hp_next := (hp_next h)(x := fl),
      hp_freechunks := (if xs @ ys = [] then (hp_freechunks h)(l := pg_page p) else hp_freechunks h)\<rparr>"
  have run: "refill os l (length (x # xs)) fl h = refill os l (length xs) x h1"
    using x(3) p(3) by (simp add: h1_def upd_swap)
  have xf: "x \<notin> set fs" using Cons.prems(4) by auto
  then have cl: "clist (hp_next h1) x (x # fs)" using x(1) Cons.prems(3) by (simp add: h1_def)
  show ?case
  proof (cases "xs @ ys = []")
    case True
    then show ?thesis unfolding run using cl p(1,2) x(1)
      by (intro exI [of _ p] exI [of _ "hp_next h1"]) (simp add: h1_def fun_upd_def)
  next
    case False
    have has: "page_has h1 l pn (xs @ ys)" by (rule rest) (use False x(2) in \<open>auto simp: h1_def\<close>)
    have fc: "hp_freechunks h1 l = pn" using False Cons.prems(2) by (auto simp: h1_def)
    have dj: "set (x # fs) \<inter> set (xs @ ys) = {}" using x(2) Cons.prems(4) by auto
    obtain q nx where q: "refill os l (length xs) x h1 = Some (Some (hd (rev xs @ (x # fs) @ [0])),
        h1\<lparr>ph_tab := (ph_tab h1)(pn := q), hp_next := nx,
          hp_freechunks := (hp_freechunks h1)(l := (if ys = [] then pg_page (ph_tab h1 pn) else pn))\<rparr>)"
      "pg_page q = pg_page (ph_tab h1 pn)" "pg_code q = l" "clist nx (hd (rev xs @ (x # fs) @ [0])) (rev xs @ x # fs)"
      "\<forall>y. y \<notin> set xs \<longrightarrow> nx y = hp_next h1 y"
      "ys \<noteq> [] \<longrightarrow> (\<forall>h'. ph_tab h' = (ph_tab h1)(pn := q) \<and> (\<forall>y \<in> set ys. hp_next h' y = hp_next h1 y) \<longrightarrow> page_has h' l pn ys)"
      using Cons.IH [OF has fc cl dj] by blast
    have pp: "pg_page (ph_tab h1 pn) = pg_page (ph_tab h pn)" using p(1) by (simp add: h1_def)
    have eq: "h1\<lparr>ph_tab := (ph_tab h1)(pn := q), hp_next := nx, hp_freechunks := (hp_freechunks h1)(l := v)\<rparr> =
      h\<lparr>ph_tab := (ph_tab h)(pn := q), hp_next := nx, hp_freechunks := (hp_freechunks h)(l := v)\<rparr>" for v
      using False by (auto simp: h1_def)
    have tab: "(ph_tab h1)(pn := q) = (ph_tab h)(pn := q)" by (simp add: h1_def)
    have nx: "hp_next h1 y = hp_next h y" if "y \<noteq> x" for y using that by (simp add: h1_def)
    have "nx y = hp_next h y" if "y \<notin> set (x # xs)" for y using q(5) nx that by simp
    moreover have "page_has h' l pn ys" if "ys \<noteq> []" "ph_tab h' = (ph_tab h)(pn := q)" "\<forall>y \<in> set ys. hp_next h' y = hp_next h y" for h'
    proof -
      have "hp_next h' y = hp_next h1 y" if "y \<in> set ys" for y
        using \<open>\<forall>y \<in> set ys. hp_next h' y = hp_next h y\<close> that nx [of y] x(2) by (cases "y = x") auto
      then show ?thesis using q(6) that unfolding tab by blast
    qed
    ultimately show ?thesis unfolding run using q(1-4) unfolding eq pp
      by (intro exI [of _ q] exI [of _ nx]) (simp add: fun_upd_def)
  qed
qed

section \<open>The first block of a class\<close>

lemma pool_lock: "pool_ok h E \<Longrightarrow> l < NUMSMALL \<Longrightarrow> pool_ok (h\<lparr>hp_locks := (hp_locks h)[l := v]\<rparr>) E"
  by (simp add: pool_ok_def layout_def brk_inv_def)

lemma pool_local [simp]: "pool_ok (set_local l f h) E = pool_ok h E"
  by (simp add: pool_ok_def layout_def brk_inv_def set_local_def)

text \<open>The loop on a class without free chunks first gets a new page.\<close>

lemma refill_new_page:
  assumes "hp_freechunks h l = 0" "valloc os PAGESIZE h = Some (page_addr pn, h1)" "0 < pn"
  shows "refill os l (Suc i) fl h = refill os l (Suc i) fl (cut_page l (page_addr pn) h1)"
proof -
  have "hp_freechunks (cut_page l (page_addr pn) h1) l = pn" by (simp add: cut_page_def Let_def extent_addr)
  then show ?thesis using assms by (simp add: extent_addr)
qed

text \<open>A page of chunks is not an extent.\<close>

lemma pool_cut:
  assumes ok: "pool_ok h (E(pn := Some (1, False)))" and E: "E pn = None" and l: "l < NUMSMALL" and q: "pg_code q = l"
    and h': "ph_tab h' = (ph_tab h)(pn := q)" "ph_fp h' = ph_fp h" "ph_end h' = ph_end h" "hp_brk h' = hp_brk h" "hp_eof h' = hp_eof h"
      "hp_localbrk h' = hp_localbrk h" "hp_mapped h' = hp_mapped h" "hp_locks h' = hp_locks h" "hp_mfd h' = hp_mfd h"
  shows "pool_ok h' E"
proof -
  let ?E = "E(pn := Some (1, False))"
  have t: "table_ok (ph_tab h) (ph_end h) ?E" and st: "store_ok (ph_fp h) ?E {}" using ok by (auto simp: pool_ok_def layout_def)
  have sub: "?E x = Some y" if "E x = Some y" for x y using that E by auto
  have ext: "extent_ok (ph_tab h) x n f \<and> x + n \<le> ph_end h" "x \<noteq> pn" "\<not> (x \<le> pn \<and> pn < x + n)" if "E x = Some (n, f)" for x n f
  proof -
    show "extent_ok (ph_tab h) x n f \<and> x + n \<le> ph_end h" using table_extent [OF t sub [OF that]] .
    show "x \<noteq> pn" using that E by auto
    then show "\<not> (x \<le> pn \<and> pn < x + n)" using table_disjoint [OF t sub [OF that], of pn 1 False] by auto
  qed
  have code: "l \<notin> {BIG, BIG + FREE, MIDDLE}" using l by (auto simp: code_defs NUMSMALL_def size256_def)
  have "disjoint_extents E" using t sub unfolding table_ok_def disjoint_extents_def by meson
  moreover have "extent_ok (ph_tab h') x n f \<and> x + n \<le> ph_end h" if "E x = Some (n, f)" for x n f
    using ext [OF that] unfolding h' extent_ok_def by auto
  moreover have "pg_code (ph_tab h' i) \<notin> {BIG, BIG + FREE, MIDDLE}" if i: "i < ph_end h" "\<not> inside E i" for i
  proof (cases "i = pn")
    case False
    then have "\<not> inside ?E i" using i(2) unfolding inside_def by (auto split: if_splits)
    then show ?thesis using t i(1) False unfolding table_ok_def h' by auto
  qed (use code q in \<open>auto simp: h'\<close>)
  ultimately have "table_ok (ph_tab h') (ph_end h') E" unfolding table_ok_def h'(3) by blast
  moreover have fs: "free_starts ?E = free_starts E" using E by (auto simp: free_starts_def)
  have "store_ok (ph_fp h') E {}" using st ext(2) unfolding store_ok_def h' fs by (auto split: if_splits)
  ultimately have "layout h' E" using ok by (simp add: layout_def pool_ok_def h')
  moreover have "\<forall>p n f. E p = Some (n, f) \<longrightarrow> 3 \<le> p" using ok sub unfolding pool_ok_def by blast
  ultimately show ?thesis using ok by (simp add: pool_ok_def brk_inv_def h')
qed

lemma brk_frame_lists:
  assumes "brk_frame h h'"
  shows "hp_local h' = hp_local h" "hp_freechunks h' = hp_freechunks h"
  using arg_cong [OF assms [unfolded brk_frame_def], of hp_local] arg_cong [OF assms [unfolded brk_frame_def], of hp_freechunks]
  by simp_all

lemma refill_fresh:
  assumes ok: "pool_ok h E" and os: "os_ok os" and l: "l < NUMSMALL" and fc: "hp_freechunks h l = 0" and n: "0 < n" "n \<le> PERPAGE l"
    and free: "\<forall>x k. E x \<noteq> Some (k, True)" and small: "(ph_end h + 1) * PAGESIZE < 2 ^ 31" "I1 (ph_end h) = I1 (ph_end h - 1)"
  shows "\<exists>h'. refill os l n 0 h = Some (Some (chunk (ph_end h) l (n - 1)), h') \<and> pool_ok h' E \<and> ph_end h' = ph_end h + 1 \<and>
    hp_local h' = hp_local h \<and> hp_locks h' = hp_locks h \<and>
    pg_code (ph_tab h' (ph_end h)) = l \<and>
    clist (hp_next h') (chunk (ph_end h) l (n - 1)) (rev (map (chunk (ph_end h) l) [0..<n])) \<and>
    (if n = PERPAGE l then hp_freechunks h' l = 0
     else hp_freechunks h' l = ph_end h \<and> page_has h' l (ph_end h) (map (chunk (ph_end h) l) [n..<PERPAGE l]))"
proof -
  let ?pn = "ph_end h" and ?xs = "map (chunk (ph_end h) l) [0..<n]" and ?ys = "map (chunk (ph_end h) l) [n..<PERPAGE l]"
  have pn: "0 < ?pn" using ok by (auto simp: pool_ok_def)
  have one: "1 = valloc_pages PAGESIZE" "page_addr (?pn + 1) < 2 ^ 31" "I1 (?pn + 1 - 1) = I1 (?pn - 1)"
    using small by (simp_all add: valloc_pages_def PAGESIZE_def page_addr_def)
  obtain g h1 where v: "valloc os PAGESIZE h = Some (page_addr ?pn, h1)" and g: "brk_frame h g" "brk_inv g"
      "hp_brk g = int (page_addr (?pn + 1))" "hp_brk g \<le> hp_localbrk g"
    and h1: "h1 = setup_extent_descriptor ?pn (int 1) (g\<lparr>ph_end := ?pn + 1\<rparr>)"
    using valloc_grow_run [OF ok os one(1) _ one(2,3)] free by blast
  have ok1: "pool_ok h1 (E(?pn := Some (1, False)))" by (rule pool_ok_grown [OF ok _ one(2) g h1]) simp
  have E: "E ?pn = None"
    using ok table_extent [of "ph_tab h" ?pn E ?pn] unfolding pool_ok_def layout_def
    by (cases "E ?pn") (fastforce simp: extent_ok_def)+
  have f1: "ph_end h1 = ?pn + 1" "hp_locks h1 = hp_locks h" "hp_local h1 = hp_local h" "hp_freechunks h1 = hp_freechunks h"
    using brk_frame_fields(4) [OF g(1)] brk_frame_lists [OF g(1)] by (simp_all add: h1 setup_extent_descriptor_def)
  define c where "c = cut_page l (page_addr ?pn) h1"
  have cf: "ph_end c = ?pn + 1" "hp_locks c = hp_locks h" "hp_local c = hp_local h" "hp_freechunks c = (hp_freechunks h)(l := ?pn)"
    "ph_fp c = ph_fp h1" "hp_brk c = hp_brk h1" "hp_eof c = hp_eof h1" "hp_localbrk c = hp_localbrk h1" "hp_mapped c = hp_mapped h1"
    "hp_mfd c = hp_mfd h1" "pg_page (ph_tab c ?pn) = 0" "\<And>q. (ph_tab c)(?pn := q) = (ph_tab h1)(?pn := q)"
    using f1 by (simp_all add: c_def cut_page_def Let_def extent_addr)
  have spl: "map (chunk ?pn l) [0..<PERPAGE l] = ?xs @ ?ys"
    using n(2) upt_add_eq_append [of 0 n "PERPAGE l - n"] by simp
  have has: "page_has c l ?pn (?xs @ ?ys)" using cut_page_has [OF l pn, of h1] unfolding spl c_def .
  have fc': "hp_freechunks c l = ?pn" by (simp add: cf)
  obtain p nx where r: "refill os l (length ?xs) 0 c = Some (Some (hd (rev ?xs @ [] @ [0])),
      c\<lparr>ph_tab := (ph_tab c)(?pn := p), hp_next := nx,
        hp_freechunks := (hp_freechunks c)(l := (if ?ys = [] then pg_page (ph_tab c ?pn) else ?pn))\<rparr>)"
    "pg_code p = l" "clist nx (hd (rev ?xs @ [] @ [0])) (rev ?xs @ [])" "\<forall>y. y \<notin> set ?xs \<longrightarrow> nx y = hp_next c y"
    "?ys \<noteq> [] \<longrightarrow> (\<forall>h'. ph_tab h' = (ph_tab c)(?pn := p) \<and> (\<forall>y \<in> set ?ys. hp_next h' y = hp_next c y) \<longrightarrow> page_has h' l ?pn ?ys)"
    using refill_has [OF has fc', of 0 "[]" os] by auto
  let ?h = "c\<lparr>ph_tab := (ph_tab c)(?pn := p), hp_next := nx,
        hp_freechunks := (hp_freechunks c)(l := (if ?ys = [] then pg_page (ph_tab c ?pn) else ?pn))\<rparr>"
  have hd: "hd (rev ?xs @ [] @ [0]) = chunk ?pn l (n - 1)" using n(1) by (cases n) simp_all
  obtain i where i: "n = Suc i" using n(1) by (cases n) auto
  define h2 where "h2 = ?h"
  have f2: "ph_tab h2 = (ph_tab c)(?pn := p)" "hp_next h2 = nx" "hp_freechunks h2 l = (if ?ys = [] then 0 else ?pn)"
    "ph_end h2 = ?pn + 1" "hp_local h2 = hp_local h" "hp_locks h2 = hp_locks h"
    using cf(1-3,11) by (simp_all add: h2_def)
  have run: "refill os l n 0 h = Some (Some (chunk ?pn l (n - 1)), h2)"
    using refill_new_page [OF fc v pn, of i 0] r(1) hd unfolding c_def [symmetric] i h2_def by simp
  have ok': "pool_ok h2 E" by (rule pool_cut [OF ok1 E l r(2)]) (use cf f1 in \<open>simp_all add: h2_def\<close>)
  have "page_has h2 l ?pn ?ys" if ne: "?ys \<noteq> []"
  proof -
    have "set ?xs \<inter> set ?ys = {}" using has by (auto simp: page_has_def)
    then have "y \<notin> set ?xs" if "y \<in> set ?ys" for y using that by blast
    then have "\<forall>y \<in> set ?ys. hp_next h2 y = hp_next c y" using r(4) by (simp add: f2(2))
    then show ?thesis using r(5) ne f2(1) by blast
  qed
  moreover have ys: "?ys = [] \<longleftrightarrow> n = PERPAGE l" using n(2) by auto
  moreover have "clist (hp_next h2) (chunk ?pn l (n - 1)) (rev ?xs)" "pg_code (ph_tab h2 ?pn) = l"
    using r(2,3) hd by (simp_all add: f2)
  moreover have "if n = PERPAGE l then hp_freechunks h2 l = 0 else hp_freechunks h2 l = ?pn" using f2(3) ys by simp
  ultimately show ?thesis using run ok' f2(4-6) by (intro exI [of _ h2]) (simp split: if_splits)
qed

section \<open>Properties\<close>

text \<open>
  The first small block of a class. If a thread has no chunks of class \<open>l\<close>, the class has no page with free chunks and the
  pool no free extent, \<open>malloc_small\<close> takes one new page from the end of the pool and cuts it. The block that it returns lies
  in that page, has the size of the class, and is none of the free ones; the thread keeps \<open>TARGET - 1\<close> more in
  its own list, whose counter is right, and the page the rest. The extents of the pool are as before and the locks are free again.
\<close>

theorem small_malloc_refills:
  assumes "pool_ok h E" "os_ok os" "l < NUMSMALL" "hp_local h l = empty_local" "hp_freechunks h l = 0" "hp_locks h ! l = 0"
    and "\<forall>x k. E x \<noteq> Some (k, True)" "(ph_end h + 1) * PAGESIZE < 2 ^ 31" "I1 (ph_end h) = I1 (ph_end h - 1)"
  shows "\<exists>h' fs a. malloc_small os l h = Some (a, h') \<and> pool_ok h' E \<and> ph_end h' = ph_end h + 1 \<and>
    page_of a = ph_end h \<and> msize a h' = Some (SIZE l) \<and>
    clist (hp_next h') (lf_free (hp_local h' l)) fs \<and> lf_count (hp_local h' l) = length fs \<and> length fs = TARGET l - 1 \<and>
    distinct (a # fs) \<and> (\<forall>x \<in> set fs. page_of x = ph_end h \<and> x mod SIZE l = 0) \<and> hp_locks h' = hp_locks h \<and>
    (if TARGET l = PERPAGE l then hp_freechunks h' l = 0
     else page_has h' l (hp_freechunks h' l) (map (chunk (ph_end h) l) [TARGET l..<PERPAGE l]))"
proof -
  note sz = SIZE_PERPAGE [OF assms(3)]
  have tp: "0 < TARGET l" "TARGET l \<le> PERPAGE l" using sz by auto
  let ?pn = "ph_end h" and ?n = "TARGET l"
  define f where "f = empty_local\<lparr>lf_target := ?n\<rparr>"
  define h0 where "h0 = (set_local l f h)\<lparr>hp_locks := (hp_locks h)[l := 1]\<rparr>"
  have tg: "to_ushort (int ?n) = ?n" using sz by (simp add: to_ushort_def)
  have lk: "LOCK l (set_local l f h) = Some h0" using assms(6) by (simp add: LOCK_def h0_def set_local_def)
  have pre: "pool_ok h0 E" "hp_freechunks h0 l = 0" "ph_end h0 = ?pn" "hp_local h0 = (hp_local h)(l := f)" "hp_locks h0 = (hp_locks h)[l := 1]"
    using pool_lock [of "set_local l f h" E l 1] assms(1,3,5) by (simp_all add: h0_def) (simp_all add: set_local_def)
  obtain h1 where h1: "refill os l ?n 0 h0 = Some (Some (chunk ?pn l (?n - 1)), h1)" "pool_ok h1 E" "ph_end h1 = ?pn + 1"
    "hp_local h1 = (hp_local h)(l := f)" "hp_locks h1 = (hp_locks h)[l := 1]" "pg_code (ph_tab h1 ?pn) = l"
    "clist (hp_next h1) (chunk ?pn l (?n - 1)) (rev (map (chunk ?pn l) [0..<?n]))"
    "if ?n = PERPAGE l then hp_freechunks h1 l = 0
     else hp_freechunks h1 l = ?pn \<and> page_has h1 l ?pn (map (chunk ?pn l) [?n..<PERPAGE l])"
    using refill_fresh [OF pre(1) assms(2,3) pre(2) tp assms(7), unfolded pre(3,4,5), OF assms(8,9)]
    by (elim exE conjE) (rule that)
  obtain m where m: "?n = Suc m" using sz by (cases ?n) auto
  let ?a = "chunk ?pn l m" and ?fs = "rev (map (chunk ?pn l) [0..<m])"
  define h' where "h' = set_local l (f\<lparr>lf_free := hp_next h1 ?a, lf_count := m\<rparr>) (UNLOCK l h1)"
  have cl: "?a \<noteq> 0" "clist (hp_next h1) (hp_next h1 ?a) ?fs" using h1(7) by (simp_all add: m)
  have "malloc_small os l h = Some (?a, h')"
  proof -
    have f: "lf_target f = ?n" "lf_free f = 0" "lf_aux f = 0" by (simp_all add: f_def empty_local_def)
    have e: "lf_target empty_local = 0" "lf_free empty_local = 0" "lf_aux empty_local = 0" by (simp_all add: empty_local_def)
    have "malloc_small os l h =
      Some (pop_local l (set_local l (f\<lparr>lf_free := chunk ?pn l (?n - 1), lf_count := ?n\<rparr>) (UNLOCK l h1)))"
      using assms(3,4) lk h1(1) tg f e by (simp add: malloc_small_def f_def [symmetric] Let_def del: refill.simps)
    also have "\<dots> = Some (?a, h')"
      using m sz by (simp add: pop_local_def h'_def set_local_def UNLOCK_def to_ushort_def Let_def)
    finally show ?thesis .
  qed
  moreover have "pool_ok h' E" using pool_lock [OF h1(2) assms(3), of 0] by (simp add: h'_def UNLOCK_def)
  moreover have "hp_locks h' = hp_locks h"
    using assms(6) list_update_id [of "hp_locks h" l] by (simp add: h'_def UNLOCK_def set_local_def h1(5))
  moreover have f': "ph_tab h' = ph_tab h1" "hp_next h' = hp_next h1" "hp_freechunks h' = hp_freechunks h1" "ph_end h' = ?pn + 1"
    "lf_free (hp_local h' l) = hp_next h1 ?a" "lf_count (hp_local h' l) = m"
    using h1(3) by (simp_all add: h'_def UNLOCK_def set_local_def)
  moreover have pg: "page_of (chunk ?pn l k) = ?pn \<and> chunk ?pn l k mod SIZE l = 0" if "k \<le> m" for k
    using chunk_page [OF assms(3)] that m sz by simp
  moreover have "msize ?a h' = Some (SIZE l)" using pg [of m] h1(6) assms(3) f'(1) by (simp add: msize_def)
  moreover have "distinct (?a # ?fs)" by (auto simp: distinct_map inj_on_def chunk_eq)
  moreover have "page_has h' l ?pn cs = page_has h1 l ?pn cs" for cs by (simp add: page_has_def f')
  ultimately show ?thesis using cl(2) h1(8) m by (intro exI [of _ h'] exI [of _ ?fs] exI [of _ ?a]) (auto split: if_splits)
qed

lemma fresh_small: "hp_local fresh 3 = empty_local" "hp_freechunks fresh 3 = 0" "hp_locks fresh ! 3 = 0"
  "(ph_end fresh + 1) * PAGESIZE < 2 ^ 31" "I1 (ph_end fresh) = I1 (ph_end fresh - 1)" "(3 :: nat) < NUMSMALL"
  by (simp_all add: fresh_simps NUMSMALL_def size256_def PAGESIZE_def I1_def sizeof_page_def nth_Cons')

theorem small_malloc_refills_witness:
  "\<exists>h' a. malloc_small good_os 3 fresh = Some (a, h') \<and> page_of a = 3 \<and> msize a h' = Some 64 \<and> lf_count (hp_local h' 3) = 7"
proof -
  have none: "\<forall>x k. (Map.empty :: extents) x \<noteq> Some (k, True)" by simp
  obtain h' a where "malloc_small good_os 3 fresh = Some (a, h')" "page_of a = ph_end fresh" "msize a h' = Some (SIZE 3)"
    "lf_count (hp_local h' 3) = TARGET 3 - 1"
    using small_malloc_refills [OF fresh_pool fresh_small(6,1,2,3) none fresh_small(4,5)] by (elim exE conjE) (rule that, simp_all)
  moreover have "SIZE 3 = 64" "TARGET 3 = 8" by (simp_all add: SIZE_def TARGET_def NUMSMALL_def size256_def)
  ultimately show ?thesis unfolding fresh_simps by auto
qed

text \<open>
  The list of a thread is a stack. A chunk that is freed goes to the front, and the next request of its class gets it
  back; afterwards the pool is as before but for the link inside the chunk. This holds while the list is not full; when it
  is full and no second list is kept, the list becomes the second one, and the chunk is the only one in the new list.
\<close>

theorem small_free_reuses:
  assumes "a \<noteq> 0" "l = pg_code (ph_tab h (page_of a))" "l < NUMSMALL" "f = hp_local h l" "lf_count f < 2 ^ 16 - 1"
  shows "(lf_count f \<noteq> lf_target f \<longrightarrow> (\<exists>h1. free os a h = Some h1 \<and>
      malloc_small os l h1 = Some (a, h\<lparr>hp_next := (hp_next h)(a := lf_free f)\<rparr>))) \<and>
    (lf_count f = lf_target f \<and> lf_aux f = 0 \<longrightarrow>
      free os a h = Some (set_local l (f\<lparr>lf_aux := lf_free f, lf_count := 1, lf_free := a\<rparr>) (h\<lparr>hp_next := (hp_next h)(a := 0)\<rparr>)))"
proof (intro conjI impI)
  assume ne: "lf_count f \<noteq> lf_target f"
  define h1 where "h1 = set_local l (f\<lparr>lf_count := lf_count f + 1, lf_free := a\<rparr>) (h\<lparr>hp_next := (hp_next h)(a := lf_free f)\<rparr>)"
  have us: "to_ushort (int (lf_count f) + 1) = lf_count f + 1" "to_ushort (int (lf_count f + 1) - 1) = lf_count f"
    using assms(5) by (simp_all add: to_ushort_def nat_add_distrib)
  have "free os a h = Some h1" using assms(1-4) ne us(1) by (simp add: free_def h1_def Let_def)
  moreover have "(hp_local h)(l := f\<lparr>lf_count := lf_count f, lf_free := lf_free f\<rparr>) = hp_local h" using assms(4) by auto
  then have "malloc_small os l h1 = Some (a, h\<lparr>hp_next := (hp_next h)(a := lf_free f)\<rparr>)"
    using assms(1,3,4) us(2) by (simp add: malloc_small_def pop_local_def h1_def set_local_def Let_def)
  ultimately show "\<exists>h1. free os a h = Some h1 \<and> malloc_small os l h1 = Some (a, h\<lparr>hp_next := (hp_next h)(a := lf_free f)\<rparr>)" by blast
next
  assume "lf_count f = lf_target f \<and> lf_aux f = 0"
  then show "free os a h = Some (set_local l (f\<lparr>lf_aux := lf_free f, lf_count := 1, lf_free := a\<rparr>) (h\<lparr>hp_next := (hp_next h)(a := 0)\<rparr>))"
    using assms(1-4) by (cases h) (simp add: free_def set_local_def to_ushort_def Let_def)
qed

text \<open>A pool with one page of 64-byte chunks, of which the thread has one.\<close>

definition one_chunk :: heap where
  "one_chunk = fresh\<lparr>ph_tab := (ph_tab fresh)(3 := \<lparr>pg_page = 0, pg_free = 0, pg_count = 0, pg_code = 3\<rparr>),
     hp_local := (hp_local fresh)(3 := \<lparr>lf_free = 12352, lf_aux = 0, lf_count = 1, lf_target = 8\<rparr>)\<rparr>"

theorem small_free_reuses_witness:
  "\<exists>h1 h2. free good_os 12288 one_chunk = Some h1 \<and> malloc_small good_os 3 h1 = Some (12288, h2) \<and> hp_local h2 3 = hp_local one_chunk 3"
proof -
  have "3 = pg_code (ph_tab one_chunk (page_of 12288))" "(3 :: nat) < NUMSMALL"
    by (simp_all add: one_chunk_def page_of_def PAGESIZE_def NUMSMALL_def size256_def)
  from small_free_reuses [OF _ this refl] show ?thesis by (fastforce simp: one_chunk_def)
qed

end
