(* ===== verification/Debug_Checks.thy ===== *)
theory Debug_Checks
  imports Chunks
begin

text \<open>
  The checks that \<open>src/c/malloc.c\<close> has under \<open>MALLOC_DEBUG\<close>: the guard words in front of a block (\<open>lcrng\<close>, \<open>gsetup\<close>, \<open>gcheck\<close>), the walk
  over the list of free extents (\<open>fp_verify\<close>), the walks over the lists of free chunks at the start of \<open>free\<close>, and the copies of those
  lists (\<open>tbackup\<close>, \<open>balloc\<close>, \<open>bfree\<close>). The flag is not set in the build, and the other theories model the code without it; here the checks
  are defined on the same state, to say what they accept. Where the code prints a message and calls \<open>abort\<close>, the result is \<open>Inl\<close>
  of the error; \<^const>\<open>None\<close> means that a loop does not end. As in the other theories a pointer is the distance from \<open>membase\<close>, and
  page 0 is never handed out.
\<close>

section \<open>Guard words\<close>

definition lcrng :: "u64 \<Rightarrow> u64" where
  "lcrng s =
     (let md = push_bit 31 1 - 1;
          t = s * 16807;
          t1 = (t AND md) + drop_bit 31 t
      in if t1 > md then t1 - md else t1)"

definition GUARD :: u64 where "GUARD = 0xa1962f8d"

text \<open>The words of the memory by their addresses, which are relative to \<open>membase\<close>.\<close>

definition gsetup :: "nat \<Rightarrow> (nat \<Rightarrow> u64) \<Rightarrow> nat \<times> (nat \<Rightarrow> u64)" where
  "gsetup b w = (if b = 0 then (0, w) else (b + 16, w(b := GUARD, b + 8 := lcrng (of_int (membase + int b)))))"

definition gcheck :: "nat \<Rightarrow> (nat \<Rightarrow> u64) \<Rightarrow> nat option" where
  "gcheck b w =
     (if b = 0 then Some 0
      else let b = b - 16 in if w b \<noteq> GUARD \<or> w (b + 8) \<noteq> lcrng (of_int (membase + int b)) then None else Some b)"

section \<open>The list of free extents\<close>

datatype verify_error = List_corrupt | Tables_corrupt | Not_listed

definition VALID_page :: "'a pheap_scheme \<Rightarrow> nat \<Rightarrow> bool" where
  "VALID_page h x \<longleftrightarrow> 0 < x \<and> x < ph_end h"

text \<open>The conditions on \<open>t1->bigger\<close>, on \<open>t2->next\<close> and on the page table, for one descriptor.\<close>

definition bigger_ok :: "'a pheap_scheme \<Rightarrow> nat \<Rightarrow> bool" where
  "bigger_ok h x \<longleftrightarrow> (let s = ph_fp h in case deref s (Bigger x) of
     None \<Rightarrow> True | Some b \<Rightarrow> VALID_page h b \<and> size_of s x < size_of s b \<and> parent_of s b = Bigger x)"

definition next_ok :: "'a pheap_scheme \<Rightarrow> nat \<Rightarrow> bool" where
  "next_ok h x \<longleftrightarrow> (let s = ph_fp h in case deref s (Next x) of
     None \<Rightarrow> True | Some n \<Rightarrow> VALID_page h n \<and> deref s (Bigger n) = None \<and> size_of s x = size_of s n \<and> parent_of s n = Next x)"

definition pages_ok :: "'a pheap_scheme \<Rightarrow> nat \<Rightarrow> bool" where
  "pages_ok h x \<longleftrightarrow> (let m = ph_tab h; n = size_of (ph_fp h) x
     in pg_code (m x) = BIG + FREE \<and> usub (pg_page (m x)) (to_unsigned n) = x \<and>
        list_all (\<lambda>i. pg_code (m (x + i)) = MIDDLE \<and> pg_page (m (x + i)) = x) [1..<nat n])"

text \<open>The loop over \<open>t2\<close>, the loop over \<open>t1\<close>; \<open>p\<close> is the extent that is still to be found.\<close>

partial_function (option) verify_next :: "'a pheap_scheme \<Rightarrow> nat option \<Rightarrow> nat option \<Rightarrow> (verify_error + nat option) option" where
  "verify_next h p t2 =
     (case t2 of
        None \<Rightarrow> Some (Inr p)
      | Some x \<Rightarrow>
          let p' = (if p = Some x then None else p)
          in if \<not> next_ok h x then Some (Inl List_corrupt)
             else if \<not> pages_ok h x then Some (Inl Tables_corrupt)
             else verify_next h p' (deref (ph_fp h) (Next x)))"

partial_function (option) verify_sizes :: "'a pheap_scheme \<Rightarrow> nat option \<Rightarrow> nat option \<Rightarrow> (verify_error + nat option) option" where
  "verify_sizes h p t1 =
     (case t1 of
        None \<Rightarrow> Some (Inr p)
      | Some x \<Rightarrow>
          if \<not> bigger_ok h x then Some (Inl List_corrupt)
          else (case verify_next h p (Some x) of
                  None \<Rightarrow> None
                | Some (Inl e) \<Rightarrow> Some (Inl e)
                | Some (Inr p') \<Rightarrow> verify_sizes h p' (deref (ph_fp h) (Bigger x))))"

definition fp_verify :: "nat option \<Rightarrow> 'a pheap_scheme \<Rightarrow> (verify_error + unit) option" where
  "fp_verify p h =
     (if (case deref (ph_fp h) Root of None \<Rightarrow> False | Some r \<Rightarrow> \<not> VALID_page h r \<or> parent_of (ph_fp h) r \<noteq> Root) then Some (Inl List_corrupt)
      else case verify_sizes h p (deref (ph_fp h) Root) of
             None \<Rightarrow> None
           | Some (Inl e) \<Rightarrow> Some (Inl e)
           | Some (Inr None) \<Rightarrow> Some (Inr ())
           | Some (Inr (Some x)) \<Rightarrow> Some (Inl Not_listed))"

declare verify_next.simps [code] verify_sizes.simps [code]

section \<open>The lists of free chunks\<close>

datatype free_error = Invalid_pointer | Guard_corrupt | Double_free | Freelist_corrupt | Auxlist_corrupt | Page_corrupt

text \<open>
  The three loops of \<open>free\<close> over a list of chunks: \<open>valid\<close> is the condition on a chunk, \<open>err\<close> the error of the loop. They stop at the
  latest when \<open>i\<close> is above the limit.
\<close>

function chunk_walk :: "(nat \<Rightarrow> nat) \<Rightarrow> (nat \<Rightarrow> bool) \<Rightarrow> free_error \<Rightarrow> int \<Rightarrow> nat \<Rightarrow> nat \<Rightarrow> nat \<Rightarrow> free_error + nat" where
  "chunk_walk nx valid err limit old t i =
     (if t = 0 then Inr i
      else if t = old then Inl Double_free
      else if \<not> valid t then Inl err
      else if int i > limit then Inl err
      else chunk_walk nx valid err limit old (nx t) (i + 1))"
  by pat_completeness auto
termination by (relation "measure (\<lambda>(nx, valid, err, limit, old, t, i). nat (limit + 1 - int i))") auto

declare chunk_walk.simps [simp del]

definition VALID_chunk :: "heap \<Rightarrow> nat \<Rightarrow> nat \<Rightarrow> bool" where
  "VALID_chunk h l t \<longleftrightarrow> 0 < t \<and> t < ph_end h * PAGESIZE \<and> pg_code (ph_tab h (page_of t)) = l"

definition check_free_list :: "nat \<Rightarrow> nat \<Rightarrow> heap \<Rightarrow> free_error + unit" where
  "check_free_list l old h =
     (let f = hp_local h l
      in case chunk_walk (hp_next h) (VALID_chunk h l) Freelist_corrupt (int (lf_count f)) old (lf_free f) 0 of
           Inl e \<Rightarrow> Inl e | Inr i \<Rightarrow> if i \<noteq> lf_count f then Inl Freelist_corrupt else Inr ())"

definition check_aux_list :: "nat \<Rightarrow> nat \<Rightarrow> heap \<Rightarrow> free_error + unit" where
  "check_aux_list l old h =
     (let f = hp_local h l
      in case chunk_walk (hp_next h) (VALID_chunk h l) Auxlist_corrupt (int (lf_target f)) old (lf_aux f) 0 of
           Inl e \<Rightarrow> Inl e | Inr i \<Rightarrow> if i \<noteq> 0 \<and> i \<noteq> lf_target f then Inl Auxlist_corrupt else Inr ())"

definition check_page_list :: "nat \<Rightarrow> nat \<Rightarrow> heap \<Rightarrow> free_error + unit" where
  "check_page_list l old h =
     (let p = ph_tab h (page_of old)
      in if pg_count p = 0 then Inr ()
         else case chunk_walk (hp_next h) (\<lambda>t. t div PAGESIZE = old div PAGESIZE) Page_corrupt (pg_count p) old
                     (page_addr (page_of old) + pg_free p * SIZE l) 0 of
                Inl e \<Rightarrow> Inl e | Inr i \<Rightarrow> if int i \<noteq> pg_count p then Inl Page_corrupt else Inr ())"

definition free_checks :: "nat \<Rightarrow> (nat \<Rightarrow> u64) \<Rightarrow> heap \<Rightarrow> free_error + unit" where
  "free_checks user w h =
     (if user = 0 then Inr ()
      else if user \<ge> ph_end h * PAGESIZE then Inl Invalid_pointer
      else case gcheck user w of
        None \<Rightarrow> Inl Guard_corrupt
      | Some old \<Rightarrow>
          let l = pg_code (ph_tab h (page_of old))
          in if \<not> l < NUMSMALL then Inr ()
             else if old mod SIZE l \<noteq> 0 then Inl Invalid_pointer
             else case check_free_list l old h of Inl e \<Rightarrow> Inl e | Inr _ \<Rightarrow>
                  case check_aux_list l old h of Inl e \<Rightarrow> Inl e | Inr _ \<Rightarrow> check_page_list l old h)"

section \<open>Copies of the lists\<close>

text \<open>
  \<open>struct backup\<close>: a second list per size class, kept beside the lists of the thread and compared with them by \<open>tbackup\<close>, which aborts
  (\<open>Some False\<close>) when they differ. The elements come from whole pages; \<open>balloc\<close> does not test whether it got one, and writing to it without
  is the result \<^const>\<open>None\<close>.
\<close>

record backup =
  bk_next :: nat
  bk_item :: nat

record backups =
  bk_mem :: "nat \<Rightarrow> backup"
  bk_free :: "nat \<Rightarrow> nat"
  bk_aux :: "nat \<Rightarrow> nat"
  bk_spare :: nat

partial_function (option) backup_walk :: "(nat \<Rightarrow> nat) \<Rightarrow> (nat \<Rightarrow> backup) \<Rightarrow> nat \<Rightarrow> nat \<Rightarrow> bool option" where
  "backup_walk nx m p q =
     (if p = 0 \<or> q = 0 then Some (p = 0 \<and> q = 0)
      else if p \<noteq> bk_item (m q) then Some False
      else backup_walk nx m (nx p) (bk_next (m q)))"

definition tbackup :: "nat \<Rightarrow> backups \<Rightarrow> heap \<Rightarrow> bool option" where
  "tbackup i b h =
     (case backup_walk (hp_next h) (bk_mem b) (lf_free (hp_local h i)) (bk_free b i) of
        None \<Rightarrow> None
      | Some False \<Rightarrow> Some False
      | Some True \<Rightarrow> backup_walk (hp_next h) (bk_mem b) (lf_aux (hp_local h i)) (bk_aux b i))"

definition set_bk_next :: "nat \<Rightarrow> nat \<Rightarrow> (nat \<Rightarrow> backup) \<Rightarrow> nat \<Rightarrow> backup" where
  "set_bk_next q v m = m(q := (m q)\<lparr>bk_next := v\<rparr>)"

text \<open>\<open>for (i--; i>=0; i--) p[i].next = &p[i+1]\<close>, for the elements below \<open>i\<close>.\<close>

fun link_backups :: "nat \<Rightarrow> nat \<Rightarrow> (nat \<Rightarrow> backup) \<Rightarrow> nat \<Rightarrow> backup" where
  "link_backups p 0 m = m"
| "link_backups p (Suc i) m = link_backups p i (set_bk_next (p + 16 * i) (p + 16 * (i + 1)) m)"

definition balloc :: "os \<Rightarrow> backups \<Rightarrow> heap \<Rightarrow> (nat \<times> backups \<times> heap) option" where
  "balloc os b h = do {
     (b1, h1) \<leftarrow> (if bk_spare b = 0 then do {
                  (p, h1) \<leftarrow> valloc os PAGESIZE h;
                  if p = 0 then None
                  else let i = PAGESIZE div 16 - 1
                       in Some (b\<lparr>bk_mem := link_backups p i (set_bk_next (p + 16 * i) 0 (bk_mem b)), bk_spare := p\<rparr>, h1)
                } else Some (b, h));
     let p = bk_spare b1;
     Some (p, b1\<lparr>bk_spare := bk_next (bk_mem b1 p)\<rparr>, h1)
   }"

definition bfree :: "nat \<Rightarrow> backups \<Rightarrow> backups" where
  "bfree p b = b\<lparr>bk_mem := set_bk_next p (bk_spare b) (bk_mem b), bk_spare := p\<rparr>"

section \<open>What the guard words show\<close>

text \<open>
  For the addresses of a process, which are below \<open>2^47\<close>, \<open>lcrng\<close> is the step of the generator of Lehmer with the multiplier 16807
  and the modulus \<open>2^31 - 1\<close>, computed without a division.
\<close>

lemma lcrng_lehmer:
  assumes "unat s < 2 ^ 47"
  shows "unat (lcrng s) \<le> 2 ^ 31 - 1" "unat (lcrng s) mod (2 ^ 31 - 1) = 16807 * unat s mod (2 ^ 31 - 1)"
proof -
  let ?t = "s * 16807"
  have t: "unat ?t = unat s * 16807" using assms by (simp add: unat_word_ariths)
  have md: "(push_bit 31 1 - 1 :: u64) = mask 31" by (simp add: mask_eq_exp_minus_1)
  let ?a = "unat ?t mod 2 ^ 31" and ?b = "unat ?t div 2 ^ 31"
  have a: "unat (?t AND mask 31) = ?a" by (simp only: take_bit_eq_mask [symmetric] unsigned_take_bit_eq) (rule take_bit_eq_mod)
  have "take_bit 64 (unat ?t) = unat ?t" by (rule take_bit_nat_eq_self) (use unsigned_less [of ?t] in simp)
  then have b: "unat (drop_bit 31 ?t) = ?b" by (simp only: unsigned_drop_bit_eq) (simp add: drop_bit_eq_div)
  have lt: "?a < 2 ^ 31" "?b < 2 ^ 31" using assms t by (simp_all add: less_mult_imp_div_less)
  have sum: "unat ((?t AND mask 31) + drop_bit 31 ?t) = ?a + ?b" using lt by (simp add: unat_word_ariths a b)
  have m: "unat (mask 31 :: u64) = 2 ^ 31 - 1" by (simp add: mask_eq_exp_minus_1)
  have r: "unat (lcrng s) = (if ?a + ?b > 2 ^ 31 - 1 then ?a + ?b - (2 ^ 31 - 1) else ?a + ?b)"
    unfolding lcrng_def Let_def md using sum m by (auto simp: word_less_nat_alt unat_sub_if')
  show "unat (lcrng s) \<le> 2 ^ 31 - 1" using r lt by auto
  have fold: "a + q + (2 ^ 31 - 1) * q = 2 ^ 31 * q + a" for a q :: nat by simp
  have "(if x > M then x - M else x) mod M = x mod M" for x M :: nat using le_mod_geq [of M x] by auto
  then have "unat (lcrng s) mod (2 ^ 31 - 1) = (?a + ?b) mod (2 ^ 31 - 1)" unfolding r by blast
  also have "\<dots> = (?a + ?b + (2 ^ 31 - 1) * ?b) mod (2 ^ 31 - 1)" by (rule mod_mult_self2 [symmetric])
  also have "?a + ?b + (2 ^ 31 - 1) * ?b = 2 ^ 31 * ?b + ?a" by (rule fold)
  also have "\<dots> = unat ?t" by (rule mult_div_mod_eq)
  finally show "unat (lcrng s) mod (2 ^ 31 - 1) = 16807 * unat s mod (2 ^ 31 - 1)" by (simp add: t mult.commute)
qed

text \<open>A block that was set up passes the check as long as nobody has written to its two guard words, and only then.\<close>

lemma gcheck_gsetup:
  assumes "0 < b" "gsetup b w = (p, w')"
  shows "gcheck p v = (if v b = w' b \<and> v (b + 8) = w' (b + 8) then Some b else None)"
  using assms by (auto simp: gsetup_def gcheck_def add.commute)

section \<open>What the copies show\<close>

abbreviation backup_list :: "(nat \<Rightarrow> backup) \<Rightarrow> nat \<Rightarrow> nat list \<Rightarrow> bool" where
  "backup_list m \<equiv> clist (\<lambda>q. bk_next (m q))"

text \<open>On two lists that end the walk returns, and tells whether they hold the same chunks in the same order.\<close>

lemma backup_walk_lists:
  "clist nx p xs \<Longrightarrow> backup_list m q qs \<Longrightarrow> backup_walk nx m p q = Some (xs = map (\<lambda>q. bk_item (m q)) qs)"
proof (induction xs arbitrary: p q qs)
  case Nil
  then show ?case by (subst backup_walk.simps) (cases qs; auto)
next
  case (Cons x xs)
  then show ?case by (subst backup_walk.simps) (cases qs; auto)
qed

lemma tbackup_lists:
  assumes "clist (hp_next h) (lf_free (hp_local h i)) fs" "clist (hp_next h) (lf_aux (hp_local h i)) xs"
    "backup_list (bk_mem b) (bk_free b i) qs" "backup_list (bk_mem b) (bk_aux b i) rs"
  shows "tbackup i b h = Some (fs = map (\<lambda>q. bk_item (bk_mem b q)) qs \<and> xs = map (\<lambda>q. bk_item (bk_mem b q)) rs)"
  using backup_walk_lists [OF assms(1,3)] backup_walk_lists [OF assms(2,4)] by (auto simp: tbackup_def split: bool.splits)

text \<open>A new page becomes a list of 256 elements, of which \<open>balloc\<close> returns the first; \<open>bfree\<close> takes it back.\<close>

lemma link_backups_next:
  "bk_next (link_backups p i m q) = (if \<exists>k < i. q = p + 16 * k then q + 16 else bk_next (m q))"
proof (induction i arbitrary: m)
  case (Suc i)
  show ?case unfolding link_backups.simps Suc by (auto simp: set_bk_next_def less_Suc_eq)
qed simp

lemma link_backups_list:
  assumes "0 < p" "i \<le> n"
  shows "backup_list (link_backups p n (set_bk_next (p + 16 * n) 0 m)) (p + 16 * i) (map (\<lambda>k. p + 16 * k) [i..<Suc n])"
  using assms(2)
proof (induction "n - i" arbitrary: i)
  case 0
  then have "i = n" by simp
  then show ?case using assms(1) by (auto simp: link_backups_next set_bk_next_def)
next
  case (Suc d)
  then have i: "i < n" "d = n - Suc i" "Suc i \<le> n" by auto
  have "bk_next (link_backups p n (set_bk_next (p + 16 * n) 0 m) (p + 16 * i)) = p + 16 * Suc i"
    using i(1) by (auto simp: link_backups_next)
  then show ?case using Suc.hyps(1) [OF i(2,3)] assms(1) i(1) by (simp add: upt_conv_Cons)
qed

lemma balloc_new:
  assumes "bk_spare b = 0" "valloc os PAGESIZE h = Some (p, h1)" "p \<noteq> 0"
  shows "\<exists>b1. balloc os b h = Some (p, b1, h1) \<and> backup_list (bk_mem b1) (bk_spare b1) (map (\<lambda>k. p + 16 * k) [1..<256]) \<and>
    backup_list (bk_mem (bfree p b1)) (bk_spare (bfree p b1)) (map (\<lambda>k. p + 16 * k) [0..<256])"
proof -
  let ?m = "link_backups p 255 (set_bk_next (p + 16 * 255) 0 (bk_mem b))" and ?ps = "map (\<lambda>k. p + 16 * k) [1..<256]"
  define b1 where "b1 = b\<lparr>bk_mem := ?m, bk_spare := bk_next (?m p)\<rparr>"
  have "backup_list ?m (p + 16 * 0) (map (\<lambda>k. p + 16 * k) [0..<Suc 255])" by (rule link_backups_list) (use assms(3) in simp_all)
  moreover have split: "map (\<lambda>k. p + 16 * k) [0..<256] = p # ?ps" by (subst upt_conv_Cons) simp_all
  ultimately have l: "backup_list ?m (bk_next (?m p)) ?ps" by simp
  moreover have "p \<notin> set ?ps" by auto
  then have "backup_list (set_bk_next p (bk_next (?m p)) ?m) (bk_next (?m p)) ?ps"
    using l by (subst clist_cong [where nx = "\<lambda>q. bk_next (?m q)"]) (auto simp: set_bk_next_def)
  then have "backup_list (set_bk_next p (bk_next (?m p)) ?m) p (p # ?ps)" using assms(3) by (simp add: set_bk_next_def)
  moreover have "balloc os b h = Some (p, b1, h1)" using assms by (simp add: balloc_def b1_def PAGESIZE_def Let_def)
  ultimately show ?thesis unfolding split by (intro exI [of _ b1]) (simp add: b1_def bfree_def)
qed

section \<open>What fp_verify accepts\<close>

text \<open>
  The list of lists without an order on the addresses, which \<open>fp_verify\<close> does not look at; every extent is inside the pool and as the
  page table says.
\<close>

definition group_ok :: "'a pheap_scheme \<Rightarrow> nat list \<Rightarrow> bool" where
  "group_ok h g \<longleftrightarrow> (\<forall>x \<in> set g. VALID_page h x \<and> pages_ok h x \<and> size_of (ph_fp h) x = size_of (ph_fp h) (hd g))"

definition verified :: "'a pheap_scheme \<Rightarrow> nat list list \<Rightarrow> bool" where
  "verified h gs \<longleftrightarrow> by_size (ph_fp h) Root gs \<and> (\<forall>g \<in> set gs. group_ok h g) \<and> sorted_wrt (<) (map (\<lambda>g. size_of (ph_fp h) (hd g)) gs)"

lemma verify_next_ok:
  assumes "same_size (ph_fp h) (Next x) xs" "group_ok h (x # xs)"
  shows "verify_next h p (Some x) = Some (Inr (if p \<in> Some ` set (x # xs) then None else p))"
  using assms
proof (induction xs arbitrary: x p)
  case Nil
  then show ?case by (subst verify_next.simps) (simp add: next_ok_def group_ok_def verify_next.simps)
next
  case (Cons y ys)
  have "next_ok h x" "pages_ok h x" using Cons.prems by (auto simp: next_ok_def group_ok_def)
  moreover have "verify_next h q (Some y) = Some (Inr (if q \<in> Some ` set (y # ys) then None else q))" for q
    using Cons.prems by (intro Cons.IH) (auto simp: group_ok_def)
  moreover have "deref (ph_fp h) (Next x) = Some y" using Cons.prems(1) by simp
  ultimately show ?case by (subst verify_next.simps) auto
qed

lemma verify_sizes_ok:
  assumes "by_size (ph_fp h) a gs" "\<forall>g \<in> set gs. group_ok h g" "sorted_wrt (<) (map (\<lambda>g. size_of (ph_fp h) (hd g)) gs)"
  shows "verify_sizes h p (deref (ph_fp h) a) = Some (Inr (if p \<in> Some ` set (concat gs) then None else p))"
  using assms
proof (induction gs arbitrary: a p)
  case Nil
  then show ?case by (simp add: verify_sizes.simps)
next
  case (Cons g gs)
  obtain x xs where g: "g = x # xs" using Cons.prems(1) by (cases g) auto
  have b: "deref (ph_fp h) a = Some x" "same_size (ph_fp h) (Next x) xs" "by_size (ph_fp h) (Bigger x) gs" using Cons.prems(1) g by simp_all
  have IH: "verify_sizes h q (deref (ph_fp h) (Bigger x)) = Some (Inr (if q \<in> Some ` set (concat gs) then None else q))" for q
    using Cons.prems(2,3) by (intro Cons.IH [OF b(3)]) simp_all
  have "bigger_ok h x"
  proof (cases gs)
    case Nil
    then show ?thesis using b(3) by (simp add: bigger_ok_def Let_def)
  next
    case (Cons g' gs')
    obtain y ys where g': "g' = y # ys" using b(3) Cons by (cases g') auto
    have "VALID_page h y" "size_of (ph_fp h) x < size_of (ph_fp h) y" using Cons.prems(2,3) Cons g g' by (auto simp: group_ok_def)
    then show ?thesis using b(3) Cons g' by (simp add: bigger_ok_def Let_def)
  qed
  moreover have "verify_next h p (Some x) = Some (Inr (if p \<in> Some ` set (x # xs) then None else p))"
    using verify_next_ok [OF b(2)] Cons.prems(2) g by simp
  ultimately show ?case using b(1) IH g by (subst verify_sizes.simps) auto
qed

lemma verify_next_sound:
  assumes "verify_next h p (Some x) = Some (Inr p')" "VALID_page h x"
  shows "\<exists>xs. same_size (ph_fp h) (Next x) xs \<and> group_ok h (x # xs)"
proof -
  have "\<forall>x p'. t2 = Some x \<and> r = Inr p' \<and> VALID_page h x \<longrightarrow> (\<exists>xs. same_size (ph_fp h) (Next x) xs \<and> group_ok h (x # xs))"
    if "verify_next h p t2 = Some r" for h :: "'a pheap_scheme" and p t2 r
  proof (rule verify_next.raw_induct [OF _ that], intro allI impI, elim conjE)
    fix f :: "'a pheap_scheme \<Rightarrow> nat option \<Rightarrow> nat option \<Rightarrow> (verify_error + nat option) option" and h p t2 r x p'
    assume IH: "\<And>h p t2 r. f h p t2 = Some r \<Longrightarrow> \<forall>x p'. t2 = Some x \<and> r = Inr p' \<and> VALID_page h x \<longrightarrow>
        (\<exists>xs. same_size (ph_fp h) (Next x) xs \<and> group_ok h (x # xs))"
      and r: "(case t2 of None \<Rightarrow> Some (Inr p)
        | Some x \<Rightarrow> let p' = if p = Some x then None else p
            in if \<not> next_ok h x then Some (Inl List_corrupt) else if \<not> pages_ok h x then Some (Inl Tables_corrupt)
               else f h p' (deref (ph_fp h) (Next x))) = Some r"
      and x: "t2 = Some x" "r = Inr p'" "VALID_page h x"
    have ok: "next_ok h x" "pages_ok h x" "f h (if p = Some x then None else p) (deref (ph_fp h) (Next x)) = Some (Inr p')"
      using r x by (auto simp: Let_def split: if_splits)
    show "\<exists>xs. same_size (ph_fp h) (Next x) xs \<and> group_ok h (x # xs)"
    proof (cases "deref (ph_fp h) (Next x)")
      case None
      then show ?thesis using ok(2) x(3) by (intro exI [of _ "[]"]) (simp add: group_ok_def)
    next
      case (Some y)
      then have y: "VALID_page h y" "deref (ph_fp h) (Bigger y) = None" "size_of (ph_fp h) x = size_of (ph_fp h) y" "parent_of (ph_fp h) y = Next x"
        using ok(1) by (simp_all add: next_ok_def Let_def)
      from IH [OF ok(3)] Some y(1) obtain ys where "same_size (ph_fp h) (Next y) ys" "group_ok h (y # ys)" by blast
      then show ?thesis using Some y ok(2) x(3) by (intro exI [of _ "y # ys"]) (auto simp: group_ok_def)
    qed
  qed
  then show ?thesis using assms by blast
qed

lemma verify_sizes_sound:
  assumes "verify_sizes h p (deref (ph_fp h) a) = Some (Inr p')"
    "\<And>x. deref (ph_fp h) a = Some x \<Longrightarrow> VALID_page h x \<and> parent_of (ph_fp h) x = a"
  shows "\<exists>gs. by_size (ph_fp h) a gs \<and> (\<forall>g \<in> set gs. group_ok h g) \<and> sorted_wrt (<) (map (\<lambda>g. size_of (ph_fp h) (hd g)) gs)"
proof -
  have "\<forall>a p'. t1 = deref (ph_fp h) a \<and> r = Inr p' \<and> (\<forall>x. t1 = Some x \<longrightarrow> VALID_page h x \<and> parent_of (ph_fp h) x = a) \<longrightarrow>
      (\<exists>gs. by_size (ph_fp h) a gs \<and> (\<forall>g \<in> set gs. group_ok h g) \<and> sorted_wrt (<) (map (\<lambda>g. size_of (ph_fp h) (hd g)) gs))"
    if "verify_sizes h p t1 = Some r" for h :: "'a pheap_scheme" and p t1 r
  proof (rule verify_sizes.raw_induct [OF _ that], intro allI impI, elim conjE)
    fix f :: "'a pheap_scheme \<Rightarrow> nat option \<Rightarrow> nat option \<Rightarrow> (verify_error + nat option) option" and h p t1 r a p'
    assume IH: "\<And>h p t1 r. f h p t1 = Some r \<Longrightarrow> \<forall>a p'. t1 = deref (ph_fp h) a \<and> r = Inr p' \<and>
        (\<forall>x. t1 = Some x \<longrightarrow> VALID_page h x \<and> parent_of (ph_fp h) x = a) \<longrightarrow>
        (\<exists>gs. by_size (ph_fp h) a gs \<and> (\<forall>g \<in> set gs. group_ok h g) \<and> sorted_wrt (<) (map (\<lambda>g. size_of (ph_fp h) (hd g)) gs))"
      and r: "(case t1 of None \<Rightarrow> Some (Inr p)
        | Some x \<Rightarrow> if \<not> bigger_ok h x then Some (Inl List_corrupt)
            else (case verify_next h p (Some x) of None \<Rightarrow> None | Some (Inl e) \<Rightarrow> Some (Inl e)
                  | Some (Inr p') \<Rightarrow> f h p' (deref (ph_fp h) (Bigger x)))) = Some r"
      and a: "t1 = deref (ph_fp h) a" "r = Inr p'" "\<forall>x. t1 = Some x \<longrightarrow> VALID_page h x \<and> parent_of (ph_fp h) x = a"
    show "\<exists>gs. by_size (ph_fp h) a gs \<and> (\<forall>g \<in> set gs. group_ok h g) \<and> sorted_wrt (<) (map (\<lambda>g. size_of (ph_fp h) (hd g)) gs)"
    proof (cases t1)
      case None
      then show ?thesis using a(1) by (intro exI [of _ "[]"]) simp
    next
      case (Some x)
      then obtain q where ok: "bigger_ok h x" "verify_next h p (Some x) = Some (Inr q)" "f h q (deref (ph_fp h) (Bigger x)) = Some (Inr p')"
        using r a(2) by (auto split: if_splits option.splits sum.splits)
      from verify_next_sound [OF ok(2)] a(3) Some obtain xs where xs: "same_size (ph_fp h) (Next x) xs" "group_ok h (x # xs)" by blast
      have big: "VALID_page h y \<and> parent_of (ph_fp h) y = Bigger x \<and> size_of (ph_fp h) x < size_of (ph_fp h) y"
        if "deref (ph_fp h) (Bigger x) = Some y" for y
        using ok(1) that by (simp add: bigger_ok_def Let_def)
      from IH [OF ok(3)] big obtain gs where
        gs: "by_size (ph_fp h) (Bigger x) gs" "\<forall>g \<in> set gs. group_ok h g" "sorted_wrt (<) (map (\<lambda>g. size_of (ph_fp h) (hd g)) gs)" by blast
      have "size_of (ph_fp h) x < size_of (ph_fp h) (hd g)" if "g \<in> set gs" for g
      proof (cases gs)
        case (Cons g' gs')
        then have "size_of (ph_fp h) x < size_of (ph_fp h) (hd g')" using gs(1) big by (cases g') auto
        then show ?thesis using gs(3) that Cons by auto
      qed (use that in simp)
      then have "sorted_wrt (<) (map (\<lambda>g. size_of (ph_fp h) (hd g)) ((x # xs) # gs))" using gs(3) by simp
      moreover have "by_size (ph_fp h) a ((x # xs) # gs)" using gs(1) xs(1) a(1,3) Some by simp
      moreover have "\<forall>g \<in> set ((x # xs) # gs). group_ok h g" using gs(2) xs(2) by simp
      ultimately show ?thesis by blast
    qed
  qed
  then show ?thesis using assms by blast
qed

lemma fp_verify_run:
  assumes "verified h gs"
  shows "fp_verify p h = Some (case p of None \<Rightarrow> Inr () | Some x \<Rightarrow> if x \<in> set (concat gs) then Inr () else Inl Not_listed)"
proof -
  have v: "by_size (ph_fp h) Root gs" "\<forall>g \<in> set gs. group_ok h g" "sorted_wrt (<) (map (\<lambda>g. size_of (ph_fp h) (hd g)) gs)"
    using assms by (simp_all add: verified_def)
  have root: "VALID_page h r \<and> parent_of (ph_fp h) r = Root" if r: "deref (ph_fp h) Root = Some r" for r
  proof (cases gs)
    case (Cons g gs')
    then obtain xs where "g = r # xs" using v(1) r by (cases g) auto
    then show ?thesis using v(1,2) Cons by (simp add: group_ok_def)
  qed (use v(1) r in simp)
  show ?thesis using verify_sizes_ok [OF v, of p] root
    by (cases p) (auto simp: fp_verify_def split: option.splits)
qed

section \<open>Properties\<close>


text \<open>The lists that the allocator keeps are well formed in this sense.\<close>

lemma layout_pages_ok:
  assumes "layout h E" "E p = Some (n, True)"
  shows "VALID_page h p" "pages_ok h p"
proof -
  have t: "extent_ok (ph_tab h) p n True" "p + n \<le> ph_end h" "ph_end h < 2 ^ 31" and sz: "size_of (ph_fp h) p = int n"
    using assms by (auto simp: layout_def table_ok_def store_ok_def)
  show "VALID_page h p" using t by (auto simp: VALID_page_def extent_ok_def)
  have "usub (p + n) (to_unsigned (int n)) = p" using t(2,3) by (simp add: usub_def to_unsigned_def)
  then show "pages_ok h p" using t(1) sz by (auto simp: pages_ok_def Let_def extent_ok_def list_all_iff)
qed

lemma sizes_ok_sorted: "sizes_ok sz gs \<Longrightarrow> sorted_wrt (<) (map (\<lambda>g. sz (hd g)) gs) \<and> (\<forall>g \<in> set gs. g \<noteq> [] \<and> (\<forall>x \<in> set g. sz x = sz (hd g)))"
proof (induction gs)
  case (Cons g gs)
  have g: "g \<noteq> []" "\<forall>x \<in> set g. sz x = sz (hd g)" "\<forall>x \<in> set (concat gs). sz (hd g) < sz x" "sizes_ok sz gs"
    using Cons.prems unfolding sizes_ok.simps list_all_iff by blast+
  note IH = Cons.IH [OF g(4), THEN conjunct1] Cons.IH [OF g(4), THEN conjunct2]
  have "sz (hd g) < sz (hd g')" if g': "g' \<in> set gs" for g'
  proof -
    have "hd g' \<in> set g'" using IH(2) g' hd_in_set by blast
    then have "hd g' \<in> set (concat gs)" using g' by (simp only: set_concat) blast
    then show ?thesis using g(3) by blast
  qed
  then have "sorted_wrt (<) (map (\<lambda>g. sz (hd g)) (g # gs))" using IH(1) by simp
  moreover have "\<forall>g' \<in> set (g # gs). g' \<noteq> [] \<and> (\<forall>x \<in> set g'. sz x = sz (hd g'))" using g(1,2) IH(2) unfolding list.set by blast
  ultimately show ?case by blast
qed simp

lemma layout_verified:
  assumes "layout h E"
  shows "\<exists>gs. verified h gs \<and> set (concat gs) = free_starts E"
proof -
  have "fp_stored (ph_fp h) (free_starts E)" using assms by (simp add: layout_def store_ok_def)
  then obtain gs where gs: "free_list (ph_fp h) gs" "set (concat gs) = free_starts E" unfolding fp_stored_def by blast
  have s: "by_size (ph_fp h) Root gs" "sorted_wrt (<) (map (\<lambda>g. size_of (ph_fp h) (hd g)) gs)"
    "\<And>g x. g \<in> set gs \<Longrightarrow> x \<in> set g \<Longrightarrow> size_of (ph_fp h) x = size_of (ph_fp h) (hd g)"
    using gs(1) sizes_ok_sorted [of "size_of (ph_fp h)" gs] unfolding free_list_def by blast+
  have "group_ok h g" if "g \<in> set gs" for g
    unfolding group_ok_def
  proof
    fix x
    assume x: "x \<in> set g"
    then have "x \<in> free_starts E" using that unfolding gs(2) [symmetric] set_concat by blast
    then obtain n where "E x = Some (n, True)" by (auto simp: free_starts_def)
    then show "VALID_page h x \<and> pages_ok h x \<and> size_of (ph_fp h) x = size_of (ph_fp h) (hd g)"
      using layout_pages_ok [OF assms] s(3) [OF that x] by simp
  qed
  then show ?thesis using s gs(2) unfolding verified_def by blast
qed

text \<open>
  No false alarm. On a pool whose page table and list of free extents agree, which is what the operations of the page
  allocator keep, \<open>fp_verify\<close> returns without an error for \<open>NULL\<close> and for every free extent, and for every other pointer it reports that it is
  not listed.
\<close>

theorem fp_verify_layout:
  assumes "layout h E"
  shows "fp_verify None h = Some (Inr ()) \<and> fp_verify (Some p) h = Some (if p \<in> free_starts E then Inr () else Inl Not_listed)"
proof -
  obtain gs where gs: "verified h gs" "set (concat gs) = free_starts E" using layout_verified [OF assms] by blast
  show ?thesis using fp_verify_run [OF gs(1), of None] fp_verify_run [OF gs(1), of "Some p"] by (simp only: gs(2) option.case)
qed

theorem fp_verify_layout_witness:
  "fp_verify None demo_pool = Some (Inr ()) \<and> fp_verify (Some 3) demo_pool = Some (Inr ()) \<and> fp_verify (Some 6) demo_pool = Some (Inl Not_listed)"
  using fp_verify_layout [OF demo_layout(1), of 3] fp_verify_layout [OF demo_layout(1), of 6]
  by (simp add: free_starts_def demo_extents_iff)

text \<open>
  What the three walks of \<open>free\<close> find in lists that are in order: the list of the thread with \<open>count\<close> chunks, its second list, empty
  or with \<open>target\<close> chunks, and the list of the page.
\<close>

definition lists_ok :: "heap \<Rightarrow> nat \<Rightarrow> nat \<Rightarrow> nat list \<Rightarrow> nat list \<Rightarrow> nat list \<Rightarrow> bool" where
  "lists_ok h l pn fs xs cs \<longleftrightarrow> (let f = hp_local h l in
     clist (hp_next h) (lf_free f) fs \<and> length fs = lf_count f \<and> list_all (VALID_chunk h l) fs \<and>
     clist (hp_next h) (lf_aux f) xs \<and> (xs = [] \<or> length xs = lf_target f) \<and> list_all (VALID_chunk h l) xs \<and>
     (if pg_count (ph_tab h pn) = 0 then cs = [] else page_has h l pn cs))"

lemma chunk_walk_list:
  "clist nx t ts \<Longrightarrow> list_all valid ts \<Longrightarrow> int (i + length ts) \<le> limit + 1 \<Longrightarrow>
   chunk_walk nx valid err limit old t i = (if old \<in> set ts then Inl Double_free else Inr (i + length ts))"
proof (induction ts arbitrary: t i)
  case Nil
  then show ?case by (subst chunk_walk.simps) simp
next
  case (Cons x ts)
  then show ?case by (subst chunk_walk.simps) auto
qed

lemma walks_ok:
  assumes "lists_ok h l (page_of old) fs xs cs"
  shows "check_free_list l old h = (if old \<in> set fs then Inl Double_free else Inr ())"
    "check_aux_list l old h = (if old \<in> set xs then Inl Double_free else Inr ())"
    "check_page_list l old h = (if old \<in> set cs then Inl Double_free else Inr ())"
proof -
  let ?f = "hp_local h l" and ?p = "ph_tab h (page_of old)"
  have o: "clist (hp_next h) (lf_free ?f) fs" "length fs = lf_count ?f" "list_all (VALID_chunk h l) fs" "clist (hp_next h) (lf_aux ?f) xs"
    "xs = [] \<or> length xs = lf_target ?f" "list_all (VALID_chunk h l) xs"
    and page: "if pg_count ?p = 0 then cs = [] else page_has h l (page_of old) cs"
    using assms unfolding lists_ok_def Let_def by blast+
  show "check_free_list l old h = (if old \<in> set fs then Inl Double_free else Inr ())"
    using chunk_walk_list [OF o(1,3), of 0 "int (lf_count ?f)" Freelist_corrupt old] o(2) by (simp add: check_free_list_def)
  have "length xs \<le> lf_target ?f" using o(5) by auto
  then show "check_aux_list l old h = (if old \<in> set xs then Inl Double_free else Inr ())"
    using chunk_walk_list [OF o(4,6), of 0 "int (lf_target ?f)" Auxlist_corrupt old] o(5) by (auto simp: check_aux_list_def)
  show "check_page_list l old h = (if old \<in> set cs then Inl Double_free else Inr ())"
  proof (cases "pg_count ?p = 0")
    case True
    then show ?thesis using page by (simp add: check_page_list_def)
  next
    case False
    then have c: "clist (hp_next h) (chunk (page_of old) l (pg_free ?p)) cs" "pg_count ?p = int (length cs)" "l < NUMSMALL"
      "set cs \<subseteq> chunk (page_of old) l ` {..<PERPAGE l}" using page by (simp_all add: page_has_def)
    have "list_all (\<lambda>t. t div PAGESIZE = old div PAGESIZE) cs"
      using c(4) chunk_page [OF c(3)] by (auto simp: list_all_iff page_of_def)
    from chunk_walk_list [OF c(1) this, of 0 "pg_count ?p" Page_corrupt old] False c(2) show ?thesis
      by (simp add: check_page_list_def Let_def chunk_def)
  qed
qed


text \<open>A pool of four pages, the last one cut into chunks of 64 bytes, of which the thread has one.\<close>

definition checked_heap :: heap where
  "checked_heap = one_chunk\<lparr>ph_end := 4\<rparr>"


end
