(* ===== verification/Heap_Types.thy ===== *)
theory Heap_Types
  imports Heap_Props
begin

text \<open>
  The widths of the fields. The model has the fields of \<open>struct page\<close> and \<open>struct localfree\<close> as numbers; here is that they
  always hold values of their declared types (\<open>unsigned free:11\<close>, \<open>int count:12\<close>, \<open>unsigned short count\<close> and
  \<open>target\<close>), and that every \<open>code\<close> is one of the enumeration, whatever calls are made. The proofs follow the call graph.
\<close>

definition code_ok :: "nat \<Rightarrow> bool" where
  "code_ok c \<longleftrightarrow> c < NUMSMALL \<or> c \<in> {BIG, BIG + FREE, MIDDLE, BASE}"

definition page_typed :: "page \<Rightarrow> bool" where
  "page_typed p \<longleftrightarrow> code_ok (pg_code p) \<and> pg_free p < 2 ^ 11 \<and> - (2 ^ 11) \<le> pg_count p \<and> pg_count p < 2 ^ 11"

definition table_typed :: "ptab \<Rightarrow> bool" where
  "table_typed m \<longleftrightarrow> (\<forall>pn. page_typed (m pn))"

definition local_typed :: "(nat \<Rightarrow> localfree) \<Rightarrow> bool" where
  "local_typed f \<longleftrightarrow> (\<forall>l. lf_count (f l) < 2 ^ 16 \<and> lf_target (f l) < 2 ^ 16)"

definition typed :: "heap \<Rightarrow> bool" where
  "typed h \<longleftrightarrow> table_typed (ph_tab h) \<and> local_typed (hp_local h)"

section \<open>Tables\<close>

named_theorems typed_rules \<open>the functions keep the types of the fields\<close>

lemma code_ok_simps [simp]: "code_ok BIG" "code_ok (BIG + FREE)" "code_ok (Suc BIG)" "code_ok MIDDLE" "code_ok BASE" "l < NUMSMALL \<Longrightarrow> code_ok l"
  by (simp_all add: code_ok_def FREE_def)

lemma table_set [simp]:
  "table_typed m \<Longrightarrow> code_ok c \<Longrightarrow> table_typed (set_code p c m)"
  "table_typed m \<Longrightarrow> table_typed (set_page p v m)"
  "table_typed m \<Longrightarrow> page_typed q \<Longrightarrow> table_typed (m(p := q))"
  by (simp_all add: table_typed_def page_typed_def set_code_def set_page_def)

lemma table_at: "table_typed m \<Longrightarrow> page_typed (m p)"
  by (simp add: table_typed_def)

lemma table_loops [simp]:
  "table_typed m \<Longrightarrow> table_typed (back_loop b v n m)" "table_typed m \<Longrightarrow> table_typed (middle_loop p n m)"
  "table_typed m \<Longrightarrow> table_typed (fill_pages p n v m)"
  by (induction n arbitrary: m p) simp_all

lemma table_fwd [typed_rules]:
  assumes "fwd_loop q v i m = Some m'"
  shows "table_typed m \<Longrightarrow> table_typed m'"
proof -
  have "table_typed m \<longrightarrow> table_typed m'"
  proof (rule fwd_loop.raw_induct [of "\<lambda>q v i m m'. table_typed m \<longrightarrow> table_typed m'", OF _ assms], goal_cases)
    case (1 f q v i m y)
    show ?case using 1(2) by (auto split: if_splits dest!: 1(1))
  qed
  then show "table_typed m \<Longrightarrow> table_typed m'" ..
qed

lemma table_merge_loop:
  assumes "merge_loop t a b pm = Some y"
  shows "table_typed (snd pm) \<Longrightarrow> table_typed (snd y)"
proof -
  have st: "table_typed (snd pm) \<Longrightarrow> table_typed (snd (store t v pm))" for t v pm
    by (cases pm; cases t) (simp_all add: store_def)
  have "table_typed (snd pm) \<longrightarrow> table_typed (snd y)"
  proof (rule merge_loop.raw_induct [of "\<lambda>t a b pm y. table_typed (snd pm) \<longrightarrow> table_typed (snd y)", OF _ assms], goal_cases)
    case (1 f t a b pm y)
    show ?case using 1(2) by (auto simp: Let_def split: if_splits dest!: 1(1) dest: st)
  qed
  then show "table_typed (snd pm) \<Longrightarrow> table_typed (snd y)" ..
qed

lemma table_sort_snd:
  assumes "page_list_sort p m = Some y"
  shows "table_typed m \<Longrightarrow> table_typed (snd y)"
proof -
  have "table_typed m \<longrightarrow> table_typed (snd y)"
  proof (rule page_list_sort.raw_induct [of "\<lambda>p m y. table_typed m \<longrightarrow> table_typed (snd y)", OF _ assms], goal_cases)
    case (1 f p m y)
    show ?case using 1(2)
      by (auto simp: Let_def split: if_splits bind_splits prod.splits dest!: 1(1) table_merge_loop)
  qed
  then show "table_typed m \<Longrightarrow> table_typed (snd y)" ..
qed

lemma table_sort [typed_rules]: "page_list_sort p m = Some (p', m') \<Longrightarrow> table_typed m \<Longrightarrow> table_typed m'"
  using table_sort_snd by fastforce

section \<open>Extents\<close>

lemma typed_upd [simp]:
  "typed (h\<lparr>ph_fp := a\<rparr>) = typed h" "typed (h\<lparr>ph_end := b\<rparr>) = typed h" "typed (h\<lparr>hp_freechunks := c\<rparr>) = typed h"
  "typed (h\<lparr>hp_dir := d\<rparr>) = typed h" "typed (h\<lparr>hp_master := e\<rparr>) = typed h" "typed (h\<lparr>hp_next := f\<rparr>) = typed h"
  "typed (h\<lparr>hp_locks := g\<rparr>) = typed h" "typed (h\<lparr>hp_data := i\<rparr>) = typed h" "typed (copy_data x y n h) = typed h"
  "typed (UNLOCK q h) = typed h"
  by (simp_all add: typed_def copy_data_def UNLOCK_def)

lemma typed_tab: "typed (h\<lparr>ph_tab := m\<rparr>) \<longleftrightarrow> table_typed m \<and> local_typed (hp_local h)"
  by (simp add: typed_def)

lemma typed_lock [typed_rules]: "LOCK q h = Some h' \<Longrightarrow> typed h \<Longrightarrow> typed h'"
  by (auto simp: LOCK_def typed_def split: if_splits)

lemma typed_setup [simp]: "typed h \<Longrightarrow> typed (setup_extent_descriptor p n h)"
  by (simp add: typed_def setup_extent_descriptor_def)

lemma typed_alloc [typed_rules]: "alloc_pages n h = Some (r, h') \<Longrightarrow> typed h \<Longrightarrow> typed h'"
  by (auto simp: alloc_pages_def typed_def Let_def split: option.splits if_splits bind_splits)

lemma typed_merge [typed_rules]:
  "merge_below p h = Some (q, h') \<Longrightarrow> typed h \<Longrightarrow> typed h'" "merge_above q h = Some h' \<Longrightarrow> typed h \<Longrightarrow> typed h'"
  by (auto simp: merge_below_def merge_above_def typed_def Let_def split: if_splits bind_splits dest: table_fwd)

lemma typed_free_pages [typed_rules]: "free_pages p h = Some (q, h') \<Longrightarrow> typed h \<Longrightarrow> typed h'"
proof -
  have "typed h \<Longrightarrow> typed (h\<lparr>ph_tab := set_code p (BIG + FREE) (ph_tab h)\<rparr>)" by (simp add: typed_def)
  then show "free_pages p h = Some (q, h') \<Longrightarrow> typed h \<Longrightarrow> typed h'"
    by (auto simp: free_pages_def split: if_splits bind_splits dest!: typed_rules)
qed

lemma typed_brk [typed_rules]:
  "shm_brk os b h = (i, h') \<Longrightarrow> typed h \<Longrightarrow> typed h'" "shm_sbrk os d h = (r, h') \<Longrightarrow> typed h \<Longrightarrow> typed h'"
proof -
  have t: "typed h' = typed h" if "brk_frame h h'" for h h'
    using arg_cong [OF that [unfolded brk_frame_def], of typed] by (simp add: typed_def)
  show "shm_brk os b h = (i, h') \<Longrightarrow> typed h \<Longrightarrow> typed h'" "shm_sbrk os d h = (r, h') \<Longrightarrow> typed h \<Longrightarrow> typed h'"
    using t by (blast intro: shm_brk_frame shm_sbrk_frame)+
qed

lemma typed_snd_brk [simp]: "typed h \<Longrightarrow> typed (snd (shm_brk os b h))" "typed h \<Longrightarrow> typed (snd (shm_sbrk os d h))"
  by (metis typed_brk prod.collapse)+

lemma typed_grow_master [typed_rules]: "grow_master os old to h = Some (r, h') \<Longrightarrow> typed h \<Longrightarrow> typed h'"
  by (auto simp: grow_master_def Let_def split: option.splits prod.splits bind_splits dest!: typed_rules)

lemma typed_clear [simp]: "typed h \<Longrightarrow> typed (clear_table i h)"
  by (simp add: typed_def clear_table_def table_typed_def page_typed_def zero_page_def code_ok_def NUMSMALL_def size256_def)

lemma typed_set_code:
  "typed h \<Longrightarrow> code_ok c \<Longrightarrow> typed (h\<lparr>ph_tab := set_code p c (ph_tab h)\<rparr>)"
  "typed h \<Longrightarrow> code_ok c \<Longrightarrow> typed (h\<lparr>hp_dir := d, ph_tab := set_code p c (ph_tab h)\<rparr>)"
  by (simp_all add: typed_def)

lemma typed_add_tables [typed_rules]: "add_tables os n i k h = Some (r, h') \<Longrightarrow> typed h \<Longrightarrow> typed h'"
proof (induction n arbitrary: i k h)
  case (Suc n)
  from Suc.prems show ?case
    by (auto simp: typed_set_code split: option.splits prod.splits bind_splits if_splits dest!: typed_rules dest!: Suc.IH)
qed simp

lemma typed_base [simp]: "typed h \<Longrightarrow> typed (base_master n h)" "typed h \<Longrightarrow> typed (base_added i n h)"
  by (induction n arbitrary: h i) (simp_all add: typed_set_code)

lemma typed_expand_snd:
  assumes "expand_page_table os to h = Some y"
  shows "typed h \<longrightarrow> typed (snd y)"
proof (rule expand_page_table.raw_induct [of "\<lambda>os to h y. typed h \<longrightarrow> typed (snd y)", OF _ assms], goal_cases)
  case (1 f os to h y)
  show ?case using 1(2)
    by (auto simp: Let_def split: option.splits prod.splits bind_splits if_splits dest!: 1(1) typed_rules)
qed

lemma typed_expand [typed_rules]: "expand_page_table os to h = Some (r, h') \<Longrightarrow> typed h \<Longrightarrow> typed h'"
  using typed_expand_snd by fastforce

lemma typed_align_brk [typed_rules]: "align_brk os b h = (r, h') \<Longrightarrow> typed h \<Longrightarrow> typed h'"
  by (auto simp: align_brk_def split: prod.splits option.splits if_splits dest!: typed_rules)

lemma typed_valloc [typed_rules]: "valloc os sz h = Some (r, h') \<Longrightarrow> typed h \<Longrightarrow> typed h'"
  by (auto simp: valloc_def Let_def split: option.splits prod.splits bind_splits if_splits dest!: typed_rules)

lemma typed_free_extent [typed_rules]: "free_extent os p h = Some h' \<Longrightarrow> typed h \<Longrightarrow> typed h'"
  by (auto simp: free_extent_def Let_def split: option.splits prod.splits bind_splits if_splits dest!: typed_rules)

section \<open>Chunks\<close>

lemma bits_range [simp]: "bits11 x < 2 ^ 11" "- (2 ^ 11) \<le> bits12 x" "bits12 x < 2 ^ 11" "to_ushort x < 2 ^ 16"
  unfolding bits11_def bits12_def to_ushort_def by (simp_all add: nat_less_iff)

lemmas bits_range_simps [simp] = bits_range [simplified]

lemma typed_set_local: "typed h \<Longrightarrow> lf_count f < 2 ^ 16 \<Longrightarrow> lf_target f < 2 ^ 16 \<Longrightarrow> typed (set_local l f h)"
  by (simp add: typed_def local_typed_def set_local_def)

lemma typed_local: "typed h \<Longrightarrow> lf_count (hp_local h l) < 2 ^ 16 \<and> lf_target (hp_local h l) < 2 ^ 16"
  by (simp add: typed_def local_typed_def)

lemma typed_cut_page: "typed h \<Longrightarrow> l < NUMSMALL \<Longrightarrow> typed (cut_page l new h)"
  by (simp add: typed_def cut_page_def Let_def page_typed_def)

lemma typed_take_chunk [typed_rules]: "take_chunk l h = Some (r, h') \<Longrightarrow> typed h \<Longrightarrow> typed h'"
  using table_at [of "ph_tab h" "hp_freechunks h l"]
  by (auto simp: take_chunk_def typed_def page_typed_def Let_def split: if_splits)

lemma typed_refill: "refill os l n fl h = Some (r, h') \<Longrightarrow> typed h \<Longrightarrow> l < NUMSMALL \<Longrightarrow> typed h'"
proof (induction n arbitrary: fl h)
  case (Suc n)
  from Suc.prems show ?case
    by (auto simp: typed_cut_page split: option.splits prod.splits bind_splits if_splits dest!: typed_rules dest!: Suc.IH)
qed simp

lemma typed_pop [typed_rules]: "pop_local l h = (r, h') \<Longrightarrow> typed h \<Longrightarrow> typed h'"
  using typed_local [of h l] by (auto simp: pop_local_def Let_def intro!: typed_set_local)

lemma typed_malloc_small [typed_rules]:
  assumes "malloc_small os l h = Some (r, h')" "typed h"
  shows "typed h'"
proof -
  let ?f = "hp_local h l"
  have l: "l < NUMSMALL" using assms by (auto simp: malloc_small_def split: if_splits)
  have f: "lf_count ?f < 2 ^ 16" "lf_target ?f < 2 ^ 16" using typed_local [OF assms(2)] by auto
  consider "lf_free ?f \<noteq> 0" | "lf_free ?f = 0" "lf_aux ?f \<noteq> 0" | "lf_free ?f = 0" "lf_aux ?f = 0" by blast
  then show ?thesis
  proof cases
    case 1
    then show ?thesis using assms l by (auto simp: malloc_small_def Let_def dest!: typed_pop)
  next
    case 2
    have "typed (set_local l (?f\<lparr>lf_free := lf_aux ?f, lf_aux := 0, lf_count := lf_target ?f\<rparr>) h)"
      using assms(2) f by (intro typed_set_local) auto
    then show ?thesis using 2 assms l by (auto simp: malloc_small_def Let_def dest!: typed_pop)
  next
    case 3
    define f1 where "f1 = (if lf_target ?f = 0 then ?f\<lparr>lf_target := to_ushort (int (TARGET l))\<rparr> else ?f)"
    have f1: "lf_count f1 < 2 ^ 16" "lf_target f1 < 2 ^ 16" using f by (simp_all add: f1_def)
    obtain h1 fl h2 where run: "LOCK l (set_local l f1 h) = Some h1" "refill os l (lf_target f1) 0 h1 = Some (fl, h2)"
      "(case fl of None \<Rightarrow> (0, UNLOCK l h2)
        | Some fl \<Rightarrow> pop_local l (set_local l (f1\<lparr>lf_free := fl, lf_count := lf_target f1\<rparr>) (UNLOCK l h2))) = (r, h')"
      using assms l 3 by (auto simp: malloc_small_def f1_def [symmetric] Let_def split: bind_splits option.splits)
    have "typed h1" using typed_lock [OF run(1)] typed_set_local [OF assms(2)] f1 by blast
    then have "typed h2" using typed_refill [OF run(2)] l by blast
    then have "typed (UNLOCK l h2)" "typed (set_local l (f1\<lparr>lf_free := a, lf_count := lf_target f1\<rparr>) (UNLOCK l h2))" for a
      using f1 by (auto intro!: typed_set_local)
    then show ?thesis using run(3) by (auto split: option.splits dest!: typed_pop)
  qed
qed

lemma typed_give: "typed h \<Longrightarrow> typed (give_chunk l cp h)"
  using table_at [of "ph_tab h" "page_of cp"] by (simp add: give_chunk_def typed_def page_typed_def Let_def)

lemma typed_give_loop [typed_rules]:
  assumes "give_loop l cp cp2 h = Some h'"
  shows "typed h \<Longrightarrow> typed h'"
proof -
  have "typed h \<longrightarrow> typed h'"
  proof (rule give_loop.raw_induct [of "\<lambda>l cp cp2 h h'. typed h \<longrightarrow> typed h'", OF _ assms], goal_cases)
    case (1 f l cp cp2 h y)
    show ?case using 1(2) by (auto simp: Let_def typed_give split: if_splits dest!: 1(1))
  qed
  then show "typed h \<Longrightarrow> typed h'" ..
qed

lemma typed_release_loop [typed_rules]:
  assumes "release_loop os l h = Some h'"
  shows "typed h \<Longrightarrow> typed h'"
proof -
  have r: "typed (h\<lparr>hp_freechunks := a, ph_tab := (ph_tab h)(pn := (ph_tab h pn)\<lparr>pg_code := BIG, pg_count := 0, pg_free := 0, pg_page := b\<rparr>)\<rparr>)"
    if "typed h" for h a b pn using that by (simp add: typed_def page_typed_def)
  have "typed h \<longrightarrow> typed h'"
  proof (rule release_loop.raw_induct [of "\<lambda>os l h h'. typed h \<longrightarrow> typed h'", OF _ assms], goal_cases)
    case (1 f os l h y)
    show ?case using 1(2) by (auto simp: Let_def r split: if_splits bind_splits dest!: 1(1) typed_rules)
  qed
  then show "typed h \<Longrightarrow> typed h'" ..
qed

lemma typed_sorted: "page_list_sort p (ph_tab h) = Some (p', m') \<Longrightarrow> typed h \<Longrightarrow> typed (h\<lparr>ph_tab := m', hp_freechunks := c\<rparr>)"
  by (auto simp: typed_def dest: table_sort)

lemma typed_flush [typed_rules]:
  assumes "flush_to_global_freelist os l cp cp2 h = Some h'" "typed h"
  shows "typed h'"
proof -
  obtain h0 h1 pn m h2 where run: "LOCK l h = Some h0"
    "(if cp = 0 then give_loop l cp2 0 h0 else give_loop l cp cp2 h0) = Some h1"
    "page_list_sort (hp_freechunks h1 l) (ph_tab h1) = Some (pn, m)"
    "release_loop os l (h1\<lparr>ph_tab := m, hp_freechunks := (hp_freechunks h1)(l := pn)\<rparr>) = Some h2" "h' = UNLOCK l h2"
    using assms(1) by (auto simp: flush_to_global_freelist_def split: prod.splits bind_splits)
  have "typed h1" using run(2) typed_lock [OF run(1) assms(2)] by (auto split: if_splits dest!: typed_give_loop)
  then show ?thesis using typed_release_loop [OF run(4)] typed_sorted [OF run(3)] run(5) by simp
qed

lemma typed_free [typed_rules]:
  assumes "free os p h = Some h'" "typed h"
  shows "typed h'"
proof -
  define l where "l = pg_code (ph_tab h (page_of p))"
  have f: "lf_count (hp_local h l) < 2 ^ 16" "lf_target (hp_local h l) < 2 ^ 16" if "typed h" for h
    using typed_local [OF that] by auto
  have aux: "typed (set_local l ((hp_local h l)\<lparr>lf_aux := a\<rparr>) h)" "typed (set_local l ((hp_local h l)\<lparr>lf_aux := a, lf_free := b, lf_count := 0\<rparr>) h)"
    "typed (set_local l ((hp_local h l)\<lparr>lf_count := to_ushort x, lf_free := b\<rparr>) (h\<lparr>hp_next := nx\<rparr>))" if "typed h" for h a b x nx
    using that f [OF that] by (auto intro!: typed_set_local)
  consider "p = 0" | "p \<noteq> 0" "NUMSMALL \<le> l" | "p \<noteq> 0" "l < NUMSMALL" by linarith
  then show ?thesis
  proof cases
    case 3
    obtain h1 where h1: "(if lf_count (hp_local h l) = lf_target (hp_local h l) then do {
          h1 \<leftarrow> (if lf_aux (hp_local h l) \<noteq> 0
                 then flush_to_global_freelist os l (lf_aux (hp_local h l)) 0 (set_local l ((hp_local h l)\<lparr>lf_aux := 0\<rparr>) h)
                 else Some h);
          Some (set_local l ((hp_local h1 l)\<lparr>lf_aux := lf_free (hp_local h1 l), lf_free := 0, lf_count := 0\<rparr>) h1)
        } else Some h) = Some h1"
      "h' = set_local l ((hp_local h1 l)\<lparr>lf_count := to_ushort (int (lf_count (hp_local h1 l)) + 1), lf_free := p\<rparr>)
        (h1\<lparr>hp_next := (hp_next h1)(p := lf_free (hp_local h1 l))\<rparr>)"
      using assms(1) 3 by (auto simp: free_def l_def [symmetric] Let_def split: bind_splits)
    have "typed h1" using h1(1) assms(2) by (auto simp: aux split: if_splits bind_splits dest!: typed_flush)
    then show ?thesis unfolding h1(2) by (rule aux(3))
  qed (use assms in \<open>auto simp: free_def l_def Let_def dest!: typed_free_extent\<close>)
qed

lemma typed_malloc [typed_rules]: "malloc os sz h = Some (r, h') \<Longrightarrow> typed h \<Longrightarrow> typed h'"
  by (auto simp: malloc_def Let_def split: if_splits dest!: typed_rules)

lemma typed_resize [typed_rules]:
  "grow_extent p n h = Some (b, h') \<Longrightarrow> typed h \<Longrightarrow> typed h'" "shrink_extent os p n h = Some h' \<Longrightarrow> typed h \<Longrightarrow> typed h'"
  "mresize os p sz h = Some (b, h') \<Longrightarrow> typed h \<Longrightarrow> typed h'"
proof -
  show grow: "typed h'" if "grow_extent p n h = Some (b, h')" "typed h" for p n h b h'
  proof -
    have "typed h0 \<Longrightarrow> typed (h0\<lparr>ph_fp := x, ph_tab := fill_pages e k p (set_page p t (set_code e MIDDLE (ph_tab h0)))\<rparr>)" for h0 x e k t
      by (simp add: typed_def)
    then show ?thesis using that by (auto simp: grow_extent_def Let_def split: bind_splits if_splits dest!: typed_lock)
  qed
  show shrink: "typed h'" if "shrink_extent os p n h = Some h'" "typed h" for os p n h h'
  proof -
    have "typed h0 \<Longrightarrow> typed (h0\<lparr>ph_tab := set_page p t (back_loop t t k (set_page t e (set_code t BIG (ph_tab h0))))\<rparr>)" for h0 e k t
      by (simp add: typed_def)
    then show ?thesis using that by (auto simp: shrink_extent_def Let_def split: bind_splits dest!: typed_rules)
  qed
  show "mresize os p sz h = Some (b, h') \<Longrightarrow> typed h \<Longrightarrow> typed h'"
    by (auto simp: mresize_def Let_def split: bind_splits if_splits dest!: grow shrink)
qed

lemma typed_fini: "fini_loop os n l h = Some h' \<Longrightarrow> typed h \<Longrightarrow> typed h'"
proof (induction n arbitrary: l h)
  case (Suc n)
  have "typed (set_local l ((hp_local h l)\<lparr>lf_aux := 0, lf_free := 0, lf_count := 0\<rparr>) h)" if "typed h" for h
    using that typed_local [OF that] by (auto intro!: typed_set_local)
  then show ?case using Suc.prems by (auto split: bind_splits if_splits dest!: typed_flush Suc.IH)
qed simp

section \<open>Property\<close>

lemma table_zeroed: "table_typed m \<Longrightarrow> table_typed (\<lambda>i. if P i then zero_page else m i)"
  by (simp add: table_typed_def page_typed_def zero_page_def code_ok_def NUMSMALL_def size256_def)

lemma typed_msetup: "typed h \<Longrightarrow> typed (msetup h)"
proof -
  assume "typed h"
  then have "table_typed (\<lambda>i. if i < PAGESIZE div sizeof_page then zero_page else ph_tab h i)" "local_typed (hp_local h)"
    using table_zeroed by (auto simp: typed_def)
  then show ?thesis by (simp add: typed_def msetup_def Let_def)
qed


lemma fresh_typed: "typed fresh"
proof -
  have "typed (msetup (blank\<lparr>hp_mfd := 3, hp_mapped := 12288\<rparr>))"
    by (rule typed_msetup) (simp add: typed_def blank_def table_typed_def page_typed_def zero_page_def code_ok_def
        NUMSMALL_def size256_def local_typed_def empty_local_def)
  moreover have "ph_tab fresh = ph_tab (msetup (blank\<lparr>hp_mfd := 3, hp_mapped := 12288\<rparr>))"
    by (simp add: fresh_def blank_def good_os_def shm_create_def shm_ready_def do_mmap_def do_ftruncate_def msetup_def
        Let_def PAGESIZE_def)
  ultimately show ?thesis by (simp add: typed_def fresh_simps local_typed_def empty_local_def)
qed


end
