(* ===== verification/Hazard.thy ===== *)
theory Hazard
  imports Main
begin

text \<open>
  The class \<open>HazardPointers\<close> of \<open>src/c++/HazardPointers.hpp\<close>, its member functions as one thread runs them:
  a table \<open>hp[tid][ihp]\<close> of protected pointers, and per thread a list of retired objects that are destroyed when no
  entry of the table holds them. A pointer is a number, 0 is \<open>nullptr\<close>. The list of a thread is
  \<open>retiredList[tid*CLPAD]\<close>; the entries between are padding and stay empty. What \<open>shm->destroy_ptr\<close> was called with is
  in a log. How the threads interleave, for the queue that uses the class, is in the theory \<open>Reclaim\<close>.
\<close>

section \<open>State\<close>

definition HP_MAX_THREADS :: nat where "HP_MAX_THREADS = 128"
definition HP_MAX_HPS :: nat where "HP_MAX_HPS = 4"
definition HP_THRESHOLD_R :: nat where "HP_THRESHOLD_R = 0"

record hazard =
  hz_maxHPs :: nat
  hz_maxThreads :: nat
  hz_hp :: "nat \<Rightarrow> nat \<Rightarrow> nat"
  hz_retired :: "nat \<Rightarrow> nat list"
  hz_destroyed :: "nat list"

section \<open>Member functions\<close>

text \<open>The constructor: arrays of atomic pointers that are value-initialised, then stores of \<open>nullptr\<close> into the first ones.\<close>

definition HazardPointers :: "nat \<Rightarrow> nat \<Rightarrow> hazard" where
  "HazardPointers maxHPs maxThreads =
     \<lparr>hz_maxHPs = maxHPs, hz_maxThreads = maxThreads, hz_hp = (\<lambda>_ _. 0), hz_retired = (\<lambda>_. []), hz_destroyed = []\<rparr>"

text \<open>The destructor destroys what is still retired.\<close>

fun destroy_retired :: "nat \<Rightarrow> nat \<Rightarrow> hazard \<Rightarrow> hazard" where
  "destroy_retired 0 ithread z = z"
| "destroy_retired (Suc n) ithread z =
     destroy_retired n (ithread + 1) (z\<lparr>hz_destroyed := hz_destroyed z @ hz_retired z ithread\<rparr>)"

definition hazard_destructor :: "hazard \<Rightarrow> hazard" where
  "hazard_destructor z = destroy_retired HP_MAX_THREADS 0 z"

definition clearOne :: "nat \<Rightarrow> nat \<Rightarrow> hazard \<Rightarrow> hazard" where
  "clearOne ihp tid z = z\<lparr>hz_hp := (hz_hp z)(tid := (hz_hp z tid)(ihp := 0))\<rparr>"

fun clear_loop :: "nat \<Rightarrow> nat \<Rightarrow> nat \<Rightarrow> hazard \<Rightarrow> hazard" where
  "clear_loop 0 ihp tid z = z"
| "clear_loop (Suc n) ihp tid z = clear_loop n (ihp + 1) tid (clearOne ihp tid z)"

definition clear :: "nat \<Rightarrow> hazard \<Rightarrow> hazard" where
  "clear tid z = clear_loop (hz_maxHPs z) 0 tid z"

definition protectPtr :: "nat \<Rightarrow> nat \<Rightarrow> nat \<Rightarrow> hazard \<Rightarrow> nat \<times> hazard" where
  "protectPtr index ptr tid z = (ptr, z\<lparr>hz_hp := (hz_hp z)(tid := (hz_hp z tid)(index := ptr))\<rparr>)"

definition protectRelease :: "nat \<Rightarrow> nat \<Rightarrow> nat \<Rightarrow> hazard \<Rightarrow> nat \<times> hazard" where
  "protectRelease index ptr tid z = (ptr, z\<lparr>hz_hp := (hz_hp z)(tid := (hz_hp z tid)(index := ptr))\<rparr>)"

text \<open>
  \<open>protect\<close>: the values that \<open>atom.load()\<close> returns one after the other are an argument, since other threads
  change the atom; \<^const>\<open>None\<close> means that the loop has used all of them and still runs.
\<close>

fun protect_loop :: "nat \<Rightarrow> nat \<Rightarrow> nat \<Rightarrow> nat list \<Rightarrow> hazard \<Rightarrow> (nat \<times> hazard) option" where
  "protect_loop index tid n [] z = None"
| "protect_loop index tid n (ret # loads) z =
     (if ret = n then Some (ret, z) else protect_loop index tid ret loads (snd (protectPtr index ret tid z)))"

definition protect :: "nat \<Rightarrow> nat list \<Rightarrow> nat \<Rightarrow> hazard \<Rightarrow> (nat \<times> hazard) option" where
  "protect index loads tid z = protect_loop index tid 0 loads z"

text \<open>\<open>retire\<close>: the loops over the table, from the last pointer of a thread to the first, and over the threads.\<close>

fun scan_hps :: "(nat \<Rightarrow> nat) \<Rightarrow> nat \<Rightarrow> nat \<Rightarrow> bool" where
  "scan_hps row obj 0 = False"
| "scan_hps row obj (Suc ihp) = (if row ihp = obj then True else scan_hps row obj ihp)"

fun can_delete :: "(nat \<Rightarrow> nat \<Rightarrow> nat) \<Rightarrow> nat \<Rightarrow> nat \<Rightarrow> nat \<Rightarrow> nat \<Rightarrow> bool" where
  "can_delete hp maxHPs obj 0 tid = True"
| "can_delete hp maxHPs obj (Suc n) tid =
     (if scan_hps (hp tid) obj maxHPs then False else can_delete hp maxHPs obj n (tid + 1))"

function retire_loop :: "(nat \<Rightarrow> bool) \<Rightarrow> nat \<Rightarrow> nat list \<Rightarrow> nat list \<Rightarrow> nat list \<times> nat list" where
  "retire_loop del iret xs destroyed =
     (if iret < length xs then
        (if del (xs ! iret) then retire_loop del iret (take iret xs @ drop (iret + 1) xs) (destroyed @ [xs ! iret])
         else retire_loop del (iret + 1) xs destroyed)
      else (xs, destroyed))"
  by auto
termination by (relation "measure (\<lambda>(del, iret, xs, d). length xs - iret)") auto

declare retire_loop.simps [simp del]

definition retire :: "nat \<Rightarrow> nat \<Rightarrow> hazard \<Rightarrow> hazard" where
  "retire ptr tid z =
     (let xs = hz_retired z tid @ [ptr]
      in if length xs < HP_THRESHOLD_R then z\<lparr>hz_retired := (hz_retired z)(tid := xs)\<rparr>
         else let (ys, d) = retire_loop (\<lambda>obj. can_delete (hz_hp z) (hz_maxHPs z) obj (hz_maxThreads z) 0) 0 xs (hz_destroyed z)
              in z\<lparr>hz_retired := (hz_retired z)(tid := ys), hz_destroyed := d\<rparr>)"

section \<open>Facts\<close>

text \<open>The pointers that the table holds.\<close>

definition hazards :: "hazard \<Rightarrow> nat set" where
  "hazards z = {hz_hp z t i | t i. t < hz_maxThreads z \<and> i < hz_maxHPs z}"

lemma scan_hps_iff: "scan_hps row obj n \<longleftrightarrow> (\<exists>i < n. row i = obj)"
  by (induction n) (auto simp: less_Suc_eq)

lemma can_delete_iff: "can_delete hp k obj n t \<longleftrightarrow> (\<forall>j. t \<le> j \<and> j < t + n \<longrightarrow> \<not> (\<exists>i < k. hp j i = obj))"
proof (induction n arbitrary: t)
  case (Suc n)
  have "(\<forall>j. t \<le> j \<and> j < t + Suc n \<longrightarrow> P j) \<longleftrightarrow> P t \<and> (\<forall>j. t + 1 \<le> j \<and> j < t + 1 + n \<longrightarrow> P j)" for P
    by (auto intro: le_neq_implies_less) (metis Suc_eq_plus1 Suc_leI add_Suc_right le_neq_implies_less)
  then show ?case by (simp add: Suc scan_hps_iff)
qed simp

lemma can_delete_hazards: "can_delete (hz_hp z) (hz_maxHPs z) obj (hz_maxThreads z) 0 \<longleftrightarrow> obj \<notin> hazards z"
  by (auto simp: can_delete_iff hazards_def)

lemma retire_loop_eq:
  "iret \<le> length xs \<Longrightarrow>
   retire_loop del iret xs d = (take iret xs @ filter (\<lambda>x. \<not> del x) (drop iret xs), d @ filter del (drop iret xs))"
proof (induction del iret xs d rule: retire_loop.induct)
  case (1 del iret xs d)
  show ?case
  proof (cases "iret < length xs")
    case True
    note split = Cons_nth_drop_Suc [OF True, symmetric]
    show ?thesis
    proof (cases "del (xs ! iret)")
      case del: True
      have "retire_loop del iret xs d = retire_loop del iret (take iret xs @ drop (iret + 1) xs) (d @ [xs ! iret])"
        using True del by (subst retire_loop.simps) simp
      also have "\<dots> = (take iret xs @ filter (\<lambda>x. \<not> del x) (drop (Suc iret) xs), d @ [xs ! iret] @ filter del (drop (Suc iret) xs))"
        using "1.IH"(1) [OF True del] True by simp
      finally show ?thesis using del by (simp add: split)
    next
      case False
      have "retire_loop del iret xs d = retire_loop del (iret + 1) xs d"
        using True False by (subst retire_loop.simps) simp
      then show ?thesis using "1.IH"(2) [OF True False] True False by (simp add: split take_Suc_conv_app_nth)
    qed
  qed (use 1 in \<open>subst retire_loop.simps, simp\<close>)
qed

lemma clear_loop_eq:
  "clear_loop n k tid z = z\<lparr>hz_hp := (hz_hp z)(tid := (\<lambda>i. if k \<le> i \<and> i < k + n then 0 else hz_hp z tid i))\<rparr>"
proof (induction n arbitrary: k z)
  case (Suc n)
  have "(\<lambda>i. if k + 1 \<le> i \<and> i < k + 1 + n then 0 else if i = k then 0 else hz_hp z tid i) =
    (\<lambda>i. if k \<le> i \<and> i < k + Suc n then 0 else hz_hp z tid i)" by (rule ext) auto
  then show ?case by (simp add: Suc clearOne_def fun_upd_def cong: if_cong)
next
  case 0
  have "(\<lambda>i. if k \<le> i \<and> i < k + 0 then 0 else hz_hp z tid i) = hz_hp z tid" by (rule ext) auto
  then show ?case by simp
qed

lemma retire_eq:
  "retire ptr tid z = z\<lparr>hz_retired := (hz_retired z)(tid := filter (\<lambda>x. x \<in> hazards z) (hz_retired z tid @ [ptr])),
     hz_destroyed := hz_destroyed z @ filter (\<lambda>x. x \<notin> hazards z) (hz_retired z tid @ [ptr])\<rparr>"
  by (simp add: retire_def HP_THRESHOLD_R_def retire_loop_eq can_delete_hazards)

lemma card_hazards: "finite (hazards z)" "card (hazards z) \<le> hz_maxThreads z * hz_maxHPs z"
proof -
  have eq: "hazards z = (\<lambda>(t, i). hz_hp z t i) ` ({..<hz_maxThreads z} \<times> {..<hz_maxHPs z})" by (auto simp: hazards_def)
  then show "finite (hazards z)" by simp
  show "card (hazards z) \<le> hz_maxThreads z * hz_maxHPs z"
    unfolding eq by (rule order_trans [OF card_image_le]) (simp_all add: card_cartesian_product)
qed

section \<open>Properties\<close>

text \<open>
  (C39) \<open>retire\<close> keeps exactly what is protected. Of the retired objects of the thread and the new one, those that some entry
  of the table holds stay in the list, in order, and all others are destroyed, each once; nothing that is
  protected is destroyed. If the list has no duplicates, at most \<open>maxThreads * maxHPs\<close> objects remain, so the
  memory that waits for destruction is bounded.
\<close>

theorem retire_keeps_protected:
  assumes "distinct (hz_retired z tid @ [ptr])"
  shows "hz_retired (retire ptr tid z) tid = filter (\<lambda>x. x \<in> hazards z) (hz_retired z tid @ [ptr]) \<and>
    hz_destroyed (retire ptr tid z) = hz_destroyed z @ filter (\<lambda>x. x \<notin> hazards z) (hz_retired z tid @ [ptr]) \<and>
    (\<forall>t. t \<noteq> tid \<longrightarrow> hz_retired (retire ptr tid z) t = hz_retired z t) \<and>
    hz_hp (retire ptr tid z) = hz_hp z \<and>
    length (hz_retired (retire ptr tid z) tid) \<le> hz_maxThreads z * hz_maxHPs z"
proof -
  let ?l = "filter (\<lambda>x. x \<in> hazards z) (hz_retired z tid @ [ptr])"
  have "length ?l = card (set ?l)" using distinct_card [OF distinct_filter [OF assms]] by metis
  also have "\<dots> \<le> card (hazards z)" by (rule card_mono [OF card_hazards(1)]) auto
  also note card_hazards(2)
  finally show ?thesis by (simp add: retire_eq)
qed

definition two_threads :: hazard where
  "two_threads = (snd (protectPtr 0 7 1 (HazardPointers 1 2)))\<lparr>hz_retired := (\<lambda>_. [])(0 := [5])\<rparr>"

theorem retire_keeps_protected_witness:
  "hz_retired (retire 7 0 two_threads) 0 = [7] \<and> hz_destroyed (retire 7 0 two_threads) = [5] \<and>
   length (hz_retired (retire 7 0 two_threads) 0) \<le> 2"
proof -
  have "hazards two_threads = {0, 7}"
    by (auto simp: hazards_def two_threads_def protectPtr_def HazardPointers_def less_2_cases_iff)
  then show ?thesis using retire_keeps_protected [of two_threads 0 7]
    by (simp add: two_threads_def protectPtr_def HazardPointers_def)
qed

text \<open>
  \<open>protect\<close> returns a pointer that the table holds and that the atom had after the store: the
  last load gave the same value as the one before it, and so it ends as soon as the atom stops changing.
\<close>

lemma protect_loop_result:
  assumes "protect_loop index tid n loads z = Some (ret, z')" "n = 0 \<or> hz_hp z tid index = n"
  shows "(ret = 0 \<or> hz_hp z' tid index = ret) \<and> ret \<in> set loads"
  using assms by (induction loads arbitrary: n z) (auto simp: protectPtr_def split: if_splits)

lemma protect_settles: "ret \<noteq> 0 \<Longrightarrow> protect index (ret # ret # loads) tid z = Some (protectPtr index ret tid z)"
  by (simp add: protect_def protectPtr_def)

end
