(* ===== verification/Reclaim.thy ===== *)
theory Reclaim
  imports Hazard Transition
begin

text \<open>
  How \<open>LCRQueue\<close> of \<open>src/c++/LCRQueue.hpp\<close> reclaims its rings: the accesses of \<open>enqueue\<close>, \<open>dequeue\<close> and of
  \<open>HazardPointers::retire\<close> to the pointers \<open>head\<close>, \<open>tail\<close> and \<open>next\<close>, to the table of hazard pointers and to the memory
  of the rings, interleaved one at a time for \<open>maxThreads\<close> threads. The queue has one hazard pointer per thread
  (\<open>maxHPs\<close> is 1, \<open>kHpTail\<close> and \<open>kHpHead\<close> are 0). What happens inside a ring does not matter here: how
  an access to its tickets and cells turns out is a free choice of the schedule, and so is the address of a new ring,
  which may be one that was destroyed before. A ring's address is a number, 0 is \<open>nullptr\<close>.
\<close>

section \<open>State\<close>

datatype node_pc =
    Idle                        \<comment> \<open>no call\<close>
  | E_load                      \<comment> \<open>\<open>enqueue\<close>: \<open>tail.load()\<close>\<close>
  | E_prot nat                  \<comment> \<open>\<open>protectPtr(kHpTail, ltail, tid)\<close>\<close>
  | E_check nat                 \<comment> \<open>\<open>ltail != tail.load()\<close>\<close>
  | E_next nat                  \<comment> \<open>\<open>lnext = ltail->next.load()\<close>\<close>
  | E_help nat nat              \<comment> \<open>\<open>tail.compare_exchange_strong(ltail, lnext)\<close>\<close>
  | E_ring nat                  \<comment> \<open>an access to the tickets and cells of \<open>ltail\<close>\<close>
  | E_alloc nat                 \<comment> \<open>\<open>newNode = shm->construct<Node>\<close>\<close>
  | E_link nat nat              \<comment> \<open>\<open>ltail->next.compare_exchange_strong(nullnode, newNode)\<close>\<close>
  | E_swing nat nat             \<comment> \<open>\<open>tail.compare_exchange_strong(ltail, newNode)\<close>\<close>
  | E_drop nat nat              \<comment> \<open>\<open>shm->destroy_ptr(newNode)\<close>\<close>
  | Clear                       \<comment> \<open>\<open>hp->clear(tid)\<close>, then return\<close>
  | D_load                      \<comment> \<open>\<open>dequeue\<close>: \<open>head.load()\<close>\<close>
  | D_prot nat                  \<comment> \<open>\<open>protectPtr(kHpHead, lhead, tid)\<close>\<close>
  | D_check nat                 \<comment> \<open>\<open>lhead != head.load()\<close>\<close>
  | D_ring nat                  \<comment> \<open>an access to the tickets and cells of \<open>lhead\<close>\<close>
  | D_next nat                  \<comment> \<open>\<open>lnext = lhead->next.load()\<close>\<close>
  | D_tail nat nat              \<comment> \<open>\<open>tail_index(lhead->tail) <= headticket + 1\<close>\<close>
  | D_swing nat nat             \<comment> \<open>\<open>head.compare_exchange_strong(lhead, lnext)\<close>\<close>
  | R_push nat                  \<comment> \<open>\<open>retire(lhead, tid)\<close>: \<open>push_back\<close>\<close>
  | R_obj nat                   \<comment> \<open>\<open>iret < size()\<close>, \<open>obj = retiredList[iret]\<close>\<close>
  | R_hp nat nat nat            \<comment> \<open>\<open>hp[tid][0].load() == obj\<close>: iret, obj, the inner \<open>tid\<close>\<close>
  | R_free nat nat              \<comment> \<open>\<open>erase\<close> and \<open>shm->destroy_ptr(obj)\<close>\<close>

record nodes =
  nd_head :: nat
  nd_tail :: nat
  nd_next :: "nat \<Rightarrow> nat"
  nd_live :: "nat \<Rightarrow> bool"
  nd_hp :: "nat \<Rightarrow> nat"
  nd_retired :: "nat \<Rightarrow> nat list"
  nd_pc :: "nat \<Rightarrow> node_pc"

definition goto :: "nat \<Rightarrow> node_pc \<Rightarrow> nodes \<Rightarrow> nodes" where
  "goto t c s = s\<lparr>nd_pc := (nd_pc s)(t := c)\<rparr>"

section \<open>One access\<close>

text \<open>
  The access that thread \<open>t\<close> makes next, with a choice \<open>k\<close>: which call begins, how an access to a ring turns out, where a
  new ring is put (an address in use cannot be chosen).
\<close>

fun node_next :: "nat \<Rightarrow> node_pc \<Rightarrow> nat \<Rightarrow> nat \<Rightarrow> nodes \<Rightarrow> nodes" where
  "node_next n Idle t k s = goto t (if k = 0 then E_load else D_load) s"
| "node_next n E_load t k s = goto t (E_prot (nd_tail s)) s"
| "node_next n (E_prot l) t k s = goto t (E_check l) (s\<lparr>nd_hp := (nd_hp s)(t := l)\<rparr>)"
| "node_next n (E_check l) t k s = goto t (if l \<noteq> nd_tail s then E_load else E_next l) s"
| "node_next n (E_next l) t k s = goto t (if nd_next s l \<noteq> 0 then E_help l (nd_next s l) else E_ring l) s"
| "node_next n (E_help l m) t k s = goto t E_load (if nd_tail s = l then s\<lparr>nd_tail := m\<rparr> else s)"
| "node_next n (E_ring l) t k s =
     goto t (if k = 0 then Clear else if k = 1 then E_load else if k = 2 then E_ring l else E_alloc l) s"
| "node_next n (E_alloc l) t k s =
     (if k = 0 \<or> nd_live s k then s
      else goto t (E_link l k) (s\<lparr>nd_live := (nd_live s)(k := True), nd_next := (nd_next s)(k := 0)\<rparr>))"
| "node_next n (E_link l a) t k s =
     (if nd_next s l = 0 then goto t (E_swing l a) (s\<lparr>nd_next := (nd_next s)(l := a)\<rparr>) else goto t (E_drop l a) s)"
| "node_next n (E_swing l a) t k s = goto t Clear (if nd_tail s = l then s\<lparr>nd_tail := a\<rparr> else s)"
| "node_next n (E_drop l a) t k s = goto t E_load (s\<lparr>nd_live := (nd_live s)(a := False)\<rparr>)"
| "node_next n Clear t k s = goto t Idle (s\<lparr>nd_hp := (nd_hp s)(t := 0)\<rparr>)"
| "node_next n D_load t k s = goto t (D_prot (nd_head s)) s"
| "node_next n (D_prot l) t k s = goto t (D_check l) (s\<lparr>nd_hp := (nd_hp s)(t := l)\<rparr>)"
| "node_next n (D_check l) t k s = goto t (if l \<noteq> nd_head s then D_load else D_ring l) s"
| "node_next n (D_ring l) t k s =
     goto t (if k = 0 then Clear else if k = 1 then D_load else if k = 2 then D_ring l else D_next l) s"
| "node_next n (D_next l) t k s = goto t (if nd_next s l = 0 then Clear else D_tail l (nd_next s l)) s"
| "node_next n (D_tail l m) t k s = goto t (if k = 0 then D_swing l m else D_load) s"
| "node_next n (D_swing l m) t k s =
     (if nd_head s = l then goto t (R_push l) (s\<lparr>nd_head := m\<rparr>) else goto t D_load s)"
| "node_next n (R_push l) t k s = goto t (R_obj 0) (s\<lparr>nd_retired := (nd_retired s)(t := nd_retired s t @ [l])\<rparr>)"
| "node_next n (R_obj i) t k s =
     goto t (if i < length (nd_retired s t) then R_hp i (nd_retired s t ! i) 0 else D_load) s"
| "node_next n (R_hp i obj j) t k s =
     goto t (if n \<le> j then R_free i obj else if nd_hp s j = obj then R_obj (i + 1) else R_hp i obj (j + 1)) s"
| "node_next n (R_free i obj) t k s =
     goto t (R_obj i) (s\<lparr>nd_retired := (nd_retired s)(t := take i (nd_retired s t) @ drop (i + 1) (nd_retired s t)),
                         nd_live := (nd_live s)(obj := False)\<rparr>)"

definition node_act :: "nat \<Rightarrow> nat \<Rightarrow> nat \<Rightarrow> nodes \<Rightarrow> nodes" where
  "node_act n t k s = node_next n (nd_pc s t) t k s"

text \<open>A step of one of the \<open>n\<close> threads; the constructor of the queue leaves one ring, the sentinel.\<close>

definition node_step :: "nat \<Rightarrow> nodes \<Rightarrow> nodes \<Rightarrow> bool" where
  "node_step n s s' \<longleftrightarrow> (\<exists>t k. t < n \<and> s' = node_act n t k s)"

definition node_init :: "nat \<Rightarrow> nodes" where
  "node_init sentinel =
     \<lparr>nd_head = sentinel, nd_tail = sentinel, nd_next = (\<lambda>_. 0), nd_live = (\<lambda>x. x = sentinel), nd_hp = (\<lambda>_. 0),
      nd_retired = (\<lambda>_. []), nd_pc = (\<lambda>_. Idle)\<rparr>"

definition node_start :: "nodes \<Rightarrow> bool" where
  "node_start s \<longleftrightarrow> (\<exists>p. p \<noteq> 0 \<and> s = node_init p)"

section \<open>What a thread relies on\<close>

text \<open>The ring whose memory the next access of a thread touches.\<close>

fun touches :: "node_pc \<Rightarrow> nat option" where
  "touches (E_next l) = Some l" | "touches (E_ring l) = Some l" | "touches (E_link l a) = Some l"
| "touches (D_ring l) = Some l" | "touches (D_next l) = Some l" | "touches (D_tail l m) = Some l"
| "touches (E_drop l a) = Some a" | "touches (R_free i obj) = Some obj" | "touches _ = None"

text \<open>The pointer that a thread has protected and checked.\<close>

fun validated :: "node_pc \<Rightarrow> nat option" where
  "validated (E_next l) = Some l" | "validated (E_help l m) = Some l" | "validated (E_ring l) = Some l"
| "validated (E_alloc l) = Some l" | "validated (E_link l a) = Some l" | "validated (E_swing l a) = Some l"
| "validated (E_drop l a) = Some l" | "validated (D_ring l) = Some l" | "validated (D_next l) = Some l"
| "validated (D_tail l m) = Some l" | "validated (D_swing l m) = Some l" | "validated (R_push l) = Some l"
| "validated _ = None"

text \<open>A link it has read, a ring it has constructed and not linked, the tail it may append to, the ring it is about to retire.\<close>

fun link_read :: "node_pc \<Rightarrow> (nat \<times> nat) option" where
  "link_read (E_help l m) = Some (l, m)" | "link_read (E_swing l m) = Some (l, m)"
| "link_read (D_tail l m) = Some (l, m)" | "link_read (D_swing l m) = Some (l, m)" | "link_read _ = None"

fun announced :: "node_pc \<Rightarrow> nat option" where
  "announced (E_check l) = Some l" | "announced (D_check l) = Some l" | "announced _ = None"

fun own_new :: "node_pc \<Rightarrow> nat option" where
  "own_new (E_link l a) = Some a" | "own_new (E_drop l a) = Some a" | "own_new _ = None"

fun append_to :: "node_pc \<Rightarrow> nat option" where
  "append_to (E_next l) = Some l" | "append_to (E_ring l) = Some l" | "append_to (E_alloc l) = Some l"
| "append_to (E_link l a) = Some l" | "append_to _ = None"

fun retiring :: "node_pc \<Rightarrow> nat option" where
  "retiring (R_push l) = Some l" | "retiring _ = None"

fun scanning :: "node_pc \<Rightarrow> bool" where
  "scanning (R_obj i) = True" | "scanning (R_hp i obj j) = True" | "scanning (R_free i obj) = True" | "scanning _ = False"

section \<open>Invariant\<close>

text \<open>The rings from the first that \<open>head\<close> or \<open>tail\<close> points to, along \<open>next\<close>.\<close>

fun linked :: "(nat \<Rightarrow> nat) \<Rightarrow> nat list \<Rightarrow> bool" where
  "linked nx [] = False"
| "linked nx [x] = (x \<noteq> 0 \<and> nx x = 0)"
| "linked nx (x # y # c) = (x \<noteq> 0 \<and> nx x = y \<and> linked nx (y # c))"

definition retired_by :: "nodes \<Rightarrow> nat \<Rightarrow> nat set" where
  "retired_by s t = set (nd_retired s t) \<union> set_option (retiring (nd_pc s t))"

definition old :: "nodes \<Rightarrow> nat set" where
  "old s = (\<Union>t. retired_by s t)"

text \<open>
  Either \<open>head\<close> is the first of them, none is retired, and \<open>tail\<close> is one of the last two; or \<open>tail\<close> lags behind \<open>head\<close>
  by one ring, which is retired but not destroyed.
\<close>

definition rings_ok :: "nat list \<Rightarrow> nodes \<Rightarrow> bool" where
  "rings_ok c s \<longleftrightarrow> linked (nd_next s) c \<and> distinct c \<and> (\<forall>x \<in> set c. nd_live s x) \<and>
     (hd c = nd_head s \<and> old s \<inter> set c = {} \<and> nd_tail s \<in> set (drop (length c - 2) c) \<or>
      c = [nd_tail s, nd_head s] \<and> nd_tail s \<in> old s \<and> nd_head s \<notin> old s)"

definition retired_ok :: "nodes \<Rightarrow> bool" where
  "retired_ok s \<longleftrightarrow> (\<forall>x \<in> old s. nd_live s x \<and> nd_next s x \<noteq> 0 \<and> x \<noteq> 0) \<and> (\<forall>t. distinct (nd_retired s t)) \<and>
     (\<forall>t t'. t \<noteq> t' \<longrightarrow> retired_by s t \<inter> retired_by s t' = {})"

definition thread_ok :: "nat \<Rightarrow> nat list \<Rightarrow> nodes \<Rightarrow> nat \<Rightarrow> bool" where
  "thread_ok n c s t \<longleftrightarrow>
     (\<forall>l. announced (nd_pc s t) = Some l \<longrightarrow> nd_hp s t = l) \<and>
     (\<forall>l. validated (nd_pc s t) = Some l \<longrightarrow> nd_hp s t = l \<and> l \<in> set c \<union> old s) \<and>
     (\<forall>l m. link_read (nd_pc s t) = Some (l, m) \<longrightarrow> nd_next s l = m \<and> m \<noteq> 0) \<and>
     (\<forall>a. own_new (nd_pc s t) = Some a \<longrightarrow> nd_live s a \<and> nd_next s a = 0 \<and> a \<noteq> 0 \<and> a \<notin> set c \<union> old s) \<and>
     (\<forall>l. append_to (nd_pc s t) = Some l \<and> nd_next s l = 0 \<longrightarrow> nd_tail s = l) \<and>
     (scanning (nd_pc s t) \<longrightarrow> (\<forall>x \<in> set (nd_retired s t). x \<noteq> nd_hp s t \<longrightarrow> x \<notin> set c)) \<and>
     (\<forall>l. retiring (nd_pc s t) = Some l \<longrightarrow> l \<notin> set (nd_retired s t) \<and> set (nd_retired s t) \<inter> set c = {}) \<and>
     (\<forall>i obj j. nd_pc s t = R_hp i obj j \<longrightarrow> i < length (nd_retired s t) \<and> nd_retired s t ! i = obj \<and>
        (obj \<noteq> nd_hp s t \<longrightarrow> (\<forall>u < j. validated (nd_pc s u) \<noteq> Some obj)) \<and> (t < j \<longrightarrow> obj \<noteq> nd_hp s t)) \<and>
     (\<forall>i obj. nd_pc s t = R_free i obj \<longrightarrow> i < length (nd_retired s t) \<and> nd_retired s t ! i = obj \<and>
        obj \<noteq> nd_hp s t \<and> (\<forall>u < n. validated (nd_pc s u) \<noteq> Some obj)) \<and>
     (n \<le> t \<longrightarrow> nd_pc s t = Idle)"

definition new_ok :: "nodes \<Rightarrow> bool" where
  "new_ok s \<longleftrightarrow> (\<forall>t u a. own_new (nd_pc s t) = Some a \<and> own_new (nd_pc s u) = Some a \<longrightarrow> t = u)"

definition reclaim_ok :: "nat \<Rightarrow> nat list \<Rightarrow> nodes \<Rightarrow> bool" where
  "reclaim_ok n c s \<longleftrightarrow> rings_ok c s \<and> retired_ok s \<and> new_ok s \<and> (\<forall>t. thread_ok n c s t)"

definition reclaim_inv :: "nat \<Rightarrow> nodes \<Rightarrow> bool" where
  "reclaim_inv n s \<longleftrightarrow> (\<exists>c. reclaim_ok n c s)"

subsection \<open>Linked rings\<close>

lemma linked_nonempty: "linked nx c \<Longrightarrow> c \<noteq> [] \<and> 0 \<notin> set c"
  by (induction nx c rule: linked.induct) auto

lemma linked_end: "linked nx c \<Longrightarrow> distinct c \<Longrightarrow> x \<in> set c \<Longrightarrow> nx x = 0 \<longleftrightarrow> x = last c"
  by (induction nx c rule: linked.induct) (auto dest: linked_nonempty split: if_splits)

lemma linked_other: "linked nx c \<Longrightarrow> a \<notin> set c \<Longrightarrow> linked (nx(a := v)) c"
  by (induction nx c rule: linked.induct) auto

lemma linked_append: "linked nx c \<Longrightarrow> distinct c \<Longrightarrow> a \<notin> set c \<Longrightarrow> a \<noteq> 0 \<Longrightarrow> nx a = 0 \<Longrightarrow> linked (nx(last c := a)) (c @ [a])"
  by (induction nx c rule: linked.induct) auto

text \<open>A ring with a successor among the last two is the last but one.\<close>

lemma last_two:
  assumes "linked nx c" "distinct c" "x \<in> set (drop (length c - 2) c)"
  shows "nx x = 0 \<Longrightarrow> x = last c"
    and "nx x \<noteq> 0 \<Longrightarrow> nx x = last c \<and> last c \<in> set (drop (length c - 2) c)"
    and "nx x \<noteq> 0 \<Longrightarrow> x = hd c \<Longrightarrow> c = [x, nx x]"
proof -
  have c: "c \<noteq> []" "x \<in> set c" using linked_nonempty [OF assms(1)] in_set_dropD [OF assms(3)] by auto
  show "nx x = 0 \<Longrightarrow> x = last c" using linked_end [OF assms(1,2) c(2)] by simp
  have "length c - 2 < length c" using c(1) by (cases c) auto
  then have le: "last c \<in> set (drop (length c - 2) c)"
    by (metis drop_eq_Nil2 last_drop last_in_set not_le)
  have "nx x \<noteq> 0 \<Longrightarrow> nx x = last c \<and> (x = hd c \<longrightarrow> c = [x, nx x])"
    using assms by (induction nx c rule: linked.induct) (auto split: if_splits simp: drop_Cons' dest: linked_nonempty)
  then show "nx x \<noteq> 0 \<Longrightarrow> nx x = last c \<and> last c \<in> set (drop (length c - 2) c)"
    and "nx x \<noteq> 0 \<Longrightarrow> x = hd c \<Longrightarrow> c = [x, nx x]"
    using le by auto
qed

subsection \<open>Changes of one part of the state\<close>

lemma goto_simps [simp]:
  "nd_head (goto t c s) = nd_head s" "nd_tail (goto t c s) = nd_tail s" "nd_next (goto t c s) = nd_next s"
  "nd_live (goto t c s) = nd_live s" "nd_hp (goto t c s) = nd_hp s" "nd_retired (goto t c s) = nd_retired s"
  "nd_pc (goto t c s) = (nd_pc s)(t := c)"
  by (simp_all add: goto_def)

lemma goto_live: "goto t c (s\<lparr>nd_live := f\<rparr>) = (goto t c s)\<lparr>nd_live := f\<rparr>"
  by (cases s) (simp add: goto_def)

lemma old_cong: "(\<And>t. retired_by s' t = retired_by s t) \<Longrightarrow> old s' = old s"
  by (simp add: old_def)

lemma retired_by_goto: "retiring c = retiring (nd_pc s t) \<Longrightarrow> retired_by (goto t c s) u = retired_by s u"
  by (auto simp: retired_by_def)

lemma append_to_validated: "append_to p = Some l \<Longrightarrow> validated p = Some l"
  by (cases p) auto

lemma link_read_validated: "link_read p = Some (l, m) \<Longrightarrow> validated p = Some l"
  by (cases p) auto

lemma old_upd [simp]:
  "old (s\<lparr>nd_tail := x\<rparr>) = old s" "old (s\<lparr>nd_head := x\<rparr>) = old s" "old (s\<lparr>nd_hp := h\<rparr>) = old s"
  "old (s\<lparr>nd_live := f\<rparr>) = old s" "old (s\<lparr>nd_next := g\<rparr>) = old s"
  "old (s\<lparr>nd_live := f, nd_next := g\<rparr>) = old s"
  by (simp_all add: old_def retired_by_def)

lemma reclaim_thread: "reclaim_ok n c s \<Longrightarrow> thread_ok n c s t"
  by (simp add: reclaim_ok_def)

lemma reclaim_validated:
  "reclaim_ok n c s \<Longrightarrow> validated (nd_pc s t) = Some l \<Longrightarrow> nd_hp s t = l \<and> l \<in> set c \<union> old s"
  using reclaim_thread [of n c s t] by (simp add: thread_ok_def)

lemmas thread_okD = thread_ok_def [THEN iffD1]

text \<open>What another thread does leaves a thread's own part of the invariant alone.\<close>

lemma thread_mono:
  assumes ok: "thread_ok n c s u"
    and same: "nd_pc s' u = nd_pc s u" "nd_hp s' u = nd_hp s u" "nd_retired s' u = nd_retired s u"
    and V: "\<And>l. validated (nd_pc s u) = Some l \<Longrightarrow> l \<in> set c \<union> old s \<Longrightarrow> l \<in> set c' \<union> old s'"
    and L: "\<And>l m. link_read (nd_pc s u) = Some (l, m) \<Longrightarrow> nd_next s l = m \<Longrightarrow> m \<noteq> 0 \<Longrightarrow> nd_next s' l = m"
    and N: "\<And>a. own_new (nd_pc s u) = Some a \<Longrightarrow> nd_live s a \<Longrightarrow> a \<notin> set c \<union> old s \<Longrightarrow> nd_next s a = 0 \<Longrightarrow>
      nd_live s' a \<and> nd_next s' a = 0 \<and> a \<notin> set c' \<union> old s'"
    and A: "\<And>l. append_to (nd_pc s u) = Some l \<Longrightarrow> nd_next s l = 0 \<longrightarrow> nd_tail s = l \<Longrightarrow> nd_next s' l = 0 \<Longrightarrow> nd_tail s' = l"
    and S: "\<And>x. x \<in> set (nd_retired s u) \<Longrightarrow> x \<notin> set c \<Longrightarrow> x \<notin> set c'"
    and P: "\<And>w x. x \<in> set (nd_retired s u) \<Longrightarrow> scanning (nd_pc s u) \<Longrightarrow> x \<notin> set c \<Longrightarrow> validated (nd_pc s' w) = Some x \<Longrightarrow>
      validated (nd_pc s w) = Some x"
  shows "thread_ok n c' s' u"
proof -
  note ok' = thread_okD [OF ok]
  have sc: "x \<notin> set c" if "scanning (nd_pc s u)" "x \<in> set (nd_retired s u)" "x \<noteq> nd_hp s u" for x using ok' that by blast
  have hp: "i < length (nd_retired s u) \<and> nd_retired s u ! i = obj \<and>
    (obj \<noteq> nd_hp s u \<longrightarrow> (\<forall>w < j. validated (nd_pc s' w) \<noteq> Some obj)) \<and> (u < j \<longrightarrow> obj \<noteq> nd_hp s u)"
    if "nd_pc s u = R_hp i obj j" for i obj j
    using ok' that sc [of obj] P [of obj] by (auto simp: nth_mem)
  have fr: "i < length (nd_retired s u) \<and> nd_retired s u ! i = obj \<and> obj \<noteq> nd_hp s u \<and>
    (\<forall>w < n. validated (nd_pc s' w) \<noteq> Some obj)" if "nd_pc s u = R_free i obj" for i obj
    using ok' that sc [of obj] P [of obj] by (auto simp: nth_mem)
  show ?thesis
    unfolding thread_ok_def same
  proof (intro conjI, goal_cases)
    case 2 show ?case using ok' V by blast
  next
    case 3 show ?case using ok' L by blast
  next
    case 4 show ?case using ok' N by blast
  next
    case 5 show ?case using ok' A by blast
  next
    case 6 show ?case using sc S by blast
  next
    case 7 show ?case using ok' S by blast
  next
    case 8 show ?case using hp by blast
  next
    case 9 show ?case using fr by blast
  qed (use ok' in blast)+
qed

text \<open>A thread moves on without writing; a pointer that it has validated now is one of the chain.\<close>

lemma goto_ok:
  assumes ok: "reclaim_ok n c s" and r: "retiring p = retiring (nd_pc s t)"
    and a: "\<And>a u. own_new p = Some a \<Longrightarrow> u \<noteq> t \<Longrightarrow> own_new (nd_pc s u) \<noteq> Some a"
    and v: "\<And>l. validated p = Some l \<Longrightarrow> validated (nd_pc s t) = Some l \<or> l \<in> set c"
    and t: "thread_ok n c (goto t p s) t"
  shows "reclaim_ok n c (goto t p s)"
proof -
  have old: "old (goto t p s) = old s" by (rule old_cong) (rule retired_by_goto [OF r])
  have "thread_ok n c (goto t p s) u" for u
  proof (cases "u = t")
    case False
    show ?thesis
      by (rule thread_mono [OF reclaim_thread [OF ok]]) (use False v in \<open>auto simp: old split: if_splits\<close>)
  qed (use t in simp)
  moreover have "new_ok (goto t p s)" using ok a by (auto simp: reclaim_ok_def new_ok_def)
  moreover have "rings_ok c (goto t p s)" using ok by (simp add: reclaim_ok_def rings_ok_def old)
  moreover have "retired_ok (goto t p s)" using ok unfolding reclaim_ok_def retired_ok_def old retired_by_goto [OF r] by simp
  ultimately show ?thesis by (simp add: reclaim_ok_def)
qed

text \<open>A thread stores into its hazard pointer before it has checked, or when it is done.\<close>

lemma hp_ok:
  assumes "reclaim_ok n c s" "validated (nd_pc s t) = None" "\<not> scanning (nd_pc s t)" "announced (nd_pc s t) = None"
  shows "reclaim_ok n c (s\<lparr>nd_hp := (nd_hp s)(t := l)\<rparr>)"
proof -
  let ?s = "s\<lparr>nd_hp := (nd_hp s)(t := l)\<rparr>"
  have r: "retired_by ?s u = retired_by s u" for u by (simp add: retired_by_def)
  then have o: "old ?s = old s" by (simp add: old_def)
  have "thread_ok n c ?s u" for u
    using reclaim_thread [OF assms(1), of u] assms(2,3,4) unfolding thread_ok_def o by (cases "u = t") auto
  then show ?thesis using assms(1) by (simp add: reclaim_ok_def rings_ok_def retired_ok_def new_ok_def r o)
qed

text \<open>Memory that nobody refers to is constructed or destroyed.\<close>

lemma live_ok:
  assumes "reclaim_ok n c s" "a \<notin> set c \<union> old s" "\<And>t. own_new (nd_pc s t) \<noteq> Some a"
  shows "reclaim_ok n c (s\<lparr>nd_live := (nd_live s)(a := b)\<rparr>)" "reclaim_ok n c (s\<lparr>nd_live := (nd_live s)(a := b), nd_next := (nd_next s)(a := v)\<rparr>)"
proof -
  let ?s = "s\<lparr>nd_live := (nd_live s)(a := b)\<rparr>" and ?s' = "s\<lparr>nd_live := (nd_live s)(a := b), nd_next := (nd_next s)(a := v)\<rparr>"
  have r: "retired_by ?s u = retired_by s u" "retired_by ?s' u = retired_by s u" for u by (simp_all add: retired_by_def)
  then have o: "old ?s = old s" "old ?s' = old s" by (simp_all add: old_def)
  have "thread_ok n c ?s u" "thread_ok n c ?s' u" for u
  proof -
    note ok = reclaim_thread [OF assms(1), of u]
    then have "append_to (nd_pc s u) \<noteq> Some a" "link_read (nd_pc s u) \<noteq> Some (a, m)" for m
      using assms(2) by (auto simp: thread_ok_def dest: append_to_validated link_read_validated)
    then show "thread_ok n c ?s u" "thread_ok n c ?s' u"
      using ok assms(2,3) unfolding thread_ok_def o by auto
  qed
  then show "reclaim_ok n c ?s" "reclaim_ok n c ?s'"
    using assms(1,2) by (auto simp: reclaim_ok_def rings_ok_def retired_ok_def new_ok_def r o linked_other)
qed

text \<open>The tail moves along a link that was read.\<close>

lemma tail_ok:
  assumes ok: "reclaim_ok n c s" and l: "link_read (nd_pc s t) = Some (nd_tail s, m)"
  shows "\<exists>c'. reclaim_ok n c' (s\<lparr>nd_tail := m\<rparr>)"
proof -
  let ?s = "s\<lparr>nd_tail := m\<rparr>"
  have r: "retired_by ?s u = retired_by s u" for u by (simp add: retired_by_def)
  then have o: "old ?s = old s" by (simp add: old_def)
  have m: "nd_next s (nd_tail s) = m" "m \<noteq> 0" using reclaim_thread [OF ok, of t] l by (auto simp: thread_ok_def)
  have ch: "rings_ok c s" "linked (nd_next s) c" "distinct c" using ok by (auto simp: reclaim_ok_def rings_ok_def)
  define c' where "c' = (if hd c = nd_head s then c else [m])"
  have c': "rings_ok c' ?s \<and> set c' \<subseteq> set c \<and> set c \<subseteq> set c' \<union> old s"
  proof (cases "hd c = nd_head s")
    case True
    then have tl: "nd_tail s \<in> set (drop (length c - 2) c)" "old s \<inter> set c = {}"
      using ch by (auto simp: rings_ok_def)
    then show ?thesis using ch True m last_two(2) [OF ch(2,3) tl(1)] by (simp add: c'_def rings_ok_def o)
  next
    case False
    then have c: "c = [nd_tail s, nd_head s]" "nd_tail s \<in> old s" "nd_head s \<notin> old s" using ch by (auto simp: rings_ok_def)
    then have "m = nd_head s" using ch(2) m by simp
    then show ?thesis using ch c by (auto simp: c'_def rings_ok_def o)
  qed
  have "thread_ok n c' ?s u" for u
    by (rule thread_mono [OF reclaim_thread [OF ok]]) (use c' m in auto)
  then have "reclaim_ok n c' ?s" using c' ok by (simp add: reclaim_ok_def retired_ok_def new_ok_def r o)
  then show ?thesis ..
qed

text \<open>A new ring is linked behind the last one.\<close>

lemma link_ok:
  assumes ok: "reclaim_ok n c s" and pc: "nd_pc s t = E_link l a" and l: "nd_next s l = 0"
  shows "reclaim_ok n (c @ [a]) (goto t (E_swing l a) (s\<lparr>nd_next := (nd_next s)(l := a)\<rparr>))" (is "reclaim_ok n _ ?s")
proof -
  have r: "retired_by ?s u = retired_by s u" for u by (auto simp: retired_by_def pc)
  then have o: "old ?s = old s" by (simp add: old_def)
  have ch: "rings_ok c s" "linked (nd_next s) c" "distinct c" and re: "retired_ok s"
    using ok by (auto simp: reclaim_ok_def rings_ok_def)
  have a: "nd_hp s t = l" "l \<in> set c \<union> old s" "nd_live s a" "nd_next s a = 0" "a \<noteq> 0" "a \<notin> set c" "a \<notin> old s" "nd_tail s = l"
    using reclaim_thread [OF ok, of t] pc l by (auto simp: thread_ok_def)
  have lc: "l \<in> set c" "l \<notin> old s" using a(2) re l by (auto simp: retired_ok_def)
  then have last: "l = last c" using linked_end [OF ch(2,3)] l by simp
  have f: "hd c = nd_head s" "old s \<inter> set c = {}" using ch(1) lc(2) a(8) by (auto simp: rings_ok_def)
  have ne: "c \<noteq> []" using linked_nonempty [OF ch(2)] by simp
  have "l \<in> set (drop (length (c @ [a]) - 2) (c @ [a]))"
    using last ne by (cases c rule: rev_cases) auto
  then have "rings_ok (c @ [a]) ?s"
    using linked_append [OF ch(2,3) a(6,5,4), folded last] ch f a ne unfolding rings_ok_def o by simp
  moreover have "retired_ok ?s" using re lc(2) unfolding retired_ok_def r o by auto
  moreover have "new_ok ?s" using ok by (auto simp: reclaim_ok_def new_ok_def)
  moreover have "thread_ok n (c @ [a]) ?s u" for u
  proof (cases "u = t")
    case True
    then show ?thesis using reclaim_thread [OF ok, of t] a pc lc(1) by (auto simp: thread_ok_def o)
  next
    case False
    have al: "own_new (nd_pc s u) \<noteq> Some a" using ok pc False by (auto simp: reclaim_ok_def new_ok_def)
    have ret: "x \<noteq> a" if "x \<in> set (nd_retired s u)" for x using that a(7) by (auto simp: old_def retired_by_def)
    show ?thesis
      by (rule thread_mono [OF reclaim_thread [OF ok]])
        (use False al ret a(5) l lc(1) in \<open>auto simp: o pc split: if_splits\<close>)
  qed
  ultimately show ?thesis by (simp add: reclaim_ok_def)
qed

text \<open>The head moves on and its old ring is about to be retired.\<close>

lemma head_ok:
  assumes ok: "reclaim_ok n c s" and pc: "nd_pc s t = D_swing l m" and l: "nd_head s = l"
  shows "\<exists>c'. reclaim_ok n c' (goto t (R_push l) (s\<lparr>nd_head := m\<rparr>))" (is "\<exists>c'. reclaim_ok n c' ?s")
proof -
  have r: "retired_by ?s u = (if u = t then insert l (retired_by s u) else retired_by s u)" for u
    by (auto simp: retired_by_def pc)
  have o: "old ?s = insert l (old s)" unfolding old_def r by (auto split: if_splits)
  have ch: "rings_ok c s" "linked (nd_next s) c" "distinct c" and re: "retired_ok s"
    using ok by (auto simp: reclaim_ok_def rings_ok_def)
  have m: "nd_next s l = m" "m \<noteq> 0" "nd_hp s t = l" using reclaim_thread [OF ok, of t] pc by (auto simp: thread_ok_def)
  have f: "hd c = l" "old s \<inter> set c = {}" "nd_tail s \<in> set (drop (length c - 2) c)"
    using ch(1) l m(1,2) unfolding rings_ok_def by auto
  obtain c1 where c1: "c = l # m # c1" using ch(2) f(1) m by (cases c; cases "tl c") auto
  define c' where "c' = (if nd_tail s = l then c else m # c1)"
  have "nd_tail s = l \<Longrightarrow> c = [l, m]" using last_two(3) [OF ch(2,3) f(3)] m f(1) by simp
  moreover have "nd_tail s \<in> set (drop (length (m # c1) - 2) (m # c1))" if "nd_tail s \<noteq> l"
    using f(3) that unfolding c1 by (cases c1) auto
  ultimately have "rings_ok c' ?s"
    using ch f(2) unfolding rings_ok_def o c1 c'_def by auto
  moreover have "retired_ok ?s"
    using re ch(1) f(2) m linked_nonempty [OF ch(2)] unfolding retired_ok_def o r rings_ok_def c1 by (auto simp: old_def split: if_splits)
  moreover have "new_ok ?s" using ok by (auto simp: reclaim_ok_def new_ok_def)
  moreover have "thread_ok n c' ?s u" for u
  proof (cases "u = t")
    case True
    have "set (nd_retired s t) \<subseteq> old s" by (auto simp: old_def retired_by_def)
    then show ?thesis using reclaim_thread [OF ok, of t] True pc m f(2) c1 by (auto simp: thread_ok_def o c'_def)
  next
    case False
    show ?thesis
      by (rule thread_mono [OF reclaim_thread [OF ok]])
        (use False in \<open>auto simp: o pc c'_def c1 split: if_splits\<close>)
  qed
  ultimately have "reclaim_ok n c' ?s" by (simp add: reclaim_ok_def)
  then show ?thesis ..
qed

lemma push_ok:
  assumes ok: "reclaim_ok n c s" and pc: "nd_pc s t = R_push l"
  shows "reclaim_ok n c (goto t (R_obj 0) (s\<lparr>nd_retired := (nd_retired s)(t := nd_retired s t @ [l])\<rparr>))" (is "reclaim_ok n c ?s")
proof -
  have r: "retired_by ?s u = retired_by s u" for u by (auto simp: retired_by_def pc)
  then have o: "old ?s = old s" by (simp add: old_def)
  have "thread_ok n c ?s u" for u
  proof (cases "u = t")
    case True
    then show ?thesis using reclaim_thread [OF ok, of t] pc by (auto simp: thread_ok_def o)
  next
    case False
    show ?thesis
      by (rule thread_mono [OF reclaim_thread [OF ok]]) (use False in \<open>auto simp: o pc split: if_splits\<close>)
  qed
  moreover have "l \<notin> set (nd_retired s t)" using reclaim_thread [OF ok, of t] pc by (auto simp: thread_ok_def)
  ultimately show ?thesis using ok pc by (auto simp: reclaim_ok_def rings_ok_def retired_ok_def new_ok_def r o)
qed

text \<open>A retired ring that nobody has protected is destroyed.\<close>

lemma remove_nth:
  assumes "i < length xs" "distinct xs"
  shows "set (take i xs @ drop (i + 1) xs) = set xs - {xs ! i}" "distinct (take i xs @ drop (i + 1) xs)"
proof -
  have xs: "xs = take i xs @ xs ! i # drop (i + 1) xs" using id_take_nth_drop [OF assms(1)] by simp
  have "distinct (take i xs @ xs ! i # drop (i + 1) xs)" using assms(2) xs by simp
  moreover have "set xs = set (take i xs @ xs ! i # drop (i + 1) xs)" using xs by simp
  ultimately show "set (take i xs @ drop (i + 1) xs) = set xs - {xs ! i}" "distinct (take i xs @ drop (i + 1) xs)" by auto
qed

lemma free_ok:
  assumes ok: "reclaim_ok n c s" and pc: "nd_pc s t = R_free i obj"
  shows "reclaim_ok n c (goto t (R_obj i) (s\<lparr>nd_retired := (nd_retired s)(t := take i (nd_retired s t) @ drop (i + 1) (nd_retired s t)),
     nd_live := (nd_live s)(obj := False)\<rparr>))"
proof -
  define xs where "xs = take i (nd_retired s t) @ drop (i + 1) (nd_retired s t)"
  let ?s = "goto t (R_obj i) (s\<lparr>nd_retired := (nd_retired s)(t := xs)\<rparr>)"
  note t = thread_okD [OF reclaim_thread [OF ok, of t]]
  have i: "i < length (nd_retired s t)" "obj = nd_retired s t ! i" "obj \<noteq> nd_hp s t" "\<forall>u < n. validated (nd_pc s u) \<noteq> Some obj"
    using t pc by auto
  have re: "retired_ok s" and ch: "rings_ok c s" using ok by (auto simp: reclaim_ok_def)
  have oc: "obj \<in> set (nd_retired s t)" using i(1,2) by simp
  have nc: "obj \<notin> set c" using t pc oc i(3) by simp
  have rm: "set xs = set (nd_retired s t) - {obj}" "distinct xs"
    using remove_nth [OF i(1)] re i(2) by (simp_all add: retired_ok_def xs_def)
  have r: "retired_by ?s u = retired_by s u - {obj}" for u
  proof (cases "u = t")
    case True
    then show ?thesis using rm(1) pc by (auto simp: retired_by_def)
  next
    case False
    have "obj \<in> retired_by s t" using oc by (simp add: retired_by_def)
    then have "obj \<notin> retired_by s u" using re False unfolding retired_ok_def by blast
    then show ?thesis using False by (auto simp: retired_by_def)
  qed
  then have o: "old ?s = old s - {obj}" by (auto simp: old_def)
  have "thread_ok n c ?s u" for u
  proof (cases "u = t")
    case True
    then show ?thesis using t pc rm(1) by (auto simp: thread_ok_def)
  next
    case False
    have "validated (nd_pc s u) \<noteq> Some obj"
      using i(4) thread_okD [OF reclaim_thread [OF ok, of u]] by (cases "u < n") auto
    then show ?thesis
      by (intro thread_mono [OF reclaim_thread [OF ok]]) (use False in \<open>auto simp: o pc split: if_splits\<close>)
  qed
  moreover have "rings_ok c ?s" using ch nc unfolding rings_ok_def o by auto
  moreover have "retired_ok ?s" using re rm(2) unfolding retired_ok_def o r by (auto simp: disjoint_iff)
  moreover have "new_ok ?s" using ok by (auto simp: reclaim_ok_def new_ok_def)
  ultimately have "reclaim_ok n c ?s" by (simp add: reclaim_ok_def)
  moreover have "own_new (nd_pc ?s u) \<noteq> Some obj" for u
    using thread_okD [OF reclaim_thread [OF ok, of u]] oc by (auto simp: old_def retired_by_def)
  ultimately have "reclaim_ok n c (?s\<lparr>nd_live := (nd_live ?s)(obj := False)\<rparr>)"
    using live_ok(1) [of n c ?s obj False] nc o by auto
  then show ?thesis by (simp add: goto_live [symmetric] xs_def)
qed

subsection \<open>Every access keeps it\<close>

lemma rings_ends:
  assumes "reclaim_ok n c s"
  shows "nd_head s \<in> set c" "nd_tail s \<in> set c"
proof -
  have "c \<noteq> []" "rings_ok c s" using assms linked_nonempty by (auto simp: reclaim_ok_def rings_ok_def)
  moreover from this have "hd c \<in> set c" by simp
  ultimately show "nd_head s \<in> set c" "nd_tail s \<in> set c" unfolding rings_ok_def by (metis in_set_dropD list.set_intros)+
qed

text \<open>A step that only moves the program counter.\<close>

lemma move_ok:
  assumes "reclaim_ok n c s" "t < n" "retiring (nd_pc s t) = None" "retiring p = None" "own_new p = None"
    and "validated p = validated (nd_pc s t) \<or> validated p = None \<or> (\<exists>l. validated p = Some l \<and> nd_hp s t = l \<and> l \<in> set c)"
    and "\<And>l m. link_read p = Some (l, m) \<Longrightarrow> nd_next s l = m \<and> m \<noteq> 0"
    and "\<And>l. append_to p = Some l \<Longrightarrow> nd_next s l = 0 \<Longrightarrow> nd_tail s = l"
    and "\<not> scanning p" "announced p = None \<or> announced p = Some (nd_hp s t)"
  shows "reclaim_ok n c (goto t p s)"
proof -
  have o: "old (goto t p s) = old s" by (rule old_cong) (rule retired_by_goto, simp add: assms)
  have p: "p \<noteq> R_hp i obj j" "p \<noteq> R_free i obj" for i obj j using assms(9) by auto
  have v: "nd_hp s t = l \<and> l \<in> set c \<union> old s" if "validated p = Some l" for l
    using assms(6) that reclaim_validated [OF assms(1), of t] by fastforce
  have "thread_ok n c (goto t p s) t"
    unfolding thread_ok_def goto_simps fun_upd_same o by (intro conjI) (use assms p v in auto)
  then show ?thesis by (intro goto_ok [OF assms(1)]) (use assms(3-6) in auto)
qed

lemma scan_ok:
  assumes "reclaim_ok n c s" "t < n" "scanning (nd_pc s t)" "scanning p"
    and "\<And>i obj j. p = R_hp i obj j \<Longrightarrow> i < length (nd_retired s t) \<and> nd_retired s t ! i = obj \<and>
      (obj \<noteq> nd_hp s t \<longrightarrow> (\<forall>u < j. validated (nd_pc s u) \<noteq> Some obj)) \<and> (t < j \<longrightarrow> obj \<noteq> nd_hp s t)"
    and "\<And>i obj. p = R_free i obj \<Longrightarrow> i < length (nd_retired s t) \<and> nd_retired s t ! i = obj \<and>
      obj \<noteq> nd_hp s t \<and> (\<forall>u < n. validated (nd_pc s u) \<noteq> Some obj)"
  shows "reclaim_ok n c (goto t p s)"
proof -
  have p: "validated p = None" "link_read p = None" "own_new p = None" "append_to p = None" "retiring p = None" "announced p = None"
    if "scanning p" for p using that by (cases p; simp)+
  have "thread_ok n c (goto t p s) t"
    using thread_okD [OF reclaim_thread [OF assms(1), of t]] assms(2-6) p [OF assms(4)] unfolding thread_ok_def by auto
  then show ?thesis by (intro goto_ok [OF assms(1)]) (use p assms(3,4) in auto)
qed

text \<open>A new ring is constructed; a ring that could not be linked is destroyed.\<close>

lemma alloc_ok:
  assumes ok: "reclaim_ok n c s" and t: "t < n" and pc: "nd_pc s t = E_alloc l" and k: "k \<noteq> 0" "\<not> nd_live s k"
  shows "reclaim_ok n c (goto t (E_link l k) (s\<lparr>nd_live := (nd_live s)(k := True), nd_next := (nd_next s)(k := 0)\<rparr>))"
    (is "reclaim_ok n c (goto t _ ?s)")
proof -
  have nk: "k \<notin> set c \<union> old s" using ok k(2) by (auto simp: reclaim_ok_def rings_ok_def retired_ok_def)
  have np: "own_new (nd_pc s u) \<noteq> Some k" for u using reclaim_thread [OF ok, of u] k(2) by (auto simp: thread_ok_def)
  have ok1: "reclaim_ok n c ?s" by (rule live_ok(2) [OF ok nk np])
  have "old (goto t (E_link l k) ?s) = old s" using old_cong [OF retired_by_goto, of "E_link l k" ?s t] pc by simp
  then have "thread_ok n c (goto t (E_link l k) ?s) t"
    using reclaim_thread [OF ok1, of t] pc k(1) nk by (auto simp: thread_ok_def)
  then show ?thesis by (intro goto_ok [OF ok1]) (use pc np in auto)
qed

lemma drop_ok:
  assumes ok: "reclaim_ok n c s" and t: "t < n" and pc: "nd_pc s t = E_drop l a"
  shows "reclaim_ok n c (goto t E_load (s\<lparr>nd_live := (nd_live s)(a := False)\<rparr>))"
proof -
  let ?s = "goto t E_load s"
  have ok1: "reclaim_ok n c ?s" by (rule move_ok [OF ok t]) (simp_all add: pc)
  have a: "a \<notin> set c \<union> old s" using reclaim_thread [OF ok, of t] pc by (auto simp: thread_ok_def)
  have "old ?s = old s" using old_cong [OF retired_by_goto, of E_load s t] pc by simp
  moreover have "own_new (nd_pc ?s u) \<noteq> Some a" for u using ok pc by (auto simp: reclaim_ok_def new_ok_def)
  ultimately have "reclaim_ok n c (?s\<lparr>nd_live := (nd_live ?s)(a := False)\<rparr>)" using live_ok(1) [OF ok1] a by simp
  then show ?thesis by (simp add: goto_live)
qed

lemma protect_ok:
  assumes ok: "reclaim_ok n c s" and t: "t < n" and pc: "validated (nd_pc s t) = None" "\<not> scanning (nd_pc s t)" "retiring (nd_pc s t) = None"
      "announced (nd_pc s t) = None"
    and p: "p \<in> {E_check l, D_check l, Idle}"
  shows "reclaim_ok n c (goto t p (s\<lparr>nd_hp := (nd_hp s)(t := l)\<rparr>))"
  by (rule move_ok [OF hp_ok [OF ok pc(1,2,4)] t]) (use pc p in auto)

lemma enqueue_step:
  assumes ok: "reclaim_ok n c s" and t: "t < n" and pc: "append_to (nd_pc s t) \<noteq> None \<or> (\<exists>l m. nd_pc s t \<in> {E_help l m, E_swing l m, E_drop l m})"
  shows "\<exists>c'. reclaim_ok n c' (node_act n t k s)"
proof -
  note th = thread_okD [OF reclaim_thread [OF ok, of t]] and move = move_ok [OF ok t]
  show ?thesis
  proof (cases "nd_pc s t")
    case (E_next l)
    then have "reclaim_ok n c (goto t (if nd_next s l \<noteq> 0 then E_help l (nd_next s l) else E_ring l) s)"
      using th by (intro move) (auto split: if_splits)
    then show ?thesis using E_next by (auto simp: node_act_def)
  next
    case (E_help l m)
    have "\<exists>c'. reclaim_ok n c' (if nd_tail s = l then s\<lparr>nd_tail := m\<rparr> else s)" using tail_ok [OF ok, of t m] ok E_help by auto
    then obtain c' where "reclaim_ok n c' (if nd_tail s = l then s\<lparr>nd_tail := m\<rparr> else s)" by blast
    from move_ok [OF this t, of E_load] show ?thesis using E_help by (auto simp: node_act_def split: if_splits)
  next
    case (E_ring l)
    then have "reclaim_ok n c (goto t (if k = 0 then Clear else if k = 1 then E_load else if k = 2 then E_ring l else E_alloc l) s)"
      using th by (intro move) (auto split: if_splits)
    then show ?thesis using E_ring by (auto simp: node_act_def)
  next
    case (E_alloc l)
    then show ?thesis using alloc_ok [OF ok t E_alloc, of k] ok by (auto simp: node_act_def)
  next
    case (E_link l a)
    have "old (goto t (E_drop l a) s) = old s" using old_cong [OF retired_by_goto, of "E_drop l a" s t] E_link by simp
    then have "thread_ok n c (goto t (E_drop l a) s) t" using th E_link unfolding thread_ok_def by auto
    then have "reclaim_ok n c (goto t (E_drop l a) s)"
      by (intro goto_ok [OF ok]) (use E_link ok in \<open>auto simp: reclaim_ok_def new_ok_def\<close>)
    then show ?thesis using link_ok [OF ok E_link] E_link by (auto simp: node_act_def)
  next
    case (E_swing l m)
    have "\<exists>c'. reclaim_ok n c' (if nd_tail s = l then s\<lparr>nd_tail := m\<rparr> else s)" using tail_ok [OF ok, of t m] ok E_swing by auto
    then obtain c' where "reclaim_ok n c' (if nd_tail s = l then s\<lparr>nd_tail := m\<rparr> else s)" by blast
    from move_ok [OF this t, of Clear] show ?thesis using E_swing by (auto simp: node_act_def split: if_splits)
  next
    case (E_drop l a)
    then show ?thesis using drop_ok [OF ok t E_drop] by (auto simp: node_act_def)
  qed (use pc in auto)
qed

lemma reclaim_step:
  assumes ok: "reclaim_ok n c s" and t: "t < n"
  shows "\<exists>c'. reclaim_ok n c' (node_act n t k s)"
proof -
  note th = thread_okD [OF reclaim_thread [OF ok, of t]] and ends = rings_ends [OF ok] and move = move_ok [OF ok t]
  show ?thesis
  proof (cases "nd_pc s t")
    case (E_check l)
    then have "reclaim_ok n c (goto t (if l \<noteq> nd_tail s then E_load else E_next l) s)"
      using th ends by (intro move) (auto split: if_splits)
    then show ?thesis using E_check by (auto simp: node_act_def)
  next
    case (D_check l)
    then have "reclaim_ok n c (goto t (if l \<noteq> nd_head s then D_load else D_ring l) s)"
      using th ends by (intro move) (auto split: if_splits)
    then show ?thesis using D_check by (auto simp: node_act_def)
  next
    case Idle
    then have "reclaim_ok n c (goto t (if k = 0 then E_load else D_load) s)" by (intro move) (auto split: if_splits)
    then show ?thesis using Idle by (auto simp: node_act_def)
  next
    case E_load
    then have "reclaim_ok n c (goto t (E_prot (nd_tail s)) s)" by (intro move) (auto split: if_splits)
    then show ?thesis using E_load by (auto simp: node_act_def)
  next
    case D_load
    then have "reclaim_ok n c (goto t (D_prot (nd_head s)) s)" by (intro move) (auto split: if_splits)
    then show ?thesis using D_load by (auto simp: node_act_def)
  next
    case (E_prot l)
    then show ?thesis using protect_ok [OF ok t, of "E_check l" l] by (auto simp: node_act_def)
  next
    case (D_prot l)
    then show ?thesis using protect_ok [OF ok t, of "D_check l" l] by (auto simp: node_act_def)
  next
    case Clear
    then show ?thesis using protect_ok [OF ok t, of Idle 0] by (auto simp: node_act_def)
  next
    case (D_ring l)
    then have "reclaim_ok n c (goto t (if k = 0 then Clear else if k = 1 then D_load else if k = 2 then D_ring l else D_next l) s)"
      by (intro move) (auto split: if_splits)
    then show ?thesis using D_ring by (auto simp: node_act_def)
  next
    case (D_next l)
    then have "reclaim_ok n c (goto t (if nd_next s l = 0 then Clear else D_tail l (nd_next s l)) s)" by (intro move) (auto split: if_splits)
    then show ?thesis using D_next by (auto simp: node_act_def)
  next
    case (D_tail l m)
    then have "reclaim_ok n c (goto t (if k = 0 then D_swing l m else D_load) s)"
      using th by (intro move) (auto split: if_splits)
    then show ?thesis using D_tail by (auto simp: node_act_def)
  next
    case (D_swing l m)
    then have "reclaim_ok n c (goto t D_load s)" by (intro move) (auto split: if_splits)
    then show ?thesis using D_swing head_ok [OF ok D_swing] by (auto simp: node_act_def)
  next
    case (R_push l)
    then show ?thesis using push_ok [OF ok R_push] by (auto simp: node_act_def)
  next
    case (R_free i obj)
    then show ?thesis using free_ok [OF ok R_free] by (auto simp: node_act_def)
  next
    case (R_obj i)
    then have "reclaim_ok n c (goto t D_load s)" by (intro move) (auto split: if_splits)
    moreover have "reclaim_ok n c (goto t (R_hp i (nd_retired s t ! i) 0) s)" if "i < length (nd_retired s t)"
      by (rule scan_ok [OF ok t]) (use R_obj that in auto)
    ultimately show ?thesis using R_obj by (auto simp: node_act_def)
  next
    case (R_hp i obj j)
    have v: "validated (nd_pc s j) \<noteq> Some obj" if "nd_hp s j \<noteq> obj" using reclaim_validated [OF ok, of j obj] that by auto
    have "reclaim_ok n c (goto t (if n \<le> j then R_free i obj else if nd_hp s j = obj then R_obj (i + 1) else R_hp i obj (j + 1)) s)"
      by (rule scan_ok [OF ok t]) (use th R_hp t v in \<open>auto split: if_splits simp: less_Suc_eq\<close>)
    then show ?thesis using R_hp by (auto simp: node_act_def)
  qed (rule enqueue_step [OF ok t], simp)+
qed

interpretation nd: state_machine node_start "node_step n" "reclaim_inv n" for n
proof unfold_locales
  show "reclaim_inv n s" if st: "node_start s" for s
  proof -
    obtain p where p: "p \<noteq> 0" "s = node_init p" using st by (auto simp: node_start_def)
    then have "old s = {}" "nd_pc s = (\<lambda>_. Idle)" by (auto simp: old_def retired_by_def node_init_def)
    then have "reclaim_ok n [p] s"
      using p by (auto simp: reclaim_ok_def rings_ok_def retired_ok_def new_ok_def thread_ok_def retired_by_def node_init_def)
    then show ?thesis by (auto simp: reclaim_inv_def)
  qed
  show "reclaim_inv n s'" if "reclaim_inv n s" "node_step n s s'" for s s'
    using that reclaim_step by (auto simp: reclaim_inv_def node_step_def)
qed

section \<open>Schedules\<close>

definition node_run :: "nat \<Rightarrow> (nat \<times> nat) list \<Rightarrow> nodes \<Rightarrow> nodes" where
  "node_run n sch s = foldl (\<lambda>s (t, k). node_act n t k s) s sch"

lemma node_run_steps: "\<forall>(t, k) \<in> set sch. t < n \<Longrightarrow> (node_step n)\<^sup>*\<^sup>* s (node_run n sch s)"
proof (induction sch arbitrary: s)
  case (Cons a sch)
  obtain t k where a: "a = (t, k)" by (cases a)
  have "node_step n s (node_act n t k s)" using Cons.prems a by (auto simp: node_step_def)
  moreover have "(node_step n)\<^sup>*\<^sup>* (node_act n t k s) (node_run n sch (node_act n t k s))" using Cons by simp
  ultimately show ?case by (simp add: node_run_def a converse_rtranclp_into_rtranclp)
qed (simp add: node_run_def)

section \<open>Property\<close>

text \<open>
  (C6) No ring is used after it was destroyed. In every interleaving, whatever memory the allocator reuses: when a
  thread is about to access a ring, the ring is alive; \<open>head\<close> and \<open>tail\<close> point to rings that are alive, even when
  \<open>tail\<close> lags behind \<open>head\<close>; and a ring that is about to be destroyed is alive (so none is destroyed twice), is
  neither the head nor the tail, and no thread relies on its hazard pointer for it. The ring that was unlinked
  last survives the scan of its own \<open>retire\<close>, since the thread still protects it; this is what makes the lagging
  \<open>tail\<close> safe.
\<close>

theorem rings_reclaimed_safely:
  assumes "p \<noteq> 0" "(node_step n)\<^sup>*\<^sup>* (node_init p) s"
  shows "(\<forall>t l. touches (nd_pc s t) = Some l \<longrightarrow> nd_live s l) \<and> nd_live s (nd_head s) \<and> nd_live s (nd_tail s) \<and>
    (\<forall>t i obj. nd_pc s t = R_free i obj \<longrightarrow> obj \<noteq> nd_head s \<and> obj \<noteq> nd_tail s \<and>
       (\<forall>u. validated (nd_pc s u) \<noteq> Some obj))"
proof -
  obtain c where ok: "reclaim_ok n c s"
    using nd.reachable_inv [OF _ assms(2)] assms(1) by (auto simp: node_start_def reclaim_inv_def)
  have live: "nd_live s x" if "x \<in> set c \<union> old s" for x
    using that ok by (auto simp: reclaim_ok_def rings_ok_def retired_ok_def)
  have fr: "obj \<in> set (nd_retired s t)" "obj \<notin> set c" "\<forall>u. validated (nd_pc s u) \<noteq> Some obj" if "nd_pc s t = R_free i obj" for t i obj
  proof -
    note th = thread_okD [OF reclaim_thread [OF ok, of t]]
    have i: "i < length (nd_retired s t)" "nd_retired s t ! i = obj" "obj \<noteq> nd_hp s t" using th that by simp_all
    show o: "obj \<in> set (nd_retired s t)" using i(1,2) nth_mem by blast
    show "obj \<notin> set c" using th that o i(3) by simp
    have "validated (nd_pc s u) \<noteq> Some obj" for u
      using th that thread_okD [OF reclaim_thread [OF ok, of u]] by (cases "u < n") simp_all
    then show "\<forall>u. validated (nd_pc s u) \<noteq> Some obj" ..
  qed
  have "nd_live s l" if l: "touches (nd_pc s t) = Some l" for t l
  proof -
    consider "validated (nd_pc s t) = Some l" | "own_new (nd_pc s t) = Some l" | i where "nd_pc s t = R_free i l"
      using l by (cases "nd_pc s t") auto
    then show ?thesis
    proof cases
      case 1
      then show ?thesis using reclaim_validated [OF ok] live by blast
    next
      case 2
      then show ?thesis using thread_okD [OF reclaim_thread [OF ok, of t]] by blast
    next
      case 3
      have "l \<in> old s" using fr(1) [OF 3] by (auto simp: old_def retired_by_def)
      then show ?thesis using live by blast
    qed
  qed
  then show ?thesis using rings_ends [OF ok] live fr by blast
qed

definition two_retires :: "(nat \<times> nat) list" where
  "two_retires = map (Pair 0) ([0, 0, 0, 0, 0, 3, 6, 0, 0, 0] @ [0, 0, 0, 0, 0, 3, 7, 0, 0, 0] @
     [1, 0, 0, 0, 3, 0, 0, 0, 0, 0, 0, 0] @ [0, 0, 0, 3, 0, 0, 0, 0, 0, 0, 0, 0])"

text \<open>The two calls of \<open>retire\<close> in this schedule leave thread 0 about to destroy the first ring.\<close>

definition retire_twice :: nodes where
  "retire_twice = node_run 2 two_retires (node_init 5)"

lemma retire_twice_pc: "nd_pc retire_twice 0 = R_free 0 5"
  by code_simp

theorem rings_reclaimed_safely_witness:
  "nd_pc retire_twice 0 = R_free 0 5 \<and> nd_live retire_twice 5 \<and> nd_head retire_twice \<noteq> 5 \<and> nd_tail retire_twice \<noteq> 5"
proof -
  have "(node_step 2)\<^sup>*\<^sup>* (node_init 5) retire_twice"
    unfolding retire_twice_def by (rule node_run_steps) (auto simp: two_retires_def)
  then have safe: "(\<forall>t l. touches (nd_pc retire_twice t) = Some l \<longrightarrow> nd_live retire_twice l) \<and>
    (\<forall>t i obj. nd_pc retire_twice t = R_free i obj \<longrightarrow> obj \<noteq> nd_head retire_twice \<and> obj \<noteq> nd_tail retire_twice)"
    using rings_reclaimed_safely [of 5 2 retire_twice] by auto
  have "touches (nd_pc retire_twice 0) = Some 5" by (simp add: retire_twice_pc)
  then show ?thesis using safe retire_twice_pc by metis
qed

end
