(* ===== verification/Cpp_Lcrq.thy ===== *)
theory Cpp_Lcrq
  imports Ring Hazard Fifo
begin

text \<open>
  The class \<open>LCRQueue\<close> of \<open>src/c++/LCRQueue.hpp\<close> down to its cells, with the hazard pointers it uses, as threads run it whose calls
  do not overlap. Items are addresses, 0 is \<open>nullptr\<close> and marks an empty cell. The rings that exist are a map from addresses;
  \<open>shm->construct<Node>\<close> puts a new ring where \<open>alloc\<close> says (a parameter: the memory manager is not part of the
  sources; \<^const>\<open>None\<close> is its exception), \<open>shm->destroy_ptr\<close> takes one away, and following a pointer to a ring that does not exist is
  the fault \<open>Dangling\<close>. The loops are \<^theory_text>\<open>partial_function (option)\<close>, \<^const>\<open>None\<close> is a call that does not return.

  The second half shows that a ring is a ring of the C version with every value less one, so that what was proved there of cells and
  tickets holds here, and that the queue is a first-in first-out list. How the accesses of several threads to the pointers
  interleave is in the theory \<open>Reclaim\<close>.
\<close>

section \<open>Data\<close>

definition RING_POW_cpp :: nat where "RING_POW_cpp = 10"

definition RING_SIZE_cpp :: u64 where "RING_SIZE_cpp = push_bit RING_POW_cpp 1"

record Cell =
  cl_val :: u64
  cl_idx :: u64

record Node =
  n_head :: u64
  n_tail :: u64
  n_next :: nat
  n_array :: "Cell list"

record lcrq =
  l_head :: nat
  l_tail :: nat
  l_nodes :: "nat \<Rightarrow> Node option"
  l_hp :: hazard

datatype cpp_fault = Bad_alloc | Dangling

type_synonym node_alloc = "(nat \<Rightarrow> Node option) \<Rightarrow> nat option"

definition kHpTail :: nat where "kHpTail = 0"
definition kHpHead :: nat where "kHpHead = 0"

text \<open>The constructor of \<open>Node\<close>: the loop over the cells, then the three pointers.\<close>

fun node_cells :: "nat \<Rightarrow> Cell list" where
  "node_cells 0 = []"
| "node_cells (Suc i) = node_cells i @ [\<lparr>cl_val = 0, cl_idx = of_nat i\<rparr>]"

definition Node_ctor :: Node where
  "Node_ctor = \<lparr>n_head = 0, n_tail = 0, n_next = 0, n_array = node_cells (2 ^ RING_POW_cpp)\<rparr>"

section \<open>Private methods\<close>

definition node_index_cpp :: "u64 \<Rightarrow> u64" where "node_index_cpp i = i AND NOT (push_bit 63 1)"
definition set_unsafe_cpp :: "u64 \<Rightarrow> u64" where "set_unsafe_cpp i = i OR push_bit 63 1"
definition node_unsafe_cpp :: "u64 \<Rightarrow> u64" where "node_unsafe_cpp i = i AND push_bit 63 1"
definition tail_index_cpp :: "u64 \<Rightarrow> u64" where "tail_index_cpp t = t AND NOT (push_bit 63 1)"
definition crq_is_closed_cpp :: "u64 \<Rightarrow> bool" where "crq_is_closed_cpp t \<longleftrightarrow> t AND push_bit 63 1 \<noteq> 0"

partial_function (option) fixState_cpp :: "Node \<Rightarrow> Node option" where
  "fixState_cpp n =
     (let (t, tl) = FAA64 (n_tail n) 0; n1 = n\<lparr>n_tail := tl\<rparr>;
          (h, hd) = FAA64 (n_head n1) 0; n2 = n1\<lparr>n_head := hd\<rparr>
      in if n_tail n2 \<noteq> t then fixState_cpp n2
         else if h > t then
           (let (ok, tl') = CAS64 (n_tail n2) t h; n3 = n2\<lparr>n_tail := tl'\<rparr> in if ok then Some n3 else fixState_cpp n3)
         else Some n2)"

definition close_crq_cpp :: "Node \<Rightarrow> u64 \<Rightarrow> nat \<Rightarrow> bool \<times> Node" where
  "close_crq_cpp n tailticket tries =
     (let (ok, tl) = (if tries < 10 then CAS64 (n_tail n) (tailticket + 1) ((tailticket + 1) OR push_bit 63 1)
                      else BIT_TEST_AND_SET (n_tail n) 63)
      in (ok, n\<lparr>n_tail := tl\<rparr>))"

text \<open>The cell of a ticket and \<open>CAS2\<close> on it.\<close>

definition cell_of :: "Node \<Rightarrow> u64 \<Rightarrow> Cell" where
  "cell_of n t = n_array n ! unat (t AND (RING_SIZE_cpp - 1))"

definition put_cell :: "u64 \<Rightarrow> u64 \<times> u64 \<Rightarrow> Node \<Rightarrow> Node" where
  "put_cell t vi n = n\<lparr>n_array := (n_array n)[unat (t AND (RING_SIZE_cpp - 1)) := \<lparr>cl_val = fst vi, cl_idx = snd vi\<rparr>]\<rparr>"

definition CAS2_cpp :: "u64 \<Rightarrow> u64 \<Rightarrow> u64 \<Rightarrow> u64 \<Rightarrow> u64 \<Rightarrow> Node \<Rightarrow> bool \<times> Node" where
  "CAS2_cpp t o1 o2 n1 n2 n =
     (let (ok, vi) = CAS2 (cl_val (cell_of n t), cl_idx (cell_of n t)) o1 o2 n1 n2 in (ok, put_cell t vi n))"

section \<open>Memory\<close>

definition node_at :: "lcrq \<Rightarrow> nat \<Rightarrow> Node" where
  "node_at q p = the (l_nodes q p)"

definition set_node :: "nat \<Rightarrow> Node \<Rightarrow> lcrq \<Rightarrow> lcrq" where
  "set_node p n q = q\<lparr>l_nodes := (l_nodes q)(p := Some n)\<rparr>"

definition destroy_ptr :: "nat \<Rightarrow> lcrq \<Rightarrow> lcrq" where
  "destroy_ptr p q = q\<lparr>l_nodes := (l_nodes q)(p := None)\<rparr>"

definition construct_Node :: "node_alloc \<Rightarrow> lcrq \<Rightarrow> cpp_fault + (nat \<times> lcrq)" where
  "construct_Node alloc q = (case alloc (l_nodes q) of None \<Rightarrow> Inl Bad_alloc | Some p \<Rightarrow> Inr (p, set_node p Node_ctor q))"

text \<open>The member functions of the hazard pointers, on the queue; \<open>retire\<close> destroys what it has put in its log.\<close>

definition hp_protect :: "nat \<Rightarrow> nat \<Rightarrow> nat \<Rightarrow> lcrq \<Rightarrow> lcrq" where
  "hp_protect index p tid q = q\<lparr>l_hp := snd (protectPtr index p tid (l_hp q))\<rparr>"

definition hp_clear :: "nat \<Rightarrow> lcrq \<Rightarrow> lcrq" where
  "hp_clear tid q = q\<lparr>l_hp := clear tid (l_hp q)\<rparr>"

definition hp_retire :: "nat \<Rightarrow> nat \<Rightarrow> lcrq \<Rightarrow> lcrq" where
  "hp_retire p tid q =
     (let z = retire p tid (l_hp q)
      in foldl (\<lambda>q x. destroy_ptr x q) (q\<lparr>l_hp := z\<rparr>) (drop (length (hz_destroyed (l_hp q))) (hz_destroyed z)))"

section \<open>Public methods\<close>

definition LCRQueue_ctor :: "node_alloc \<Rightarrow> nat \<Rightarrow> cpp_fault + lcrq" where
  "LCRQueue_ctor alloc maxThreads =
     (case construct_Node alloc \<lparr>l_head = 0, l_tail = 0, l_nodes = (\<lambda>_. None), l_hp = HazardPointers 1 maxThreads\<rparr> of
        Inl f \<Rightarrow> Inl f
      | Inr (sentinel, q) \<Rightarrow> Inr (q\<lparr>l_head := sentinel, l_tail := sentinel\<rparr>))"

definition solo_cpp :: "u64 \<Rightarrow> Node \<Rightarrow> Node" where
  "solo_cpp item n = n\<lparr>n_tail := 1, n_array := (n_array n)[0 := \<lparr>cl_val = item, cl_idx = 0\<rparr>]\<rparr>"

partial_function (option) enqueue_loop :: "node_alloc \<Rightarrow> u64 \<Rightarrow> nat \<Rightarrow> nat \<Rightarrow> lcrq \<Rightarrow> (cpp_fault + lcrq) option" where
  "enqueue_loop alloc item tid try_close q0 =
     (let ltail = l_tail q0; q = hp_protect kHpTail ltail tid q0
      in if ltail \<noteq> l_tail q then enqueue_loop alloc item tid try_close q
         else if l_nodes q ltail = None then Some (Inl Dangling)
         else let lnext = n_next (node_at q ltail)
              in if lnext \<noteq> 0 then
                   enqueue_loop alloc item tid try_close (q\<lparr>l_tail := snd (CAS64 (l_tail q) ltail lnext)\<rparr>)
                 else
                   let (tailticket, tl) = FAA64 (n_tail (node_at q ltail)) 1;
                       q1 = set_node ltail ((node_at q ltail)\<lparr>n_tail := tl\<rparr>) q
                   in if crq_is_closed_cpp tailticket then
                        (case construct_Node alloc q1 of
                           Inl f \<Rightarrow> Some (Inl f)
                         | Inr (newNode, q2) \<Rightarrow>
                             let q3 = set_node newNode (solo_cpp item (node_at q2 newNode)) q2;
                                 (ok, nx) = CAS64 (n_next (node_at q3 ltail)) 0 newNode;
                                 q4 = set_node ltail ((node_at q3 ltail)\<lparr>n_next := nx\<rparr>) q3
                             in if ok then
                                  Some (Inr (hp_clear tid (q4\<lparr>l_tail := snd (CAS64 (l_tail q4) ltail newNode)\<rparr>)))
                                else enqueue_loop alloc item tid try_close (destroy_ptr newNode q4))
                      else
                        let n = node_at q1 ltail; idx = cl_idx (cell_of n tailticket);
                            (ok, n') = (if cl_val (cell_of n tailticket) = 0 \<and> node_index_cpp idx \<le> tailticket \<and>
                                           (node_unsafe_cpp idx = 0 \<or> sint (n_head n) < sint tailticket)
                                        then CAS2_cpp tailticket 0 idx item tailticket n else (False, n));
                            q2 = set_node ltail n' q1
                        in if ok then Some (Inr (hp_clear tid q2))
                           else if sint (tailticket - n_head n') \<ge> sint RING_SIZE_cpp then
                             enqueue_loop alloc item tid (try_close + 1)
                               (set_node ltail (snd (close_crq_cpp n' tailticket (try_close + 1))) q2)
                           else enqueue_loop alloc item tid try_close q2)"

definition enqueue_cpp :: "node_alloc \<Rightarrow> u64 \<Rightarrow> nat \<Rightarrow> lcrq \<Rightarrow> (cpp_fault + lcrq) option" where
  "enqueue_cpp alloc item tid q = enqueue_loop alloc item tid 0 q"

text \<open>The inner loop of \<open>dequeue\<close>: the value to return, or \<^const>\<open>None\<close> for \<open>break\<close>.\<close>

partial_function (option) dequeue_cell :: "u64 \<Rightarrow> u64 \<Rightarrow> nat \<Rightarrow> Node \<Rightarrow> (u64 option \<times> Node) option" where
  "dequeue_cell headticket tt0 r n =
     (let cell_idx = cl_idx (cell_of n headticket);
          unsafe = node_unsafe_cpp cell_idx;
          idx = node_index_cpp cell_idx;
          val = cl_val (cell_of n headticket)
      in if idx > headticket then Some (None, n)
         else if val \<noteq> 0 then
           (if idx = headticket then
              (let (ok, n') = CAS2_cpp headticket val cell_idx 0 (unsafe OR (headticket + RING_SIZE_cpp)) n
               in if ok then Some (Some val, n') else dequeue_cell headticket tt0 r n')
            else
              (let (ok, n') = CAS2_cpp headticket val cell_idx val (set_unsafe_cpp idx) n
               in if ok then Some (None, n') else dequeue_cell headticket tt0 r n'))
         else
           (let tt = (if of_nat r AND (push_bit 10 1 - 1) = (0 :: u64) then n_tail n else tt0);
                crq_closed = crq_is_closed_cpp tt;
                t = tail_index_cpp tt
            in if unsafe \<noteq> 0 then
                 (let (ok, n') = CAS2_cpp headticket val cell_idx val (unsafe OR (headticket + RING_SIZE_cpp)) n
                  in if ok then Some (None, n') else dequeue_cell headticket tt r n')
               else if t < headticket + 1 \<or> r > 200000 \<or> crq_closed then
                 (let (ok, n') = CAS2_cpp headticket val idx val (headticket + RING_SIZE_cpp) n
                  in if ok then
                       Some (None, if r > 200000 \<and> tt > RING_SIZE_cpp then n'\<lparr>n_tail := snd (BIT_TEST_AND_SET (n_tail n') 63)\<rparr> else n')
                     else dequeue_cell headticket tt r n')
               else dequeue_cell headticket tt (r + 1) n))"

partial_function (option) dequeue_cpp :: "nat \<Rightarrow> lcrq \<Rightarrow> (cpp_fault + (u64 \<times> lcrq)) option" where
  "dequeue_cpp tid q0 =
     (let lhead = l_head q0; q = hp_protect kHpHead lhead tid q0
      in if lhead \<noteq> l_head q then dequeue_cpp tid q
         else if l_nodes q lhead = None then Some (Inl Dangling)
         else let (headticket, hd) = FAA64 (n_head (node_at q lhead)) 1
              in case dequeue_cell headticket 0 0 ((node_at q lhead)\<lparr>n_head := hd\<rparr>) of
                   None \<Rightarrow> None
                 | Some (Some val, n) \<Rightarrow> Some (Inr (val, hp_clear tid (set_node lhead n q)))
                 | Some (None, n) \<Rightarrow>
                     if tail_index_cpp (n_tail n) \<le> headticket + 1 then
                       (case fixState_cpp n of
                          None \<Rightarrow> None
                        | Some n' \<Rightarrow>
                            let q1 = set_node lhead n' q; lnext = n_next n'
                            in if lnext = 0 then Some (Inr (0, hp_clear tid q1))
                               else if tail_index_cpp (n_tail n') \<le> headticket + 1 then
                                 (let (ok, hd') = CAS64 (l_head q1) lhead lnext; q2 = q1\<lparr>l_head := hd'\<rparr>
                                  in dequeue_cpp tid (if ok then hp_retire lhead tid q2 else q2))
                               else dequeue_cpp tid q1)
                     else dequeue_cpp tid (set_node lhead n q))"

text \<open>The destructor: thread 0 empties the queue, then the last ring is destroyed. The table of hazard pointers is not.\<close>

partial_function (option) drain :: "lcrq \<Rightarrow> (cpp_fault + lcrq) option" where
  "drain q =
     (case dequeue_cpp 0 q of
        None \<Rightarrow> None
      | Some (Inl f) \<Rightarrow> Some (Inl f)
      | Some (Inr (val, q')) \<Rightarrow> if val \<noteq> 0 then drain q' else Some (Inr q'))"

definition LCRQueue_dtor :: "lcrq \<Rightarrow> (cpp_fault + lcrq) option" where
  "LCRQueue_dtor q =
     (case drain q of None \<Rightarrow> None | Some (Inl f) \<Rightarrow> Some (Inl f) | Some (Inr q') \<Rightarrow> Some (Inr (destroy_ptr (l_head q') q')))"

section \<open>A ring of the C++ queue as a ring of the C queue\<close>

text \<open>
  The private methods are those of the C version. The value of a cell less one is a value of the C version, since \<open>nullptr\<close> less
  one is its \<open>EMPTY\<close>. A closed ring with a successor has seen one more ticket than in C: here the enqueue that closed it
  goes round its loop and draws another one before it makes the new ring.
\<close>

abbreviation "RP \<equiv> RING_POW_cpp"

lemma same_helpers [simp]:
  "node_index_cpp = node_index" "set_unsafe_cpp = set_unsafe" "node_unsafe_cpp = node_unsafe"
  "tail_index_cpp = tail_index" "crq_is_closed_cpp = crq_is_closed" "RING_SIZE_cpp = RING_SIZE RP"
  by (simp_all add: fun_eq_iff node_index_cpp_def node_index_def set_unsafe_cpp_def set_unsafe_def node_unsafe_cpp_def node_unsafe_def
      tail_index_cpp_def tail_index_def crq_is_closed_cpp_def crq_is_closed_def bit63_def RING_SIZE_cpp_def RING_SIZE_def)

lemma RP_less [simp]: "RP < 64" by (simp add: RING_POW_cpp_def)

definition c_cell :: "Cell \<Rightarrow> RingNode" where
  "c_cell c = \<lparr>rn_val = cl_val c - 1, rn_idx = cl_idx c\<rparr>"

definition as_ring :: "u64 \<Rightarrow> Node \<Rightarrow> RingQueue" where
  "as_ring t n = \<lparr>rq_head = n_head n, rq_tail = t, rq_next = None, rq_array = map c_cell (n_array n)\<rparr>"

lemma as_ring_simps [simp]:
  "rq_head (as_ring t n) = n_head n" "rq_tail (as_ring t n) = t" "rq_next (as_ring t n) = None"
  "rq_array (as_ring t n) = map c_cell (n_array n)"
  "as_ring t (n\<lparr>n_tail := x\<rparr>) = as_ring t n" "as_ring t (n\<lparr>n_next := p\<rparr>) = as_ring t n"
  "as_ring t (n\<lparr>n_head := h\<rparr>) = (as_ring t n)\<lparr>rq_head := h\<rparr>"
  "(as_ring t n)\<lparr>rq_tail := x\<rparr> = as_ring x n"
  by (simp_all add: as_ring_def)

lemma c_cell_simps [simp]: "rn_val (c_cell c) = cl_val c - 1" "rn_idx (c_cell c) = cl_idx c"
  by (simp_all add: c_cell_def)

lemma slot_cpp: "unat (t AND (RING_SIZE RP - 1)) = slot RP t"
  by (simp add: slot_def)

lemma put_cell_ring [simp]: "as_ring x (put_cell t (v, i) n) = set_cell RP t (v - 1, i) (as_ring x n)"
  by (simp add: put_cell_def as_ring_def set_cell_def slot_cpp map_update c_cell_def)

lemma put_cell_simps [simp]:
  "n_head (put_cell t vi n) = n_head n" "n_tail (put_cell t vi n) = n_tail n" "n_next (put_cell t vi n) = n_next n"
  "length (n_array (put_cell t vi n)) = length (n_array n)"
  by (simp_all add: put_cell_def)

lemma cell_of_upd [simp]:
  "cell_of (n\<lparr>n_head := h\<rparr>) t = cell_of n t" "cell_of (n\<lparr>n_tail := h\<rparr>) t = cell_of n t"
  by (simp_all add: cell_of_def)

lemma cell_of_ring: "length (n_array n) = 2 ^ RP \<Longrightarrow> cell_at RP (as_ring x n) t = c_cell (cell_of n t)"
  by (simp add: cell_of_def cell_at_def slot_cpp unat_slot)

lemma CAS2_cpp_hit [step_simps]:
  "CAS2_cpp t o1 o2 n1 n2 n = (True, put_cell t (n1, n2) n)" if "cl_val (cell_of n t) = o1" "cl_idx (cell_of n t) = o2"
  using that by (simp add: CAS2_cpp_def CAS2_def)

lemma fixState_cpp_solo [step_simps]:
  "fixState_cpp n = Some (if n_head n > n_tail n then n\<lparr>n_tail := n_head n\<rparr> else n)"
  by (subst fixState_cpp.simps) (simp add: prim_defs)

definition open_ok :: "Node \<Rightarrow> bool" where
  "open_ok n \<longleftrightarrow> ring_ok RP (as_ring (n_tail n) n) \<and> \<not> crq_is_closed (n_tail n)"

definition closed_ok :: "Node \<Rightarrow> bool" where
  "closed_ok n \<longleftrightarrow> ring_ok RP (as_ring (n_tail n - 1) n) \<and> crq_is_closed (n_tail n - 1) \<and> crq_is_closed (n_tail n)"

definition node_ring :: "Node \<Rightarrow> RingQueue" where
  "node_ring n = as_ring (if crq_is_closed (n_tail n) then n_tail n - 1 else n_tail n) n"

definition node_contents :: "Node \<Rightarrow> u64 list" where
  "node_contents n = map (\<lambda>v. v + 1) (ring_contents RP (node_ring n))"

text \<open>Tickets drawn so far.\<close>

definition node_below :: "nat \<Rightarrow> Node \<Rightarrow> bool" where
  "node_below B n \<longleftrightarrow> unat (n_head n) \<le> B \<and> unat (tail_index (n_tail n)) \<le> B"

lemma node_below_mono: "node_below B n \<Longrightarrow> B \<le> B' \<Longrightarrow> node_below B' n"
  by (simp add: node_below_def)

lemma len_ok: "open_ok n \<Longrightarrow> length (n_array n) = 2 ^ RP" "closed_ok n \<Longrightarrow> length (n_array n) = 2 ^ RP"
  by (simp_all add: open_ok_def closed_ok_def ring_ok_def)

lemma node_upd [simp]:
  "open_ok (n\<lparr>n_next := p\<rparr>) = open_ok n" "closed_ok (n\<lparr>n_next := p\<rparr>) = closed_ok n"
  "node_contents (n\<lparr>n_next := p\<rparr>) = node_contents n" "node_below B (n\<lparr>n_next := p\<rparr>) = node_below B n"
  by (simp_all add: open_ok_def closed_ok_def node_contents_def node_ring_def node_below_def)

lemma open_below: "open_ok n \<Longrightarrow> node_below B n \<Longrightarrow> unat (n_tail n) \<le> B"
  by (simp add: open_ok_def node_below_def crq_is_closed_iff unat_tail_index)

text \<open>A new ring, empty or with its first item.\<close>

lemma node_cells_length [simp]: "length (node_cells k) = k" by (induction k) auto

lemma node_cells_nth: "i < k \<Longrightarrow> node_cells k ! i = \<lparr>cl_val = 0, cl_idx = of_nat i\<rparr>"
  by (induction k) (auto simp: nth_append less_Suc_eq)

lemma Node_ctor_ring: "as_ring 0 Node_ctor = init_ring RP \<lparr>rq_head = 0, rq_tail = 0, rq_next = None, rq_array = replicate (2 ^ RP) x\<rparr>"
proof -
  have "map c_cell (node_cells (2 ^ RP)) = init_cells (2 ^ RP) (replicate (2 ^ RP) x)"
    by (rule nth_equalityI) (simp_all add: node_cells_nth init_cells_nth c_cell_def)
  then show ?thesis by (simp add: as_ring_def Node_ctor_def init_ring_def)
qed

lemma Node_ctor_ok:
  "open_ok Node_ctor" "node_contents Node_ctor = []" "node_below 0 Node_ctor" "n_next Node_ctor = 0" "n_tail Node_ctor = 0" "n_head Node_ctor = 0"
proof -
  show [simp]: "n_next Node_ctor = 0" "n_tail Node_ctor = 0" "n_head Node_ctor = 0" by (simp_all add: Node_ctor_def)
  have "length (rq_array \<lparr>rq_head = 0, rq_tail = 0, rq_next = None, rq_array = replicate (2 ^ RP) undefined\<rparr>) = 2 ^ RP" by simp
  note ring_ok_init [OF this, folded Node_ctor_ring]
  moreover have [simp]: "\<not> crq_is_closed 0" by (simp add: crq_is_closed_iff)
  ultimately show "open_ok Node_ctor" "node_contents Node_ctor = []"
    by (simp_all add: open_ok_def node_contents_def node_ring_def)
  show "node_below 0 Node_ctor" by (simp add: node_below_def unat_tail_index)
qed

lemma node_put:
  assumes ok: "open_ok n" and room: "unat (n_tail n) < unat (n_head n) + 2 ^ RP" and lim: "unat (n_tail n) < 2 ^ 63 - 1" and v: "item \<noteq> 0"
  defines "n' \<equiv> put_cell (n_tail n) (item, n_tail n) (n\<lparr>n_tail := n_tail n + 1\<rparr>)"
  shows "open_ok n'" "node_contents n' = node_contents n @ [item]" "unat (n_tail n') = Suc (unat (n_tail n))"
proof -
  let ?r = "as_ring (n_tail n) n"
  have op: "\<not> crq_is_closed (n_tail n)" and r: "ring_ok RP ?r" using ok by (simp_all add: open_ok_def)
  have le: "live_end ?r = unat (n_tail n)" using op by (simp add: live_end_def)
  have E: "item - 1 \<noteq> EMPTY" using v by (simp add: EMPTY_def)
  note put = ring_put [of RP ?r "item - 1"]
  have eq: "as_ring (n_tail n') n' = set_cell RP (rq_tail ?r) (item - 1, rq_tail ?r) (?r\<lparr>rq_tail := rq_tail ?r + 1\<rparr>)"
    by (simp add: n'_def)
  have ok': "ring_ok RP (as_ring (n_tail n') n')" and con: "ring_contents RP (as_ring (n_tail n') n') = ring_contents RP ?r @ [item - 1]"
    and cl: "\<not> crq_is_closed (n_tail n')"
    using put r op room lim E le unfolding eq by (simp_all add: n'_def)
  show "open_ok n'" using ok' cl by (simp add: open_ok_def)
  show "node_contents n' = node_contents n @ [item]" using con cl op by (simp add: node_contents_def node_ring_def)
  show "unat (n_tail n') = Suc (unat (n_tail n))" using lim by (simp add: n'_def unat_Suc_64)
qed

lemma solo_ok:
  assumes "item \<noteq> 0"
  shows "open_ok (solo_cpp item Node_ctor)" "node_contents (solo_cpp item Node_ctor) = [item]" "node_below 1 (solo_cpp item Node_ctor)"
    "n_next (solo_cpp item Node_ctor) = 0"
proof -
  have eq: "solo_cpp item Node_ctor = put_cell (n_tail Node_ctor) (item, n_tail Node_ctor) (Node_ctor\<lparr>n_tail := n_tail Node_ctor + 1\<rparr>)"
    by (simp add: solo_cpp_def put_cell_def Node_ctor_ok)
  have "unat (n_tail Node_ctor) < unat (n_head Node_ctor) + 2 ^ RP" "unat (n_tail Node_ctor) < 2 ^ 63 - 1"
    by (simp_all add: Node_ctor_ok)
  note put = node_put [OF Node_ctor_ok(1) this assms, folded eq]
  show "open_ok (solo_cpp item Node_ctor)" "node_contents (solo_cpp item Node_ctor) = [item]"
    using put by (simp_all add: Node_ctor_ok)
  show "node_below 1 (solo_cpp item Node_ctor)" "n_next (solo_cpp item Node_ctor) = 0"
    by (simp_all add: solo_cpp_def node_below_def unat_tail_index Node_ctor_ok)
qed

lemma node_close:
  assumes ok: "open_ok n" and lim: "unat (n_tail n) < 2 ^ 63 - 2"
  defines "n' \<equiv> n\<lparr>n_tail := ((n_tail n + 1) OR bit63) + 1\<rparr>"
  shows "closed_ok n'" "node_contents n' = node_contents n" "unat (tail_index (n_tail n')) = unat (n_tail n) + 2"
proof -
  let ?r = "as_ring (n_tail n) n" and ?t = "(n_tail n + 1) OR bit63"
  have op: "\<not> crq_is_closed (n_tail n)" and r: "ring_ok RP ?r" using ok by (simp_all add: open_ok_def)
  have le: "live_end ?r = unat (n_tail n)" using op by (simp add: live_end_def)
  have "unat (n_tail n + 1) = Suc (unat (n_tail n))" using lim by (intro unat_Suc_64) simp
  then have t: "unat ?t = Suc (unat (n_tail n)) + 2 ^ 63" using lim by (simp add: unat_or_bit63)
  then have t1: "unat (?t + 1) = unat (n_tail n) + 2 + 2 ^ 63" using lim by (simp add: unat_Suc_64)
  have cl: "crq_is_closed (n_tail n')" using t1 by (simp add: n'_def crq_is_closed_iff)
  note close = ring_close [of RP ?r]
  show "closed_ok n'" using close(1,3) r op lim le cl by (simp add: closed_ok_def n'_def)
  show "node_contents n' = node_contents n" using close(2) r op lim le cl
    by (simp add: node_contents_def node_ring_def n'_def)
  have "n_tail n' = ?t + 1" by (simp add: n'_def)
  then have "unat (tail_index (n_tail n')) = (unat (n_tail n) + 2 + 2 ^ 63) mod 2 ^ 63" by (simp only: unat_tail_index t1)
  also have "\<dots> = unat (n_tail n) + 2" using lim by (subst mod_add_self2) simp
  finally show "unat (tail_index (n_tail n')) = unat (n_tail n) + 2" .
qed

text \<open>What a dequeue does to a ring: it takes the first item, passes over an empty cell, or finds the last ring empty.\<close>

definition node_take :: "Node \<Rightarrow> Node" where
  "node_take n = put_cell (n_head n) (0, n_head n + RING_SIZE RP) (n\<lparr>n_head := n_head n + 1\<rparr>)"

lemma node_take_simps [simp]:
  "n_head (node_take n) = n_head n + 1" "n_tail (node_take n) = n_tail n" "n_next (node_take n) = n_next n"
  "as_ring t (node_take n) = ring_take RP (as_ring t n)"
  by (simp_all add: node_take_def ring_take_def EMPTY_def)

lemma cell_live:
  assumes "ring_ok RP (as_ring t n)" "unat (n_head n) < live_end (as_ring t n)"
  shows "cl_val (cell_of n (n_head n)) \<noteq> 0" "cl_idx (cell_of n (n_head n)) = n_head n"
    "cl_val (cell_of n (n_head n)) = hd (ring_contents RP (as_ring t n)) + 1"
proof -
  have len: "length (n_array n) = 2 ^ RP" using assms(1) by (simp add: ring_ok_def)
  note live = deq_cell_live [OF assms(1)] hd_ring_contents [of "as_ring t n" RP]
  have "live_cell (c_cell (cell_of n (n_head n))) (unat (n_head n))"
    "hd (ring_contents RP (as_ring t n)) = cl_val (cell_of n (n_head n)) - 1"
    using live assms(2) by (simp_all add: cell_of_ring [OF len])
  then show "cl_val (cell_of n (n_head n)) \<noteq> 0" "cl_idx (cell_of n (n_head n)) = n_head n"
    "cl_val (cell_of n (n_head n)) = hd (ring_contents RP (as_ring t n)) + 1"
    by (auto simp: live_cell_def EMPTY_def)
qed

lemma cell_free:
  assumes "ring_ok RP (as_ring t n)" "\<not> unat (n_head n) < live_end (as_ring t n)"
  shows "cl_val (cell_of n (n_head n)) = 0" "cl_idx (cell_of n (n_head n)) = n_head n"
proof -
  have len: "length (n_array n) = 2 ^ RP" using assms(1) by (simp add: ring_ok_def)
  have "free_cell (c_cell (cell_of n (n_head n))) (unat (n_head n))"
    using deq_cell_free [OF assms(1)] assms(2) by (simp add: cell_of_ring [OF len])
  then show "cl_val (cell_of n (n_head n)) = 0" "cl_idx (cell_of n (n_head n)) = n_head n"
    by (auto simp: free_cell_def EMPTY_def)
qed

lemma dequeue_cell_take:
  assumes "ring_ok RP (as_ring t n)" "unat (n_head n) < live_end (as_ring t n)" "unat (n_head n) < 2 ^ 63"
  shows "dequeue_cell (n_head n) 0 0 (n\<lparr>n_head := n_head n + 1\<rparr>) = Some (Some (cl_val (cell_of n (n_head n))), node_take n)"
  using cell_live [OF assms(1,2)] assms(3)
  by (subst dequeue_cell.simps) (simp add: Let_def node_index_small node_unsafe_eq_0 [THEN iffD2] CAS2_cpp_hit node_take_def)

lemma dequeue_cell_skip:
  assumes "ring_ok RP (as_ring t n)" "\<not> unat (n_head n) < live_end (as_ring t n)" "unat (n_head n) < 2 ^ 63"
    "tail_index (n_tail n) < n_head n + 1 \<or> crq_is_closed (n_tail n)"
  shows "dequeue_cell (n_head n) 0 0 (n\<lparr>n_head := n_head n + 1\<rparr>) = Some (None, node_take n)"
  using cell_free [OF assms(1,2)] assms(3,4)
  by (subst dequeue_cell.simps) (auto simp add: Let_def node_index_small node_unsafe_eq_0 [THEN iffD2] CAS2_cpp_hit node_take_def)

lemma take_contents_eq: "ring_contents RP r \<noteq> [] \<Longrightarrow> ring_contents RP r = hd (ring_contents RP r) # tl (ring_contents RP r)"
  by simp

section \<open>The chain of rings between two operations\<close>

fun chain :: "(nat \<Rightarrow> Node option) \<Rightarrow> nat list \<Rightarrow> bool" where
  "chain m [] = False"
| "chain m [p] = (\<exists>n. m p = Some n \<and> open_ok n \<and> n_next n = 0)"
| "chain m (p # r # c) = (\<exists>n. m p = Some n \<and> closed_ok n \<and> n_next n = r \<and> chain m (r # c))"

definition chain_contents :: "(nat \<Rightarrow> Node option) \<Rightarrow> nat list \<Rightarrow> u64 list" where
  "chain_contents m c = concat (map (\<lambda>p. node_contents (the (m p))) c)"

definition chain_below :: "nat \<Rightarrow> (nat \<Rightarrow> Node option) \<Rightarrow> nat list \<Rightarrow> bool" where
  "chain_below B m c \<longleftrightarrow> (\<forall>p \<in> set c. node_below B (the (m p)))"

definition retired_nodes :: "hazard \<Rightarrow> nat set" where
  "retired_nodes z = (\<Union>t. set (hz_retired z t))"

text \<open>
  \<open>queue_mid\<close>: the state inside a call of thread \<open>tid\<close>, whose hazard pointer may hold anything; the pointers of the others are
  clear. A thread keeps at most one retired ring. \<open>queue_ok\<close>: between calls.
\<close>

definition kept_ok :: "nat list \<Rightarrow> hazard \<Rightarrow> bool" where
  "kept_ok c z \<longleftrightarrow> (\<forall>t. length (hz_retired z t) \<le> 1) \<and> (\<forall>t u. t \<noteq> u \<longrightarrow> set (hz_retired z t) \<inter> set (hz_retired z u) = {}) \<and>
     retired_nodes z \<inter> set c = {} \<and> 0 \<notin> retired_nodes z \<and> (\<forall>t \<ge> hz_maxThreads z. hz_retired z t = [])"

definition queue_mid :: "nat \<Rightarrow> nat \<Rightarrow> lcrq \<Rightarrow> nat list \<Rightarrow> bool" where
  "queue_mid n tid q c \<longleftrightarrow>
     chain (l_nodes q) c \<and> distinct c \<and> 0 \<notin> set c \<and> l_head q = hd c \<and> l_tail q = last c \<and>
     dom (l_nodes q) = set c \<union> retired_nodes (l_hp q) \<and> kept_ok c (l_hp q) \<and>
     hz_maxHPs (l_hp q) = 1 \<and> hz_maxThreads (l_hp q) = n \<and> (\<forall>t. t \<noteq> tid \<longrightarrow> hz_hp (l_hp q) t 0 = 0)"

definition queue_ok :: "nat \<Rightarrow> lcrq \<Rightarrow> nat list \<Rightarrow> bool" where
  "queue_ok n q c \<longleftrightarrow> queue_mid n 0 q c \<and> hz_hp (l_hp q) 0 0 = 0"

lemma queue_ok_mid: "queue_ok n q c \<Longrightarrow> queue_mid n tid q c"
  unfolding queue_ok_def queue_mid_def by (metis (no_types, lifting))

lemma chain_ne: "chain m c \<Longrightarrow> c \<noteq> []" by (cases c) auto

lemma chain_cong: "(\<And>p. p \<in> set c \<Longrightarrow> m p = m' p) \<Longrightarrow> chain m c = chain m' c"
  by (induction m c rule: chain.induct) auto

lemma chain_contents_cong: "(\<And>p. p \<in> set c \<Longrightarrow> m p = m' p) \<Longrightarrow> chain_contents m c = chain_contents m' c"
  unfolding chain_contents_def by (metis (no_types, lifting) map_cong)

lemma nodes_last: "chain m c \<Longrightarrow> \<exists>n. m (last c) = Some n \<and> open_ok n \<and> n_next n = 0"
  by (induction m c rule: chain.induct) auto

lemma chain_upd_last: "chain m c \<Longrightarrow> distinct c \<Longrightarrow> open_ok n \<Longrightarrow> n_next n = 0 \<Longrightarrow> chain (m(last c \<mapsto> n)) c"
  by (induction m c rule: chain.induct) auto

lemma nodes_extend:
  "chain m c \<Longrightarrow> distinct c \<Longrightarrow> p \<notin> set c \<Longrightarrow> closed_ok n \<Longrightarrow> n_next n = p \<Longrightarrow> open_ok k \<Longrightarrow> n_next k = 0 \<Longrightarrow>
   chain (m(p \<mapsto> k, last c \<mapsto> n)) (c @ [p])"
  by (induction m c rule: chain.induct) auto

lemma chain_contents_upd_last:
  "c \<noteq> [] \<Longrightarrow> distinct c \<Longrightarrow> chain_contents (m(last c \<mapsto> n)) c = chain_contents m (butlast c) @ node_contents n"
proof -
  assume c: "c \<noteq> []" "distinct c"
  then have "last c \<notin> set (butlast c)" by (metis append_butlast_last_id distinct_butlast not_distinct_conv_prefix)
  then have "chain_contents (m(last c \<mapsto> n)) (butlast c) = chain_contents m (butlast c)"
    by (intro chain_contents_cong) auto
  moreover have "chain_contents (m(last c \<mapsto> n)) c = chain_contents (m(last c \<mapsto> n)) (butlast c @ [last c])" using c by simp
  ultimately show ?thesis by (simp add: chain_contents_def del: append_butlast_last_id)
qed

lemma chain_contents_last:
  "c \<noteq> [] \<Longrightarrow> chain_contents m c = chain_contents m (butlast c) @ node_contents (the (m (last c)))"
proof -
  assume "c \<noteq> []"
  then have "chain_contents m c = chain_contents m (butlast c @ [last c])" by simp
  then show ?thesis by (simp add: chain_contents_def del: append_butlast_last_id)
qed

section \<open>The calls on the chain\<close>

lemma hp_simps [simp]:
  "l_nodes (hp_protect i p t q) = l_nodes q" "l_head (hp_protect i p t q) = l_head q" "l_tail (hp_protect i p t q) = l_tail q"
  "l_nodes (hp_clear t q) = l_nodes q" "l_head (hp_clear t q) = l_head q" "l_tail (hp_clear t q) = l_tail q"
  "l_nodes (set_node p n q) = (l_nodes q)(p \<mapsto> n)" "l_head (set_node p n q) = l_head q" "l_tail (set_node p n q) = l_tail q"
  "l_hp (set_node p n q) = l_hp q" "node_at (set_node p n q) p = n" "p \<noteq> r \<Longrightarrow> node_at (set_node p n q) r = node_at q r"
  "set_node p n (set_node p k q) = set_node p n q" "node_at (hp_protect i p t q) = node_at q"
  by (simp_all add: hp_protect_def hp_clear_def set_node_def node_at_def fun_eq_iff)

lemma hp_set_node: "hp_protect i p t (set_node r n q) = set_node r n (hp_protect i p t q)"
  by (simp add: hp_protect_def set_node_def)

lemma hp_protect_idem: "hp_protect i p t (hp_protect i p t q) = hp_protect i p t q"
  by (simp add: hp_protect_def protectPtr_def)

lemma mid_protect [simp]: "queue_mid n tid (hp_protect 0 p tid q) c = queue_mid n tid q c"
  by (simp add: queue_mid_def hp_protect_def protectPtr_def kept_ok_def retired_nodes_def)

lemma mid_clear: "queue_mid n tid q c \<Longrightarrow> queue_ok n (hp_clear tid q) c"
  by (auto simp: queue_ok_def queue_mid_def hp_clear_def clear_def clearOne_def kept_ok_def retired_nodes_def)

lemma mid_nodes:
  assumes "queue_mid n tid q c" "l_hp q' = l_hp q" "chain (l_nodes q') c'" "distinct c'" "0 \<notin> set c'" "l_head q' = hd c'" "l_tail q' = last c'"
    "dom (l_nodes q') = set c' \<union> retired_nodes (l_hp q)" "set c' \<inter> retired_nodes (l_hp q) = {}"
  shows "queue_mid n tid q' c'"
  using assms by (auto simp: queue_mid_def kept_ok_def)

lemma mid_upd_last:
  assumes mid: "queue_mid n tid q c" and "open_ok k" "n_next k = 0"
  shows "queue_mid n tid (set_node (last c) k q) c"
proof -
  have c: "chain (l_nodes q) c" "distinct c" "last c \<in> set c" using mid chain_ne by (auto simp: queue_mid_def)
  then have "chain ((l_nodes q)(last c \<mapsto> k)) c" using assms by (intro chain_upd_last)
  then show ?thesis using mid c(3) by (auto simp: queue_mid_def set_node_def kept_ok_def)
qed

definition alloc_ok :: "nat \<Rightarrow> node_alloc \<Rightarrow> bool" where
  "alloc_ok N alloc \<longleftrightarrow> (\<forall>m. finite (dom m) \<and> card (dom m) < N \<longrightarrow> (\<exists>p. alloc m = Some p \<and> p \<noteq> 0 \<and> p \<notin> dom m))"

lemma close_crq_bit63:
  "close_crq_cpp n t k = (let (ok, tl) = (if k < 10 then CAS64 (n_tail n) (t + 1) ((t + 1) OR bit63) else BIT_TEST_AND_SET (n_tail n) 63)
     in (ok, n\<lparr>n_tail := tl\<rparr>))"
  by (simp only: close_crq_cpp_def bit63_def)

text \<open>One round of the loop of \<open>enqueue\<close> at the last ring, when it has room and when it is full.\<close>

lemma enqueue_room:
  assumes nd: "l_nodes q (l_tail q) = Some n" "n_next n = 0" "open_ok n" and room: "unat (n_tail n) < unat (n_head n) + 2 ^ RP"
  shows "enqueue_loop alloc item tid tc q = Some (Inr (hp_clear tid
    (set_node (l_tail q) (put_cell (n_tail n) (item, n_tail n) (n\<lparr>n_tail := n_tail n + 1\<rparr>)) (hp_protect kHpTail (l_tail q) tid q))))"
proof -
  have op: "\<not> crq_is_closed (n_tail n)" and r: "ring_ok RP (as_ring (n_tail n) n)" using nd(3) by (simp_all add: open_ok_def)
  have at: "node_at q (l_tail q) = n" using nd(1) by (simp add: node_at_def)
  have "free_cell (c_cell (cell_of n (n_tail n))) (unat (n_tail n))"
    using enq_cell_free [OF r] op room len_ok(1) [OF nd(3)] by (simp add: live_end_def cell_of_ring)
  then have cell: "cl_val (cell_of n (n_tail n)) = 0" "cl_idx (cell_of n (n_tail n)) = n_tail n"
    by (auto simp: free_cell_def EMPTY_def)
  have "unat (n_tail n) < 2 ^ 63" using op by (simp add: crq_is_closed_iff)
  then have "node_index (n_tail n) = n_tail n" "node_unsafe (n_tail n) = 0" by (simp_all add: node_index_small node_unsafe_eq_0)
  then show ?thesis using nd at op cell by (subst enqueue_loop.simps) (simp add: FAA64_def CAS2_cpp_hit Let_def)
qed

lemma enqueue_full:
  assumes nd: "l_nodes q (l_tail q) = Some n" "n_next n = 0" "open_ok n" and full: "\<not> unat (n_tail n) < unat (n_head n) + 2 ^ RP"
    and lim: "unat (n_tail n) < 2 ^ 63 - 2"
  shows "enqueue_loop alloc item tid tc q = enqueue_loop alloc item tid (tc + 1)
    (set_node (l_tail q) (n\<lparr>n_tail := (n_tail n + 1) OR bit63\<rparr>) (hp_protect kHpTail (l_tail q) tid q))"
proof -
  have op: "\<not> crq_is_closed (n_tail n)" and r: "ring_ok RP (as_ring (n_tail n) n)" using nd(3) by (simp_all add: open_ok_def)
  have at: "node_at q (l_tail q) = n" using nd(1) by (simp add: node_at_def)
  have "rn_val (cell_at RP (as_ring (n_tail n) n) (n_tail n)) \<noteq> EMPTY"
    using enq_cell_full [OF r] op full by (simp add: live_end_def)
  then have occ: "cl_val (cell_of n (n_tail n)) \<noteq> 0" using len_ok(1) [OF nd(3)] by (auto simp: cell_of_ring EMPTY_def)
  have "unat (n_tail n) = unat (n_head n) + 2 ^ RP" using r op full by (simp add: ring_ok_def live_end_def)
  then have "n_tail n = n_head n + RING_SIZE RP"
    by (metis unat_less_64 unat_add_64 unat_RING_SIZE RP_less word_eq_unat)
  then have dist: "n_tail n - n_head n = RING_SIZE RP" by simp
  have "unat (n_tail n + 1) < 2 ^ 63" using lim by (simp add: unat_Suc_64)
  then have "close_crq_cpp (n\<lparr>n_tail := n_tail n + 1\<rparr>) (n_tail n) k = (True, n\<lparr>n_tail := (n_tail n + 1) OR bit63\<rparr>)" for k
    by (simp add: close_crq_bit63 CAS64_def BIT_TEST_AND_SET_def)
  then show ?thesis using nd at op occ dist by (subst enqueue_loop.simps) (simp add: FAA64_def Let_def)
qed

lemma enqueue_new_ring:
  assumes nd: "l_nodes q (l_tail q) = Some n" "n_next n = 0" "crq_is_closed (n_tail n)"
    and al: "alloc ((l_nodes q)(l_tail q \<mapsto> n\<lparr>n_tail := n_tail n + 1\<rparr>)) = Some p" "p \<noteq> l_tail q"
  shows "enqueue_loop alloc item tid tc q = Some (Inr (hp_clear tid ((hp_protect kHpTail (l_tail q) tid q)\<lparr>
     l_nodes := (l_nodes q)(p \<mapsto> solo_cpp item Node_ctor, l_tail q \<mapsto> n\<lparr>n_tail := n_tail n + 1, n_next := p\<rparr>), l_tail := p\<rparr>)))"
proof -
  have at: "node_at q (l_tail q) = n" using nd(1) by (simp add: node_at_def)
  show ?thesis using nd at al
    by (subst enqueue_loop.simps) (simp add: FAA64_def CAS64_def Let_def construct_Node_def fun_upd_twist set_node_def node_at_def hp_clear_def)
qed

lemma mid_facts:
  assumes "queue_mid n tid q c" "chain_below B (l_nodes q) c"
  obtains k where "l_nodes q (l_tail q) = Some k" "open_ok k" "n_next k = 0" "node_below B k" "l_tail q = last c" "c \<noteq> []" "distinct c"
proof -
  have c: "chain (l_nodes q) c" "distinct c" "c \<noteq> []" "l_tail q = last c" using assms chain_ne by (auto simp: queue_mid_def)
  with nodes_last [OF c(1)] obtain k where k: "l_nodes q (last c) = Some k" "open_ok k" "n_next k = 0" by blast
  moreover have "node_below B k" using assms(2) k(1) c(3) by (auto simp: chain_below_def dest: bspec [of _ _ "last c"])
  ultimately show ?thesis using that c by simp
qed

lemma below_upd_last:
  "chain_below B m c \<Longrightarrow> B \<le> B' \<Longrightarrow> node_below B' k \<Longrightarrow> chain_below B' (m(p \<mapsto> k)) c"
  by (auto simp: chain_below_def intro: node_below_mono)

lemma enqueue_room_chain:
  assumes mid: "queue_mid n tid q c" and below: "chain_below B (l_nodes q) c" "B + 2 < 2 ^ 62" and item: "item \<noteq> 0"
    and room: "unat (n_tail (node_at q (l_tail q))) < unat (n_head (node_at q (l_tail q))) + 2 ^ RP"
  shows "\<exists>q'. enqueue_loop alloc item tid tc q = Some (Inr q') \<and> queue_ok n q' c \<and> chain_below (B + 2) (l_nodes q') c \<and>
    chain_contents (l_nodes q') c = chain_contents (l_nodes q) c @ [item] \<and> dom (l_nodes q') = dom (l_nodes q)"
proof -
  obtain k where k: "l_nodes q (l_tail q) = Some k" "open_ok k" "n_next k = 0" "node_below B k" "l_tail q = last c" "c \<noteq> []" "distinct c"
    using mid_facts [OF mid below(1)] .
  have t: "unat (n_tail k) \<le> B" using open_below [OF k(2,4)] .
  define k' where "k' = put_cell (n_tail k) (item, n_tail k) (k\<lparr>n_tail := n_tail k + 1\<rparr>)"
  have k': "open_ok k'" "node_contents k' = node_contents k @ [item]" "unat (n_tail k') = Suc (unat (n_tail k))" "n_next k' = 0" "n_head k' = n_head k"
    using node_put [OF k(2), of item] room k(1) t below(2) item k(3) by (simp_all add: k'_def node_at_def)
  have b': "node_below (B + 2) k'" using k(4) k'(1,3,5) t by (simp add: node_below_def open_ok_def crq_is_closed_iff unat_tail_index)
  let ?q = "set_node (last c) k' (hp_protect kHpTail (last c) tid q)"
  have "enqueue_loop alloc item tid tc q = Some (Inr (hp_clear tid ?q))"
    using enqueue_room [OF k(1,3,2)] room k(1,5) by (simp add: k'_def node_at_def)
  moreover have "queue_ok n (hp_clear tid ?q) c"
    by (intro mid_clear mid_upd_last) (use mid k' in \<open>simp_all add: kHpTail_def\<close>)
  moreover have "chain_below (B + 2) (l_nodes ?q) c" using below_upd_last [OF below(1) _ b'] by simp
  moreover have "chain_contents (l_nodes ?q) c = chain_contents (l_nodes q) c @ [item]"
    using k k'(2) chain_contents_last [of c "l_nodes q"] by (simp add: chain_contents_upd_last)
  moreover have "dom (l_nodes ?q) = dom (l_nodes q)" using k(1,5) by auto
  ultimately show ?thesis by (intro exI [of _ "hp_clear tid ?q"]) simp
qed

lemma enqueue_full_chain:
  assumes mid: "queue_mid n tid q c" and below: "chain_below B (l_nodes q) c" "B + 2 < 2 ^ 62" and item: "item \<noteq> 0"
    and full: "\<not> unat (n_tail (node_at q (l_tail q))) < unat (n_head (node_at q (l_tail q))) + 2 ^ RP"
    and al: "\<And>m. dom m = dom (l_nodes q) \<Longrightarrow> \<exists>p. alloc m = Some p \<and> p \<noteq> 0 \<and> p \<notin> dom m"
  shows "\<exists>q' p. enqueue_loop alloc item tid tc q = Some (Inr q') \<and> queue_ok n q' (c @ [p]) \<and> chain_below (B + 2) (l_nodes q') (c @ [p]) \<and>
    chain_contents (l_nodes q') (c @ [p]) = chain_contents (l_nodes q) c @ [item] \<and> dom (l_nodes q') = insert p (dom (l_nodes q))"
proof -
  obtain k where k: "l_nodes q (l_tail q) = Some k" "open_ok k" "n_next k = 0" "node_below B k" "l_tail q = last c" "c \<noteq> []" "distinct c"
    using mid_facts [OF mid below(1)] .
  have t: "unat (n_tail k) \<le> B" using open_below [OF k(2,4)] .
  define u where "u = (n_tail k + 1) OR bit63"
  define k1 where "k1 = k\<lparr>n_tail := u\<rparr>"
  define q1 where "q1 = set_node (l_tail q) k1 (hp_protect kHpTail (l_tail q) tid q)"
  have lim: "unat (n_tail k) < 2 ^ 63 - 2" using t below(2) by simp
  have e1: "enqueue_loop alloc item tid tc q = enqueue_loop alloc item tid (tc + 1) q1"
    using enqueue_full [OF k(1,3,2) _ lim] full k(1) by (simp add: q1_def k1_def u_def node_at_def)
  let ?m = "(l_nodes q1)(l_tail q1 \<mapsto> k1\<lparr>n_tail := n_tail k1 + 1\<rparr>)"
  have m: "?m = (l_nodes q)(last c \<mapsto> k\<lparr>n_tail := u + 1\<rparr>)" by (simp add: q1_def k1_def k(5))
  have "dom ?m = dom (l_nodes q)" unfolding m using k(1,5) by auto
  from al [OF this] obtain p where p: "alloc ?m = Some p" "p \<noteq> 0" "p \<notin> dom (l_nodes q)"
    using \<open>dom ?m = dom (l_nodes q)\<close> by metis
  have pne: "p \<noteq> last c" "p \<notin> set c" using p(3) mid k(1,5) by (auto simp: queue_mid_def)
  define k2 where "k2 = (k\<lparr>n_tail := u + 1\<rparr>)\<lparr>n_next := p\<rparr>"
  have k2: "closed_ok k2" "node_contents k2 = node_contents k" "node_below (B + 2) k2" "n_next k2 = p"
    using node_close [OF k(2) lim, folded u_def] k(4) t by (simp_all add: k2_def) (simp add: node_below_def)
  let ?s = "solo_cpp item Node_ctor"
  define q2 where "q2 = (hp_protect kHpTail (last c) tid q)\<lparr>l_nodes := (l_nodes q)(p \<mapsto> ?s, last c \<mapsto> k2), l_tail := p\<rparr>"
  have "unat (n_tail k + 1) = Suc (unat (n_tail k))" using lim by (intro unat_Suc_64) simp
  then have "crq_is_closed (n_tail k1)" using lim by (simp add: k1_def u_def crq_is_closed_iff unat_or_bit63)
  moreover have "l_nodes q1 (l_tail q1) = Some k1" "n_next k1 = 0" "l_tail q1 = last c" using k(3,5) by (simp_all add: q1_def k1_def)
  ultimately have e2: "enqueue_loop alloc item tid (tc + 1) q1 = Some (Inr (hp_clear tid q2))"
    using enqueue_new_ring [of q1 k1 alloc p item tid "tc + 1"] p(1) pne(1)
    by (simp add: q1_def k(5) hp_set_node hp_protect_idem)
       (simp add: q2_def set_node_def k1_def k2_def fun_upd_twist hp_protect_def)
  have nz: "0 \<notin> set c" "retired_nodes (l_hp q) \<inter> set c = {}" "dom (l_nodes q) = set c \<union> retired_nodes (l_hp q)" "l_head q = hd c"
    using mid by (auto simp: queue_mid_def kept_ok_def)
  have ch: "chain ((l_nodes q)(p \<mapsto> ?s, last c \<mapsto> k2)) (c @ [p])"
    by (rule nodes_extend) (use mid k k2 pne solo_ok [OF item] in \<open>simp_all add: queue_mid_def\<close>)
  have "queue_mid n tid q2 (c @ [p])"
    by (rule mid_nodes [of n tid "hp_protect 0 (last c) tid q" c])
      (use mid ch k pne p nz in \<open>auto simp: q2_def kHpTail_def hp_protect_def protectPtr_def retired_nodes_def queue_mid_def kept_ok_def\<close>)
  then have ok: "queue_ok n (hp_clear tid q2) (c @ [p])" by (rule mid_clear)
  have con: "chain_contents (l_nodes q2) (c @ [p]) = chain_contents (l_nodes q) c @ [item]"
  proof -
    have "chain_contents (l_nodes q2) (c @ [p]) = chain_contents (l_nodes q2) c @ [item]"
      using pne solo_ok(2) [OF item] by (simp add: chain_contents_def q2_def)
    also have "chain_contents (l_nodes q2) c = chain_contents ((l_nodes q)(last c \<mapsto> k2)) c"
      by (rule chain_contents_cong) (use pne in \<open>auto simp: q2_def\<close>)
    also have "\<dots> = chain_contents (l_nodes q) c"
      using k k2(2) chain_contents_last [of c "l_nodes q"] by (simp add: chain_contents_upd_last)
    finally show ?thesis .
  qed
  have "chain_below (B + 2) (l_nodes q2) (c @ [p])"
    using below(1) k2(3) solo_ok(3) [OF item] by (auto simp: chain_below_def q2_def intro: node_below_mono)
  moreover have "dom (l_nodes q2) = insert p (dom (l_nodes q))" using k(1,5) by (auto simp: q2_def)
  ultimately show ?thesis using e1 e2 ok con by (intro exI [of _ "hp_clear tid q2"] exI [of _ p]) simp
qed

text \<open>One round of the loop of \<open>dequeue\<close> at the first ring.\<close>

lemma dequeue_live:
  assumes nd: "l_nodes q (l_head q) = Some k" and r: "ring_ok RP (as_ring t k)" "unat (n_head k) < live_end (as_ring t k)" "unat (n_head k) < 2 ^ 63"
  shows "dequeue_cpp tid q = Some (Inr (hd (ring_contents RP (as_ring t k)) + 1,
     hp_clear tid (set_node (l_head q) (node_take k) (hp_protect kHpHead (l_head q) tid q))))"
proof -
  have at: "node_at q (l_head q) = k" using nd by (simp add: node_at_def)
  show ?thesis using nd at dequeue_cell_take [OF r] cell_live [OF r(1,2)] by (subst dequeue_cpp.simps) (simp add: FAA64_def Let_def)
qed

lemma dequeue_empty:
  assumes nd: "l_nodes q (l_head q) = Some k" "n_next k = 0" "open_ok k" and emp: "node_contents k = []" and lim: "unat (n_head k) < 2 ^ 63 - 1"
  shows "dequeue_cpp tid q = Some (Inr (0, hp_clear tid
     (set_node (l_head q) ((node_take k)\<lparr>n_tail := n_head k + 1\<rparr>) (hp_protect kHpHead (l_head q) tid q))))"
proof -
  have at: "node_at q (l_head q) = k" using nd by (simp add: node_at_def)
  have op: "\<not> crq_is_closed (n_tail k)" and r: "ring_ok RP (as_ring (n_tail k) k)" using nd(3) by (simp_all add: open_ok_def)
  have e: "\<not> unat (n_head k) < live_end (as_ring (n_tail k) k)"
    using emp op ring_contents_Nil_iff [of RP "as_ring (n_tail k) k"] by (simp add: node_contents_def node_ring_def)
  have le: "unat (n_tail k) \<le> unat (n_head k)" "unat (n_tail k) < 2 ^ 63" using e op by (simp_all add: live_end_def crq_is_closed_iff)
  have h: "unat (n_head k + 1) = Suc (unat (n_head k))" using lim by (intro unat_Suc_64) simp
  have ti: "tail_index (n_tail k) = n_tail k" using le(2) by (simp add: word_eq_unat unat_tail_index)
  have ord: "n_tail k < n_head k + 1" "n_tail k \<le> n_head k + 1" using le h by (simp_all add: word_less_unat word_le_unat)
  have "dequeue_cell (n_head k) 0 0 (k\<lparr>n_head := n_head k + 1\<rparr>) = Some (None, node_take k)"
    by (rule dequeue_cell_skip [OF r e]) (use lim ti ord in simp_all)
  then show ?thesis using nd at ti ord by (subst dequeue_cpp.simps) (simp add: FAA64_def Let_def fixState_cpp_solo)
qed

lemma closed_tail:
  assumes "closed_ok k"
  shows "unat (tail_index (n_tail k)) = live_end (as_ring (n_tail k - 1) k) + 2"
proof -
  let ?t = "n_tail k - 1"
  have c: "2 ^ 63 \<le> unat (n_tail k)" "2 ^ 63 \<le> unat ?t" "0 < unat (tail_index ?t)"
    using assms by (simp_all add: closed_ok_def crq_is_closed_iff ring_ok_def)
  have u: "unat ?t = unat (n_tail k) - 1" using c(1) by (subst unat_diff_64) auto
  have less: "unat (n_tail k) < 2 ^ 64" by (rule unat_less_64)
  have m: "x mod 2 ^ 63 = x - 2 ^ 63" if "2 ^ 63 \<le> x" "x < 2 ^ 64" for x :: nat using that by (simp add: mod_if)
  have "unat (tail_index (n_tail k)) = unat (n_tail k) - 2 ^ 63" "unat (tail_index ?t) = unat ?t - 2 ^ 63"
    using m c less u by (simp_all add: unat_tail_index)
  moreover have "live_end (as_ring ?t k) = unat (tail_index ?t) - 1" using assms by (simp add: closed_ok_def live_end_def)
  ultimately show ?thesis using c u by linarith
qed

lemma dequeue_drained:
  fixes tid :: nat
  assumes nd: "l_nodes q (l_head q) = Some k" "n_next k \<noteq> 0" "closed_ok k" and emp: "\<not> unat (n_head k) < live_end (as_ring (n_tail k - 1) k)"
    and lim: "unat (n_head k) < 2 ^ 63 - 1"
  defines "q1 \<equiv> set_node (l_head q) (node_take k) (hp_protect kHpHead (l_head q) tid q)"
  shows "dequeue_cpp tid q = dequeue_cpp tid (if unat (n_head k) = live_end (as_ring (n_tail k - 1) k) then q1
     else hp_retire (l_head q) tid (q1\<lparr>l_head := n_next k\<rparr>))"
proof -
  have at: "node_at q (l_head q) = k" using nd by (simp add: node_at_def)
  have r: "ring_ok RP (as_ring (n_tail k - 1) k)" and cl: "crq_is_closed (n_tail k)" using nd(3) by (simp_all add: closed_ok_def)
  have h: "unat (n_head k + 1) = Suc (unat (n_head k))" using lim by (intro unat_Suc_64) simp
  have "\<not> n_tail k < n_head k + 1" using cl h lim by (simp add: word_less_unat crq_is_closed_iff)
  moreover have "tail_index (n_tail k) \<le> n_head k + 1 \<longleftrightarrow> unat (n_head k) \<noteq> live_end (as_ring (n_tail k - 1) k)"
    using closed_tail [OF nd(3)] emp h by (auto simp: word_le_unat)
  moreover have "dequeue_cell (n_head k) 0 0 (k\<lparr>n_head := n_head k + 1\<rparr>) = Some (None, node_take k)"
    by (rule dequeue_cell_skip [OF r emp]) (use lim cl in simp_all)
  ultimately show ?thesis using nd at
    by (subst dequeue_cpp.simps) (simp add: FAA64_def CAS64_def Let_def fixState_cpp_solo q1_def)
qed

lemma destroy_all: "foldl (\<lambda>q x. destroy_ptr x q) q xs = q\<lparr>l_nodes := l_nodes q |` (- set xs)\<rparr>"
proof (induction xs arbitrary: q)
  case (Cons x xs)
  have "l_nodes (destroy_ptr x q) |` (- set xs) = l_nodes q |` (- set (x # xs))" by (auto simp: restrict_map_def destroy_ptr_def)
  then show ?case by (simp only: foldl.simps Cons) (simp add: destroy_ptr_def)
qed (simp add: restrict_map_def)

lemma hp_retire_eq:
  "hp_retire p tid q = q\<lparr>l_hp := retire p tid (l_hp q),
     l_nodes := l_nodes q |` (- set (filter (\<lambda>x. x \<notin> hazards (l_hp q)) (hz_retired (l_hp q) tid @ [p])))\<rparr>"
proof -
  have "drop (length (hz_destroyed (l_hp q))) (hz_destroyed (retire p tid (l_hp q))) =
    filter (\<lambda>x. x \<notin> hazards (l_hp q)) (hz_retired (l_hp q) tid @ [p])" by (simp add: retire_eq del: filter_append)
  then show ?thesis by (simp only: hp_retire_def Let_def destroy_all) simp
qed

text \<open>
  A ring that is left: it stays, since the thread's own hazard pointer holds it, and the ring that the thread had retired before goes.
\<close>

lemma mid_leave:
  assumes mid: "queue_mid n tid q (p # r # c)" and hp: "hz_hp (l_hp q) tid 0 = p" and tid: "tid < n"
    and q1: "l_nodes q1 = (l_nodes q)(p \<mapsto> k)" "l_head q1 = r" "l_tail q1 = l_tail q" "l_hp q1 = l_hp q"
  shows "queue_mid n tid (hp_retire p tid q1) (r # c)"
    and "\<And>x. x \<in> set (r # c) \<Longrightarrow> l_nodes (hp_retire p tid q1) x = l_nodes q x" and "dom (l_nodes (hp_retire p tid q1)) \<subseteq> dom (l_nodes q)"
proof -
  let ?z = "l_hp q" and ?xs = "hz_retired (l_hp q) tid" and ?q = "hp_retire p tid q1"
  have m: "hz_maxHPs ?z = 1" "hz_maxThreads ?z = n" "\<forall>t. t \<noteq> tid \<longrightarrow> hz_hp ?z t 0 = 0" "chain (l_nodes q) (p # r # c)" "distinct (p # r # c)"
    "0 \<notin> set (p # r # c)" "l_tail q = last (p # r # c)" "dom (l_nodes q) = set (p # r # c) \<union> retired_nodes ?z" "kept_ok (p # r # c) ?z"
    using mid by (auto simp: queue_mid_def)
  have hz: "p \<in> hazards ?z" "x \<in> hazards ?z \<Longrightarrow> x = p \<or> x = 0" for x
    using m(1-3) hp tid by (auto simp: hazards_def)
  have xs: "x \<in> retired_nodes ?z" if "x \<in> set ?xs" for x using that by (auto simp: retired_nodes_def)
  have out: "x \<notin> hazards ?z" if "x \<in> set ?xs" for x using xs [OF that] hz(2) [of x] m(9) by (auto simp: kept_ok_def)
  have f: "filter (\<lambda>x. x \<notin> hazards ?z) (?xs @ [p]) = ?xs" "filter (\<lambda>x. x \<in> hazards ?z) (?xs @ [p]) = [p]"
    using out hz(1) by (auto simp: filter_empty_conv)
  have z: "l_hp ?q = ?z\<lparr>hz_retired := (hz_retired ?z)(tid := [p]), hz_destroyed := hz_destroyed ?z @ ?xs\<rparr>"
    using f by (simp add: hp_retire_eq retire_eq q1)
  have nodes: "l_nodes ?q = ((l_nodes q)(p \<mapsto> k)) |` (- set ?xs)" using f(1) by (simp add: hp_retire_eq q1)
  have ends: "l_head ?q = r" "l_tail ?q = l_tail q" by (simp_all add: hp_retire_eq q1)
  have dis: "retired_nodes ?z \<inter> set (p # r # c) = {}" "0 \<notin> retired_nodes ?z" using m(9) by (simp_all add: kept_ok_def)
  show same: "l_nodes ?q x = l_nodes q x" if "x \<in> set (r # c)" for x
    using that xs dis m(5) by (auto simp: nodes restrict_map_def)
  have rn: "retired_nodes (l_hp ?q) = insert p (retired_nodes ?z - set ?xs)"
  proof -
    have "retired_nodes ?z - set ?xs = (\<Union>t \<in> - {tid}. set (hz_retired ?z t))"
      using m(9) by (fastforce simp: retired_nodes_def kept_ok_def)
    then show ?thesis by (auto simp: z retired_nodes_def split: if_splits)
  qed
  have kept: "kept_ok (r # c) (l_hp ?q)"
  proof -
    have "p \<notin> set (hz_retired ?z t)" for t using dis(1) by (auto simp: retired_nodes_def)
    then show ?thesis using m dis tid unfolding kept_ok_def rn by (auto simp: z)
  qed
  have "chain (l_nodes ?q) (r # c)" using m(4) chain_cong [of "r # c" "l_nodes ?q" "l_nodes q"] same by auto
  moreover have "dom (l_nodes ?q) = set (r # c) \<union> retired_nodes (l_hp ?q)"
  proof -
    have "dom (l_nodes ?q) = insert p (dom (l_nodes q)) - set ?xs" by (auto simp: nodes)
    then show ?thesis using m(8) dis xs unfolding rn by auto
  qed
  ultimately show "queue_mid n tid ?q (r # c)" using m ends kept by (simp add: queue_mid_def z)
  show "dom (l_nodes ?q) \<subseteq> dom (l_nodes q)" using m(8) by (auto simp: nodes split: if_splits)
qed

definition deq_result :: "u64 list \<Rightarrow> u64 \<Rightarrow> u64 list \<Rightarrow> bool" where
  "deq_result xs v ys \<longleftrightarrow> (case xs of [] \<Rightarrow> v = 0 \<and> ys = [] | x # xs' \<Rightarrow> v = x \<and> x \<noteq> 0 \<and> ys = xs')"

lemma node_take_result:
  assumes r: "ring_ok RP (node_ring k)" "unat (n_head k) < live_end (node_ring k)" "unat (n_head k) < 2 ^ 63"
  shows "ring_ok RP (node_ring (node_take k))" "node_contents k = (hd (ring_contents RP (node_ring k)) + 1) # node_contents (node_take k)"
    "hd (ring_contents RP (node_ring k)) + 1 \<noteq> 0"
proof -
  have nr: "node_ring (node_take k) = ring_take RP (node_ring k)" by (simp add: node_ring_def)
  have [simp]: "rq_head (node_ring k) = n_head k" by (simp add: node_ring_def)
  have tk: "ring_ok RP (ring_take RP (node_ring k))" "ring_contents RP (ring_take RP (node_ring k)) = tl (ring_contents RP (node_ring k))"
    using ring_take_ok [OF r(1)] r(2,3) by simp_all
  show "ring_ok RP (node_ring (node_take k))" using tk nr by simp
  have "ring_contents RP (node_ring k) \<noteq> []" using r(2) by (simp add: ring_contents_Nil_iff)
  then have "ring_contents RP (node_ring k) = hd (ring_contents RP (node_ring k)) # ring_contents RP (node_ring (node_take k))"
    using tk(2) nr by simp
  then show "node_contents k = (hd (ring_contents RP (node_ring k)) + 1) # node_contents (node_take k)"
    unfolding node_contents_def by (metis list.simps(9))
  show "hd (ring_contents RP (node_ring k)) + 1 \<noteq> 0"
    using cell_live(1,3) r(1,2) unfolding node_ring_def by metis
qed

lemma node_ok_ring: "open_ok k \<Longrightarrow> ring_ok RP (node_ring k)" "closed_ok k \<Longrightarrow> ring_ok RP (node_ring k)"
  by (simp_all add: open_ok_def closed_ok_def node_ring_def)

lemma node_take_ok:
  "open_ok k \<Longrightarrow> ring_ok RP (node_ring (node_take k)) \<Longrightarrow> open_ok (node_take k)"
  "closed_ok k \<Longrightarrow> ring_ok RP (node_ring (node_take k)) \<Longrightarrow> closed_ok (node_take k)"
  by (simp_all add: open_ok_def closed_ok_def node_ring_def)

lemma node_skip_closed:
  assumes "closed_ok k" "\<not> unat (n_head k) < live_end (as_ring (n_tail k - 1) k)" "unat (n_head k) < 2 ^ 63"
  shows "closed_ok (node_take k)" "node_contents (node_take k) = []" "node_contents k = []"
proof -
  let ?r = "as_ring (n_tail k - 1) k"
  have r: "ring_ok RP ?r" "crq_is_closed (rq_tail ?r)" using assms(1) by (simp_all add: closed_ok_def)
  have tk: "ring_ok RP (ring_take RP ?r)" "ring_contents RP (ring_take RP ?r) = tl (ring_contents RP ?r)"
    using ring_take_ok [OF r(1)] r(2) assms(3) by simp_all
  show "closed_ok (node_take k)" using tk assms(1) by (simp add: closed_ok_def)
  have "ring_contents RP ?r = []" using assms(2) by (simp add: ring_contents_Nil_iff)
  then show "node_contents (node_take k) = []" "node_contents k = []"
    using tk(2) assms(1) by (simp_all add: node_contents_def node_ring_def closed_ok_def)
qed

lemma node_skip_open:
  assumes ok: "open_ok k" and emp: "node_contents k = []" and lim: "unat (n_head k) < 2 ^ 63 - 1"
  defines "k' \<equiv> (node_take k)\<lparr>n_tail := n_head k + 1\<rparr>"
  shows "open_ok k'" "node_contents k' = []"
proof -
  let ?r = "as_ring (n_tail k) k"
  have op: "\<not> crq_is_closed (n_tail k)" and r: "ring_ok RP ?r" using ok by (simp_all add: open_ok_def)
  have e: "\<not> unat (n_head k) < live_end ?r"
    using emp op ring_contents_Nil_iff [of RP ?r] by (simp add: node_contents_def node_ring_def)
  have eq: "(ring_take RP ?r)\<lparr>rq_tail := rq_head ?r + 1\<rparr> = as_ring (n_tail k') k'"
    by (simp add: k'_def) (simp flip: node_take_simps(4))
  have "ring_ok RP (as_ring (n_tail k') k')" "ring_contents RP (as_ring (n_tail k') k') = []" "\<not> crq_is_closed (n_tail k')"
    using ring_skip_open [OF r _ _ , unfolded eq] op e lim by (simp_all add: k'_def)
  then show "open_ok k'" "node_contents k' = []" by (simp_all add: open_ok_def node_contents_def node_ring_def)
qed

lemma chain_hd: "chain m c \<Longrightarrow> \<exists>k. m (hd c) = Some k \<and> (open_ok k \<or> closed_ok k)"
  by (induction m c rule: chain.induct) auto

lemma chain_upd_hd:
  "chain m c \<Longrightarrow> distinct c \<Longrightarrow> m (hd c) = Some k \<Longrightarrow> n_next k' = n_next k \<Longrightarrow> (open_ok k \<Longrightarrow> open_ok k') \<Longrightarrow> (closed_ok k \<Longrightarrow> closed_ok k') \<Longrightarrow>
   chain (m(hd c \<mapsto> k')) c"
  by (cases "(m, c)" rule: chain.cases) (auto intro: chain_cong [THEN iffD1, rotated])

lemma chain_contents_hd:
  "c \<noteq> [] \<Longrightarrow> distinct c \<Longrightarrow> chain_contents (m(hd c \<mapsto> k)) c = node_contents k @ chain_contents m (tl c)"
  "c \<noteq> [] \<Longrightarrow> chain_contents m c = node_contents (the (m (hd c))) @ chain_contents m (tl c)"
  by (cases c; auto simp: chain_contents_def intro!: arg_cong [where f = concat])+

lemma dequeue_leave:
  fixes q :: lcrq and tid :: nat
  assumes nd: "l_nodes q (l_head q) = Some k" "n_next k \<noteq> 0" "closed_ok k" and emp: "\<not> unat (n_head k) < live_end (as_ring (n_tail k - 1) k)"
    and lim: "unat (n_head k) + 1 < 2 ^ 63 - 1"
  defines "q0 \<equiv> hp_protect kHpHead (l_head q) tid q"
  obtains k' q1 where "dequeue_cpp tid q = dequeue_cpp tid (hp_retire (l_head q) tid q1)" "l_nodes q1 = (l_nodes q0)(l_head q \<mapsto> k')"
    "l_head q1 = n_next k" "l_tail q1 = l_tail q0" "l_hp q1 = l_hp q0"
proof (cases "unat (n_head k) = live_end (as_ring (n_tail k - 1) k)")
  case False
  have lim1: "unat (n_head k) < 2 ^ 63 - 1" using lim by simp
  have "dequeue_cpp tid q = dequeue_cpp tid (hp_retire (l_head q) tid ((set_node (l_head q) (node_take k) q0)\<lparr>l_head := n_next k\<rparr>))"
    using dequeue_drained [OF nd emp lim1, of tid] False by (simp add: q0_def)
  then show ?thesis by (rule that) simp_all
next
  case True
  let ?q = "set_node (l_head q) (node_take k) q0"
  have lim1: "unat (n_head k) < 2 ^ 63 - 1" using lim by simp
  have h: "unat (n_head k + 1) = Suc (unat (n_head k))" using lim by (intro unat_Suc_64) simp
  have "closed_ok (node_take k)" by (rule node_skip_closed(1) [OF nd(3) emp]) (use lim in simp)
  moreover have "\<not> unat (n_head (node_take k)) < live_end (as_ring (n_tail (node_take k) - 1) (node_take k))"
    "unat (n_head (node_take k)) < 2 ^ 63 - 1" "unat (n_head (node_take k)) \<noteq> live_end (as_ring (n_tail (node_take k) - 1) (node_take k))"
    using True h lim by simp_all
  moreover have "l_nodes ?q (l_head ?q) = Some (node_take k)" "n_next (node_take k) \<noteq> 0" using nd(2) by (simp_all add: q0_def)
  ultimately have "dequeue_cpp tid ?q = dequeue_cpp tid (hp_retire (l_head ?q) tid
      ((set_node (l_head ?q) (node_take (node_take k)) (hp_protect kHpHead (l_head ?q) tid ?q))\<lparr>l_head := n_next k\<rparr>))"
    using dequeue_drained [of ?q "node_take k" tid] by simp
  moreover have "dequeue_cpp tid q = dequeue_cpp tid ?q" using dequeue_drained [OF nd emp lim1, of tid] True by (simp add: q0_def)
  ultimately show ?thesis
    by (intro that [of "(set_node (l_head ?q) (node_take (node_take k)) (hp_protect kHpHead (l_head ?q) tid ?q))\<lparr>l_head := n_next k\<rparr>" "node_take (node_take k)"])
      (simp_all add: q0_def hp_set_node hp_protect_idem)
qed

lemma mid_upd_hd:
  assumes mid: "queue_mid n tid q c" and k: "l_nodes q (l_head q) = Some k" "n_next k' = n_next k" "open_ok k \<Longrightarrow> open_ok k'" "closed_ok k \<Longrightarrow> closed_ok k'"
  shows "queue_mid n tid (set_node (l_head q) k' q) c"
proof -
  have c: "chain (l_nodes q) c" "distinct c" "c \<noteq> []" "l_head q = hd c" using mid chain_ne by (auto simp: queue_mid_def)
  have "chain ((l_nodes q)(hd c \<mapsto> k')) c" by (rule chain_upd_hd [OF c(1,2), where k = k]) (use k c(4) in simp_all)
  then show ?thesis using mid c(3,4) by (auto simp: queue_mid_def set_node_def kept_ok_def)
qed

text \<open>The result of a call that ends at the first ring, which it leaves as \<open>k'\<close>.\<close>

lemma dequeue_ends:
  assumes mid: "queue_mid n tid q c" and below: "chain_below B (l_nodes q) c" and k: "l_nodes q (l_head q) = Some k" "n_next k' = n_next k"
    "open_ok k \<Longrightarrow> open_ok k'" "closed_ok k \<Longrightarrow> closed_ok k'" and b: "node_below (B + 2) k'"
    and eq: "dequeue_cpp tid q = Some (Inr (v, hp_clear tid (set_node (l_head q) k' (hp_protect kHpHead (l_head q) tid q))))"
    and res: "deq_result (node_contents k @ xs) v (node_contents k' @ xs)" "xs = chain_contents (l_nodes q) (tl c)" "v = 0 \<Longrightarrow> tl c = []"
  shows "\<exists>v q' c'. dequeue_cpp tid q = Some (Inr (v, q')) \<and> queue_ok n q' c' \<and> chain_below (B + 2) (l_nodes q') c' \<and>
    deq_result (chain_contents (l_nodes q) c) v (chain_contents (l_nodes q') c') \<and> dom (l_nodes q') \<subseteq> dom (l_nodes q) \<and>
    (v = 0 \<longrightarrow> l_head q' = l_tail q')"
proof -
  let ?q = "set_node (l_head q) k' (hp_protect kHpHead (l_head q) tid q)"
  have c: "c \<noteq> []" "distinct c" "l_head q = hd c" using mid chain_ne by (auto simp: queue_mid_def)
  have "queue_mid n tid ?q c"
    using mid_upd_hd [of n tid "hp_protect kHpHead (l_head q) tid q" c k k'] mid k by (simp add: kHpHead_def)
  then have "queue_ok n (hp_clear tid ?q) c" by (rule mid_clear)
  moreover have "chain_below (B + 2) (l_nodes ?q) c" using below_upd_last [OF below _ b] by simp
  moreover have "deq_result (chain_contents (l_nodes q) c) v (chain_contents (l_nodes ?q) c)"
    using res(1) c(3) k(1) chain_contents_hd(1) [OF c(1,2), of "l_nodes q" k'] chain_contents_hd(2) [OF c(1), of "l_nodes q"]
    by (simp add: res(2))
  moreover have "dom (l_nodes ?q) \<subseteq> dom (l_nodes q)" using k(1) by auto
  moreover have "l_head ?q = l_tail ?q" if "v = 0"
    using mid res(3) [OF that] c(1) by (cases c) (simp_all add: queue_mid_def)
  ultimately show ?thesis using eq by (intro exI [of _ v] exI [of _ "hp_clear tid ?q"] exI [of _ c]) simp
qed

lemma dequeue_chain:
  assumes "queue_mid n tid q c" "tid < n" "chain_below B (l_nodes q) c" "B + 2 < 2 ^ 62"
  shows "\<exists>v q' c'. dequeue_cpp tid q = Some (Inr (v, q')) \<and> queue_ok n q' c' \<and> chain_below (B + 2) (l_nodes q') c' \<and>
    deq_result (chain_contents (l_nodes q) c) v (chain_contents (l_nodes q') c') \<and> dom (l_nodes q') \<subseteq> dom (l_nodes q) \<and>
    (v = 0 \<longrightarrow> l_head q' = l_tail q')"
  using assms
proof (induction c arbitrary: q)
  case Nil
  then show ?case by (simp add: queue_mid_def)
next
  case (Cons p c)
  have ch: "chain (l_nodes q) (p # c)" "distinct (p # c)" "l_head q = p" using Cons.prems(1) by (simp_all add: queue_mid_def)
  obtain k where k: "l_nodes q p = Some k" "open_ok k \<or> closed_ok k" using chain_hd [OF ch(1)] by auto
  have nb: "node_below B k" using Cons.prems(3) k(1) by (auto simp: chain_below_def)
  then have lim: "unat (n_head k) + 1 < 2 ^ 62" using Cons.prems(4) by (simp add: node_below_def)
  have h: "unat (n_head k + 1) = Suc (unat (n_head k))" using lim by (intro unat_Suc_64) simp
  note ends = dequeue_ends [OF Cons.prems(1,3), unfolded ch(3), OF k(1)]
  show ?case
  proof (cases "unat (n_head k) < live_end (node_ring k)")
    case True
    have r: "ring_ok RP (node_ring k)" "unat (n_head k) < 2 ^ 63" using k(2) node_ok_ring lim by auto
    define v where "v = hd (ring_contents RP (node_ring k)) + 1"
    note take = node_take_result [OF r(1) True r(2), folded v_def]
    have eq: "dequeue_cpp tid q = Some (Inr (v, hp_clear tid (set_node p (node_take k) (hp_protect kHpHead p tid q))))"
      using dequeue_live [of q k] k(1) ch(3) r True unfolding node_ring_def v_def by simp
    have "node_below (B + 2) (node_take k)" using nb h by (simp add: node_below_def)
    moreover have "deq_result (node_contents k @ xs) v (node_contents (node_take k) @ xs)" for xs
      using take(2,3) by (simp add: deq_result_def)
    ultimately show ?thesis using take eq by (intro ends [of "node_take k" v] node_take_ok) simp_all
  next
    case False
    show ?thesis
    proof (cases c)
      case Nil
      let ?k = "(node_take k)\<lparr>n_tail := n_head k + 1\<rparr>"
      have op: "open_ok k" "n_next k = 0" using ch(1) k(1) Nil by auto
      have emp: "node_contents k = []"
        using False by (simp add: node_contents_def ring_contents_Nil_iff) (simp add: node_ring_def)
      have lim1: "unat (n_head k) < 2 ^ 63 - 1" using lim by simp
      have "dequeue_cpp tid q = Some (Inr (0, hp_clear tid (set_node p ?k (hp_protect kHpHead p tid q))))"
        using dequeue_empty [of q k, OF _ op(2,1) emp lim1] k(1) ch(3) by simp
      moreover have "node_below (B + 2) ?k" using nb h lim by (simp add: node_below_def unat_tail_index)
      moreover have "closed_ok ?k" if "closed_ok k" using that op by (simp add: open_ok_def closed_ok_def)
      moreover have "chain_contents (l_nodes q) c = []" using Nil by (simp add: chain_contents_def)
      ultimately show ?thesis using node_skip_open [OF op(1) emp lim1] emp op
        by (intro ends [of ?k 0 "[]"]) (simp_all add: deq_result_def Nil)
    next
      case (Cons r c')
      have cl: "closed_ok k" "n_next k = r" "r \<noteq> 0" using ch(1) k(1) Cons Cons.prems(1) by (auto simp: queue_mid_def)
      have emp: "\<not> unat (n_head k) < live_end (as_ring (n_tail k - 1) k)" using False cl by (simp add: node_ring_def closed_ok_def)
      have lim2: "unat (n_head k) + 1 < 2 ^ 63 - 1" "unat (n_head k) < 2 ^ 63" using lim by simp_all
      obtain k' q1 where q1: "dequeue_cpp tid q = dequeue_cpp tid (hp_retire p tid q1)" "l_nodes q1 = (l_nodes (hp_protect kHpHead p tid q))(p \<mapsto> k')"
        "l_head q1 = r" "l_tail q1 = l_tail (hp_protect kHpHead p tid q)" "l_hp q1 = l_hp (hp_protect kHpHead p tid q)"
        by (rule dequeue_leave [of q k tid, unfolded ch(3), OF k(1) _ cl(1) emp lim2(1)]) (use cl(2,3) that in simp_all)
      have mid: "queue_mid n tid (hp_protect kHpHead p tid q) (p # r # c')" using Cons.prems(1) Cons by (simp add: kHpHead_def)
      have hp: "hz_hp (l_hp (hp_protect kHpHead p tid q)) tid 0 = p" by (simp add: hp_protect_def protectPtr_def kHpHead_def)
      note lv = mid_leave [OF mid hp Cons.prems(2) q1(2-5)]
      let ?q = "hp_retire p tid q1"
      have same: "\<And>x. x \<in> set c \<Longrightarrow> l_nodes ?q x = l_nodes q x" using lv(2) Cons by simp
      have "chain_below B (l_nodes ?q) c" using Cons.prems(3) same by (simp add: chain_below_def)
      moreover have "chain_contents (l_nodes ?q) c = chain_contents (l_nodes q) c" by (rule chain_contents_cong) (rule same)
      moreover have "chain_contents (l_nodes q) (p # c) = chain_contents (l_nodes q) c"
        using node_skip_closed(3) [OF cl(1) emp lim2(2)] k(1) by (simp add: chain_contents_def)
      ultimately show ?thesis using Cons.IH [of ?q] lv(1,3) Cons Cons.prems(2,4) q1(1) by (fastforce simp: Cons)
    qed
  qed
qed

section \<open>The queue for its users\<close>

text \<open>
  \<open>lcrq_inv alloc N n b k q\<close>: the queue is well formed for \<open>n\<close> threads, tickets are left for \<open>b\<close> calls and memory (the allocator can
  keep \<open>N\<close> rings) for \<open>k\<close> calls of \<open>enqueue\<close>. The rings are found by following the pointers from the head.
\<close>

fun ring_list :: "nat \<Rightarrow> (nat \<Rightarrow> Node option) \<Rightarrow> nat \<Rightarrow> nat list" where
  "ring_list 0 m p = []"
| "ring_list (Suc k) m p = (case m p of None \<Rightarrow> [] | Some n \<Rightarrow> p # (if n_next n = 0 then [] else ring_list k m (n_next n)))"

definition lcrq_contents :: "lcrq \<Rightarrow> u64 list" where
  "lcrq_contents q = chain_contents (l_nodes q) (ring_list (card (dom (l_nodes q))) (l_nodes q) (l_head q))"

definition lcrq_inv :: "node_alloc \<Rightarrow> nat \<Rightarrow> nat \<Rightarrow> nat \<Rightarrow> nat \<Rightarrow> lcrq \<Rightarrow> bool" where
  "lcrq_inv alloc N n b k q \<longleftrightarrow> alloc_ok N alloc \<and> card (dom (l_nodes q)) + k \<le> N \<and>
     (\<exists>c B. queue_ok n q c \<and> chain_below B (l_nodes q) c \<and> B + 2 * b < 2 ^ 62)"

lemma ring_list_chain: "chain m c \<Longrightarrow> 0 \<notin> set c \<Longrightarrow> length c \<le> k \<Longrightarrow> ring_list k m (hd c) = c"
proof (induction m c arbitrary: k rule: chain.induct)
  case (2 m p)
  then show ?case by (cases k) auto
next
  case (3 m p r c)
  then show ?case by (cases k) auto
qed simp

lemma retired_threads: "queue_ok n q c \<Longrightarrow> retired_nodes (l_hp q) = (\<Union>t < n. set (hz_retired (l_hp q) t))"
proof -
  assume "queue_ok n q c"
  then have k: "\<forall>t \<ge> n. hz_retired (l_hp q) t = []" by (auto simp: queue_ok_def queue_mid_def kept_ok_def)
  have "t < n" if "x \<in> set (hz_retired (l_hp q) t)" for x t using that k by (cases "t < n") auto
  then show ?thesis by (auto simp: retired_nodes_def)
qed

lemma finite_nodes: "queue_ok n q c \<Longrightarrow> finite (dom (l_nodes q))"
  using retired_threads [of n q c] by (simp add: queue_ok_def queue_mid_def)

lemma contents_chain: "queue_ok n q c \<Longrightarrow> lcrq_contents q = chain_contents (l_nodes q) c"
proof -
  assume ok: "queue_ok n q c"
  then have c: "chain (l_nodes q) c" "0 \<notin> set c" "distinct c" "set c \<subseteq> dom (l_nodes q)" "l_head q = hd c"
    by (auto simp: queue_ok_def queue_mid_def)
  have "length c \<le> card (dom (l_nodes q))"
    using card_mono [OF finite_nodes [OF ok] c(4)] distinct_card [OF c(3)] by simp
  then show ?thesis using ring_list_chain [OF c(1,2)] c(5) by (simp add: lcrq_contents_def)
qed

lemma lcrq_enqueue:
  assumes inv: "lcrq_inv alloc N n (Suc b) (Suc j) q" and item: "item \<noteq> 0"
  shows "\<exists>q'. enqueue_cpp alloc item tid q = Some (Inr q') \<and> lcrq_inv alloc N n b j q' \<and> lcrq_contents q' = lcrq_contents q @ [item]"
proof -
  obtain c B where ok: "queue_ok n q c" "chain_below B (l_nodes q) c" and lim: "B + 2 * Suc b < 2 ^ 62" and al: "alloc_ok N alloc"
    and card: "card (dom (l_nodes q)) + Suc j \<le> N"
    using inv by (auto simp: lcrq_inv_def)
  note fin = finite_nodes [OF ok(1)]
  have fresh: "\<exists>p. alloc m = Some p \<and> p \<noteq> 0 \<and> p \<notin> dom m" if "dom m = dom (l_nodes q)" for m
    using al [unfolded alloc_ok_def, rule_format, of m] card fin that by simp
  have B: "B + 2 < 2 ^ 62" using lim by simp
  have "\<exists>q' c'. enqueue_loop alloc item tid 0 q = Some (Inr q') \<and> queue_ok n q' c' \<and> chain_below (B + 2) (l_nodes q') c' \<and>
    chain_contents (l_nodes q') c' = chain_contents (l_nodes q) c @ [item] \<and> card (dom (l_nodes q')) \<le> Suc (card (dom (l_nodes q)))"
  proof (cases "unat (n_tail (node_at q (l_tail q))) < unat (n_head (node_at q (l_tail q))) + 2 ^ RP")
    case True
    from enqueue_room_chain [OF queue_ok_mid [OF ok(1)] ok(2) B item True] show ?thesis by (metis le_SucI order_refl)
  next
    case False
    from enqueue_full_chain [OF queue_ok_mid [OF ok(1)] ok(2) B item False fresh] show ?thesis by (metis card_insert_le_m1 card_insert_if fin le_SucI order_refl)
  qed
  then obtain q' c' where q': "enqueue_loop alloc item tid 0 q = Some (Inr q')" "queue_ok n q' c'" "chain_below (B + 2) (l_nodes q') c'"
    "chain_contents (l_nodes q') c' = chain_contents (l_nodes q) c @ [item]" "card (dom (l_nodes q')) \<le> Suc (card (dom (l_nodes q)))" by blast
  moreover have "lcrq_inv alloc N n b j q'" unfolding lcrq_inv_def
    by (intro conjI exI [of _ c'] exI [of _ "B + 2"]) (use q' lim al card in simp_all)
  ultimately show ?thesis using contents_chain [OF ok(1)] contents_chain [OF q'(2)] by (simp add: enqueue_cpp_def)
qed

lemma lcrq_dequeue:
  assumes inv: "lcrq_inv alloc N n (Suc b) j q" and tid: "tid < n"
  shows "\<exists>v q'. dequeue_cpp tid q = Some (Inr (v, q')) \<and> lcrq_inv alloc N n b j q' \<and> deq_result (lcrq_contents q) v (lcrq_contents q') \<and>
    (v = 0 \<longrightarrow> l_head q' = l_tail q')"
proof -
  obtain c B where ok: "queue_ok n q c" "chain_below B (l_nodes q) c" and lim: "B + 2 * Suc b < 2 ^ 62" and al: "alloc_ok N alloc"
    and card: "card (dom (l_nodes q)) + j \<le> N"
    using inv by (auto simp: lcrq_inv_def)
  have B: "B + 2 < 2 ^ 62" using lim by simp
  from dequeue_chain [OF queue_ok_mid [OF ok(1)] tid ok(2) B] obtain v q' c' where
    q': "dequeue_cpp tid q = Some (Inr (v, q'))" "queue_ok n q' c'" "chain_below (B + 2) (l_nodes q') c'"
    "deq_result (chain_contents (l_nodes q) c) v (chain_contents (l_nodes q') c')" "dom (l_nodes q') \<subseteq> dom (l_nodes q)"
    "v = 0 \<longrightarrow> l_head q' = l_tail q'" by blast
  have "card (dom (l_nodes q')) \<le> card (dom (l_nodes q))" by (rule card_mono [OF finite_nodes [OF ok(1)] q'(5)])
  then have "lcrq_inv alloc N n b j q'" unfolding lcrq_inv_def
    by (intro conjI exI [of _ c'] exI [of _ "B + 2"]) (use q' lim al card in simp_all)
  then show ?thesis using q' contents_chain [OF ok(1)] contents_chain [OF q'(2)] by auto
qed

lemma lcrq_ctor:
  assumes "alloc_ok N alloc" "Suc j \<le> N" "2 * b < 2 ^ 62"
  shows "\<exists>q. LCRQueue_ctor alloc n = Inr q \<and> lcrq_inv alloc N n b j q \<and> lcrq_contents q = []"
proof -
  obtain p where p: "alloc (\<lambda>_. None) = Some p" "p \<noteq> 0" using assms(1,2) unfolding alloc_ok_def
    by (metis Suc_le_lessD dom_empty card.empty finite.emptyI gr_zeroI less_le_trans zero_less_Suc)
  let ?q = "\<lparr>l_head = p, l_tail = p, l_nodes = [p \<mapsto> Node_ctor], l_hp = HazardPointers 1 n\<rparr>"
  have q: "LCRQueue_ctor alloc n = Inr ?q" using p(1) by (simp add: LCRQueue_ctor_def construct_Node_def set_node_def)
  have ok: "queue_ok n ?q [p]"
    using p(2) Node_ctor_ok by (auto simp: queue_ok_def queue_mid_def kept_ok_def retired_nodes_def HazardPointers_def)
  have "lcrq_inv alloc N n b j ?q" unfolding lcrq_inv_def
    by (intro conjI exI [of _ "[p]"] exI [of _ 0]) (use ok assms Node_ctor_ok in \<open>simp_all add: chain_below_def\<close>)
  moreover have "lcrq_contents ?q = []" using contents_chain [OF ok] Node_ctor_ok by (simp add: chain_contents_def)
  ultimately show ?thesis using q by blast
qed

lemma lcrq_inv_mono: "lcrq_inv alloc N n b j q \<Longrightarrow> b' \<le> b \<Longrightarrow> j' \<le> j \<Longrightarrow> lcrq_inv alloc N n b' j' q"
proof -
  assume inv: "lcrq_inv alloc N n b j q" and b: "b' \<le> b" "j' \<le> j"
  then obtain c B where "queue_ok n q c" "chain_below B (l_nodes q) c" "B + 2 * b < 2 ^ 62" by (auto simp: lcrq_inv_def)
  moreover have "B + 2 * b' < 2 ^ 62" using calculation(3) b by simp
  ultimately show ?thesis using inv b unfolding lcrq_inv_def by (intro conjI exI [of _ c] exI [of _ B]) simp_all
qed

section \<open>The destructor\<close>

lemma drain_ok:
  assumes "lcrq_inv alloc N n (Suc (length (lcrq_contents q)) + b) j q" "0 < n"
  shows "\<exists>q'. drain q = Some (Inr q') \<and> lcrq_inv alloc N n b j q' \<and> lcrq_contents q' = [] \<and> l_head q' = l_tail q'"
  using assms(1)
proof (induction "lcrq_contents q" arbitrary: q)
  case Nil
  have e: "lcrq_contents q = []" using Nil.hyps by simp
  have "lcrq_inv alloc N n (Suc b) j q" using Nil.prems e by simp
  from lcrq_dequeue [OF this assms(2)] e obtain q' where
    "dequeue_cpp 0 q = Some (Inr (0, q'))" "lcrq_inv alloc N n b j q'" "lcrq_contents q' = []" "l_head q' = l_tail q'"
    by (auto simp: deq_result_def)
  then show ?case by (subst drain.simps) simp
next
  case (Cons x xs)
  have e: "lcrq_contents q = x # xs" using Cons.hyps(2) by simp
  have "lcrq_inv alloc N n (Suc (Suc (length xs) + b)) j q" using Cons.prems e by simp
  from lcrq_dequeue [OF this assms(2)] e obtain q' where
    q': "dequeue_cpp 0 q = Some (Inr (x, q'))" "x \<noteq> 0" "lcrq_inv alloc N n (Suc (length xs) + b) j q'" "lcrq_contents q' = xs"
    by (auto simp: deq_result_def)
  from Cons.hyps(1) [of q'] q'(3,4) show ?case using q'(1,2) by (subst drain.simps) simp
qed


definition next_free :: node_alloc where
  "next_free m = find (\<lambda>p. m p = None) [1, 2, 3, 4]"

lemma next_free_ok: "alloc_ok 4 next_free"
  unfolding alloc_ok_def
proof (intro allI impI)
  fix m :: "nat \<Rightarrow> Node option"
  assume m: "finite (dom m) \<and> card (dom m) < 4"
  have "\<not> {1, 2, 3, 4} \<subseteq> dom m" using m card_mono [of "dom m" "{1, 2, 3, 4}"] by auto
  then show "\<exists>p. next_free m = Some p \<and> p \<noteq> 0 \<and> p \<notin> dom m"
    by (auto simp: next_free_def)
qed


end
