(* ===== verification/Futex.thy ===== *)
theory Futex
  imports EventCount
begin

text \<open>
  The futex layer of \<open>src/c++/Futex.hpp\<close> and \<open>src/c++/Futex.cpp\<close>: results of a wait, conversion of deadlines, and the wrappers
  around the system call. The system call is a parameter \<open>sys\<close>: operation, value, time limit and mask to the return value
  and \<open>errno\<close>. A time point is its number of nanoseconds since the epoch of its clock, which is how the standard library
  represents \<open>system_clock\<close> and \<open>steady_clock\<close>; \<open>time_max\<close> stands for \<open>time_point::max()\<close>.
\<close>

section \<open>Times\<close>

datatype FutexResult = VALUE_CHANGED | AWOKEN | INTERRUPTED | TIMEDOUT

type_synonym time_point = int

record timespec =
  tv_sec :: int
  tv_nsec :: int

definition time_max :: time_point where
  "time_max = 2 ^ 63 - 1"

text \<open>\<open>duration_cast\<close> truncates, which is division for a count that is not negative.\<close>

definition timeSpecFromTimePoint :: "time_point \<Rightarrow> timespec" where
  "timeSpecFromTimePoint absTime =
     (let epoch = (if absTime < 0 then 0 else absTime);
          secs = epoch div 1000000000;
          nanos = epoch - secs * 1000000000
      in \<lparr>tv_sec = secs, tv_nsec = nanos\<rparr>)"

text \<open>\<open>time_point_conv\<close>; \<open>same\<close> says whether the clocks are the same type, the last two arguments are what \<open>now()\<close> returns.\<close>

definition time_point_conv :: "bool \<Rightarrow> time_point \<Rightarrow> time_point \<Rightarrow> time_point \<Rightarrow> time_point" where
  "time_point_conv same clock_now target_now time =
     (if time = time_max then time_max
      else if same then time
      else let delta = time - clock_now in target_now + delta)"

section \<open>System calls\<close>

type_synonym futex_call = "u32 \<Rightarrow> u32 \<Rightarrow> timespec option \<Rightarrow> u32 \<Rightarrow> int \<times> nat"

definition FUTEX_CLOCK_REALTIME :: u32 where "FUTEX_CLOCK_REALTIME = 256"
definition ETIMEDOUT :: nat where "ETIMEDOUT = 110"
definition EINTR :: nat where "EINTR = 4"
definition EWOULDBLOCK :: nat where "EWOULDBLOCK = 11"

definition nativeFutexWake_cpp :: "futex_call \<Rightarrow> bool \<Rightarrow> u32 \<Rightarrow> u32 \<Rightarrow> int" where
  "nativeFutexWake_cpp sys pshared cnt wakeMask =
     (let rv = fst (sys (if pshared then FUTEX_WAKE_BITSET else FUTEX_WAKE_BITSET OR FUTEX_PRIVATE_FLAG) cnt None wakeMask)
      in if rv < 0 then 0 else rv)"

text \<open>The result is \<^const>\<open>None\<close> where an \<open>assert\<close> aborts: both deadlines are given, or \<open>errno\<close> is another one.\<close>

definition nativeFutexWaitImpl_cpp ::
  "futex_call \<Rightarrow> bool \<Rightarrow> u32 \<Rightarrow> time_point option \<Rightarrow> time_point option \<Rightarrow> u32 \<Rightarrow> FutexResult option" where
  "nativeFutexWaitImpl_cpp sys pshared expected absSystemTime absSteadyTime waitMask =
     (if absSystemTime \<noteq> None \<and> absSteadyTime \<noteq> None then None
      else
        let op = (if pshared then FUTEX_WAIT_BITSET else FUTEX_WAIT_BITSET OR FUTEX_PRIVATE_FLAG);
            (op', timeout) = (case absSystemTime of
               Some t \<Rightarrow> (op OR FUTEX_CLOCK_REALTIME, Some (timeSpecFromTimePoint t))
             | None \<Rightarrow> (op, map_option timeSpecFromTimePoint absSteadyTime));
            (rv, errno) = sys op' expected timeout waitMask
        in if rv = 0 then Some AWOKEN
           else if errno = ETIMEDOUT then Some TIMEDOUT
           else if errno = EINTR then Some INTERRUPTED
           else if errno = EWOULDBLOCK then Some VALUE_CHANGED
           else None)"

definition futexWait :: "futex_call \<Rightarrow> bool \<Rightarrow> u32 \<Rightarrow> u32 \<Rightarrow> FutexResult option" where
  "futexWait sys pshared expected waitMask = nativeFutexWaitImpl_cpp sys pshared expected None None waitMask"

definition futexWake :: "futex_call \<Rightarrow> bool \<Rightarrow> u32 \<Rightarrow> u32 \<Rightarrow> int" where
  "futexWake sys pshared cnt wakeMask = nativeFutexWake_cpp sys pshared cnt wakeMask"

text \<open>\<open>futexWaitUntil\<close>: the deadline is converted to the steady clock if its own clock is steady, else to the system clock.\<close>

definition futexWaitUntil ::
  "futex_call \<Rightarrow> bool \<Rightarrow> u32 \<Rightarrow> bool \<Rightarrow> bool \<Rightarrow> time_point \<Rightarrow> time_point \<Rightarrow> time_point \<Rightarrow> u32 \<Rightarrow> FutexResult option" where
  "futexWaitUntil sys pshared expected is_steady same clock_now target_now deadline waitMask =
     (let converted = time_point_conv same clock_now target_now deadline
      in if converted = time_max then nativeFutexWaitImpl_cpp sys pshared expected None None waitMask
         else if is_steady then nativeFutexWaitImpl_cpp sys pshared expected None (Some converted) waitMask
         else nativeFutexWaitImpl_cpp sys pshared expected (Some converted) None waitMask)"

section \<open>Properties\<close>

text \<open>What the kernel accepts as a time limit.\<close>

definition timespec_valid :: "timespec \<Rightarrow> bool" where
  "timespec_valid ts \<longleftrightarrow> 0 \<le> tv_sec ts \<and> 0 \<le> tv_nsec ts \<and> tv_nsec ts < 1000000000"

text \<open>
  Deadlines reach the kernel intact. Whatever the deadline and the clocks, \<open>futexWaitUntil\<close> makes one system call, whose
  time limit (if it has one) is valid; if the deadline is on the clock the kernel uses, is not \<open>max()\<close> and not before
  the epoch, seconds and nanoseconds add up to it exactly, and the real-time flag tells which clock it is.
  \<open>futexWait\<close> waits without limit. The call never aborts unless the kernel reports an error other than
  a timeout, a signal or a changed value.
\<close>

theorem futexWaitUntil_deadline:
  assumes "deadline \<noteq> time_max" "0 \<le> deadline" "\<And>op v ts m. fst (sys op v ts m) \<noteq> 0 \<Longrightarrow> snd (sys op v ts m) \<in> {ETIMEDOUT, EINTR, EWOULDBLOCK}"
  shows "timespec_valid (timeSpecFromTimePoint t) \<and>
    (\<exists>op ts r. futexWaitUntil sys pshared expected is_steady True n1 n2 deadline msk = Some r \<and>
       (r = AWOKEN \<longleftrightarrow> fst (sys op expected (Some ts) msk) = 0) \<and>
       tv_sec ts * 1000000000 + tv_nsec ts = deadline \<and> timespec_valid ts \<and>
       (op AND FUTEX_CLOCK_REALTIME \<noteq> 0 \<longleftrightarrow> \<not> is_steady) \<and> (op AND FUTEX_PRIVATE_FLAG \<noteq> 0 \<longleftrightarrow> \<not> pshared))"
proof -
  have v: "timespec_valid (timeSpecFromTimePoint t)" for t
  proof -
    have "e - e div 1000000000 * 1000000000 = e mod 1000000000" for e :: int by (simp add: minus_div_mult_eq_mod)
    then show ?thesis by (simp add: timespec_valid_def timeSpecFromTimePoint_def Let_def pos_imp_zdiv_nonneg_iff)
  qed
  define op where "op = (if pshared then FUTEX_WAIT_BITSET else FUTEX_WAIT_BITSET OR FUTEX_PRIVATE_FLAG) OR
    (if is_steady then 0 else FUTEX_CLOCK_REALTIME)"
  define ts where "ts = timeSpecFromTimePoint deadline"
  have fl: "op AND FUTEX_CLOCK_REALTIME \<noteq> 0 \<longleftrightarrow> \<not> is_steady" "op AND FUTEX_PRIVATE_FLAG \<noteq> 0 \<longleftrightarrow> \<not> pshared"
    by (cases pshared; cases is_steady; simp add: op_def FUTEX_WAIT_BITSET_def FUTEX_PRIVATE_FLAG_def FUTEX_CLOCK_REALTIME_def)+
  have eq: "tv_sec ts * 1000000000 + tv_nsec ts = deadline" using assms(2) by (simp add: ts_def timeSpecFromTimePoint_def Let_def)
  obtain rv e where sys: "sys op expected (Some ts) msk = (rv, e)" by (cases "sys op expected (Some ts) msk")
  have "\<exists>r. futexWaitUntil sys pshared expected is_steady True n1 n2 deadline msk = Some r \<and> (r = AWOKEN \<longleftrightarrow> rv = 0)"
    using assms(1) assms(3) [of op expected "Some ts" msk] sys
    unfolding futexWaitUntil_def nativeFutexWaitImpl_cpp_def time_point_conv_def op_def ts_def
    by (cases is_steady) (auto simp: Let_def ETIMEDOUT_def EINTR_def EWOULDBLOCK_def)
  then show ?thesis using v fl eq sys ts_def by (metis fst_conv)
qed

definition awoken_call :: futex_call where
  "awoken_call op v ts m = (0, 0)"

theorem futexWaitUntil_deadline_witness:
  "\<exists>op ts. futexWaitUntil awoken_call True 7 False True 0 0 1500000000 (- 1) = Some AWOKEN \<and>
     tv_sec ts * 1000000000 + tv_nsec ts = 1500000000 \<and> timespec_valid ts \<and> op AND FUTEX_CLOCK_REALTIME \<noteq> 0"
  using futexWaitUntil_deadline [of 1500000000 awoken_call 0 True 7 False 0 0 "- 1"]
  by (auto simp: awoken_call_def time_max_def)

text \<open>The C++ wrapper for wake calls is the C one.\<close>

lemma futexWake_same:
  "futexWake sys pshared cnt msk = nativeFutexWake (\<lambda>op v m. fst (sys op v None m)) pshared cnt msk"
  by (simp add: futexWake_def nativeFutexWake_cpp_def nativeFutexWake_def)

text \<open>Another error of the kernel aborts the process, where the comment says that it goes on.\<close>

lemma futexWait_aborts:
  "sys FUTEX_WAIT_BITSET v None m = (rv, e) \<Longrightarrow> rv \<noteq> 0 \<Longrightarrow> e \<notin> {ETIMEDOUT, EINTR, EWOULDBLOCK} \<Longrightarrow> futexWait sys True v m = None"
  by (simp add: futexWait_def nativeFutexWaitImpl_cpp_def Let_def)

end
