(* ===== verification/Cpp_EventCount.thy ===== *)
theory Cpp_EventCount
  imports Futex
begin

text \<open>
  The class \<open>EventCount\<close> of \<open>src/c++/EventCount.hpp\<close>. Its word and its constants are those of the C version, so the
  constants are shared; the member functions are translated from the class. \<open>wait\<close>, \<open>waitUntil\<close> and \<open>await\<close> give up the processor,
  so what the word is when a system call returns is an argument. The interleaving of the atomic accesses is the same as in C and
  is treated in the theory \<open>EventCount\<close>; here are the functions that only the class has: waiting with a
  deadline, and waiting for a condition that may throw.
\<close>

section \<open>Member functions\<close>

definition EventCount_cpp :: u64 where
  "EventCount_cpp = 0"

definition doNotify_cpp :: "u64 \<Rightarrow> nat \<Rightarrow> u64 \<times> nat option" where
  "doNotify_cpp val n =
     (let prev = val; val' = val + kAddEpoch
      in (val', if prev AND kWaiterMask \<noteq> 0 then Some n else None))"

definition notify_cpp :: "u64 \<Rightarrow> u64 \<times> nat option" where
  "notify_cpp val = doNotify_cpp val 1"

definition notifyAll_cpp :: "u64 \<Rightarrow> u64 \<times> nat option" where
  "notifyAll_cpp val = doNotify_cpp val INT_MAX"

definition prepareWait_cpp :: "u64 \<Rightarrow> Key \<times> u64" where
  "prepareWait_cpp val = (let prev = val in (ucast (drop_bit kEpochShift prev), val + kAddWaiter))"

definition cancelWait_cpp :: "u64 \<Rightarrow> u64" where
  "cancelWait_cpp val = val + kSubWaiter"

text \<open>\<open>wait\<close>: \<open>fw\<close> maps the word before a call of \<open>futexWait\<close> to the word when it has returned.\<close>

partial_function (option) wait_cpp :: "(u64 \<Rightarrow> u64) \<Rightarrow> Key \<Rightarrow> u64 \<Rightarrow> u64 option" where
  "wait_cpp fw key val = (if drop_bit kEpochShift val = ucast key then wait_cpp fw key (fw val) else Some (val + kSubWaiter))"

text \<open>\<open>waitUntil\<close>: the same loop, with the result of \<open>futexWaitUntil\<close>, which the code does not use.\<close>

partial_function (option) waitUntil_cpp :: "(u64 \<Rightarrow> FutexResult \<times> u64) \<Rightarrow> Key \<Rightarrow> u64 \<Rightarrow> u64 option" where
  "waitUntil_cpp fw key val =
     (if drop_bit kEpochShift val = ucast key then waitUntil_cpp fw key (snd (fw val)) else Some (val + kSubWaiter))"

declare wait_cpp.simps [code] waitUntil_cpp.simps [code]

text \<open>
  \<open>await\<close>: the outcomes of the calls of \<open>condition()\<close> are an argument, one per call; the result says whether the exception was
  rethrown. \<^const>\<open>None\<close>: not returned yet.
\<close>

datatype outcome = Holds | Fails | Throws

fun await_loop :: "(u64 \<Rightarrow> u64) \<Rightarrow> outcome list \<Rightarrow> u64 \<Rightarrow> (bool \<times> u64) option" where
  "await_loop fw [] val = None"
| "await_loop fw (c # cs) val =
     (let (key, val1) = prepareWait_cpp val
      in case c of
           Throws \<Rightarrow> Some (True, cancelWait_cpp val1)
         | Holds \<Rightarrow> Some (False, cancelWait_cpp val1)
         | Fails \<Rightarrow> (case wait_cpp fw key val1 of None \<Rightarrow> None | Some val2 \<Rightarrow> await_loop fw cs val2))"

fun await_cpp :: "(u64 \<Rightarrow> u64) \<Rightarrow> outcome list \<Rightarrow> u64 \<Rightarrow> (bool \<times> u64) option" where
  "await_cpp fw [] val = None"
| "await_cpp fw (c # cs) val =
     (case c of Holds \<Rightarrow> Some (False, val) | Throws \<Rightarrow> Some (True, val) | Fails \<Rightarrow> await_loop fw cs val)"

section \<open>Facts\<close>

lemma same_as_C:
  "doNotify_cpp v n = doNotify v n" "notify_cpp v = notify v" "notifyAll_cpp v = notifyAll v"
  "prepareWait_cpp v = prepareWait v" "cancelWait_cpp v = cancelWait v" "v + kSubWaiter = await_done v"
  by (simp_all add: doNotify_cpp_def notify_cpp_def notifyAll_cpp_def prepareWait_cpp_def cancelWait_cpp_def
      doNotify_def notify_def notifyAll_def prepareWait_def cancelWait_def await_done_def FAA64_def)

lemma same_test: "drop_bit kEpochShift v = ucast key \<longleftrightarrow> epoch_is v key"
  by (simp add: epoch_is_def)

lemma wait_word:
  assumes "e < 2 ^ 32" "Suc w < 2 ^ 32" "fw (ec_word e (Suc w)) = ec_word e' (Suc w)" "e' < 2 ^ 32" "e' \<noteq> e"
  shows "wait_cpp fw (of_nat e) (ec_word e (Suc w)) = Some (ec_word e' w)"
proof -
  have e: "unat (of_nat e :: u32) = e" using assms(1) by (simp add: unat_of_nat_32)
  have "wait_cpp fw (of_nat e) (ec_word e' (Suc w)) = Some (ec_word e' w)"
    using assms(2,4,5) e by (subst wait_cpp.simps) (simp add: same_test epoch_is_word same_as_C await_done_word)
  then show ?thesis using assms(1,2,3) e by (subst wait_cpp.simps) (simp add: same_test epoch_is_word)
qed

lemma await_loop_word:
  assumes fw: "\<And>e. e < 2 ^ 32 \<Longrightarrow> fw (ec_word e (Suc w)) = ec_word (Suc e mod 2 ^ 32) (Suc w)"
    and w: "Suc w < 2 ^ 32" and c: "c \<noteq> Fails" and e: "e < 2 ^ 32"
  shows "await_loop fw (replicate k Fails @ c # cs) (ec_word e w) = Some (c = Throws, ec_word ((e + k) mod 2 ^ 32) w)"
  using e
proof (induction k arbitrary: e)
  case 0
  then show ?case using w c by (cases c) (simp_all add: same_as_C prepareWait_word cancelWait_word)
next
  case (Suc k)
  let ?e = "Suc e mod 2 ^ 32"
  have "?e < 2 ^ 32" by simp
  moreover have "?e \<noteq> e" using Suc.prems by (cases "Suc e = 2 ^ 32") simp_all
  ultimately have "wait_cpp fw (of_nat e) (ec_word e (Suc w)) = Some (ec_word ?e w)"
    by (intro wait_word) (use Suc.prems w fw in auto)
  then have "await_loop fw (replicate (Suc k) Fails @ c # cs) (ec_word e w) = await_loop fw (replicate k Fails @ c # cs) (ec_word ?e w)"
    using Suc.prems w by (simp add: same_as_C prepareWait_word)
  also have "\<dots> = Some (c = Throws, ec_word ((?e + k) mod 2 ^ 32) w)" by (rule Suc.IH) simp
  finally show ?case by (simp add: mod_add_left_eq)
qed

section \<open>Properties\<close>

text \<open>
  \<open>await\<close> with a condition. Suppose that every sleep ends with one notification. If the condition fails \<open>k + 1\<close> times and then holds
  or throws, \<open>await\<close> returns after exactly \<open>k\<close> sleeps, or rethrows, and on both ways the number of registered waiters is
  what it was before the call. When the first test decides, the word is not touched.
\<close>

theorem await_cpp_balanced:
  assumes "\<And>e. e < 2 ^ 32 \<Longrightarrow> fw (ec_word e (Suc w)) = ec_word (Suc e mod 2 ^ 32) (Suc w)"
    and "Suc w < 2 ^ 32" "c \<noteq> Fails" "e < 2 ^ 32"
  shows "await_cpp fw (c # cs) (ec_word e w) = Some (c = Throws, ec_word e w) \<and>
    await_cpp fw (replicate (Suc k) Fails @ c # cs) (ec_word e w) = Some (c = Throws, ec_word ((e + k) mod 2 ^ 32) w)"
proof -
  have "await_cpp fw (c # cs) (ec_word e w) = Some (c = Throws, ec_word e w)" using assms(3) by (cases c) simp_all
  then show ?thesis using await_loop_word [of fw w c e k cs] assms by simp
qed

definition notified :: "u64 \<Rightarrow> u64" where
  "notified v = fst (notify_cpp v)"

theorem await_cpp_balanced_witness:
  "await_cpp notified [Fails, Fails, Throws] (ec_word 5 2) = Some (True, ec_word 6 2)"
proof -
  have "notified (ec_word e (Suc 2)) = ec_word (Suc e mod 2 ^ 32) (Suc 2)" if "e < 2 ^ 32" for e
  proof -
    have "notified (ec_word e 3) = ec_word (Suc e) 3"
      using that by (simp add: notified_def same_as_C notify_def doNotify_word)
    also have "\<dots> = ec_word (Suc e mod 2 ^ 32) 3"
      using that by (cases "Suc e = 2 ^ 32") (simp_all add: ec_word_def)
    finally show ?thesis by (simp add: numeral_3_eq_3)
  qed
  from await_cpp_balanced [OF this, of Throws 5 "[]" 1] have
    "await_cpp notified (replicate (Suc 1) Fails @ [Throws]) (ec_word 5 2) = Some (True, ec_word ((5 + 1) mod 2 ^ 32) 2)" by simp
  then show ?thesis by simp
qed

lemma waitUntil_run:
  assumes "waitUntil_cpp fw key val = Some r"
  shows "\<exists>k. \<not> epoch_is (((\<lambda>v. snd (fw v)) ^^ k) val) key \<and> r = await_done (((\<lambda>v. snd (fw v)) ^^ k) val)"
proof (rule waitUntil_cpp.raw_induct [of "\<lambda>fw key val r. \<exists>k. \<not> epoch_is (((\<lambda>v. snd (fw v)) ^^ k) val) key \<and>
    r = await_done (((\<lambda>v. snd (fw v)) ^^ k) val)", OF _ assms], goal_cases)
  case (1 f fw key val r)
  show ?case
  proof (cases "epoch_is val key")
    case True
    then have "f fw key (snd (fw val)) = Some r" using 1(2) by (simp add: same_test)
    from 1(1) [OF this] obtain k where "\<not> epoch_is (((\<lambda>v. snd (fw v)) ^^ k) (snd (fw val))) key"
      "r = await_done (((\<lambda>v. snd (fw v)) ^^ k) (snd (fw val)))" by blast
    then show ?thesis by (intro exI [of _ "Suc k"]) (simp add: funpow_Suc_right del: funpow.simps)
  qed (use 1 in \<open>auto simp: same_test same_as_C intro: exI [of _ 0]\<close>)
qed

text \<open>
  \<open>waitUntil\<close> has no deadline. As long as no notification arrives it does not return, whatever the results of
  \<open>futexWaitUntil\<close> are: after the deadline each call returns \<open>TIMEDOUT\<close> at once and the loop goes round again. It returns only when
  the epoch has changed, and then as \<open>wait\<close> does.
\<close>

theorem waitUntil_ignores_deadline:
  assumes "\<And>v. epoch_is v key \<Longrightarrow> epoch_is (snd (fw v)) key" "epoch_is val key"
  shows "waitUntil_cpp fw key val = None"
proof (rule ccontr)
  assume "waitUntil_cpp fw key val \<noteq> None"
  then obtain k where "\<not> epoch_is (((\<lambda>v. snd (fw v)) ^^ k) val) key" using waitUntil_run by fastforce
  moreover have "epoch_is (((\<lambda>v. snd (fw v)) ^^ k) val) key" by (induction k) (use assms in auto)
  ultimately show False by simp
qed

theorem waitUntil_ignores_deadline_witness: "waitUntil_cpp (\<lambda>v. (TIMEDOUT, v)) 5 (ec_word 5 1) = None"
  by (rule waitUntil_ignores_deadline) (simp_all add: epoch_is_word)

end
