(* ===== verification/Scrq.thy ===== *)
theory Scrq
  imports Cpp_Lcrq Cpp_EventCount
begin

text \<open>
  The class \<open>SCRQueue\<close> of \<open>src/c++/SCRQueue.hpp\<close>: an \<open>LCRQueue\<close> and an event count in shared memory. As for the C queue, what other
  threads and the kernel do while a thread is inside \<open>futexWait\<close> is the argument \<open>fwait\<close>, a function from the state at the call to the
  state at its return. The pause \<open>usleep(10)\<close> at the end of \<open>enqueue\<close> has no effect on the state and is left out. The memory of the
  main pool, which holds the two objects of the queue, is taken to be large enough; the rings come from \<open>alloc\<close>.
\<close>

section \<open>State and member functions\<close>

record scrq =
  sq_queue :: lcrq
  sq_ev :: u64

definition MAX_PATIENCE_cpp :: nat where "MAX_PATIENCE_cpp = 1000"

definition SCRQueue_ctor :: "node_alloc \<Rightarrow> nat \<Rightarrow> cpp_fault + scrq" where
  "SCRQueue_ctor alloc num_threads =
     (case LCRQueue_ctor alloc (num_threads * 2) of
        Inl f \<Rightarrow> Inl f | Inr q \<Rightarrow> Inr \<lparr>sq_queue = q, sq_ev = EventCount_cpp\<rparr>)"

definition SCRQueue_dtor :: "scrq \<Rightarrow> (cpp_fault + lcrq) option" where
  "SCRQueue_dtor s = LCRQueue_dtor (sq_queue s)"

text \<open>\<open>enqueue\<close> also gives the number of threads that the wake call asks for, if there is one.\<close>

definition scr_spinEnqueue :: "node_alloc \<Rightarrow> u64 \<Rightarrow> nat \<Rightarrow> scrq \<Rightarrow> (cpp_fault + scrq) option" where
  "scr_spinEnqueue alloc item tid s =
     (case enqueue_cpp alloc item tid (sq_queue s) of
        None \<Rightarrow> None | Some (Inl f) \<Rightarrow> Some (Inl f) | Some (Inr q) \<Rightarrow> Some (Inr (s\<lparr>sq_queue := q\<rparr>)))"

definition scr_enqueue :: "node_alloc \<Rightarrow> u64 \<Rightarrow> nat \<Rightarrow> scrq \<Rightarrow> (cpp_fault + (scrq \<times> nat option)) option" where
  "scr_enqueue alloc item tid s =
     (case enqueue_cpp alloc item tid (sq_queue s) of
        None \<Rightarrow> None
      | Some (Inl f) \<Rightarrow> Some (Inl f)
      | Some (Inr q) \<Rightarrow> let (ev, call) = notify_cpp (sq_ev s) in Some (Inr (s\<lparr>sq_queue := q, sq_ev := ev\<rparr>, call)))"

text \<open>\<open>ev->wait(key)\<close>: sleep while the epoch is the key's, then deregister.\<close>

partial_function (option) scr_wait :: "(scrq \<Rightarrow> scrq) \<Rightarrow> Key \<Rightarrow> scrq \<Rightarrow> scrq option" where
  "scr_wait fwait key s =
     (if drop_bit kEpochShift (sq_ev s) = ucast key then scr_wait fwait key (fwait s)
      else Some (s\<lparr>sq_ev := sq_ev s + kSubWaiter\<rparr>))"

partial_function (option) scr_dequeue_wait :: "(scrq \<Rightarrow> scrq) \<Rightarrow> nat \<Rightarrow> nat \<Rightarrow> scrq \<Rightarrow> (cpp_fault + (u64 \<times> scrq)) option" where
  "scr_dequeue_wait fwait tid patience s =
     (let (key, ev) = prepareWait_cpp (sq_ev s); s1 = s\<lparr>sq_ev := ev\<rparr>
      in case dequeue_cpp tid (sq_queue s1) of
           None \<Rightarrow> None
         | Some (Inl f) \<Rightarrow> Some (Inl f)
         | Some (Inr (temp, q)) \<Rightarrow>
             let s2 = s1\<lparr>sq_queue := q\<rparr>
             in if temp = 0 \<and> patience < MAX_PATIENCE_cpp then
                  (case scr_wait fwait key s2 of None \<Rightarrow> None | Some s3 \<Rightarrow> scr_dequeue_wait fwait tid (patience + 1) s3)
                else Some (Inr (temp, s2\<lparr>sq_ev := cancelWait_cpp (sq_ev s2)\<rparr>)))"

definition scr_dequeue :: "(scrq \<Rightarrow> scrq) \<Rightarrow> nat \<Rightarrow> scrq \<Rightarrow> (cpp_fault + (u64 \<times> scrq)) option" where
  "scr_dequeue fwait tid s =
     (case dequeue_cpp tid (sq_queue s) of
        None \<Rightarrow> None
      | Some (Inl f) \<Rightarrow> Some (Inl f)
      | Some (Inr (temp, q)) \<Rightarrow>
          if temp = 0 then scr_dequeue_wait fwait tid 0 (s\<lparr>sq_queue := q\<rparr>) else Some (Inr (temp, s\<lparr>sq_queue := q\<rparr>)))"

function scr_spin :: "nat \<Rightarrow> nat \<Rightarrow> lcrq \<Rightarrow> (cpp_fault + (u64 \<times> lcrq)) option" where
  "scr_spin tid patience q =
     (case dequeue_cpp tid q of
        None \<Rightarrow> None
      | Some (Inl f) \<Rightarrow> Some (Inl f)
      | Some (Inr (temp, q')) \<Rightarrow>
          if temp = 0 \<and> patience < MAX_PATIENCE_cpp then scr_spin tid (patience + 1) q' else Some (Inr (temp, q')))"
  by pat_completeness auto
termination by (relation "measure (\<lambda>(tid, patience, q). MAX_PATIENCE_cpp - patience)") auto

declare scr_spin.simps [simp del]

definition scr_spinDequeue :: "nat \<Rightarrow> scrq \<Rightarrow> (cpp_fault + (u64 \<times> scrq)) option" where
  "scr_spinDequeue tid s =
     (case scr_spin tid 0 (sq_queue s) of
        None \<Rightarrow> None | Some (Inl f) \<Rightarrow> Some (Inl f) | Some (Inr (temp, q)) \<Rightarrow> Some (Inr (temp, s\<lparr>sq_queue := q\<rparr>)))"

section \<open>The queue interface\<close>

text \<open>
  The state of the interface has the numbers of the threads that make the next calls, so that each call may be made by another
  thread. A call of \<open>spinDequeue\<close> draws up to \<open>MAX_PATIENCE + 1\<close> tickets, a call of \<open>enqueue\<close> needs at most one ring.
\<close>

type_synonym calls = "(nat \<Rightarrow> nat) \<times> scrq"

definition scr_put :: "node_alloc \<Rightarrow> u64 \<Rightarrow> calls \<Rightarrow> calls option" where
  "scr_put alloc a = (\<lambda>(sch, s). case scr_enqueue alloc a (sch 0) s of Some (Inr (s', _)) \<Rightarrow> Some (\<lambda>i. sch (Suc i), s') | _ \<Rightarrow> None)"

definition scr_get :: "calls \<Rightarrow> (u64 option \<times> calls) option" where
  "scr_get = (\<lambda>(sch, s). case scr_spinDequeue (sch 0) s of
     Some (Inr (v, s')) \<Rightarrow> Some (if v = 0 then None else Some v, \<lambda>i. sch (Suc i), s') | _ \<Rightarrow> None)"

definition scr_inv :: "node_alloc \<Rightarrow> nat \<Rightarrow> nat \<Rightarrow> nat \<Rightarrow> calls \<Rightarrow> bool" where
  "scr_inv alloc N n b = (\<lambda>(sch, s). (\<forall>i. sch i < n) \<and> lcrq_inv alloc N n (Suc MAX_PATIENCE_cpp * b) b (sq_queue s))"

definition scr_contents :: "calls \<Rightarrow> u64 list" where
  "scr_contents c = lcrq_contents (sq_queue (snd c))"

lemma spin_item:
  assumes "lcrq_inv alloc N n (Suc b) j q" "tid < n" "lcrq_contents q = x # xs"
  shows "\<exists>q'. scr_spin tid k q = Some (Inr (x, q')) \<and> x \<noteq> 0 \<and> lcrq_inv alloc N n b j q' \<and> lcrq_contents q' = xs"
  using lcrq_dequeue [OF assms(1,2)] assms(3) by (subst scr_spin.simps) (auto simp: deq_result_def)

lemma spin_none:
  assumes "lcrq_inv alloc N n (Suc MAX_PATIENCE_cpp - k + b) j q" "tid < n" "lcrq_contents q = []" "k \<le> MAX_PATIENCE_cpp"
  shows "\<exists>q'. scr_spin tid k q = Some (Inr (0, q')) \<and> lcrq_inv alloc N n b j q' \<and> lcrq_contents q' = []"
  using assms
proof (induction "MAX_PATIENCE_cpp - k" arbitrary: k q)
  case 0
  then have k: "Suc MAX_PATIENCE_cpp - k + b = Suc b" "k = MAX_PATIENCE_cpp" by simp_all
  from lcrq_dequeue [OF 0(2) [unfolded k(1)] assms(2)] 0(4) k(2) show ?case
    by (subst scr_spin.simps) (auto simp: deq_result_def)
next
  case (Suc d)
  have k: "Suc MAX_PATIENCE_cpp - k + b = Suc (Suc MAX_PATIENCE_cpp - Suc k + b)" "k < MAX_PATIENCE_cpp" using Suc(2) by simp_all
  from lcrq_dequeue [OF Suc(3) [unfolded k(1)] assms(2)] Suc(5) obtain q' where q': "dequeue_cpp tid q = Some (Inr (0, q'))"
    "lcrq_inv alloc N n (Suc MAX_PATIENCE_cpp - Suc k + b) j q'" "lcrq_contents q' = []" by (auto simp: deq_result_def)
  have "\<exists>q''. scr_spin tid (Suc k) q' = Some (Inr (0, q'')) \<and> lcrq_inv alloc N n b j q'' \<and> lcrq_contents q'' = []"
    by (rule Suc(1)) (use Suc(2) q' assms(2) k in simp_all)
  then show ?case using q'(1) k(2) by (subst scr_spin.simps) simp
qed

interpretation scr: bounded_fifo "scr_inv alloc N n" scr_contents "scr_put alloc" scr_get "\<lambda>a. a \<noteq> 0" 1 for alloc N n
proof
  fix b and c :: calls
  assume inv: "scr_inv alloc N n (b + 1) c"
  obtain sch s where c: "c = (sch, s)" by (cases c)
  have i: "\<forall>i. sch i < n" "lcrq_inv alloc N n (Suc MAX_PATIENCE_cpp + Suc MAX_PATIENCE_cpp * b) (Suc b) (sq_queue s)"
    using inv by (simp_all add: c scr_inv_def)
  have one: "lcrq_inv alloc N n (Suc (Suc MAX_PATIENCE_cpp * b)) (Suc b) (sq_queue s)" by (rule lcrq_inv_mono [OF i(2)]) simp_all
  have many: "lcrq_inv alloc N n (Suc MAX_PATIENCE_cpp - 0 + Suc MAX_PATIENCE_cpp * b) b (sq_queue s)" by (rule lcrq_inv_mono [OF i(2)]) simp_all
  show "\<exists>c'. scr_put alloc a c = Some c' \<and> scr_inv alloc N n b c' \<and> scr_contents c' = scr_contents c @ [a]" if "a \<noteq> 0" for a
    using lcrq_enqueue [OF one that, of "sch 0"] i(1)
    by (auto simp: c scr_put_def scr_enqueue_def scr_inv_def scr_contents_def split: prod.splits)
  show "\<exists>c'. scr_get c = Some (None, c') \<and> scr_inv alloc N n b c' \<and> scr_contents c' = []" if "scr_contents c = []"
    using spin_none [OF many, of "sch 0"] i(1) that by (auto simp: c scr_get_def scr_spinDequeue_def scr_inv_def scr_contents_def)
  have one': "lcrq_inv alloc N n (Suc (Suc MAX_PATIENCE_cpp * b)) b (sq_queue s)" by (rule lcrq_inv_mono [OF one]) simp_all
  show "\<exists>c'. scr_get c = Some (Some x, c') \<and> scr_inv alloc N n b c' \<and> scr_contents c' = xs" if "scr_contents c = x # xs" for x xs
    using spin_item [OF one', of "sch 0" x xs 0] i(1) that by (auto simp: c scr_get_def scr_spinDequeue_def scr_inv_def scr_contents_def)
qed

section \<open>Properties\<close>

text \<open>
  (C2) The C++ queue is first-in first-out. Any sequence of \<open>enqueue\<close> and \<open>spinDequeue\<close> calls, each made by any of the threads, on a
  queue with tickets and memory left, returns what a list would return: across the closing of rings and the allocation of
  new ones, with retired rings destroyed and their memory used again. No call follows a pointer to a destroyed ring, and
  each returns.
\<close>

theorem scrq_fifo:
  assumes "scr_inv alloc N n (length ops) c" "items_ok (\<lambda>a. a \<noteq> 0) ops"
  shows "\<exists>c'. run_ops (scr_put alloc) scr_get ops c = Some (fst (spec_ops ops (scr_contents c)), c') \<and>
    scr_contents c' = snd (spec_ops ops (scr_contents c))"
  using scr.run_refines [of alloc N n 0 ops c] assms by auto

lemma scr_ctor_inv:
  assumes "alloc_ok N alloc" "Suc b \<le> N" "2 * (Suc MAX_PATIENCE_cpp * b) < 2 ^ 62" "\<And>i. sch i < 2 * num"
  shows "\<exists>s. SCRQueue_ctor alloc num = Inr s \<and> scr_inv alloc N (2 * num) b (sch, s) \<and> scr_contents (sch, s) = [] \<and> sq_ev s = ec_word 0 0"
  using lcrq_ctor [OF assms(1-3), of "num * 2"] assms(4)
  by (auto simp: SCRQueue_ctor_def scr_inv_def scr_contents_def EventCount_cpp_def ec_word_def mult.commute)

theorem scrq_fifo_witness:
  "\<exists>s c'. SCRQueue_ctor next_free 1 = Inr s \<and>
     run_ops (scr_put next_free) scr_get [Put 16, Get, Get] (\<lambda>i. i mod 2, s) = Some ([Some 16, None], c')"
proof -
  obtain s where s: "SCRQueue_ctor next_free 1 = Inr s" "scr_inv next_free 4 2 3 (\<lambda>i. i mod 2, s)" "scr_contents (\<lambda>i. i mod 2, s) = []"
    using scr_ctor_inv [OF next_free_ok, of 3 "\<lambda>i. i mod 2" 1] by (auto simp: MAX_PATIENCE_cpp_def)
  from scrq_fifo [of next_free 4 2 "[Put 16, Get, Get]" "(\<lambda>i. i mod 2, s)"] s show ?thesis by (auto simp: numeral_3_eq_3)
qed

text \<open>One round of the waiting loop that ends with a sleep.\<close>

lemma scr_wait_word:
  assumes "e < 2 ^ 32" "Suc w < 2 ^ 32" "sq_ev s = ec_word e (Suc w)" "sq_ev (fwait s) = ec_word e' (Suc w)" "e' < 2 ^ 32" "e' \<noteq> e"
  shows "scr_wait fwait (of_nat e) s = Some ((fwait s)\<lparr>sq_ev := ec_word e' w\<rparr>)"
proof -
  have e: "unat (of_nat e :: u32) = e" using assms(1) by (simp add: unat_of_nat_32)
  have "scr_wait fwait (of_nat e) (fwait s) = Some ((fwait s)\<lparr>sq_ev := ec_word e' w\<rparr>)"
    using assms e by (subst scr_wait.simps) (simp add: same_test epoch_is_word same_as_C await_done_word)
  then show ?thesis using assms e by (subst scr_wait.simps) (simp add: same_test epoch_is_word)
qed

lemma scr_round:
  assumes inv: "lcrq_inv alloc N n (Suc b) j (sq_queue s)" "tid < n" "lcrq_contents (sq_queue s) = []"
    and ev: "sq_ev s = ec_word e w" "e < 2 ^ 32" "Suc w < 2 ^ 32" and k: "k < MAX_PATIENCE_cpp"
    and fw: "\<And>q. lcrq_inv alloc N n b j q \<Longrightarrow> lcrq_contents q = [] \<Longrightarrow>
      sq_ev (fwait (s\<lparr>sq_ev := ec_word e (Suc w), sq_queue := q\<rparr>)) = ec_word (Suc e mod 2 ^ 32) (Suc w)"
  obtains q where "lcrq_inv alloc N n b j q" "lcrq_contents q = []"
    "scr_dequeue_wait fwait tid k s = scr_dequeue_wait fwait tid (Suc k)
       ((fwait (s\<lparr>sq_ev := ec_word e (Suc w), sq_queue := q\<rparr>))\<lparr>sq_ev := ec_word (Suc e mod 2 ^ 32) w\<rparr>)"
proof -
  from lcrq_dequeue [OF inv(1,2)] inv(3) obtain q where q: "dequeue_cpp tid (sq_queue s) = Some (Inr (0, q))"
    "lcrq_inv alloc N n b j q" "lcrq_contents q = []" by (auto simp: deq_result_def)
  let ?s = "s\<lparr>sq_ev := ec_word e (Suc w), sq_queue := q\<rparr>"
  have e': "Suc e mod 2 ^ 32 < 2 ^ 32" "Suc e mod 2 ^ 32 \<noteq> e" using ev(2) by (cases "Suc e = 2 ^ 32"; simp)+
  have "scr_wait fwait (of_nat e) ?s = Some ((fwait ?s)\<lparr>sq_ev := ec_word (Suc e mod 2 ^ 32) w\<rparr>)"
    by (rule scr_wait_word [OF ev(2,3) _ _ e']) (use fw q in simp_all)
  then have "scr_dequeue_wait fwait tid k s = scr_dequeue_wait fwait tid (Suc k) ((fwait ?s)\<lparr>sq_ev := ec_word (Suc e mod 2 ^ 32) w\<rparr>)"
    using q(1) k ev by (subst scr_dequeue_wait.simps) (simp add: same_as_C prepareWait_word)
  then show ?thesis using q that by blast
qed

lemma scr_last_round:
  assumes inv: "lcrq_inv alloc N n (Suc b) j (sq_queue s)" "tid < n" and ev: "sq_ev s = ec_word e w" "e < 2 ^ 32" "w < 2 ^ 32"
    and stop: "lcrq_contents (sq_queue s) \<noteq> [] \<or> k = MAX_PATIENCE_cpp"
  shows "\<exists>v q. scr_dequeue_wait fwait tid k s = Some (Inr (v, s\<lparr>sq_queue := q\<rparr>)) \<and> lcrq_inv alloc N n b j q \<and>
    deq_result (lcrq_contents (sq_queue s)) v (lcrq_contents q)"
proof -
  from lcrq_dequeue [OF inv] obtain v q where q: "dequeue_cpp tid (sq_queue s) = Some (Inr (v, q))" "lcrq_inv alloc N n b j q"
    "deq_result (lcrq_contents (sq_queue s)) v (lcrq_contents q)" by blast
  have "\<not> (v = 0 \<and> k < MAX_PATIENCE_cpp)" using stop q(3) by (auto simp: deq_result_def split: list.splits)
  then have "scr_dequeue_wait fwait tid k s = Some (Inr (v, s\<lparr>sq_ev := ec_word e w, sq_queue := q\<rparr>))"
    using q(1) ev by (subst scr_dequeue_wait.simps) (auto simp: same_as_C prepareWait_word cancelWait_word)
  moreover have "s\<lparr>sq_ev := ec_word e w, sq_queue := q\<rparr> = s\<lparr>sq_queue := q\<rparr>" using ev(1) by (cases s) simp
  ultimately show ?thesis using q(2,3) by auto
qed

lemma notify_word: "e < 2 ^ 32 \<Longrightarrow> w < 2 ^ 32 \<Longrightarrow> fst (notify_cpp (ec_word e w)) = ec_word (Suc e mod 2 ^ 32) w"
  by (cases "Suc e = 2 ^ 32") (simp_all add: same_as_C notify_def doNotify_word, simp add: ec_word_def)


definition other_enqueues :: "scrq \<Rightarrow> scrq" where
  "other_enqueues s = (case scr_enqueue next_free 16 1 s of Some (Inr (s', _)) \<Rightarrow> s' | _ \<Rightarrow> s)"


lemma scr_gives_up:
  assumes fw: "\<And>s. fwait s = s\<lparr>sq_ev := fst (notify_cpp (sq_ev s))\<rparr>" and tid: "tid < n" and w: "Suc w < 2 ^ 32"
  shows "lcrq_inv alloc N n (Suc (MAX_PATIENCE_cpp - k) + b) j (sq_queue s) \<Longrightarrow> lcrq_contents (sq_queue s) = [] \<Longrightarrow> sq_ev s = ec_word e w \<Longrightarrow>
    e < 2 ^ 32 \<Longrightarrow> k \<le> MAX_PATIENCE_cpp \<Longrightarrow>
    \<exists>q. scr_dequeue_wait fwait tid k s = Some (Inr (0, s\<lparr>sq_queue := q, sq_ev := ec_word ((e + (MAX_PATIENCE_cpp - k)) mod 2 ^ 32) w\<rparr>)) \<and>
      lcrq_inv alloc N n b j q \<and> lcrq_contents q = []"
proof (induction "MAX_PATIENCE_cpp - k" arbitrary: k s e)
  case 0
  then have k: "k = MAX_PATIENCE_cpp" by simp
  have i: "lcrq_inv alloc N n (Suc b) j (sq_queue s)" using 0(2) k by simp
  from scr_last_round [OF i tid 0(4,5), of k fwait] w k 0(3) obtain q where
    "scr_dequeue_wait fwait tid k s = Some (Inr (0, s\<lparr>sq_queue := q\<rparr>))" "lcrq_inv alloc N n b j q" "lcrq_contents q = []"
    by (auto simp: deq_result_def)
  moreover have "s\<lparr>sq_queue := q\<rparr> = s\<lparr>sq_queue := q, sq_ev := ec_word e w\<rparr>" using 0(4) by (cases s) simp
  ultimately show ?case using 0(5) k by auto
next
  case (Suc d)
  let ?e = "Suc e mod 2 ^ 32"
  have k: "k < MAX_PATIENCE_cpp" "d = MAX_PATIENCE_cpp - Suc k" using Suc(2) by simp_all
  have "lcrq_inv alloc N n (Suc (Suc (MAX_PATIENCE_cpp - Suc k) + b)) j (sq_queue s)" using Suc(3) k by (simp add: Suc_diff_Suc)
  then obtain q where q: "lcrq_inv alloc N n (Suc (MAX_PATIENCE_cpp - Suc k) + b) j q" "lcrq_contents q = []"
    "scr_dequeue_wait fwait tid k s = scr_dequeue_wait fwait tid (Suc k)
       ((fwait (s\<lparr>sq_ev := ec_word e (Suc w), sq_queue := q\<rparr>))\<lparr>sq_ev := ec_word ?e w\<rparr>)"
    by (rule scr_round [OF _ tid Suc(4,5,6) w k(1), of _ _ _ _ fwait]) (use fw notify_word [OF Suc(6) w] in simp_all)
  let ?s = "s\<lparr>sq_queue := q, sq_ev := ec_word ?e w\<rparr>"
  have s: "(fwait (s\<lparr>sq_ev := ec_word e (Suc w), sq_queue := q\<rparr>))\<lparr>sq_ev := ec_word ?e w\<rparr> = ?s" by (cases s) (simp add: fw)
  have "\<exists>q'. scr_dequeue_wait fwait tid (Suc k) ?s =
      Some (Inr (0, ?s\<lparr>sq_queue := q', sq_ev := ec_word ((?e + (MAX_PATIENCE_cpp - Suc k)) mod 2 ^ 32) w\<rparr>)) \<and>
      lcrq_inv alloc N n b j q' \<and> lcrq_contents q' = []"
    by (rule Suc(1) [OF k(2)]) (use q k in simp_all)
  moreover have "(?e + (MAX_PATIENCE_cpp - Suc k)) mod 2 ^ 32 = (e + (MAX_PATIENCE_cpp - k)) mod 2 ^ 32"
  proof -
    have "(?e + (MAX_PATIENCE_cpp - Suc k)) mod 2 ^ 32 = (Suc e + (MAX_PATIENCE_cpp - Suc k)) mod 2 ^ 32" by (rule mod_add_left_eq)
    also have "Suc e + (MAX_PATIENCE_cpp - Suc k) = e + (MAX_PATIENCE_cpp - k)" using k(1) by simp
    finally show ?thesis .
  qed
  moreover have "?s\<lparr>sq_queue := q', sq_ev := x\<rparr> = s\<lparr>sq_queue := q', sq_ev := x\<rparr>" for q' x by (cases s) simp
  ultimately show ?case using q(3) s by auto
qed

text \<open>
  (C17) \<open>dequeue\<close> gives up. If it is woken again and again and finds nothing (others have taken the items), it returns
  \<open>nullptr\<close> after \<open>MAX_PATIENCE\<close> sleeps, with the number of waiters as before. The C version sleeps on instead
  (\<open>dequeue_returns_a_value\<close>).
\<close>

theorem scr_dequeue_gives_up:
  assumes inv: "lcrq_inv alloc N n (b + MAX_PATIENCE_cpp + 2) j (sq_queue s)" "tid < n" and emp: "lcrq_contents (sq_queue s) = []"
    and ev: "sq_ev s = ec_word e w" "e < 2 ^ 32" "Suc w < 2 ^ 32"
    and fw: "\<And>s. fwait s = s\<lparr>sq_ev := fst (notify_cpp (sq_ev s))\<rparr>"
  shows "\<exists>q. scr_dequeue fwait tid s = Some (Inr (0, s\<lparr>sq_queue := q, sq_ev := ec_word ((e + MAX_PATIENCE_cpp) mod 2 ^ 32) w\<rparr>)) \<and>
    lcrq_inv alloc N n b j q \<and> lcrq_contents q = []"
proof -
  have "lcrq_inv alloc N n (Suc (Suc (MAX_PATIENCE_cpp - 0) + b)) j (sq_queue s)" using inv(1) by (simp add: ac_simps)
  from lcrq_dequeue [OF this inv(2)] emp obtain q where q: "dequeue_cpp tid (sq_queue s) = Some (Inr (0, q))"
    "lcrq_inv alloc N n (Suc (MAX_PATIENCE_cpp - 0) + b) j q" "lcrq_contents q = []" by (auto simp: deq_result_def)
  from scr_gives_up [OF fw inv(2) ev(3), of alloc N 0 b j "s\<lparr>sq_queue := q\<rparr>" e] q ev show ?thesis by (simp add: scr_dequeue_def)
qed

definition others_take_all :: "scrq \<Rightarrow> scrq" where
  "others_take_all s = s\<lparr>sq_ev := fst (notify_cpp (sq_ev s))\<rparr>"

theorem scr_dequeue_gives_up_witness:
  "\<exists>s q. SCRQueue_ctor next_free 1 = Inr s \<and> scr_dequeue others_take_all 0 s = Some (Inr (0, s\<lparr>sq_queue := q, sq_ev := ec_word 1000 0\<rparr>))"
proof -
  obtain s where s: "SCRQueue_ctor next_free 1 = Inr s" "lcrq_inv next_free 4 2 3003 3 (sq_queue s)" "lcrq_contents (sq_queue s) = []"
    "sq_ev s = ec_word 0 0"
    using scr_ctor_inv [OF next_free_ok, of 3 "\<lambda>i. i mod 2" 1] by (auto simp: MAX_PATIENCE_cpp_def scr_inv_def scr_contents_def)
  have inv: "lcrq_inv next_free 4 2 (0 + MAX_PATIENCE_cpp + 2) 0 (sq_queue s)"
    by (rule lcrq_inv_mono [OF s(2)]) (simp_all add: MAX_PATIENCE_cpp_def)
  from scr_dequeue_gives_up [OF inv _ s(3,4), of 0 others_take_all] s(1) show ?thesis
    by (auto simp: others_take_all_def MAX_PATIENCE_cpp_def)
qed

end
