(* ===== verification/Driver.thy ===== *)
theory Driver
  imports Elcrq Transition
begin

text \<open>
  The simulation of \<open>src/c/main.c\<close>: three processes of \<open>NUM_THREAD\<close> threads each, which pass messages along the queues in shared memory.
  Thread \<open>t\<close> of the model is thread \<open>t mod NUM_THREAD\<close> of process \<open>t div NUM_THREAD + 1\<close>. A step is one whole call on a queue, made with the
  operations of the theory \<open>Elcrq\<close>, or the barrier, which all threads pass together: the executions of this model are those of the
  program in which the calls on a queue do not overlap. A call that does not return is no step. \<open>NUM_ITERS\<close> and \<open>NUM_RUNS\<close> can be set
  by the build, so they are arguments; so are the power \<open>rp\<close> of the ring size and \<open>fuel\<close>, the number of loop iterations after which a call of \<open>deq\<close>
  counts as not returning. All queues live in one heap of the program; here every queue has
  its own memory \<open>ms x\<close> for its rings, a share of that heap. Pinning of threads, printing and the joining of threads and processes are left out. The thread-local spare
  ring is not passed on: without overlapping calls an enqueue never keeps one.
\<close>

section \<open>State\<close>

definition NUM_THREAD :: nat where "NUM_THREAD = 6"

datatype qname = Queue12 | Queue23 | Queue32 | Queue21

record params =
  p_q12 :: qname
  p_q23 :: qname
  p_q32 :: qname
  p_q21 :: qname
  p_id :: nat

text \<open>The loop of \<open>main\<close> over \<open>p[i]\<close>: the field \<open>q21\<close> is set to \<open>queue23\<close>.\<close>

definition main_params :: "nat \<Rightarrow> params" where
  "main_params i = \<lparr>p_q12 = Queue12, p_q23 = Queue23, p_q32 = Queue32, p_q21 = Queue23, p_id = i\<rparr>"

text \<open>Where a thread is: run \<open>j\<close>, iteration \<open>k\<close>, the value of its variable \<open>deq\<close> where it is used.\<close>

datatype main_pc =
    Wait nat
  | S_enqueue nat nat | S_spinDequeue nat nat
  | I_dequeue nat nat | I_enqueue nat nat u64 | I_spinDequeue nat nat | I_spinEnqueue nat nat u64
  | R_dequeue nat nat | R_spinEnqueue nat nat u64
  | Returned | Crashed

record system =
  sys_queue :: "qname \<Rightarrow> ELCRQ \<times> mem"
  sys_pc :: "nat \<Rightarrow> main_pc"

section \<open>Steps\<close>

text \<open>The ends of the loops over \<open>j\<close> and \<open>k\<close>.\<close>

definition next_run :: "nat \<Rightarrow> nat \<Rightarrow> main_pc" where
  "next_run R j = (if j + 1 < R then Wait (j + 1) else Returned)"

definition sender_loop :: "nat \<Rightarrow> nat \<Rightarrow> nat \<Rightarrow> nat \<Rightarrow> main_pc" where
  "sender_loop N R j k = (if k < N then S_enqueue j k else next_run R j)"

definition intermediate_loop :: "nat \<Rightarrow> nat \<Rightarrow> nat \<Rightarrow> nat \<Rightarrow> main_pc" where
  "intermediate_loop N R j k = (if int k < int N - 1 then I_dequeue j k else next_run R j)"

definition receiver_loop :: "nat \<Rightarrow> nat \<Rightarrow> nat \<Rightarrow> nat \<Rightarrow> main_pc" where
  "receiver_loop N R j k = (if k < N then R_dequeue j k else next_run R j)"

text \<open>The state in which \<open>main\<close> starts the threads, and the loops after the barrier.\<close>

definition main_init :: "nat \<Rightarrow> (qname \<Rightarrow> mem) \<Rightarrow> nat \<Rightarrow> system" where
  "main_init rp ms R = \<lparr>sys_queue = (\<lambda>x. projr (init_queue rp (ms x))),
     sys_pc = (\<lambda>t. if t < 3 * NUM_THREAD \<and> 0 < R then Wait 0 else Returned)\<rparr>"

definition enter_run :: "nat \<Rightarrow> nat \<Rightarrow> nat \<Rightarrow> main_pc \<Rightarrow> main_pc" where
  "enter_run N R t c = (case c of
     Wait j \<Rightarrow> (if t < NUM_THREAD then sender_loop N R j 0
                else if t < 2 * NUM_THREAD then intermediate_loop N R j 0 else receiver_loop N R j 0)
   | _ \<Rightarrow> c)"

text \<open>A call of thread \<open>t\<close> on queue \<open>x\<close> has returned with queue state \<open>q\<close>.\<close>

definition after :: "nat \<Rightarrow> qname \<Rightarrow> ELCRQ \<times> mem \<Rightarrow> main_pc \<Rightarrow> system \<Rightarrow> system" where
  "after t x q c s = s\<lparr>sys_queue := (sys_queue s)(x := q), sys_pc := (sys_pc s)(t := c)\<rparr>"

definition do_enqueue :: "nat \<Rightarrow> nat \<Rightarrow> qname \<Rightarrow> u64 \<Rightarrow> main_pc \<Rightarrow> system \<Rightarrow> system option" where
  "do_enqueue rp t x a c s = (case enqueue rp a None (sys_queue s x) of
     None \<Rightarrow> None | Some (Inl f) \<Rightarrow> Some (s\<lparr>sys_pc := (sys_pc s)(t := Crashed)\<rparr>) | Some (Inr (_, q, _)) \<Rightarrow> Some (after t x q c s))"

definition do_spinEnqueue :: "nat \<Rightarrow> nat \<Rightarrow> qname \<Rightarrow> u64 \<Rightarrow> main_pc \<Rightarrow> system \<Rightarrow> system option" where
  "do_spinEnqueue rp t x a c s = (case spinEnqueue rp a None (sys_queue s x) of
     None \<Rightarrow> None | Some (Inl f) \<Rightarrow> Some (s\<lparr>sys_pc := (sys_pc s)(t := Crashed)\<rparr>) | Some (Inr (_, q)) \<Rightarrow> Some (after t x q c s))"

definition do_dequeue :: "nat \<Rightarrow> nat \<Rightarrow> nat \<Rightarrow> qname \<Rightarrow> (u64 \<Rightarrow> main_pc) \<Rightarrow> system \<Rightarrow> system option" where
  "do_dequeue rp fuel t x c s = (case dequeue rp fuel (\<lambda>s. s) (sys_queue s x) of
     None \<Rightarrow> None | Some (v, q) \<Rightarrow> Some (after t x q (c v) s))"

definition do_spinDequeue :: "nat \<Rightarrow> nat \<Rightarrow> nat \<Rightarrow> qname \<Rightarrow> (u64 \<Rightarrow> main_pc) \<Rightarrow> system \<Rightarrow> system option" where
  "do_spinDequeue rp fuel t x c s = (case spinDequeue rp fuel (sys_queue s x) of
     None \<Rightarrow> None | Some (v, q) \<Rightarrow> Some (after t x q (c v) s))"

text \<open>\<open>sender\<close>, \<open>intermediate\<close> and \<open>receiver\<close>: the next call of the thread, on the queues of its \<open>params\<close>.\<close>

fun main_call :: "nat \<Rightarrow> nat \<Rightarrow> nat \<Rightarrow> nat \<Rightarrow> nat \<Rightarrow> params \<Rightarrow> main_pc \<Rightarrow> system \<Rightarrow> system option" where
  "main_call rp fuel N R t p (S_enqueue j k) s = do_enqueue rp t (p_q12 p) (of_nat k) (S_spinDequeue j k) s"
| "main_call rp fuel N R t p (S_spinDequeue j k) s = do_spinDequeue rp fuel t (p_q21 p) (\<lambda>_. sender_loop N R j (k + 1)) s"
| "main_call rp fuel N R t p (I_dequeue j k) s = do_dequeue rp fuel t (p_q12 p) (I_enqueue j k) s"
| "main_call rp fuel N R t p (I_enqueue j k d) s = do_enqueue rp t (p_q23 p) d (I_spinDequeue j k) s"
| "main_call rp fuel N R t p (I_spinDequeue j k) s = do_spinDequeue rp fuel t (p_q32 p) (I_spinEnqueue j k) s"
| "main_call rp fuel N R t p (I_spinEnqueue j k d) s = do_spinEnqueue rp t (p_q21 p) d (intermediate_loop N R j (k + 1)) s"
| "main_call rp fuel N R t p (R_dequeue j k) s = do_dequeue rp fuel t (p_q23 p) (R_spinEnqueue j k) s"
| "main_call rp fuel N R t p (R_spinEnqueue j k d) s = do_spinEnqueue rp t (p_q32 p) d (receiver_loop N R j (k + 1)) s"
| "main_call rp fuel N R t p c s = None"

inductive main_step :: "nat \<Rightarrow> nat \<Rightarrow> nat \<Rightarrow> nat \<Rightarrow> system \<Rightarrow> system \<Rightarrow> bool" for rp fuel N R where
  barrier: "\<forall>t < 3 * NUM_THREAD. \<exists>j. sys_pc s t = Wait j \<Longrightarrow>
    main_step rp fuel N R s (s\<lparr>sys_pc := (\<lambda>t. if t < 3 * NUM_THREAD then enter_run N R t (sys_pc s t) else sys_pc s t)\<rparr>)"
| call: "t < 3 * NUM_THREAD \<Longrightarrow> main_call rp fuel N R t (main_params (t mod NUM_THREAD)) (sys_pc s t) s = Some s' \<Longrightarrow>
    main_step rp fuel N R s s'"

section \<open>The calls by the contents of the queues\<close>

text \<open>
  A queue that has been used, with tickets and memory for \<open>b\<close> more rounds, and a queue as \<open>init_queue\<close> leaves it.
\<close>

definition used_queue :: "nat \<Rightarrow> nat \<Rightarrow> nat \<Rightarrow> ELCRQ \<times> mem \<Rightarrow> u64 list \<Rightarrow> bool" where
  "used_queue rp fuel b s xs \<longleftrightarrow> elcrq_ok rp b s \<and> elcrq_contents rp s = xs \<and> length (rings (snd s)) + b \<le> fuel"

definition new_queue :: "nat \<Rightarrow> nat \<Rightarrow> nat \<Rightarrow> ELCRQ \<times> mem \<Rightarrow> bool" where
  "new_queue rp fuel b s \<longleftrightarrow> elcrq_wf rp b s \<and> elcrq_contents rp s = [] \<and> length (rings (snd s)) = 1 \<and> b < fuel \<and> fuel \<le> 2 ^ 62 \<and>
     unused_ring rp (ring_at (snd s) 0) \<and> rq_head (ring_at (snd s) 0) = 0"

abbreviation "MP \<equiv> Suc MAX_PATIENCE"

lemma used_queue_mono: "used_queue rp fuel b s xs \<Longrightarrow> b' \<le> b \<Longrightarrow> used_queue rp fuel b' s xs"
  by (auto simp: used_queue_def intro: elcrq_ok_mono)

lemma enqueue_used:
  assumes "used_queue rp fuel (b + MP) s xs \<or> new_queue rp fuel (b + MP) s \<and> xs = []" "a \<noteq> EMPTY"
  shows "\<exists>s' call. enqueue rp a None s = Some (Inr (None, s', call)) \<and> used_queue rp fuel b s' (xs @ [a]) \<and>
    q_ec (fst s') = fst (notify (q_ec (fst s)))"
proof -
  obtain q m where s: "s = (q, m)" by (cases s)
  obtain ec call where n: "notify (q_ec q) = (ec, call)" by (cases "notify (q_ec q)")
  have wf: "elcrq_wf rp (b + MP) (q, m)" "queue_contents rp m = xs" "length (rings m) + b < fuel"
    using assms(1) by (auto simp: used_queue_def new_queue_def s elcrq_ok_def elcrq_contents_def)
  from enq_elcrq [OF wf(1) assms(2)] obtain m' where "enq rp a (q_tail q) 0 None m = Some (Inr (None, m'))" "elcrq_ok rp b (q, m')"
    "queue_contents rp m' = queue_contents rp m @ [a]" "length (rings m') \<le> Suc (length (rings m))" by blast
  then show ?thesis using wf by (simp add: s enqueue_def n used_queue_def elcrq_contents_def)
qed

lemma deq_rings: "deq rp fuel p m = Some (v, m') \<Longrightarrow> length (rings m') = length (rings m)"
proof (induction fuel arbitrary: p m)
  case (Suc n)
  show ?case
    using Suc.prems Suc.IH by (fastforce simp: deq.simps Let_def split: option.splits prod.splits if_splits)
qed simp

lemma spin_rings: "spin_loop rp fuel p k m = Some (v, m') \<Longrightarrow> length (rings m') = length (rings m)"
proof (induction rp fuel p k m rule: spin_loop.induct)
  case (1 rp fuel p k m)
  then obtain e m1 where e: "deq rp fuel p m = Some (e, m1)" by (subst (asm) (2) spin_loop.simps) (auto split: option.splits)
  show ?case
  proof (cases "e = EMPTY \<and> k < MAX_PATIENCE")
    case True
    then have "spin_loop rp fuel p (k + 1) m1 = Some (v, m')" using 1(2) e by (subst (asm) spin_loop.simps) simp
    then show ?thesis using 1(1) [OF e refl True] deq_rings [OF e] by simp
  next
    case False
    then have "m' = m1" using 1(2) e by (subst (asm) spin_loop.simps) auto
    then show ?thesis using deq_rings [OF e] by simp
  qed
qed

lemma spinDequeue_used:
  assumes u: "used_queue rp fuel (b + MP) s xs"
  shows "\<exists>s'. spinDequeue rp fuel s = Some (if xs = [] then EMPTY else hd xs, s') \<and> used_queue rp fuel b s' (tl xs) \<and> fst s' = fst s"
proof -
  obtain q m where s: "s = (q, m)" by (cases s)
  have ok: "elcrq_ok rp (b + MP) (q, m)" "queue_contents rp m = xs" "length (rings m) \<le> fuel" "q_head q = 0"
    using u by (auto simp: used_queue_def s elcrq_contents_def elcrq_ok_def elcrq_wf_def)
  have "\<exists>m'. spin_loop rp fuel 0 0 m = Some (if xs = [] then EMPTY else hd xs, m') \<and> elcrq_ok rp b (q, m') \<and> queue_contents rp m' = tl xs"
  proof (cases xs)
    case Nil
    then show ?thesis using spin_empty [of rp b 0 q m fuel] ok by auto
  next
    case (Cons x ys)
    then show ?thesis using spin_hd [OF elcrq_ok_one [OF ok(1)] ok(3), of x ys 0] ok(2) by auto
  qed
  then obtain m' where m': "spin_loop rp fuel 0 0 m = Some (if xs = [] then EMPTY else hd xs, m')" "elcrq_ok rp b (q, m')" "queue_contents rp m' = tl xs"
    by blast
  have "length (rings m') + b \<le> fuel" using spin_rings [OF m'(1)] u by (simp add: used_queue_def s)
  then show ?thesis using m' ok(4) by (simp add: s spinDequeue_def used_queue_def elcrq_contents_def)
qed

lemma dequeue_used:
  assumes u: "used_queue rp fuel (Suc b) s (x # xs)"
  shows "\<exists>s'. dequeue rp fuel fwait s = Some (x, s') \<and> x \<noteq> EMPTY \<and> used_queue rp fuel b s' xs \<and> fst s' = fst s"
proof -
  obtain q m where s: "s = (q, m)" by (cases s)
  have ok: "elcrq_ok rp (Suc b) (q, m)" "queue_contents rp m = x # xs" "length (rings m) \<le> fuel" "q_head q = 0"
    using u by (auto simp: used_queue_def s elcrq_contents_def elcrq_ok_def elcrq_wf_def)
  from deq_elcrq [OF ok(1,3)] ok(2) obtain m' where "deq rp fuel 0 m = Some (x, m')" "x \<noteq> EMPTY" "elcrq_ok rp b (q, m')"
    "length (rings m') = length (rings m)" "queue_contents rp m' = xs" by auto
  then show ?thesis using ok u by (simp add: s dequeue_def used_queue_def elcrq_contents_def)
qed

text \<open>Calls that do not return: any dequeue on a new queue, and \<open>dequeue\<close> on an empty one when nobody notifies.\<close>

lemma await_nobody: "epoch_is (q_ec (fst s)) key \<Longrightarrow> await (\<lambda>s. s) key s = None"
proof (rule ccontr)
  assume e: "epoch_is (q_ec (fst s)) key" and "await (\<lambda>s. s) key s \<noteq> None"
  then obtain r where r: "await (\<lambda>s. s) key s = Some r" by auto
  have "\<not> epoch_is (q_ec (fst s)) key"
    by (rule await.raw_induct [of "\<lambda>fw key s r. fw = (\<lambda>s. s) \<longrightarrow> \<not> epoch_is (q_ec (fst s)) key", OF _ r, rule_format])
      (auto split: if_splits)
  then show False using e by simp
qed

lemma dequeue_stuck:
  assumes u: "used_queue rp fuel 2 s []" and ec: "q_ec (fst s) = ec_word e w" "e < 2 ^ 32" "Suc w < 2 ^ 32"
  shows "dequeue rp fuel (\<lambda>s. s) s = None"
proof -
  obtain q m where s: "s = (q, m)" by (cases s)
  have ok: "elcrq_ok rp (Suc (Suc 0)) (q, m)" "queue_contents rp m = []" "length (rings m) \<le> fuel" "q_head q = 0"
    using u by (auto simp: used_queue_def s elcrq_contents_def elcrq_ok_def elcrq_wf_def numeral_2_eq_2)
  from deq_elcrq [OF ok(1,3)] ok(2) obtain m1 where m1: "deq rp fuel 0 m = Some (EMPTY, m1)" "elcrq_ok rp (Suc 0) (q, m1)"
    "length (rings m1) = length (rings m)" "queue_contents rp m1 = []" by auto
  from deq_elcrq [OF m1(2), of fuel] m1(3,4) ok(3) obtain m2 where "deq rp fuel 0 m1 = Some (EMPTY, m2)" by auto
  moreover have "await (\<lambda>s. s) (of_nat e) (q\<lparr>q_ec := ec_word e (Suc w)\<rparr>, m2) = None"
    by (rule await_nobody) (use ec in \<open>simp add: epoch_is_word unat_of_nat_32\<close>)
  ultimately have "dequeue_wait rp fuel (\<lambda>s. s) (q, m1) = None"
    using ec ok(4) by (subst dequeue_wait.simps) (simp add: s prepareWait_word)
  then show ?thesis using m1(1) ok(4) by (simp add: s dequeue_def)
qed

lemma new_stuck:
  assumes "new_queue rp fuel b s"
  shows "spinDequeue rp fuel s = None" "dequeue rp fuel fwait s = None"
proof -
  have "deq rp fuel 0 (snd s) = None" using assms by (intro deq_unused_spins) (auto simp: new_queue_def)
  moreover have "q_head (fst s) = 0" using assms by (simp add: new_queue_def elcrq_wf_def)
  ultimately show "spinDequeue rp fuel s = None" "dequeue rp fuel fwait s = None"
    by (cases s; simp add: spinDequeue_def dequeue_def spin_loop.simps)+
qed

lemma init_new:
  assumes "fresh_mem rp (Suc n) m" "rp < 64" "b \<le> MP * n" "b < fuel" "fuel \<le> 2 ^ 62"
  shows "\<exists>s. init_queue rp m = Inr s \<and> new_queue rp fuel b s \<and> q_ec (fst s) = ec_word 0 0"
proof -
  have "b < 2 ^ 62" using assms(4,5) by linarith
  from init_queue_wf [OF assms(1,2) this assms(3)] obtain s where s: "init_queue rp m = Inr s" "elcrq_wf rp b s" "elcrq_contents rp s = []"
    "unused_ring rp (ring_at (snd s) 0)" by blast
  have "length (rings (snd s)) = 1" "rq_head (ring_at (snd s) 0) = 0" "q_ec (fst s) = ec_word 0 0"
    using assms(1) s(1)
    by (auto simp: init_queue_def getMemory_def fresh_mem_def ring_at_def set_ring_def initEventCount_def ec_word_def split: list.splits)
  then show ?thesis using s assms(4,5) by (auto simp: new_queue_def)
qed

section \<open>A schedule that hangs\<close>

lemma after_simps [simp]:
  "sys_pc (after t x q c s) = (sys_pc s)(t := c)" "sys_queue (after t x q c s) = (sys_queue s)(x := q)"
  by (simp_all add: after_def)

lemma params_simps [simp]:
  "p_q12 (main_params i) = Queue12" "p_q23 (main_params i) = Queue23" "p_q32 (main_params i) = Queue32" "p_q21 (main_params i) = Queue23"
  by (simp_all add: main_params_def)

definition empty_queue :: "nat \<Rightarrow> nat \<Rightarrow> nat \<Rightarrow> nat \<Rightarrow> ELCRQ \<times> mem \<Rightarrow> bool" where
  "empty_queue rp fuel b i s \<longleftrightarrow> (if i = 0 then new_queue rp fuel b s else used_queue rp fuel b s []) \<and> q_ec (fst s) = ec_word i 0"

text \<open>
  First round: sender \<open>i\<close> sends a message, intermediate \<open>i\<close> forwards it, and the sender takes it back from \<open>queue23\<close>. After it the
  intermediate is in \<open>spinDequeue\<close> on \<open>queue32\<close>, which nobody has used.
\<close>

definition first_pc :: "nat \<Rightarrow> nat \<Rightarrow> main_pc" where
  "first_pc i t = (if t < 6 then S_enqueue 0 (if t < i then 1 else 0)
     else if t < 12 then (if t < 6 + i then I_spinDequeue 0 0 else I_dequeue 0 0)
     else if t < 18 then R_dequeue 0 0 else Returned)"

definition first_round :: "nat \<Rightarrow> nat \<Rightarrow> nat \<Rightarrow> nat \<Rightarrow> system \<Rightarrow> bool" where
  "first_round rp fuel b i s \<longleftrightarrow> sys_pc s = first_pc i \<and> empty_queue rp fuel (b + (6 - i) * (2 * MP)) i (sys_queue s Queue12) \<and>
     empty_queue rp fuel (b + (6 - i) * (2 * MP)) i (sys_queue s Queue23) \<and> new_queue rp fuel 0 (sys_queue s Queue32)"

lemma enqueue_empty:
  assumes "empty_queue rp fuel (b + MP) i s" "i < 2 ^ 32 - 1" "a \<noteq> EMPTY"
  shows "\<exists>s' call. enqueue rp a None s = Some (Inr (None, s', call)) \<and> used_queue rp fuel b s' [a] \<and> q_ec (fst s') = ec_word (Suc i) 0"
proof -
  have "used_queue rp fuel (b + MP) s [] \<or> new_queue rp fuel (b + MP) s \<and> [] = ([] :: u64 list)" "q_ec (fst s) = ec_word i 0"
    using assms(1) by (auto simp: empty_queue_def split: if_splits)
  from enqueue_used [OF this(1) assms(3)] this(2) assms(2) show ?thesis by (simp add: notify_def doNotify_word)
qed

lemma call_step:
  "t < 18 \<Longrightarrow> sys_pc s t = c \<Longrightarrow> main_call rp fuel N R t (main_params (t mod NUM_THREAD)) c s = Some s' \<Longrightarrow> main_step rp fuel N R s s'"
  using main_step.call [of t rp fuel N R s s'] by (simp add: NUM_THREAD_def)

lemma zero_not_EMPTY: "(0 :: u64) \<noteq> EMPTY" by (simp add: EMPTY_def)

lemma first_round_step:
  assumes r: "first_round rp fuel b i s" and i: "i < 6" and N: "2 \<le> N"
  shows "\<exists>s'. (main_step rp fuel N R)\<^sup>*\<^sup>* s s' \<and> first_round rp fuel b (Suc i) s'"
proof -
  let ?b = "b + (6 - Suc i) * (2 * MP)"
  have bb: "b + (6 - i) * (2 * MP) = ?b + MP + MP" using i by (simp add: Suc_diff_Suc [symmetric] algebra_simps)
  have q: "empty_queue rp fuel (?b + MP + MP) i (sys_queue s Queue12)" "empty_queue rp fuel (?b + MP + MP) i (sys_queue s Queue23)"
    "new_queue rp fuel 0 (sys_queue s Queue32)" and pc: "sys_pc s = first_pc i"
    using r unfolding first_round_def bb by blast+
  have small: "i < 2 ^ 32 - 1" using i by simp
  from enqueue_empty [OF q(1) small zero_not_EMPTY] obtain q1 call where
    q1: "enqueue rp 0 None (sys_queue s Queue12) = Some (Inr (None, q1, call))" "used_queue rp fuel (?b + MP) q1 [0]" "q_ec (fst q1) = ec_word (Suc i) 0" by blast
  have "used_queue rp fuel (Suc ?b) q1 [0]" by (rule used_queue_mono [OF q1(2)]) simp
  from dequeue_used [OF this, of "\<lambda>s. s"] obtain q2 where
    q2: "dequeue rp fuel (\<lambda>s. s) q1 = Some (0, q2)" "used_queue rp fuel ?b q2 []" "fst q2 = fst q1" by blast
  from enqueue_empty [OF q(2) small zero_not_EMPTY] obtain q3 call' where
    q3: "enqueue rp 0 None (sys_queue s Queue23) = Some (Inr (None, q3, call'))" "used_queue rp fuel (?b + MP) q3 [0]" "q_ec (fst q3) = ec_word (Suc i) 0" by blast
  from spinDequeue_used [OF q3(2)] obtain q4 where
    q4: "spinDequeue rp fuel q3 = Some (0, q4)" "used_queue rp fuel ?b q4 []" "fst q4 = fst q3" by auto
  define s1 where "s1 = after i Queue12 q1 (S_spinDequeue 0 0) s"
  define s2 where "s2 = after (6 + i) Queue12 q2 (I_enqueue 0 0 0) s1"
  define s3 where "s3 = after (6 + i) Queue23 q3 (I_spinDequeue 0 0) s2"
  define s4 where "s4 = after i Queue23 q4 (S_enqueue 0 1) s3"
  note defs = s1_def s2_def s3_def s4_def
  have "main_step rp fuel N R s s1"
    by (rule call_step [of i _ "S_enqueue 0 0"]) (use i q1(1) in \<open>simp_all add: pc first_pc_def do_enqueue_def s1_def\<close>)
  moreover have "main_step rp fuel N R s1 s2"
    by (rule call_step [of "6 + i" _ "I_dequeue 0 0"]) (use i q2(1) in \<open>simp_all add: pc first_pc_def do_dequeue_def s1_def s2_def\<close>)
  moreover have "main_step rp fuel N R s2 s3"
    by (rule call_step [of "6 + i" _ "I_enqueue 0 0 0"]) (use i q3(1) in \<open>simp_all add: do_enqueue_def s1_def s2_def s3_def\<close>)
  moreover have "main_step rp fuel N R s3 s4"
    by (rule call_step [of i _ "S_spinDequeue 0 0"]) (use i q4(1) N in \<open>simp_all add: do_spinDequeue_def sender_loop_def defs\<close>)
  ultimately have "(main_step rp fuel N R)\<^sup>*\<^sup>* s s4" by (meson converse_rtranclp_into_rtranclp rtranclp.rtrancl_refl)
  moreover have "sys_pc s4 = first_pc (Suc i)" using i by (auto simp: defs pc first_pc_def fun_eq_iff)
  then have "first_round rp fuel b (Suc i) s4" using q2 q4 q1(3) q3(3) q(3)
    by (simp add: first_round_def empty_queue_def) (simp add: defs)
  ultimately show ?thesis by blast
qed

lemma of_nat_not_EMPTY: "k < 2 ^ 32 \<Longrightarrow> (of_nat k :: u64) \<noteq> EMPTY"
proof
  assume k: "k < 2 ^ 32" and "(of_nat k :: u64) = EMPTY"
  then have "unat (of_nat k :: u64) = 2 ^ 64 - 1" by (simp add: EMPTY_def unat_minus_1_64)
  moreover have "unat (of_nat k :: u64) = k" using k by (intro unat_of_nat_64) simp
  ultimately show False using k by simp
qed

text \<open>
  Afterwards every sender goes on alone: it fills \<open>queue12\<close> and finds nothing in \<open>queue23\<close>, until its loop is at its end.
\<close>

lemma sender_alone:
  assumes "i < 6" "k \<le> N" "N < 2 ^ 32" "sys_pc s i = sender_loop N R 0 k" "used_queue rp fuel (b + (N - k) * MP) (sys_queue s Queue12) xs"
    "used_queue rp fuel (b + (N - k) * MP) (sys_queue s Queue23) []" "q_ec (fst (sys_queue s Queue23)) = e"
  shows "\<exists>s' ys. (main_step rp fuel N R)\<^sup>*\<^sup>* s s' \<and> sys_pc s' = (sys_pc s)(i := next_run R 0) \<and> used_queue rp fuel b (sys_queue s' Queue12) ys \<and>
    used_queue rp fuel b (sys_queue s' Queue23) [] \<and> q_ec (fst (sys_queue s' Queue23)) = e \<and> sys_queue s' Queue32 = sys_queue s Queue32"
  using assms(2-)
proof (induction "N - k" arbitrary: k s xs)
  case 0
  then have "k = N" by simp
  with 0 have "sys_pc s = (sys_pc s)(i := next_run R 0)" by (auto simp: sender_loop_def)
  then show ?case using 0 \<open>k = N\<close> by (intro exI [of _ s] exI [of _ xs]) simp
next
  case (Suc n)
  have k: "k < N" "n = N - Suc k" using Suc(2) by simp_all
  let ?b = "b + (N - Suc k) * MP"
  have bb: "b + (N - k) * MP = ?b + MP" using k(1) by (simp add: Suc_diff_Suc [symmetric] algebra_simps)
  have a: "(of_nat k :: u64) \<noteq> EMPTY" using k(1) Suc(4) by (intro of_nat_not_EMPTY) simp
  have pc: "sys_pc s i = S_enqueue 0 k" using Suc(5) k by (simp add: sender_loop_def)
  from enqueue_used [OF disjI1 [OF Suc(6) [unfolded bb]] a] obtain q1 call where
    q1: "enqueue rp (of_nat k) None (sys_queue s Queue12) = Some (Inr (None, q1, call))" "used_queue rp fuel ?b q1 (xs @ [of_nat k])" by blast
  from spinDequeue_used [OF Suc(7) [unfolded bb]] obtain q2 where
    q2: "spinDequeue rp fuel (sys_queue s Queue23) = Some (EMPTY, q2)" "used_queue rp fuel ?b q2 []" "fst q2 = fst (sys_queue s Queue23)" by auto
  define s1 where "s1 = after i Queue12 q1 (S_spinDequeue 0 k) s"
  define s2 where "s2 = after i Queue23 q2 (sender_loop N R 0 (Suc k)) s1"
  have "main_step rp fuel N R s s1"
    by (rule call_step [of i _ "S_enqueue 0 k"]) (use assms(1) q1(1) in \<open>simp_all add: pc do_enqueue_def s1_def\<close>)
  moreover have "main_step rp fuel N R s1 s2"
    by (rule call_step [of i _ "S_spinDequeue 0 k"]) (use assms(1) q2(1) in \<open>simp_all add: do_spinDequeue_def s1_def s2_def\<close>)
  ultimately have st: "(main_step rp fuel N R)\<^sup>*\<^sup>* s s2" by (meson converse_rtranclp_into_rtranclp rtranclp.rtrancl_refl)
  have "\<exists>s' ys. (main_step rp fuel N R)\<^sup>*\<^sup>* s2 s' \<and> sys_pc s' = (sys_pc s2)(i := next_run R 0) \<and> used_queue rp fuel b (sys_queue s' Queue12) ys \<and>
    used_queue rp fuel b (sys_queue s' Queue23) [] \<and> q_ec (fst (sys_queue s' Queue23)) = e \<and> sys_queue s' Queue32 = sys_queue s2 Queue32"
    by (rule Suc(1) [OF k(2), where xs = "xs @ [of_nat k]"]) (use k Suc(4,8) q1(2) q2(2,3) in \<open>simp_all add: s1_def s2_def\<close>)
  moreover have "(sys_pc s2)(i := next_run R 0) = (sys_pc s)(i := next_run R 0)" "sys_queue s2 Queue32 = sys_queue s Queue32"
    by (simp_all add: s1_def s2_def)
  ultimately show ?case using rtranclp_trans [OF st] by metis
qed

definition second_pc :: "nat \<Rightarrow> nat \<Rightarrow> nat \<Rightarrow> main_pc" where
  "second_pc R i t = (if t < 6 then (if t < i then next_run R 0 else S_enqueue 0 1)
     else if t < 12 then I_spinDequeue 0 0 else if t < 18 then R_dequeue 0 0 else Returned)"

definition second_round :: "nat \<Rightarrow> nat \<Rightarrow> nat \<Rightarrow> nat \<Rightarrow> nat \<Rightarrow> nat \<Rightarrow> system \<Rightarrow> bool" where
  "second_round rp fuel N R b i s \<longleftrightarrow> sys_pc s = second_pc R i \<and> (\<exists>xs. used_queue rp fuel (b + (6 - i) * ((N - 1) * MP)) (sys_queue s Queue12) xs) \<and>
     used_queue rp fuel (b + (6 - i) * ((N - 1) * MP)) (sys_queue s Queue23) [] \<and> q_ec (fst (sys_queue s Queue23)) = ec_word 6 0 \<and>
     new_queue rp fuel 0 (sys_queue s Queue32)"

lemma second_round_step:
  assumes r: "second_round rp fuel N R b i s" and i: "i < 6" and N: "2 \<le> N" "N < 2 ^ 32"
  shows "\<exists>s'. (main_step rp fuel N R)\<^sup>*\<^sup>* s s' \<and> second_round rp fuel N R b (Suc i) s'"
proof -
  let ?b = "b + (6 - Suc i) * ((N - 1) * MP)"
  have bb: "b + (6 - i) * ((N - 1) * MP) = ?b + (N - 1) * MP"
  proof -
    have "6 - i = Suc (6 - Suc i)" using i by simp
    then show ?thesis by (simp only: mult_Suc ac_simps)
  qed
  obtain xs where q: "used_queue rp fuel (?b + (N - 1) * MP) (sys_queue s Queue12) xs" "used_queue rp fuel (?b + (N - 1) * MP) (sys_queue s Queue23) []"
    "q_ec (fst (sys_queue s Queue23)) = ec_word 6 0" "new_queue rp fuel 0 (sys_queue s Queue32)" and pc: "sys_pc s = second_pc R i"
    using r unfolding second_round_def bb by blast
  have "sys_pc s i = sender_loop N R 0 1" using pc i N by (simp add: second_pc_def sender_loop_def)
  from sender_alone [OF i _ N(2) this q(1,2,3)] N obtain s' ys where
    s': "(main_step rp fuel N R)\<^sup>*\<^sup>* s s'" "sys_pc s' = (sys_pc s)(i := next_run R 0)" "used_queue rp fuel ?b (sys_queue s' Queue12) ys"
    "used_queue rp fuel ?b (sys_queue s' Queue23) []" "q_ec (fst (sys_queue s' Queue23)) = ec_word 6 0" "sys_queue s' Queue32 = sys_queue s Queue32"
    by auto
  have "sys_pc s' = second_pc R (Suc i)" using s'(2) pc i by (auto simp: second_pc_def fun_eq_iff)
  then have "second_round rp fuel N R b (Suc i) s'" using s' q(4) by (auto simp: second_round_def)
  then show ?thesis using s'(1) by blast
qed

lemma rounds:
  assumes "\<And>i s. P i s \<Longrightarrow> i < n \<Longrightarrow> \<exists>s'. r\<^sup>*\<^sup>* s s' \<and> P (Suc i) s'" "P 0 s" "i \<le> n"
  shows "\<exists>s'. r\<^sup>*\<^sup>* s s' \<and> P i s'"
  using assms(3)
proof (induction i)
  case (Suc i)
  then obtain s1 where "r\<^sup>*\<^sup>* s s1" "P i s1" by auto
  with assms(1) [OF this(2)] Suc.prems show ?case by (meson Suc_le_lessD rtranclp_trans)
qed (use assms(2) in blast)

lemma stuck_end:
  assumes "second_round rp fuel N R 2 6 s"
  shows "\<not> main_step rp fuel N R s s'"
proof
  assume st: "main_step rp fuel N R s s'"
  have pc: "sys_pc s = second_pc R 6" and q: "used_queue rp fuel 2 (sys_queue s Queue23) []" "q_ec (fst (sys_queue s Queue23)) = ec_word 6 0"
    "new_queue rp fuel 0 (sys_queue s Queue32)"
    using assms by (simp_all add: second_round_def)
  have d: "dequeue rp fuel (\<lambda>s. s) (sys_queue s Queue23) = None" by (rule dequeue_stuck [OF q(1,2)]) simp_all
  have sd: "spinDequeue rp fuel (sys_queue s Queue32) = None" by (rule new_stuck(1) [OF q(3)])
  from st show False
  proof cases
    case barrier
    from spec [OF this(2), of 6] show False by (simp add: pc second_pc_def NUM_THREAD_def)
  next
    case (call t)
    then have t: "t < 18" "main_call rp fuel N R t (main_params (t mod NUM_THREAD)) (second_pc R 6 t) s = Some s'" by (simp_all add: NUM_THREAD_def pc)
    then show False by (auto simp: second_pc_def next_run_def do_spinDequeue_def do_dequeue_def sd d split: if_splits)
  qed
qed

section \<open>Properties\<close>

text \<open>
  (C10) The simulation can hang. With the queues as \<open>main\<close> sets them up, for every number of iterations from 2 on (the default is 100)
  and enough memory, there is an execution that reaches a state in which no thread can make a step: all senders are
  done, all intermediates are in \<open>spinDequeue\<close> on \<open>queue32\<close>, which was never used, and all receivers wait
  for a message in \<open>queue23\<close>, because the senders, whose \<open>q21\<close> is \<open>queue23\<close>, have taken the messages meant for them. In particular
  \<open>main\<close>, which waits for its processes, does not return.
\<close>

theorem simulation_can_hang:
  assumes mem: "\<And>x. fresh_mem rp (Suc n) (ms x)" and rp: "rp < 64" and N: "2 \<le> N" "N < 2 ^ 32" and R: "0 < R"
    and n: "6 * (N + 2) \<le> n" and fuel: "MP * n < fuel" "fuel \<le> 2 ^ 62"
  shows "\<exists>s. (main_step rp fuel N R)\<^sup>*\<^sup>* (main_init rp ms R) s \<and> (\<forall>s'. \<not> main_step rp fuel N R s s') \<and>
    (\<forall>t < 6. sys_pc s t = next_run R 0) \<and> (\<forall>t. 6 \<le> t \<and> t < 12 \<longrightarrow> sys_pc s t = I_spinDequeue 0 0) \<and>
    (\<forall>t. 12 \<le> t \<and> t < 18 \<longrightarrow> sys_pc s t = R_dequeue 0 0)"
proof -
  let ?b = "2 + 6 * ((N - 1) * MP)" and ?s0 = "main_init rp ms R"
  define s1 where "s1 = ?s0\<lparr>sys_pc := (\<lambda>t. if t < 3 * NUM_THREAD then enter_run N R t (sys_pc ?s0 t) else sys_pc ?s0 t)\<rparr>"
  have b: "?b + (6 - 0) * (2 * MP) \<le> MP * n"
  proof -
    have "?b + (6 - 0) * (2 * MP) \<le> MP * (6 * (N + 2))" using N(1) by (cases N) (simp_all add: algebra_simps)
    also have "\<dots> \<le> MP * n" using n by (rule mult_le_mono2)
    finally show ?thesis .
  qed
  have new: "new_queue rp fuel k (sys_queue s1 x)" "q_ec (fst (sys_queue s1 x)) = ec_word 0 0" if "k \<le> MP * n" for k x
    using init_new [OF mem [of x] rp that, of fuel] fuel that by (auto simp: s1_def main_init_def)
  have st1: "main_step rp fuel N R ?s0 s1"
    unfolding s1_def by (rule main_step.barrier) (simp add: main_init_def R)
  have pc1: "sys_pc s1 = first_pc 0"
    using N R by (auto simp: s1_def main_init_def enter_run_def first_pc_def fun_eq_iff NUM_THREAD_def sender_loop_def intermediate_loop_def receiver_loop_def)
  have "first_round rp fuel ?b 0 s1" using pc1 new [OF b] new [of 0] by (simp add: first_round_def empty_queue_def)
  from rounds [of "first_round rp fuel ?b" 6 "main_step rp fuel N R", OF _ this, of 6] first_round_step [OF _ _ N(1)] obtain s2 where
    s2: "(main_step rp fuel N R)\<^sup>*\<^sup>* s1 s2" "first_round rp fuel ?b 6 s2" by blast
  have "sys_pc s2 = second_pc R 0" using s2(2) by (auto simp: first_round_def first_pc_def second_pc_def fun_eq_iff)
  then have "second_round rp fuel N R 2 0 s2" using s2(2) by (auto simp: first_round_def second_round_def empty_queue_def)
  from rounds [of "second_round rp fuel N R 2" 6 "main_step rp fuel N R", OF _ this, of 6] second_round_step [OF _ _ N] obtain s3 where
    s3: "(main_step rp fuel N R)\<^sup>*\<^sup>* s2 s3" "second_round rp fuel N R 2 6 s3" by blast
  have "(main_step rp fuel N R)\<^sup>*\<^sup>* ?s0 s3" using st1 s2(1) s3(1) by (meson converse_rtranclp_into_rtranclp rtranclp_trans)
  moreover have "sys_pc s3 = second_pc R 6" using s3(2) by (simp add: second_round_def)
  ultimately show ?thesis using stuck_end [OF s3(2)] by (intro exI [of _ s3]) (auto simp: second_pc_def)
qed

text \<open>Memory for the witness: blocks for rings of two cells.\<close>

definition demo_blocks :: "qname \<Rightarrow> mem" where
  "demo_blocks x = demo_mem\<lparr>pool := replicate 25 (hd (pool demo_mem))\<rparr>"

theorem simulation_can_hang_witness:
  "\<exists>s. (main_step 1 (2 ^ 62) 2 1)\<^sup>*\<^sup>* (main_init 1 demo_blocks 1) s \<and> (\<forall>s'. \<not> main_step 1 (2 ^ 62) 2 1 s s') \<and>
     sys_pc s 12 = R_dequeue 0 0"
proof -
  have mem: "fresh_mem 1 (Suc 24) (demo_blocks x)" for x by (simp add: fresh_mem_def demo_blocks_def demo_mem_def)
  have "\<exists>s. (main_step 1 (2 ^ 62) 2 1)\<^sup>*\<^sup>* (main_init 1 demo_blocks 1) s \<and> (\<forall>s'. \<not> main_step 1 (2 ^ 62) 2 1 s s') \<and>
      (\<forall>t < 6. sys_pc s t = next_run 1 0) \<and> (\<forall>t. 6 \<le> t \<and> t < 12 \<longrightarrow> sys_pc s t = I_spinDequeue 0 0) \<and>
      (\<forall>t. 12 \<le> t \<and> t < 18 \<longrightarrow> sys_pc s t = R_dequeue 0 0)"
    by (rule simulation_can_hang [OF mem]) (simp_all add: MAX_PATIENCE_def)
  then obtain s where "(main_step 1 (2 ^ 62) 2 1)\<^sup>*\<^sup>* (main_init 1 demo_blocks 1) s" "\<forall>s'. \<not> main_step 1 (2 ^ 62) 2 1 s s'"
    "\<forall>t. 12 \<le> t \<and> t < 18 \<longrightarrow> sys_pc s t = R_dequeue 0 0" by blast
  then show ?thesis by (intro exI [of _ s]) simp
qed

section \<open>Accounts of the messages\<close>

text \<open>
  How many messages a sender has put into \<open>queue12\<close> and an intermediate has taken from it, by the place where the thread is, and which
  places belong to thread \<open>t\<close>.
\<close>

fun sent :: "nat \<Rightarrow> nat \<Rightarrow> main_pc \<Rightarrow> nat" where
  "sent N R (Wait j) = j * N"
| "sent N R (S_enqueue j k) = j * N + k"
| "sent N R (S_spinDequeue j k) = j * N + k + 1"
| "sent N R c = R * N"

fun got :: "nat \<Rightarrow> nat \<Rightarrow> main_pc \<Rightarrow> nat" where
  "got N R (Wait j) = j * (N - 1)"
| "got N R (I_dequeue j k) = j * (N - 1) + k"
| "got N R (I_enqueue j k d) = j * (N - 1) + k + 1"
| "got N R (I_spinDequeue j k) = j * (N - 1) + k + 1"
| "got N R (I_spinEnqueue j k d) = j * (N - 1) + k + 1"
| "got N R c = R * (N - 1)"

fun place_ok :: "nat \<Rightarrow> nat \<Rightarrow> nat \<Rightarrow> main_pc \<Rightarrow> bool" where
  "place_ok N R t (Wait j) = (j < R)"
| "place_ok N R t (S_enqueue j k) = (t < 6 \<and> j < R \<and> k < N)"
| "place_ok N R t (S_spinDequeue j k) = (t < 6 \<and> j < R \<and> k < N)"
| "place_ok N R t (I_dequeue j k) = (6 \<le> t \<and> t < 12 \<and> j < R \<and> k < N - 1)"
| "place_ok N R t (I_enqueue j k d) = (6 \<le> t \<and> t < 12 \<and> j < R \<and> k < N - 1)"
| "place_ok N R t (I_spinDequeue j k) = (6 \<le> t \<and> t < 12 \<and> j < R \<and> k < N - 1)"
| "place_ok N R t (I_spinEnqueue j k d) = (6 \<le> t \<and> t < 12 \<and> j < R \<and> k < N - 1)"
| "place_ok N R t (R_dequeue j k) = (12 \<le> t \<and> j < R \<and> k < N)"
| "place_ok N R t (R_spinEnqueue j k d) = (12 \<le> t \<and> j < R \<and> k < N)"
| "place_ok N R t Returned = True"
| "place_ok N R t Crashed = True"

definition all_sent :: "nat \<Rightarrow> nat \<Rightarrow> system \<Rightarrow> nat" where
  "all_sent N R s = (\<Sum>t < 6. sent N R (sys_pc s t))"

definition all_got :: "nat \<Rightarrow> nat \<Rightarrow> system \<Rightarrow> nat" where
  "all_got N R s = (\<Sum>t \<in> {6..<12}. got N R (sys_pc s t))"

definition queue12_ok :: "nat \<Rightarrow> nat \<Rightarrow> nat \<Rightarrow> nat \<Rightarrow> nat \<Rightarrow> ELCRQ \<times> mem \<Rightarrow> bool" where
  "queue12_ok rp fuel B S G q \<longleftrightarrow> (\<exists>b. b + MP * (S + G) = B \<and> q_ec (fst q) = ec_word S 0 \<and>
     (new_queue rp fuel b q \<and> S = 0 \<and> G = 0 \<or> (\<exists>xs. used_queue rp fuel b q xs \<and> length xs + G = S)))"

definition account_inv :: "nat \<Rightarrow> nat \<Rightarrow> nat \<Rightarrow> nat \<Rightarrow> nat \<Rightarrow> ELCRQ \<times> mem \<Rightarrow> system \<Rightarrow> bool" where
  "account_inv rp fuel N R B q21 s \<longleftrightarrow> sys_queue s Queue21 = q21 \<and> (\<forall>t < 18. place_ok N R t (sys_pc s t)) \<and>
     ((\<exists>t < 18. sys_pc s t = Crashed) \<or> queue12_ok rp fuel B (all_sent N R s) (all_got N R s) (sys_queue s Queue12))"

lemma mult_bound: "j < R \<Longrightarrow> k \<le> N \<Longrightarrow> j * N + k \<le> R * (N :: nat)"
proof -
  assume "j < R" "k \<le> N"
  then have "j * N + k \<le> Suc j * N" by simp
  also have "\<dots> \<le> R * N" using \<open>j < R\<close> by (intro mult_le_mono1) simp
  finally show ?thesis .
qed

lemma sent_le: "place_ok N R t c \<Longrightarrow> sent N R c \<le> R * N"
  by (cases c) (auto intro: mult_bound mult_bound [of _ _ "Suc _", simplified])

lemma got_le: "place_ok N R t c \<Longrightarrow> got N R c \<le> R * N"
proof -
  have "R * (N - 1) \<le> R * N" by simp
  moreover assume "place_ok N R t c"
  then have "got N R c \<le> R * (N - 1)"
    by (cases c) (auto intro: mult_bound mult_bound [of _ _ "Suc _", simplified])
  ultimately show ?thesis using le_trans by blast
qed

lemma next_run_account: "j < R \<Longrightarrow> sent N R (next_run R j) = Suc j * N" "j < R \<Longrightarrow> got N R (next_run R j) = Suc j * (N - 1)"
  "j < R \<Longrightarrow> place_ok N R t (next_run R j)"
  by (auto simp: next_run_def) (metis Suc_lessI mult_Suc)+

lemma loop_account:
  "j < R \<Longrightarrow> k \<le> N \<Longrightarrow> sent N R (sender_loop N R j k) = j * N + k"
  "j < R \<Longrightarrow> k \<le> N - 1 \<Longrightarrow> got N R (intermediate_loop N R j k) = j * (N - 1) + k"
  "j < R \<Longrightarrow> k \<le> N \<Longrightarrow> t < 6 \<Longrightarrow> place_ok N R t (sender_loop N R j k)"
  "j < R \<Longrightarrow> k \<le> N - 1 \<Longrightarrow> 6 \<le> t \<Longrightarrow> t < 12 \<Longrightarrow> place_ok N R t (intermediate_loop N R j k)"
  "j < R \<Longrightarrow> k \<le> N \<Longrightarrow> 12 \<le> t \<Longrightarrow> place_ok N R t (receiver_loop N R j k)"
  by (auto simp: sender_loop_def intermediate_loop_def receiver_loop_def next_run_account)

lemma loop_not_Crashed [simp]:
  "sender_loop N R j k \<noteq> Crashed" "intermediate_loop N R j k \<noteq> Crashed" "receiver_loop N R j k \<noteq> Crashed" "next_run R j \<noteq> Crashed"
  by (simp_all add: sender_loop_def intermediate_loop_def receiver_loop_def next_run_def)

lemma sum_upd: "finite A \<Longrightarrow> t \<in> A \<Longrightarrow> (\<Sum>x \<in> A. f ((g(t := c)) x)) + f (g t) = (\<Sum>x \<in> A. f (g x)) + (f c :: nat)"
  by (simp add: sum.remove [of A t])

lemma sum_upd_other: "t \<notin> A \<Longrightarrow> (\<Sum>x \<in> A. f ((g(t := c)) x)) = (\<Sum>x \<in> A. f (g x))"
  by (rule sum.cong) auto

lemma account_pcs:
  assumes "sys_pc s' = (sys_pc s)(t := c)"
  shows "t < 6 \<Longrightarrow> all_sent N R s' + sent N R (sys_pc s t) = all_sent N R s + sent N R c" "\<not> t < 6 \<Longrightarrow> all_sent N R s' = all_sent N R s"
    "6 \<le> t \<Longrightarrow> t < 12 \<Longrightarrow> all_got N R s' + got N R (sys_pc s t) = all_got N R s + got N R c" "\<not> (6 \<le> t \<and> t < 12) \<Longrightarrow> all_got N R s' = all_got N R s"
  unfolding all_sent_def all_got_def assms
  by (rule sum_upd sum_upd_other; simp)+

lemma inv_upd:
  assumes inv: "account_inv rp fuel N R B q21 s" and pc: "sys_pc s' = (sys_pc s)(t := c)" and t: "t < 18" "place_ok N R t c"
    and q: "sys_queue s' Queue21 = sys_queue s Queue21"
    and step: "c \<noteq> Crashed \<Longrightarrow> sys_pc s t \<noteq> Crashed \<Longrightarrow> queue12_ok rp fuel B (all_sent N R s) (all_got N R s) (sys_queue s Queue12) \<Longrightarrow>
      queue12_ok rp fuel B (all_sent N R s') (all_got N R s') (sys_queue s' Queue12)" and live: "sys_pc s t \<noteq> Crashed"
  shows "account_inv rp fuel N R B q21 s'"
proof (cases "c = Crashed")
  case True
  then show ?thesis using inv pc t q by (auto simp: account_inv_def)
next
  case False
  have "(\<exists>u < 18. sys_pc s' u = Crashed) \<or> queue12_ok rp fuel B (all_sent N R s') (all_got N R s') (sys_queue s' Queue12)"
  proof (cases "\<exists>u < 18. sys_pc s u = Crashed")
    case True
    then obtain u where "u < 18" "sys_pc s u = Crashed" by blast
    then show ?thesis using live pc by (intro disjI1 exI [of _ u]) auto
  next
    case n: False
    then show ?thesis using inv step [OF False live] by (auto simp: account_inv_def)
  qed
  then show ?thesis using inv pc t q by (simp add: account_inv_def)
qed

text \<open>A call on another queue that leaves the account of the thread as it is.\<close>

lemma inv_other:
  assumes inv: "account_inv rp fuel N R B q21 s" and t: "t < 18" "place_ok N R t c" and x: "x = Queue23 \<or> x = Queue32" and live: "sys_pc s t \<noteq> Crashed"
    and same: "t < 6 \<Longrightarrow> sent N R c = sent N R (sys_pc s t)" "6 \<le> t \<Longrightarrow> t < 12 \<Longrightarrow> got N R c = got N R (sys_pc s t)"
  shows "account_inv rp fuel N R B q21 (after t x q c s)"
proof (rule inv_upd [OF inv _ t])
  note ac = account_pcs [of "after t x q c s" s t c N R, simplified]
  have "all_sent N R (after t x q c s) = all_sent N R s" using ac(1,2) same(1) by (cases "t < 6") simp_all
  moreover have "all_got N R (after t x q c s) = all_got N R s" using ac(3,4) same(2) by (cases "6 \<le> t \<and> t < 12") auto
  ultimately show "queue12_ok rp fuel B (all_sent N R (after t x q c s)) (all_got N R (after t x q c s)) (sys_queue (after t x q c s) Queue12)"
    if "queue12_ok rp fuel B (all_sent N R s) (all_got N R s) (sys_queue s Queue12)"
    using that x by auto
qed (use x live in auto)

lemma inv_crash:
  assumes "account_inv rp fuel N R B q21 s" "t < 18"
  shows "account_inv rp fuel N R B q21 (s\<lparr>sys_pc := (sys_pc s)(t := Crashed)\<rparr>)"
  using assms by (auto simp: account_inv_def)

lemma account_bounds:
  assumes "\<forall>t < 18. place_ok N R t (sys_pc s t)"
  shows "all_sent N R s \<le> 6 * (R * N)" "all_got N R s \<le> 6 * (R * N)"
proof -
  have le: "sent N R (sys_pc s t) \<le> R * N" "got N R (sys_pc s t) \<le> R * N" if "t < 18" for t
    using assms that sent_le got_le by blast+
  have "all_sent N R s \<le> (\<Sum>t < (6 :: nat). R * N)" unfolding all_sent_def by (rule sum_mono) (rule le, simp)
  then show "all_sent N R s \<le> 6 * (R * N)" by simp
  have "all_got N R s \<le> (\<Sum>t \<in> {6 ..< 12 :: nat}. R * N)" unfolding all_got_def by (rule sum_mono) (rule le, simp)
  then show "all_got N R s \<le> 6 * (R * N)" by simp
qed

text \<open>The two calls on \<open>queue12\<close>.\<close>

lemma queue12_enqueue:
  assumes q: "queue12_ok rp fuel B S G q" and lim: "MP * (S + G + 1) \<le> B" "S < 2 ^ 32 - 1" and a: "a \<noteq> EMPTY"
  shows "\<exists>q' call. enqueue rp a None q = Some (Inr (None, q', call)) \<and> queue12_ok rp fuel B (Suc S) G q'"
proof -
  obtain b where b: "b + MP * (S + G) = B" and ec: "q_ec (fst q) = ec_word S 0"
    and st: "new_queue rp fuel b q \<and> S = 0 \<and> G = 0 \<or> (\<exists>xs. used_queue rp fuel b q xs \<and> length xs + G = S)"
    using q by (auto simp: queue12_ok_def)
  obtain d where d: "b = d + MP" using b lim(1) le_Suc_ex [of MP b] by (auto simp: add.commute)
  obtain xs where xs: "used_queue rp fuel (d + MP) q xs \<or> new_queue rp fuel (d + MP) q \<and> xs = []" "length xs + G = S"
    using st d by (metis list.size(3) add_0)
  from enqueue_used [OF xs(1) a] obtain q' call where
    q': "enqueue rp a None q = Some (Inr (None, q', call))" "used_queue rp fuel d q' (xs @ [a])" "q_ec (fst q') = fst (notify (q_ec (fst q)))" by blast
  have "q_ec (fst q') = ec_word (Suc S) 0" using q'(3) ec lim(2) by (simp add: notify_def doNotify_word)
  moreover have "d + MP * (Suc S + G) = B" using b d by simp
  moreover have "length (xs @ [a]) + G = Suc S" using xs(2) by simp
  ultimately have "queue12_ok rp fuel B (Suc S) G q'" unfolding queue12_ok_def using q'(2) by blast
  then show ?thesis using q'(1) by blast
qed

lemma queue12_dequeue:
  assumes q: "queue12_ok rp fuel B S G q" and lim: "MP * (S + G + 1) \<le> B" "S < 2 ^ 32" and d: "dequeue rp fuel (\<lambda>s. s) q = Some (v, q')"
  shows "queue12_ok rp fuel B S (Suc G) q'"
proof -
  obtain b where b: "b + MP * (S + G) = B" and ec: "q_ec (fst q) = ec_word S 0"
    and st: "new_queue rp fuel b q \<and> S = 0 \<and> G = 0 \<or> (\<exists>xs. used_queue rp fuel b q xs \<and> length xs + G = S)"
    using q by (auto simp: queue12_ok_def)
  obtain e where e: "b = e + MP" using b lim(1) le_Suc_ex [of MP b] by (auto simp: add.commute)
  obtain xs where xs: "used_queue rp fuel b q xs" "length xs + G = S" using st new_stuck(2) d by fastforce
  have "xs \<noteq> []"
  proof
    assume "xs = []"
    then have "used_queue rp fuel 2 q []" using used_queue_mono [OF xs(1), of 2] e by (simp add: MAX_PATIENCE_def)
    from dequeue_stuck [OF this ec lim(2)] d show False by simp
  qed
  then obtain x ys where ys: "xs = x # ys" by (cases xs) auto
  have "used_queue rp fuel (Suc e) q (x # ys)" using used_queue_mono [OF xs(1), of "Suc e"] e ys by simp
  from dequeue_used [OF this, of "\<lambda>s. s"] d have "used_queue rp fuel e q' ys" "fst q' = fst q" by auto
  moreover have "e + MP * (S + Suc G) = B" "length ys + Suc G = S" using b e xs(2) ys by simp_all
  ultimately show ?thesis unfolding queue12_ok_def using ec by auto
qed

definition enough :: "nat \<Rightarrow> nat \<Rightarrow> nat \<Rightarrow> bool" where
  "enough N R B \<longleftrightarrow> 0 < N \<and> N < 2 ^ 32 \<and> 6 * (R * N) < 2 ^ 32 - 1 \<and> MP * (12 * (R * N) + 1) \<le> B"

lemma enough_for:
  assumes "enough N R B" "\<forall>t < 18. place_ok N R t (sys_pc s t)"
  shows "MP * (all_sent N R s + all_got N R s + 1) \<le> B" "all_sent N R s < 2 ^ 32 - 1"
proof -
  have "all_sent N R s + all_got N R s + 1 \<le> 12 * (R * N) + 1" using account_bounds [OF assms(2)] by simp
  then show "MP * (all_sent N R s + all_got N R s + 1) \<le> B"
    using assms(1) unfolding enough_def by (meson le_trans mult_le_mono2)
  show "all_sent N R s < 2 ^ 32 - 1" using account_bounds(1) [OF assms(2)] assms(1) unfolding enough_def by linarith
qed

lemma account_sender:
  assumes inv: "account_inv rp fuel N R B q21 s" and e: "enough N R B" and t: "t < 18" and pc: "sys_pc s t = S_enqueue j k"
    and call: "do_enqueue rp t Queue12 (of_nat k) (S_spinDequeue j k) s = Some s'"
  shows "account_inv rp fuel N R B q21 s'"
proof (cases "enqueue rp (of_nat k) None (sys_queue s Queue12)")
  case (Some r)
  have pl: "\<forall>t < 18. place_ok N R t (sys_pc s t)" and p: "t < 6" "j < R" "k < N" using inv t pc by (auto simp: account_inv_def)
  show ?thesis
  proof (cases r)
    case (Inl f)
    then have "s' = s\<lparr>sys_pc := (sys_pc s)(t := Crashed)\<rparr>" using call Some by (simp add: do_enqueue_def)
    then show ?thesis using inv_crash [OF inv t] by simp
  next
    case (Inr x)
    obtain nrq q c where x: "x = (nrq, q, c)" by (cases x)
    then have s': "s' = after t Queue12 q (S_spinDequeue j k) s" using call Some Inr by (simp add: do_enqueue_def)
    have acc: "all_sent N R s' = Suc (all_sent N R s)" "all_got N R s' = all_got N R s"
      using account_pcs [of s' s t "S_spinDequeue j k" N R] p pc s' by simp_all
    show ?thesis
    proof (rule inv_upd [OF inv _ t])
      show "queue12_ok rp fuel B (all_sent N R s') (all_got N R s') (sys_queue s' Queue12)"
        if "queue12_ok rp fuel B (all_sent N R s) (all_got N R s) (sys_queue s Queue12)"
        using queue12_enqueue [OF that enough_for [OF e pl], of "of_nat k"] p(3) e Some Inr x acc s' of_nat_not_EMPTY [of k]
        by (auto simp: enough_def)
    qed (use s' p pc in auto)
  qed
qed (use call in \<open>simp add: do_enqueue_def\<close>)

lemma account_intermediate:
  assumes inv: "account_inv rp fuel N R B q21 s" and e: "enough N R B" and t: "t < 18" and pc: "sys_pc s t = I_dequeue j k"
    and call: "do_dequeue rp fuel t Queue12 (I_enqueue j k) s = Some s'"
  shows "account_inv rp fuel N R B q21 s'"
proof -
  have pl: "\<forall>t < 18. place_ok N R t (sys_pc s t)" and p: "6 \<le> t" "t < 12" "j < R" "k < N - 1" using inv t pc by (auto simp: account_inv_def)
  obtain v q where d: "dequeue rp fuel (\<lambda>s. s) (sys_queue s Queue12) = Some (v, q)" and s': "s' = after t Queue12 q (I_enqueue j k v) s"
    using call by (auto simp: do_dequeue_def split: option.splits)
  have acc: "all_sent N R s' = all_sent N R s" "all_got N R s' = Suc (all_got N R s)"
    using account_pcs [of s' s t "I_enqueue j k v" N R] p pc s' by simp_all
  have lim: "all_sent N R s < 2 ^ 32" using enough_for(2) [OF e pl] by simp
  show ?thesis
  proof (rule inv_upd [OF inv _ t])
    show "queue12_ok rp fuel B (all_sent N R s') (all_got N R s') (sys_queue s' Queue12)"
      if "queue12_ok rp fuel B (all_sent N R s) (all_got N R s) (sys_queue s Queue12)"
      using queue12_dequeue [OF that enough_for(1) [OF e pl] lim d] acc s' by simp
  qed (use s' p pc in auto)
qed

lemma account_call:
  assumes inv: "account_inv rp fuel N R B q21 s" and e: "enough N R B" and t: "t < 18"
    and call: "main_call rp fuel N R t (main_params i) (sys_pc s t) s = Some s'"
  shows "account_inv rp fuel N R B q21 s'"
proof -
  have pl: "place_ok N R t (sys_pc s t)" using inv t by (simp add: account_inv_def)
  note other = inv_other [OF inv t]
  note cr = inv_crash [OF inv t]
  show ?thesis
  proof (cases "sys_pc s t")
    case (S_enqueue j k)
    then show ?thesis using account_sender [OF inv e t S_enqueue] call by simp
  next
    case (I_dequeue j k)
    then show ?thesis using account_intermediate [OF inv e t I_dequeue] call by simp
  next
    case (S_spinDequeue j k)
    then show ?thesis using call pl loop_account [of j R "Suc k" N]
      by (auto simp: do_spinDequeue_def split: option.splits intro!: other)
  next
    case (I_enqueue j k d)
    then show ?thesis using call pl cr by (auto simp: do_enqueue_def split: option.splits sum.splits intro!: other)
  next
    case (I_spinDequeue j k)
    then show ?thesis using call pl by (auto simp: do_spinDequeue_def split: option.splits intro!: other)
  next
    case (I_spinEnqueue j k d)
    then show ?thesis using call pl cr loop_account [of j R "Suc k" N]
      by (auto simp: do_spinEnqueue_def split: option.splits sum.splits intro!: other)
  next
    case (R_dequeue j k)
    then show ?thesis using call pl by (auto simp: do_dequeue_def split: option.splits intro!: other)
  next
    case (R_spinEnqueue j k d)
    then show ?thesis using call pl cr loop_account [of j R "Suc k" N]
      by (auto simp: do_spinEnqueue_def split: option.splits sum.splits intro!: other)
  qed (use call in simp_all)
qed

lemma account_barrier:
  assumes inv: "account_inv rp fuel N R B q21 s" and N: "0 < N" and all: "\<forall>t < 3 * NUM_THREAD. \<exists>j. sys_pc s t = Wait j"
  defines "s' \<equiv> s\<lparr>sys_pc := (\<lambda>t. if t < 3 * NUM_THREAD then enter_run N R t (sys_pc s t) else sys_pc s t)\<rparr>"
  shows "account_inv rp fuel N R B q21 s'"
proof -
  have t: "\<exists>j. sys_pc s t = Wait j \<and> j < R" if "t < 18" for t
    using all inv that by (fastforce simp: account_inv_def NUM_THREAD_def)
  have pc: "sys_pc s' t = enter_run N R t (sys_pc s t)" if "t < 18" for t using that by (simp add: s'_def NUM_THREAD_def)
  have one: "place_ok N R t (sys_pc s' t)" "t < 6 \<Longrightarrow> sent N R (sys_pc s' t) = sent N R (sys_pc s t)"
    "6 \<le> t \<Longrightarrow> t < 12 \<Longrightarrow> got N R (sys_pc s' t) = got N R (sys_pc s t)" if "t < 18" for t
    using t [OF that] that loop_account [of _ R 0 N] by (auto simp: pc enter_run_def NUM_THREAD_def)
  have "all_sent N R s' = all_sent N R s" "all_got N R s' = all_got N R s"
    unfolding all_sent_def all_got_def by (rule sum.cong; use one in simp)+
  moreover have "\<not> (\<exists>t < 18. sys_pc s t = Crashed)" using t by fastforce
  then have "queue12_ok rp fuel B (all_sent N R s) (all_got N R s) (sys_queue s Queue12)" using inv by (auto simp: account_inv_def)
  moreover have "sys_queue s' = sys_queue s" by (simp add: s'_def)
  moreover have "sys_queue s Queue21 = q21" using inv by (simp add: account_inv_def)
  ultimately show ?thesis using one(1) by (simp add: account_inv_def)
qed

definition sim_start :: "nat \<Rightarrow> nat \<Rightarrow> nat \<Rightarrow> nat \<Rightarrow> nat \<Rightarrow> ELCRQ \<times> mem \<Rightarrow> system \<Rightarrow> bool" where
  "sim_start rp fuel N R n q21 s \<longleftrightarrow> rp < 64 \<and> enough N R (MP * n) \<and> MP * n < fuel \<and> fuel \<le> 2 ^ 62 \<and>
     (\<exists>ms. (\<forall>x. fresh_mem rp (Suc n) (ms x)) \<and> s = main_init rp ms R \<and> q21 = projr (init_queue rp (ms Queue21)))"

lemma sim_start_inv: "sim_start rp fuel N R n q21 s \<Longrightarrow> account_inv rp fuel N R (MP * n) q21 s"
proof -
  assume st: "sim_start rp fuel N R n q21 s"
  then obtain ms where ms: "\<forall>x. fresh_mem rp (Suc n) (ms x)" "s = main_init rp ms R" "q21 = projr (init_queue rp (ms Queue21))"
    by (auto simp: sim_start_def)
  have "\<exists>q. init_queue rp (ms Queue12) = Inr q \<and> new_queue rp fuel (MP * n) q \<and> q_ec (fst q) = ec_word 0 0"
    by (rule init_new [where n = n]) (use ms(1) st in \<open>simp_all add: sim_start_def\<close>)
  then have q: "new_queue rp fuel (MP * n) (sys_queue s Queue12)" "q_ec (fst (sys_queue s Queue12)) = ec_word 0 0"
    by (auto simp: ms(2) main_init_def)
  have "all_sent N R s = 0" "all_got N R s = 0" by (auto simp: all_sent_def all_got_def ms(2) main_init_def NUM_THREAD_def)
  then have "queue12_ok rp fuel (MP * n) (all_sent N R s) (all_got N R s) (sys_queue s Queue12)"
    unfolding queue12_ok_def using q by (intro exI [of _ "MP * n"]) simp
  then show ?thesis using ms by (simp add: account_inv_def) (auto simp: main_init_def)
qed

interpretation sim: state_machine "sim_start rp fuel N R n q21" "main_step rp fuel N R"
  "\<lambda>s. enough N R (MP * n) \<and> account_inv rp fuel N R (MP * n) q21 s" for rp fuel N R n q21
proof
  show "enough N R (MP * n) \<and> account_inv rp fuel N R (MP * n) q21 s" if "sim_start rp fuel N R n q21 s" for s
    using sim_start_inv [OF that] that by (simp add: sim_start_def)
  show "enough N R (MP * n) \<and> account_inv rp fuel N R (MP * n) q21 s'"
    if inv: "enough N R (MP * n) \<and> account_inv rp fuel N R (MP * n) q21 s" and st: "main_step rp fuel N R s s'" for s s'
    using st
  proof cases
    case barrier
    then show ?thesis using account_barrier [of rp fuel N R "MP * n" q21 s] inv by (simp add: enough_def)
  next
    case (call t)
    then show ?thesis using account_call [of rp fuel N R "MP * n" q21 s t] inv by (simp add: NUM_THREAD_def)
  qed
qed



end
