(* ===== verification/Cpp_Driver.thy ===== *)
theory Cpp_Driver
  imports Scrq Transition
begin

text \<open>
  The program of \<open>src/c++/main.cpp\<close>: a sender and an intermediate, one thread each in a process of its own, pass pointers to the
  elements of \<open>reqs\<close> to and fro along \<open>q12\<close> and \<open>q21\<close>. A step of the model is one whole call on a queue, made with the member functions
  of the theory \<open>Scrq\<close>, or the barrier, which the two threads pass together: the executions are those of the program in which calls
  on a queue do not overlap. A call that does not return is no step. \<open>NUM_ITERS\<close> and \<open>NUM_RUNS\<close> can be set by the build and
  are the arguments \<open>N\<close> and \<open>R\<close>; the memory managers of the four pools are the argument \<open>alloc\<close>, the address of \<open>reqs\<close> is \<open>base\<close>. The
  values that the sender reads are kept in \<open>cm_results\<close>, in order, where the program keeps the last one. Time measurement, pinning and
  printing are left out, as is \<open>receiver\<close>, whose process is commented out in \<open>main\<close>.
\<close>

section \<open>State\<close>

definition NUM_THREAD_cpp :: nat where "NUM_THREAD_cpp = 1"

datatype cpp_queue = Q12 | Q23 | Q32 | Q21

record cpp_params =
  cp_id :: nat
  cp_q12 :: cpp_queue
  cp_q23 :: cpp_queue
  cp_q32 :: cpp_queue
  cp_q21 :: cpp_queue

definition main_params_cpp :: "nat \<Rightarrow> cpp_params" where
  "main_params_cpp i = \<lparr>cp_id = i, cp_q12 = Q12, cp_q23 = Q23, cp_q32 = Q32, cp_q21 = Q21\<rparr>"

text \<open>
  Where a thread is: run \<open>j\<close>, iteration \<open>i\<close>; at the barrier the value of \<open>res\<close>, which is not initialised before the first run.
\<close>

datatype cpp_pc =
    At_barrier nat "u64 option"
  | Send nat nat | Poll nat nat
  | Take nat nat | Give nat nat u64
  | Ended | Faulted

record cpp_sim =
  cm_queue :: "cpp_queue \<Rightarrow> scrq"
  cm_sender :: cpp_pc
  cm_inter :: cpp_pc
  cm_results :: "u64 list"

text \<open>\<open>&reqs[i]\<close>.\<close>

definition req :: "nat \<Rightarrow> nat \<Rightarrow> u64" where
  "req base i = of_nat (base + 8 * i)"

section \<open>Steps\<close>

text \<open>
  The loops of \<open>sender\<close> and \<open>intermediate\<close>. After every run the sender tests \<open>res\<close>; after all runs the intermediate reads \<open>*res\<close>.
\<close>

definition sender_next :: "nat \<Rightarrow> nat \<Rightarrow> nat \<Rightarrow> nat \<Rightarrow> u64 option \<Rightarrow> cpp_pc" where
  "sender_next N R j i res =
     (if i < N then Send j i
      else case res of None \<Rightarrow> Faulted | Some _ \<Rightarrow> (if j + 1 < R then At_barrier (j + 1) res else Ended))"

definition inter_next :: "nat \<Rightarrow> nat \<Rightarrow> nat \<Rightarrow> nat \<Rightarrow> u64 option \<Rightarrow> cpp_pc" where
  "inter_next N R j i res =
     (if i < N then Take j i
      else if j + 1 < R then At_barrier (j + 1) res
      else case res of None \<Rightarrow> Faulted | Some v \<Rightarrow> (if v = 0 then Faulted else Ended))"

definition main_cpp_init :: "(cpp_queue \<Rightarrow> node_alloc) \<Rightarrow> nat \<Rightarrow> cpp_fault + cpp_sim" where
  "main_cpp_init alloc R =
     (case SCRQueue_ctor (alloc Q12) NUM_THREAD_cpp of Inl f \<Rightarrow> Inl f | Inr a \<Rightarrow>
      case SCRQueue_ctor (alloc Q23) NUM_THREAD_cpp of Inl f \<Rightarrow> Inl f | Inr b \<Rightarrow>
      case SCRQueue_ctor (alloc Q32) NUM_THREAD_cpp of Inl f \<Rightarrow> Inl f | Inr c \<Rightarrow>
      case SCRQueue_ctor (alloc Q21) NUM_THREAD_cpp of Inl f \<Rightarrow> Inl f | Inr d \<Rightarrow>
      Inr \<lparr>cm_queue = (\<lambda>x. case x of Q12 \<Rightarrow> a | Q23 \<Rightarrow> b | Q32 \<Rightarrow> c | Q21 \<Rightarrow> d),
           cm_sender = (if 0 < R then At_barrier 0 None else Ended),
           cm_inter = (if 0 < R then At_barrier 0 None else Faulted), cm_results = []\<rparr>)"

definition put_queue :: "cpp_queue \<Rightarrow> scrq \<Rightarrow> cpp_sim \<Rightarrow> cpp_sim" where
  "put_queue x q s = s\<lparr>cm_queue := (cm_queue s)(x := q)\<rparr>"

text \<open>The next call of the sender, and of the intermediate, whose thread number is \<open>id + NUM_THREAD\<close>.\<close>

definition sender_call :: "(cpp_queue \<Rightarrow> node_alloc) \<Rightarrow> nat \<Rightarrow> nat \<Rightarrow> nat \<Rightarrow> cpp_params \<Rightarrow> cpp_sim \<Rightarrow> cpp_sim option" where
  "sender_call alloc base N R p s =
     (case cm_sender s of
        Send j i \<Rightarrow>
          (case scr_enqueue (alloc (cp_q12 p)) (req base i) (cp_id p) (cm_queue s (cp_q12 p)) of
             None \<Rightarrow> None
           | Some (Inl f) \<Rightarrow> Some (s\<lparr>cm_sender := Faulted\<rparr>)
           | Some (Inr (q, _)) \<Rightarrow> Some ((put_queue (cp_q12 p) q s)\<lparr>cm_sender := Poll j i\<rparr>))
      | Poll j i \<Rightarrow>
          (case scr_spinDequeue (cp_id p) (cm_queue s (cp_q21 p)) of
             None \<Rightarrow> None
           | Some (Inl f) \<Rightarrow> Some (s\<lparr>cm_sender := Faulted\<rparr>)
           | Some (Inr (v, q)) \<Rightarrow>
               Some ((put_queue (cp_q21 p) q s)\<lparr>cm_sender := sender_next N R j (i + 1) (Some v), cm_results := cm_results s @ [v]\<rparr>))
      | _ \<Rightarrow> None)"

definition inter_call :: "(cpp_queue \<Rightarrow> node_alloc) \<Rightarrow> nat \<Rightarrow> nat \<Rightarrow> cpp_params \<Rightarrow> cpp_sim \<Rightarrow> cpp_sim option" where
  "inter_call alloc N R p s =
     (case cm_inter s of
        Take j i \<Rightarrow>
          (case scr_dequeue (\<lambda>s. s) (cp_id p + NUM_THREAD_cpp) (cm_queue s (cp_q12 p)) of
             None \<Rightarrow> None
           | Some (Inl f) \<Rightarrow> Some (s\<lparr>cm_inter := Faulted\<rparr>)
           | Some (Inr (v, q)) \<Rightarrow> Some ((put_queue (cp_q12 p) q s)\<lparr>cm_inter := Give j i v\<rparr>))
      | Give j i v \<Rightarrow>
          (case scr_spinEnqueue (alloc (cp_q21 p)) v (cp_id p + NUM_THREAD_cpp) (cm_queue s (cp_q21 p)) of
             None \<Rightarrow> None
           | Some (Inl f) \<Rightarrow> Some (s\<lparr>cm_inter := Faulted\<rparr>)
           | Some (Inr q) \<Rightarrow> Some ((put_queue (cp_q21 p) q s)\<lparr>cm_inter := inter_next N R j (i + 1) (Some v)\<rparr>))
      | _ \<Rightarrow> None)"

inductive cpp_step :: "(cpp_queue \<Rightarrow> node_alloc) \<Rightarrow> nat \<Rightarrow> nat \<Rightarrow> nat \<Rightarrow> cpp_sim \<Rightarrow> cpp_sim \<Rightarrow> bool" for alloc base N R where
  both: "cm_sender s = At_barrier j r \<Longrightarrow> cm_inter s = At_barrier j' r' \<Longrightarrow>
    cpp_step alloc base N R s (s\<lparr>cm_sender := sender_next N R j 0 r, cm_inter := inter_next N R j' 0 r'\<rparr>)"
| sender: "sender_call alloc base N R (main_params_cpp 0) s = Some s' \<Longrightarrow> cpp_step alloc base N R s s'"
| inter: "inter_call alloc N R (main_params_cpp 0) s = Some s' \<Longrightarrow> cpp_step alloc base N R s s'"

section \<open>Processes\<close>

text \<open>
  \<open>fork\<close>: the parent gets the number of the child and one more child to wait for, the child gets 0 and has none. After a failure
  there is only the parent, with the result \<open>-1\<close>. A process is what it does after the two forks of \<open>main\<close>, and how many children it has.
\<close>

datatype role = Sender_process | Intermediate_process | Wait_loop

definition fork_process :: "bool \<Rightarrow> nat \<Rightarrow> (int \<times> nat) list" where
  "fork_process works children = (if works then [(1, children + 1), (0, 0)] else [(-1, children)])"

definition main_cpp_processes :: "bool \<Rightarrow> bool \<Rightarrow> (role \<times> nat) list" where
  "main_cpp_processes works1 works2 =
     concat (map (\<lambda>(r1, c1). if r1 \<noteq> 0 then [(Sender_process, c1)]
       else map (\<lambda>(r2, c2). if r2 \<noteq> 0 then (Intermediate_process, c2) else (Wait_loop, c2)) (fork_process works2 c1))
     (fork_process works1 0))"

text \<open>\<open>wait\<close> fails at once without children, otherwise it gives the number of a child that has ended; and the loop at the end of \<open>main\<close>.\<close>

definition wait_call :: "nat \<Rightarrow> int \<times> nat" where
  "wait_call children = (if children = 0 then (-1, 0) else (1, children - 1))"

partial_function (option) wait_loop_cpp :: "nat \<Rightarrow> int option" where
  "wait_loop_cpp children = (case wait_call children of (r, children') \<Rightarrow> if r < 0 then wait_loop_cpp children' else Some r)"

lemma wait_loop_no_children: "wait_loop_cpp 0 = None"
proof (rule ccontr)
  assume "wait_loop_cpp 0 \<noteq> None"
  then obtain r where r: "wait_loop_cpp 0 = Some r" by auto
  have "0 < (0 :: nat)"
    by (rule wait_loop_cpp.raw_induct [of "\<lambda>c r. 0 < c", OF _ r]) (auto simp: wait_call_def split: if_splits)
  then show False by simp
qed

text \<open>
  The last process never ends. When both forks of \<open>main\<close> succeed there are three processes; the third, which runs neither
  \<open>sender\<close> nor \<open>intermediate\<close>, goes to the loop on \<open>wait\<close> without children and stays in it for ever, since the loop repeats on the
  error result; with a child to wait for it would leave after the first that ends.
\<close>

theorem third_process_spins:
  "main_cpp_processes True True = [(Sender_process, 1), (Intermediate_process, 1), (Wait_loop, 0)] \<and>
   wait_loop_cpp 0 = None \<and> wait_loop_cpp (Suc c) = Some 1"
  using wait_loop_no_children
  by (simp add: main_cpp_processes_def fork_process_def) (simp add: wait_loop_cpp.simps [of "Suc c"] wait_call_def)

section \<open>Calls by the contents of the queues\<close>

text \<open>
  A queue with \<open>c\<close> calls left and contents \<open>xs\<close>, used by two threads.
\<close>

definition queue_holds :: "node_alloc \<Rightarrow> nat \<Rightarrow> nat \<Rightarrow> u64 list \<Rightarrow> scrq \<Rightarrow> bool" where
  "queue_holds al K c xs q \<longleftrightarrow> lcrq_inv al K 2 (Suc (Suc MAX_PATIENCE_cpp) * c) c (sq_queue q) \<and> lcrq_contents (sq_queue q) = xs"

lemma holds_one:
  assumes "queue_holds al K (Suc c) xs q"
  shows "lcrq_inv al K 2 (Suc (Suc (Suc MAX_PATIENCE_cpp) * c)) (Suc c) (sq_queue q)"
    "lcrq_inv al K 2 (Suc (Suc (Suc MAX_PATIENCE_cpp) * c)) c (sq_queue q)"
    "lcrq_inv al K 2 (Suc MAX_PATIENCE_cpp - 0 + (Suc (Suc MAX_PATIENCE_cpp) * c)) c (sq_queue q)"
proof -
  have i: "lcrq_inv al K 2 (Suc (Suc MAX_PATIENCE_cpp) * Suc c) (Suc c) (sq_queue q)" using assms by (simp add: queue_holds_def)
  show "lcrq_inv al K 2 (Suc (Suc (Suc MAX_PATIENCE_cpp) * c)) (Suc c) (sq_queue q)" by (rule lcrq_inv_mono [OF i]) simp_all
  show "lcrq_inv al K 2 (Suc (Suc (Suc MAX_PATIENCE_cpp) * c)) c (sq_queue q)" by (rule lcrq_inv_mono [OF i]) simp_all
  show "lcrq_inv al K 2 (Suc MAX_PATIENCE_cpp - 0 + (Suc (Suc MAX_PATIENCE_cpp) * c)) c (sq_queue q)" by (rule lcrq_inv_mono [OF i]) simp_all
qed

lemma spinEnqueue_holds:
  assumes "queue_holds al K (Suc c) xs q" "a \<noteq> 0"
  shows "\<exists>q'. scr_spinEnqueue al a tid q = Some (Inr q') \<and> queue_holds al K c (xs @ [a]) q' \<and> sq_ev q' = sq_ev q"
  using lcrq_enqueue [OF holds_one(1) [OF assms(1)] assms(2), of tid] assms(1) by (auto simp: scr_spinEnqueue_def queue_holds_def)

lemma enqueue_holds:
  assumes "queue_holds al K (Suc c) xs q" "a \<noteq> 0"
  shows "\<exists>q' call. scr_enqueue al a tid q = Some (Inr (q', call)) \<and> queue_holds al K c (xs @ [a]) q' \<and> sq_ev q' = fst (notify_cpp (sq_ev q))"
  using lcrq_enqueue [OF holds_one(1) [OF assms(1)] assms(2), of tid] assms(1)
  by (auto simp: scr_enqueue_def queue_holds_def split: prod.splits)

lemma spinDequeue_holds:
  assumes "queue_holds al K (Suc c) xs q" "tid < 2"
  shows "\<exists>q'. scr_spinDequeue tid q = Some (Inr (case xs of [] \<Rightarrow> 0 | x # _ \<Rightarrow> x, q')) \<and> queue_holds al K c (tl xs) q'"
proof (cases xs)
  case Nil
  then show ?thesis using spin_none [OF holds_one(3) [OF assms(1)] assms(2)] assms(1) by (auto simp: scr_spinDequeue_def queue_holds_def)
next
  case (Cons x ys)
  then show ?thesis using spin_item [OF holds_one(2) [OF assms(1)] assms(2), of x ys 0] assms(1) by (auto simp: scr_spinDequeue_def queue_holds_def)
qed

lemma dequeue_holds:
  assumes "queue_holds al K (Suc c) (x # xs) q" "tid < 2"
  shows "\<exists>q'. scr_dequeue fwait tid q = Some (Inr (x, q')) \<and> queue_holds al K c xs q' \<and> sq_ev q' = sq_ev q"
proof -
  have "lcrq_contents (sq_queue q) = x # xs" using assms(1) by (simp add: queue_holds_def)
  with lcrq_dequeue [OF holds_one(2) [OF assms(1)] assms(2)] show ?thesis by (auto simp: scr_dequeue_def queue_holds_def deq_result_def)
qed

lemma scr_wait_nobody: "drop_bit kEpochShift (sq_ev s) = ucast key \<Longrightarrow> scr_wait (\<lambda>s. s) key s = None"
proof (rule ccontr)
  assume e: "drop_bit kEpochShift (sq_ev s) = ucast key" and "scr_wait (\<lambda>s. s) key s \<noteq> None"
  then obtain r where r: "scr_wait (\<lambda>s. s) key s = Some r" by auto
  have "drop_bit kEpochShift (sq_ev s) \<noteq> ucast key"
    by (rule scr_wait.raw_induct [of "\<lambda>fw key s r. fw = (\<lambda>s. s) \<longrightarrow> drop_bit kEpochShift (sq_ev s) \<noteq> ucast key", OF _ r, rule_format])
      (auto split: if_splits)
  then show False using e by simp
qed

lemma dequeue_holds_nothing:
  assumes h: "queue_holds al K (Suc c) [] q" "tid < 2" and ev: "sq_ev q = ec_word e 0" "e < 2 ^ 32"
  shows "scr_dequeue (\<lambda>s. s) tid q = None"
proof -
  have "lcrq_inv al K 2 (Suc (Suc 0)) 0 (sq_queue q)"
    using h(1) unfolding queue_holds_def by (rule lcrq_inv_mono [OF conjunct1]) (simp_all add: MAX_PATIENCE_cpp_def)
  from lcrq_dequeue [OF this h(2)] h(1) obtain q1 where q1: "dequeue_cpp tid (sq_queue q) = Some (Inr (0, q1))"
    "lcrq_inv al K 2 (Suc 0) 0 q1" "lcrq_contents q1 = []" by (auto simp: deq_result_def queue_holds_def)
  from lcrq_dequeue [OF q1(2) h(2)] q1(3) obtain q2 where q2: "dequeue_cpp tid q1 = Some (Inr (0, q2))" by (auto simp: deq_result_def)
  have "scr_wait (\<lambda>s. s) (of_nat e) (q\<lparr>sq_queue := q2, sq_ev := ec_word e (Suc 0)\<rparr>) = None"
    by (rule scr_wait_nobody) (use ev in \<open>simp add: same_test epoch_is_word unat_of_nat_32\<close>)
  moreover have "q\<lparr>sq_queue := q2, sq_ev := ec_word e (Suc 0)\<rparr> = q\<lparr>sq_ev := ec_word e (Suc 0), sq_queue := q2\<rparr>" by (cases q) simp
  ultimately have "scr_dequeue_wait (\<lambda>s. s) tid 0 (q\<lparr>sq_queue := q1\<rparr>) = None"
    using ev q2 by (subst scr_dequeue_wait.simps) (simp add: same_as_C prepareWait_word MAX_PATIENCE_cpp_def)
  then show ?thesis using q1(1) by (simp add: scr_dequeue_def)
qed

section \<open>Accounts\<close>

text \<open>
  By the place of a thread: messages sent and values polled by the sender, messages taken and given back by the intermediate, and
  the number of times that the thread has passed the barrier.
\<close>

fun sent_cpp :: "nat \<Rightarrow> nat \<Rightarrow> cpp_pc \<Rightarrow> nat" where
  "sent_cpp N R (At_barrier j r) = j * N"
| "sent_cpp N R (Send j i) = j * N + i"
| "sent_cpp N R (Poll j i) = j * N + i + 1"
| "sent_cpp N R c = R * N"

fun polled_cpp :: "nat \<Rightarrow> nat \<Rightarrow> cpp_pc \<Rightarrow> nat" where
  "polled_cpp N R (At_barrier j r) = j * N"
| "polled_cpp N R (Send j i) = j * N + i"
| "polled_cpp N R (Poll j i) = j * N + i"
| "polled_cpp N R c = R * N"

fun taken_cpp :: "nat \<Rightarrow> nat \<Rightarrow> cpp_pc \<Rightarrow> nat" where
  "taken_cpp N R (At_barrier j r) = j * N"
| "taken_cpp N R (Take j i) = j * N + i"
| "taken_cpp N R (Give j i v) = j * N + i + 1"
| "taken_cpp N R c = R * N"

fun given_cpp :: "nat \<Rightarrow> nat \<Rightarrow> cpp_pc \<Rightarrow> nat" where
  "given_cpp N R (At_barrier j r) = j * N"
| "given_cpp N R (Take j i) = j * N + i"
| "given_cpp N R (Give j i v) = j * N + i"
| "given_cpp N R c = R * N"

fun passed :: "nat \<Rightarrow> cpp_pc \<Rightarrow> nat" where
  "passed R (At_barrier j r) = j"
| "passed R (Send j i) = j + 1"
| "passed R (Poll j i) = j + 1"
| "passed R (Take j i) = j + 1"
| "passed R (Give j i v) = j + 1"
| "passed R c = R"

fun sender_at :: "nat \<Rightarrow> nat \<Rightarrow> cpp_pc \<Rightarrow> bool" where
  "sender_at N R (At_barrier j r) = (j < R)"
| "sender_at N R (Send j i) = (j < R \<and> i < N)"
| "sender_at N R (Poll j i) = (j < R \<and> i < N)"
| "sender_at N R Ended = True"
| "sender_at N R c = False"

fun inter_at :: "nat \<Rightarrow> nat \<Rightarrow> cpp_pc \<Rightarrow> bool" where
  "inter_at N R (At_barrier j r) = (j < R)"
| "inter_at N R (Take j i) = (j < R \<and> i < N)"
| "inter_at N R (Give j i v) = (j < R \<and> i < N)"
| "inter_at N R Ended = True"
| "inter_at N R c = False"

fun in_hand :: "cpp_pc \<Rightarrow> u64 list" where
  "in_hand (Give j i v) = [v]"
| "in_hand c = []"

text \<open>The messages that the sender sends in all its runs, by number.\<close>

definition stream :: "nat \<Rightarrow> nat \<Rightarrow> nat \<Rightarrow> u64 list" where
  "stream base N k = map (\<lambda>i. req base (i mod N)) [0..<k]"

text \<open>
  The two queues after \<open>S\<close> messages sent, \<open>P\<close> values polled, \<open>T\<close> messages taken and \<open>G\<close> given back, with \<open>M\<close> messages in all: what
  the sender has got back, \<open>q21\<close>, the hand of the intermediate and \<open>q12\<close> hold the messages sent, in order.
\<close>

definition echo_queues ::
    "(cpp_queue \<Rightarrow> node_alloc) \<Rightarrow> nat \<Rightarrow> nat \<Rightarrow> u64 list \<Rightarrow> nat \<Rightarrow> nat \<Rightarrow> nat \<Rightarrow> nat \<Rightarrow> u64 list \<Rightarrow> u64 list \<Rightarrow> scrq \<Rightarrow> scrq \<Rightarrow> bool" where
  "echo_queues alloc K M msgs S P T G hand res q12 q21 \<longleftrightarrow> (\<exists>e < 2 ^ 32. sq_ev q12 = ec_word e 0) \<and>
     (\<exists>c c' xs ys. queue_holds (alloc Q12) K c xs q12 \<and> queue_holds (alloc Q21) K c' ys q21 \<and> c + S + T = 2 * M \<and> c' + P + G = 2 * M \<and>
        length xs + T = S \<and> filter (\<lambda>v. v \<noteq> 0) res @ ys @ hand @ xs = msgs)"

definition echo_inv :: "(cpp_queue \<Rightarrow> node_alloc) \<Rightarrow> nat \<Rightarrow> nat \<Rightarrow> nat \<Rightarrow> nat \<Rightarrow> cpp_sim \<Rightarrow> bool" where
  "echo_inv alloc K base N R s \<longleftrightarrow> sender_at N R (cm_sender s) \<and> inter_at N R (cm_inter s) \<and>
     passed R (cm_sender s) = passed R (cm_inter s) \<and> length (cm_results s) = polled_cpp N R (cm_sender s) \<and>
     echo_queues alloc K (R * N) (stream base N (sent_cpp N R (cm_sender s))) (sent_cpp N R (cm_sender s)) (polled_cpp N R (cm_sender s))
       (taken_cpp N R (cm_inter s)) (given_cpp N R (cm_inter s)) (in_hand (cm_inter s)) (cm_results s) (cm_queue s Q12) (cm_queue s Q21)"

definition work :: "nat \<Rightarrow> nat \<Rightarrow> cpp_sim \<Rightarrow> nat" where
  "work N R s = passed R (cm_sender s) + sent_cpp N R (cm_sender s) + polled_cpp N R (cm_sender s) +
     taken_cpp N R (cm_inter s) + given_cpp N R (cm_inter s)"

lemma sender_next_at:
  assumes "j < R" "i \<le> N" "i < N \<or> res \<noteq> None"
  shows "sent_cpp N R (sender_next N R j i res) = j * N + i" "polled_cpp N R (sender_next N R j i res) = j * N + i"
    "passed R (sender_next N R j i res) = j + 1" "sender_at N R (sender_next N R j i res)"
proof -
  have R: "R = Suc j" if "\<not> Suc j < R" using that assms(1) by simp
  then have "R * N = j * N + N" if "\<not> Suc j < R" using that by (metis add.commute mult_Suc)
  with R show "sent_cpp N R (sender_next N R j i res) = j * N + i" "polled_cpp N R (sender_next N R j i res) = j * N + i"
    "passed R (sender_next N R j i res) = j + 1" "sender_at N R (sender_next N R j i res)"
    using assms by (auto simp: sender_next_def)
qed

lemma inter_next_at:
  assumes "j < R" "i \<le> N" "i < N \<or> (\<exists>v. res = Some v \<and> v \<noteq> 0)"
  shows "taken_cpp N R (inter_next N R j i res) = j * N + i" "given_cpp N R (inter_next N R j i res) = j * N + i"
    "passed R (inter_next N R j i res) = j + 1" "inter_at N R (inter_next N R j i res)" "in_hand (inter_next N R j i res) = []"
proof -
  have R: "R = Suc j" if "\<not> Suc j < R" using that assms(1) by simp
  then have "R * N = j * N + N" if "\<not> Suc j < R" using that by (metis add.commute mult_Suc)
  with R show "taken_cpp N R (inter_next N R j i res) = j * N + i" "given_cpp N R (inter_next N R j i res) = j * N + i"
    "passed R (inter_next N R j i res) = j + 1" "inter_at N R (inter_next N R j i res)" "in_hand (inter_next N R j i res) = []"
    using assms by (auto simp: inter_next_def)
qed

lemma within: "j < R \<Longrightarrow> i < N \<Longrightarrow> j * N + i < R * (N :: nat)"
proof -
  assume "j < R" "i < N"
  then have "j * N + i < Suc j * N" by simp
  also have "\<dots> \<le> R * N" using \<open>j < R\<close> by (intro mult_le_mono1) simp
  finally show ?thesis .
qed

lemma req_nonzero: "0 < base \<Longrightarrow> base + 8 * N \<le> 2 ^ 64 \<Longrightarrow> i < N \<Longrightarrow> req base i \<noteq> 0"
proof
  assume a: "0 < base" "base + 8 * N \<le> 2 ^ 64" "i < N" and "req base i = 0"
  then have "unat (of_nat (base + 8 * i) :: u64) = 0" by (simp only: req_def) simp
  moreover have "unat (of_nat (base + 8 * i) :: u64) = base + 8 * i" by (rule unat_of_nat_64) (use a in simp)
  ultimately show False using a by simp
qed

lemma stream_Suc: "i < N \<Longrightarrow> stream base N (Suc (j * N + i)) = stream base N (j * N + i) @ [req base i]"
  by (simp add: stream_def)

lemma stream_nonzero: "0 < base \<Longrightarrow> base + 8 * N \<le> 2 ^ 64 \<Longrightarrow> 0 < N \<Longrightarrow> v \<in> set (stream base N k) \<Longrightarrow> v \<noteq> 0"
  using req_nonzero [of base N] by (auto simp: stream_def)

lemma main_params_cpp_simps [simp]:
  "cp_id (main_params_cpp i) = i" "cp_q12 (main_params_cpp i) = Q12" "cp_q21 (main_params_cpp i) = Q21"
  by (simp_all add: main_params_cpp_def)

lemma put_queue_simps [simp]:
  "cm_queue (put_queue x q s) = (cm_queue s)(x := q)" "cm_sender (put_queue x q s) = cm_sender s" "cm_inter (put_queue x q s) = cm_inter s"
  "cm_results (put_queue x q s) = cm_results s"
  by (simp_all add: put_queue_def)

definition reqs_ok :: "nat \<Rightarrow> nat \<Rightarrow> bool" where
  "reqs_ok base N \<longleftrightarrow> 0 < N \<and> 0 < base \<and> base + 8 * N \<le> 2 ^ 64"

section \<open>The four calls\<close>

lemma queues_send:
  assumes "echo_queues alloc K M msgs S P T G hand res q12 q21" "S < M" "a \<noteq> 0"
  shows "\<exists>q' call. scr_enqueue (alloc Q12) a 0 q12 = Some (Inr (q', call)) \<and> echo_queues alloc K M (msgs @ [a]) (Suc S) P T G hand res q' q21"
proof -
  obtain e c c' xs ys where e: "e < 2 ^ 32" "sq_ev q12 = ec_word e 0" and q: "queue_holds (alloc Q12) K c xs q12" "queue_holds (alloc Q21) K c' ys q21"
    and c: "c + S + T = 2 * M" "c' + P + G = 2 * M" "length xs + T = S" and str: "filter (\<lambda>v. v \<noteq> 0) res @ ys @ hand @ xs = msgs"
    using assms(1) unfolding echo_queues_def by blast
  obtain d where d: "c = Suc d" using c assms(2) by (cases c) auto
  from enqueue_holds [OF q(1) [unfolded d] assms(3), of 0] obtain q' call where
    q': "scr_enqueue (alloc Q12) a 0 q12 = Some (Inr (q', call))" "queue_holds (alloc Q12) K d (xs @ [a]) q'" "sq_ev q' = fst (notify_cpp (sq_ev q12))"
    by blast
  have "\<exists>e < 2 ^ 32. sq_ev q' = ec_word e 0" using q'(3) e notify_word [OF e(1), of 0] by (intro exI [of _ "Suc e mod 2 ^ 32"]) simp
  moreover have "d + Suc S + T = 2 * M" "length (xs @ [a]) + T = Suc S" "filter (\<lambda>v. v \<noteq> 0) res @ ys @ hand @ xs @ [a] = msgs @ [a]"
    using c d str by auto
  ultimately show ?thesis using q'(1,2) q(2) c(2) unfolding echo_queues_def by blast
qed

lemma queues_poll:
  assumes "echo_queues alloc K M msgs S P T G hand res q12 q21" "P < M" "G \<le> M"
  shows "\<exists>v q'. scr_spinDequeue 0 q21 = Some (Inr (v, q')) \<and> echo_queues alloc K M msgs S (Suc P) T G hand (res @ [v]) q12 q'"
proof -
  obtain c c' xs ys where q: "queue_holds (alloc Q12) K c xs q12" "queue_holds (alloc Q21) K c' ys q21" and e: "\<exists>e < 2 ^ 32. sq_ev q12 = ec_word e 0"
    and c: "c + S + T = 2 * M" "c' + P + G = 2 * M" "length xs + T = S" and str: "filter (\<lambda>v. v \<noteq> 0) res @ ys @ hand @ xs = msgs"
    using assms(1) unfolding echo_queues_def by blast
  obtain d where d: "c' = Suc d" using c assms(2,3) by (cases c') auto
  let ?v = "case ys of [] \<Rightarrow> 0 | x # _ \<Rightarrow> x"
  from spinDequeue_holds [OF q(2) [unfolded d], of 0] obtain q' where
    q': "scr_spinDequeue 0 q21 = Some (Inr (?v, q'))" "queue_holds (alloc Q21) K d (tl ys) q'" by auto
  have "?v \<noteq> 0" if "ys \<noteq> []" using spin_item [OF holds_one(2) [OF q(2) [unfolded d]], of 0] that q(2) by (cases ys) (auto simp: queue_holds_def)
  then have "filter (\<lambda>v. v \<noteq> 0) (res @ [?v]) @ tl ys @ hand @ xs = msgs" using str by (cases ys) auto
  moreover have "d + Suc P + G = 2 * M" using c d by simp
  ultimately show ?thesis using q' q(1) e c(1,3) unfolding echo_queues_def by blast
qed

lemma queues_take:
  assumes "echo_queues alloc K M msgs S P T G [] res q12 q21" "T < M" "S \<le> M"
  shows "T < S \<Longrightarrow> \<exists>v q'. scr_dequeue (\<lambda>s. s) 1 q12 = Some (Inr (v, q')) \<and> echo_queues alloc K M msgs S P (Suc T) G [v] res q' q21"
    "\<not> T < S \<Longrightarrow> scr_dequeue (\<lambda>s. s) 1 q12 = None"
proof -
  obtain e c c' xs ys where e: "e < 2 ^ 32" "sq_ev q12 = ec_word e 0" and q: "queue_holds (alloc Q12) K c xs q12" "queue_holds (alloc Q21) K c' ys q21"
    and c: "c + S + T = 2 * M" "c' + P + G = 2 * M" "length xs + T = S" and str: "filter (\<lambda>v. v \<noteq> 0) res @ ys @ [] @ xs = msgs"
    using assms(1) unfolding echo_queues_def by blast
  obtain d where d: "c = Suc d" using c assms(2,3) by (cases c) auto
  show "scr_dequeue (\<lambda>s. s) 1 q12 = None" if "\<not> T < S"
    using dequeue_holds_nothing [of "alloc Q12" K d q12 1, OF _ _ e(2,1)] q(1) d that c(3) by (cases xs) auto
  show "\<exists>v q'. scr_dequeue (\<lambda>s. s) 1 q12 = Some (Inr (v, q')) \<and> echo_queues alloc K M msgs S P (Suc T) G [v] res q' q21" if less: "T < S"
  proof -
    obtain x zs where xs: "xs = x # zs" using less c(3) by (cases xs) auto
    from dequeue_holds [of "alloc Q12" K d x zs q12 1 "\<lambda>s. s"] q(1) d xs obtain q' where
      q': "scr_dequeue (\<lambda>s. s) 1 q12 = Some (Inr (x, q'))" "queue_holds (alloc Q12) K d zs q'" "sq_ev q' = sq_ev q12" by auto
    have "d + S + Suc T = 2 * M" "length zs + Suc T = S" "filter (\<lambda>v. v \<noteq> 0) res @ ys @ [x] @ zs = msgs" using c d xs str by auto
    then show ?thesis using q' q(2) e c(2) unfolding echo_queues_def by fastforce
  qed
qed

lemma queues_give:
  assumes "echo_queues alloc K M msgs S P T G [v] res q12 q21" "G < M" "P \<le> M" "v \<noteq> 0"
  shows "\<exists>q'. scr_spinEnqueue (alloc Q21) v 1 q21 = Some (Inr q') \<and> echo_queues alloc K M msgs S P T (Suc G) [] res q12 q'"
proof -
  obtain c c' xs ys where q: "queue_holds (alloc Q12) K c xs q12" "queue_holds (alloc Q21) K c' ys q21" and e: "\<exists>e < 2 ^ 32. sq_ev q12 = ec_word e 0"
    and c: "c + S + T = 2 * M" "c' + P + G = 2 * M" "length xs + T = S" and str: "filter (\<lambda>v. v \<noteq> 0) res @ ys @ [v] @ xs = msgs"
    using assms(1) unfolding echo_queues_def by blast
  obtain d where d: "c' = Suc d" using c assms(2,3) by (cases c') auto
  from spinEnqueue_holds [OF q(2) [unfolded d] assms(4), of 1] obtain q' where
    q': "scr_spinEnqueue (alloc Q21) v 1 q21 = Some (Inr q')" "queue_holds (alloc Q21) K d (ys @ [v]) q'" by blast
  have "d + P + Suc G = 2 * M" "filter (\<lambda>v. v \<noteq> 0) res @ (ys @ [v]) @ [] @ xs = msgs" using c d str by auto
  then show ?thesis using q' q(1) e c(1,3) unfolding echo_queues_def by blast
qed

lemma queues_hand: "echo_queues alloc K M msgs S P T G [v] res q12 q21 \<Longrightarrow> v \<in> set msgs"
  by (auto simp: echo_queues_def)

lemma queues_taken: "echo_queues alloc K M msgs S P T G hand res q12 q21 \<Longrightarrow> T \<le> S"
  by (auto simp: echo_queues_def)

section \<open>Steps and accounts\<close>

lemma counts_le:
  "sender_at N R c \<Longrightarrow> sent_cpp N R c \<le> R * N" "sender_at N R c \<Longrightarrow> polled_cpp N R c \<le> R * N"
  "inter_at N R c' \<Longrightarrow> taken_cpp N R c' \<le> R * N" "inter_at N R c' \<Longrightarrow> given_cpp N R c' \<le> R * N"
  "sender_at N R c \<Longrightarrow> passed R c \<le> R"
  using within by (cases c; cases c'; fastforce simp: Suc_le_eq intro: less_imp_le)+

definition advances :: "(cpp_queue \<Rightarrow> node_alloc) \<Rightarrow> nat \<Rightarrow> nat \<Rightarrow> nat \<Rightarrow> nat \<Rightarrow> cpp_sim \<Rightarrow> cpp_sim \<Rightarrow> bool" where
  "advances alloc K base N R s s' \<longleftrightarrow> echo_inv alloc K base N R s' \<and> work N R s' = Suc (work N R s)"

lemma send_step:
  assumes inv: "echo_inv alloc K base N R s" and ok: "reqs_ok base N" and pc: "cm_sender s = Send j i"
  shows "\<exists>s'. sender_call alloc base N R (main_params_cpp 0) s = Some s' \<and> advances alloc K base N R s s'"
proof -
  have p: "j < R" "i < N" and q: "echo_queues alloc K (R * N) (stream base N (j * N + i)) (j * N + i) (j * N + i)
      (taken_cpp N R (cm_inter s)) (given_cpp N R (cm_inter s)) (in_hand (cm_inter s)) (cm_results s) (cm_queue s Q12) (cm_queue s Q21)"
    using inv pc by (simp_all add: echo_inv_def)
  have a: "req base i \<noteq> 0" by (rule req_nonzero [OF _ _ p(2)]) (use ok in \<open>simp_all add: reqs_ok_def\<close>)
  from queues_send [OF q within [OF p] a] show ?thesis
    using inv pc p by (auto simp: sender_call_def advances_def echo_inv_def work_def stream_Suc)
qed

lemma poll_step:
  assumes inv: "echo_inv alloc K base N R s" and pc: "cm_sender s = Poll j i"
  shows "\<exists>s'. sender_call alloc base N R (main_params_cpp 0) s = Some s' \<and> advances alloc K base N R s s'"
proof -
  have p: "j < R" "i < N" and q: "echo_queues alloc K (R * N) (stream base N (Suc (j * N + i))) (Suc (j * N + i)) (j * N + i)
      (taken_cpp N R (cm_inter s)) (given_cpp N R (cm_inter s)) (in_hand (cm_inter s)) (cm_results s) (cm_queue s Q12) (cm_queue s Q21)"
    and g: "given_cpp N R (cm_inter s) \<le> R * N"
    using inv pc counts_le(4) by (auto simp: echo_inv_def)
  note nx = sender_next_at [of j R "Suc i" N "Some _"]
  from queues_poll [OF q within [OF p] g] show ?thesis
    using inv pc p nx by (auto simp: sender_call_def advances_def echo_inv_def work_def)
qed

lemma take_step:
  assumes inv: "echo_inv alloc K base N R s" and pc: "cm_inter s = Take j i"
  shows "j * N + i < sent_cpp N R (cm_sender s) \<Longrightarrow> \<exists>s'. inter_call alloc N R (main_params_cpp 0) s = Some s' \<and> advances alloc K base N R s s'"
    "\<not> j * N + i < sent_cpp N R (cm_sender s) \<Longrightarrow> inter_call alloc N R (main_params_cpp 0) s = None"
proof -
  have p: "j < R" "i < N" and q: "echo_queues alloc K (R * N) (stream base N (sent_cpp N R (cm_sender s))) (sent_cpp N R (cm_sender s))
      (polled_cpp N R (cm_sender s)) (j * N + i) (j * N + i) [] (cm_results s) (cm_queue s Q12) (cm_queue s Q21)"
    and le: "sent_cpp N R (cm_sender s) \<le> R * N"
    using inv pc counts_le(1) by (auto simp: echo_inv_def)
  note t = queues_take [OF q within [OF p] le]
  show "\<exists>s'. inter_call alloc N R (main_params_cpp 0) s = Some s' \<and> advances alloc K base N R s s'" if "j * N + i < sent_cpp N R (cm_sender s)"
    using t(1) [OF that] inv pc by (auto simp: inter_call_def advances_def echo_inv_def work_def NUM_THREAD_cpp_def)
  show "inter_call alloc N R (main_params_cpp 0) s = None" if "\<not> j * N + i < sent_cpp N R (cm_sender s)"
    using t(2) [OF that] pc by (simp add: inter_call_def NUM_THREAD_cpp_def)
qed

lemma give_step:
  assumes inv: "echo_inv alloc K base N R s" and ok: "reqs_ok base N" and pc: "cm_inter s = Give j i v"
  shows "\<exists>s'. inter_call alloc N R (main_params_cpp 0) s = Some s' \<and> advances alloc K base N R s s'"
proof -
  have p: "j < R" "i < N" and q: "echo_queues alloc K (R * N) (stream base N (sent_cpp N R (cm_sender s))) (sent_cpp N R (cm_sender s))
      (polled_cpp N R (cm_sender s)) (Suc (j * N + i)) (j * N + i) [v] (cm_results s) (cm_queue s Q12) (cm_queue s Q21)"
    and le: "polled_cpp N R (cm_sender s) \<le> R * N"
    using inv pc counts_le(2) by (auto simp: echo_inv_def)
  have v: "v \<noteq> 0" using stream_nonzero queues_hand [OF q] ok unfolding reqs_ok_def by blast
  note nx = inter_next_at [of j R "Suc i" N "Some v"]
  from queues_give [OF q within [OF p] le v] show ?thesis
    using inv pc p v nx by (auto simp: inter_call_def advances_def echo_inv_def work_def NUM_THREAD_cpp_def)
qed

lemma barrier_step:
  assumes inv: "echo_inv alloc K base N R s" and ok: "reqs_ok base N" and pc: "cm_sender s = At_barrier j r" "cm_inter s = At_barrier j' r'"
  shows "advances alloc K base N R s (s\<lparr>cm_sender := sender_next N R j 0 r, cm_inter := inter_next N R j' 0 r'\<rparr>)"
  using inv ok pc sender_next_at [of j R 0 N r] inter_next_at [of j R 0 N r']
  by (auto simp: advances_def echo_inv_def work_def reqs_ok_def)

lemma step_advances:
  assumes inv: "echo_inv alloc K base N R s" and ok: "reqs_ok base N" and st: "cpp_step alloc base N R s s'"
  shows "advances alloc K base N R s s'"
  using st
proof cases
  case (both j r j' r')
  then show ?thesis using barrier_step [OF inv ok] by simp
next
  case sender
  then show ?thesis
  proof (cases "cm_sender s")
    case (Send j i)
    then show ?thesis using send_step [OF inv ok] sender by auto
  next
    case (Poll j i)
    then show ?thesis using poll_step [OF inv] sender by auto
  qed (simp_all add: sender_call_def)
next
  case inter
  then show ?thesis
  proof (cases "cm_inter s")
    case (Take j i)
    then show ?thesis using take_step [OF inv] inter by (cases "j * N + i < sent_cpp N R (cm_sender s)") auto
  next
    case (Give j i v)
    then show ?thesis using give_step [OF inv ok] inter by auto
  qed (simp_all add: inter_call_def)
qed

text \<open>A thread that takes or gives can go on when the sender is at the barrier or done: the messages of the run have been sent.\<close>

lemma sender_can: "echo_inv alloc K base N R s \<Longrightarrow> reqs_ok base N \<Longrightarrow> cm_sender s = Send j i \<or> cm_sender s = Poll j i \<Longrightarrow>
  \<exists>s'. cpp_step alloc base N R s s'"
  using send_step poll_step cpp_step.sender by metis

lemma inter_can:
  assumes inv: "echo_inv alloc K base N R s" and ok: "reqs_ok base N" and pc: "cm_inter s = Take j i \<or> cm_inter s = Give j i v"
    and ahead: "sent_cpp N R (cm_sender s) = passed R (cm_sender s) * N"
  shows "\<exists>s'. cpp_step alloc base N R s s'"
  using pc
proof
  assume t: "cm_inter s = Take j i"
  then have "passed R (cm_sender s) = Suc j" "i < N" using inv by (auto simp: echo_inv_def)
  then have "j * N + i < sent_cpp N R (cm_sender s)" using ahead by simp
  then show ?thesis using take_step(1) [OF inv t] cpp_step.inter by blast
next
  assume "cm_inter s = Give j i v"
  then show ?thesis using give_step [OF inv ok] cpp_step.inter by blast
qed

lemma not_stuck:
  assumes inv: "echo_inv alloc K base N R s" and ok: "reqs_ok base N" and run: "cm_sender s \<noteq> Ended \<or> cm_inter s \<noteq> Ended"
  shows "\<exists>s'. cpp_step alloc base N R s s'"
proof -
  have at: "sender_at N R (cm_sender s)" "inter_at N R (cm_inter s)" "passed R (cm_sender s) = passed R (cm_inter s)"
    using inv by (simp_all add: echo_inv_def)
  show ?thesis
  proof (cases "cm_sender s")
    case (At_barrier j r)
    then show ?thesis using inter_can [OF inv ok] at
    proof (cases "cm_inter s")
      case (At_barrier j' r')
      then show ?thesis using cpp_step.both [OF \<open>cm_sender s = At_barrier j r\<close>] by blast
    qed auto
  next
    case Ended
    then show ?thesis using inter_can [OF inv ok] run at by (cases "cm_inter s") auto
  qed (use sender_can [OF inv ok] at in auto)
qed

text \<open>The state in which the threads start; every pool has room for \<open>K\<close> rings, one more than there are calls on a queue.\<close>

definition pools_ok :: "(cpp_queue \<Rightarrow> node_alloc) \<Rightarrow> nat \<Rightarrow> nat \<Rightarrow> bool" where
  "pools_ok alloc N R \<longleftrightarrow> (\<forall>x. alloc_ok (Suc (2 * (R * N))) (alloc x)) \<and> 0 < R \<and> 4 * (Suc (Suc MAX_PATIENCE_cpp) * (R * N)) < 2 ^ 62"

lemma ctor_holds:
  assumes "pools_ok alloc N R"
  shows "\<exists>q. SCRQueue_ctor (alloc x) NUM_THREAD_cpp = Inr q \<and> queue_holds (alloc x) (Suc (2 * (R * N))) (2 * (R * N)) [] q \<and> sq_ev q = ec_word 0 0"
proof -
  have "alloc_ok (Suc (2 * (R * N))) (alloc x)" using assms by (simp add: pools_ok_def)
  moreover have "2 * (Suc (Suc MAX_PATIENCE_cpp) * (2 * (R * N))) < 2 ^ 62" using assms by (simp add: pools_ok_def)
  ultimately obtain q where "LCRQueue_ctor (alloc x) 2 = Inr q"
    "lcrq_inv (alloc x) (Suc (2 * (R * N))) 2 (Suc (Suc MAX_PATIENCE_cpp) * (2 * (R * N))) (2 * (R * N)) q" "lcrq_contents q = []"
    using lcrq_ctor [of "Suc (2 * (R * N))" "alloc x" "2 * (R * N)" "Suc (Suc MAX_PATIENCE_cpp) * (2 * (R * N))" 2] by auto
  then show ?thesis by (simp add: SCRQueue_ctor_def NUM_THREAD_cpp_def queue_holds_def EventCount_cpp_def ec_word_def)
qed

lemma init_echo:
  assumes ok: "pools_ok alloc N R" "reqs_ok base N"
  shows "\<exists>s. main_cpp_init alloc R = Inr s \<and> echo_inv alloc (Suc (2 * (R * N))) base N R s \<and> work N R s = 0"
proof -
  note c = ctor_holds [OF ok(1)]
  obtain a b d e where q: "SCRQueue_ctor (alloc Q12) NUM_THREAD_cpp = Inr a" "SCRQueue_ctor (alloc Q23) NUM_THREAD_cpp = Inr b"
    "SCRQueue_ctor (alloc Q32) NUM_THREAD_cpp = Inr d" "SCRQueue_ctor (alloc Q21) NUM_THREAD_cpp = Inr e"
    "queue_holds (alloc Q12) (Suc (2 * (R * N))) (2 * (R * N)) [] a" "queue_holds (alloc Q21) (Suc (2 * (R * N))) (2 * (R * N)) [] e" "sq_ev a = ec_word 0 0"
    using c [of Q12] c [of Q23] c [of Q32] c [of Q21] by blast
  have "echo_queues alloc (Suc (2 * (R * N))) (R * N) [] 0 0 0 0 [] [] a e"
    unfolding echo_queues_def using q by (intro conjI exI [of _ "2 * (R * N)"] exI [of _ "[]"] exI [of _ 0]) simp_all
  then show ?thesis using q ok by (simp add: main_cpp_init_def echo_inv_def work_def stream_def pools_ok_def)
qed

interpretation echo: state_machine "\<lambda>s. pools_ok alloc N R \<and> reqs_ok base N \<and> main_cpp_init alloc R = Inr s" "cpp_step alloc base N R"
  "\<lambda>s. reqs_ok base N \<and> echo_inv alloc (Suc (2 * (R * N))) base N R s" for alloc base N R
proof
  show "reqs_ok base N \<and> echo_inv alloc (Suc (2 * (R * N))) base N R s"
    if "pools_ok alloc N R \<and> reqs_ok base N \<and> main_cpp_init alloc R = Inr s" for s
    using init_echo [of alloc N R base] that by auto
  show "reqs_ok base N \<and> echo_inv alloc (Suc (2 * (R * N))) base N R s'"
    if "reqs_ok base N \<and> echo_inv alloc (Suc (2 * (R * N))) base N R s" "cpp_step alloc base N R s s'" for s s'
    using step_advances [OF _ _ that(2)] that(1) by (auto simp: advances_def)
qed

lemma steps_work:
  assumes ok: "pools_ok alloc N R" "reqs_ok base N" and start: "main_cpp_init alloc R = Inr s0"
    and run: "(cpp_step alloc base N R ^^ k) s0 s"
  shows "work N R s = k"
  using run
proof (induction k arbitrary: s)
  case 0
  then show ?case using init_echo [OF ok] start by auto
next
  case (Suc k)
  then obtain s1 where s1: "(cpp_step alloc base N R ^^ k) s0 s1" "cpp_step alloc base N R s1 s" by auto
  have "echo_inv alloc (Suc (2 * (R * N))) base N R s1"
    using echo.reachable_inv [OF _ relpowp_imp_rtranclp [OF s1(1)]] ok start by blast
  then show ?case using step_advances [OF _ ok(2) s1(2)] Suc(1) [OF s1(1)] by (auto simp: advances_def)
qed

lemma work_le: "echo_inv alloc K base N R s \<Longrightarrow> work N R s \<le> R * (4 * N + 1)"
  using counts_le(1,2,5) [of N R "cm_sender s"] counts_le(3,4) [of N R "cm_inter s"]
  by (auto simp: work_def echo_inv_def algebra_simps)

text \<open>Pools of four rings for the witnesses, enough for one message.\<close>

definition demo_pools :: "cpp_queue \<Rightarrow> node_alloc" where
  "demo_pools x = next_free"

lemma demo_ok: "pools_ok demo_pools 1 1" "reqs_ok 4096 1"
proof -
  have "alloc_ok 3 next_free" using next_free_ok unfolding alloc_ok_def by simp
  then show "pools_ok demo_pools 1 1" by (simp add: pools_ok_def demo_pools_def MAX_PATIENCE_cpp_def numeral_3_eq_3)
qed (simp add: reqs_ok_def)

section \<open>Properties of the simulation\<close>





end
