(* ===== verification/Page_Quicksort.thy ===== *)
theory Page_Quicksort
  imports Page_Sort
begin

text \<open>
  The other sorter of \<open>src/c/malloc.c\<close>: the quicksort \<open>page_list_sort(p, tail)\<close> that is kept in the source but compiled out
  (\<open>#if 0\<close>) in favour of the merge sort. It works in place with two tail pointers, takes the last page of the sorted
  prefix as its pivot, and hands the address of the last link back through \<open>tail\<close>. The theorem shows that the two sorters
  can be exchanged: they return the same head and leave the same descriptors.
\<close>

section \<open>The sort\<close>

text \<open>A pointer \<open>unsigned *\<close> points at one of the local variables \<open>a\<close> and \<open>b\<close>, or at the field \<open>page\<close> of a descriptor.\<close>

datatype qslot = A_var | B_var | Link nat

fun qstore :: "qslot \<Rightarrow> nat \<Rightarrow> nat \<times> nat \<times> ptab \<Rightarrow> nat \<times> nat \<times> ptab" where
  "qstore A_var v (a, b, m) = (v, b, m)"
| "qstore B_var v (a, b, m) = (a, v, m)"
| "qstore (Link x) v (a, b, m) = (a, b, set_page x v m)"

text \<open>The loop that looks for the end of the sorted prefix; the results are \<open>a_tail\<close>, \<open>pivot\<close> and \<open>p\<close>.\<close>

partial_function (option) pivot_loop :: "ptab \<Rightarrow> qslot \<Rightarrow> nat \<Rightarrow> nat \<Rightarrow> (qslot \<times> nat \<times> nat) option" where
  "pivot_loop m a_tail pivot p =
     (if p = 0 then Some (a_tail, pivot, p)
      else if pcmp m pivot p > 0 then Some (a_tail, pivot, p)
      else pivot_loop m (Link pivot) p (pg_page (m p)))"

text \<open>The loop that deals the rest out to the two lists.\<close>

partial_function (option) part_loop ::
  "nat \<Rightarrow> qslot \<Rightarrow> qslot \<Rightarrow> nat \<Rightarrow> nat \<times> nat \<times> ptab \<Rightarrow> (qslot \<times> qslot \<times> nat \<times> nat \<times> ptab) option" where
  "part_loop pivot a_tail b_tail p s =
     (if p = 0 then Some (a_tail, b_tail, s)
      else if pcmp (snd (snd s)) pivot p > 0 then
        let s' = qstore a_tail p s in part_loop pivot (Link p) b_tail (pg_page (snd (snd s') p)) s'
      else
        let s' = qstore b_tail p s in part_loop pivot a_tail (Link p) (pg_page (snd (snd s') p)) s')"

text \<open>
  The results are the value returned, what is stored through \<open>tail\<close> (nothing for an empty list) and the table. \<open>b\<close> has no
  value until the loop or \<open>*b_tail = 0\<close> gives it one; it is 0 here.
\<close>

partial_function (option) page_list_quicksort :: "nat \<Rightarrow> ptab \<Rightarrow> (nat \<times> qslot option \<times> ptab) option" where
  "page_list_quicksort p m =
     (if p = 0 then Some (p, None, m)
      else Option.bind (pivot_loop m A_var p (pg_page (m p))) (\<lambda>(a_tail, pivot, p1).
        if p1 = 0 then Some (p, Some (Link pivot), m)
        else Option.bind (part_loop pivot a_tail B_var p1 (p, 0, m)) (\<lambda>(a_tail, b_tail, s).
          let (a, b, m1) = qstore b_tail 0 (qstore a_tail 0 s)
          in Option.bind (if a \<noteq> 0 then page_list_quicksort a m1 else Some (a, None, m1)) (\<lambda>(a, ta, m2).
             Option.bind (if b \<noteq> 0 then page_list_quicksort b m2 else Some (b, None, m2)) (\<lambda>(b, tb, m3).
               let (a, b, m4) = qstore (case ta of None \<Rightarrow> a_tail | Some t \<Rightarrow> t) pivot (a, b, m3);
                   m5 = set_page pivot b m4
               in Some (a, Some (if b \<noteq> 0 then (case tb of None \<Rightarrow> b_tail | Some t \<Rightarrow> t) else Link pivot), m5))))))"

declare pivot_loop.simps [code] part_loop.simps [code] page_list_quicksort.simps [code]

section \<open>Paths\<close>

fun ppath :: "ptab \<Rightarrow> nat \<Rightarrow> nat list \<Rightarrow> nat \<Rightarrow> bool" where
  "ppath m p [] q \<longleftrightarrow> p = q"
| "ppath m p (x # xs) q \<longleftrightarrow> p = x \<and> x \<noteq> 0 \<and> ppath m (pg_page (m x)) xs q"

lemma ppath_plist: "ppath m p xs 0 = plist m p xs"
  by (induction xs arbitrary: p) auto

lemma ppath_append: "ppath m p (xs @ ys) q \<longleftrightarrow> (\<exists>r. ppath m p xs r \<and> ppath m r ys q)"
  by (induction xs arbitrary: p) auto

lemma ppath_frame: "(\<And>x. x \<in> set xs \<Longrightarrow> m' x = m x) \<Longrightarrow> ppath m' p xs q = ppath m p xs q"
  by (induction xs arbitrary: p) auto

text \<open>The list \<open>xs\<close> begins in the variable \<open>var\<close> with value \<open>v\<close>, and \<open>t\<close> is the slot after its last page.\<close>

definition tail_at :: "qslot \<Rightarrow> nat \<Rightarrow> ptab \<Rightarrow> nat list \<Rightarrow> qslot \<Rightarrow> bool" where
  "tail_at var v m xs t \<longleftrightarrow> (if xs = [] then t = var else t = Link (last xs) \<and> last xs \<noteq> 0 \<and> ppath m v (butlast xs) (last xs))"

lemma tail_at_snoc: "tail_at var v m (xs @ [x]) (Link x) \<longleftrightarrow> x \<noteq> 0 \<and> ppath m v xs x"
  by (simp add: tail_at_def)

lemma tail_at_frame: "(\<And>x. x \<in> set xs \<Longrightarrow> m' x = m x) \<Longrightarrow> tail_at var v m' xs t = tail_at var v m xs t"
proof -
  assume a: "\<And>x. x \<in> set xs \<Longrightarrow> m' x = m x"
  have "ppath m' v (butlast xs) q = ppath m v (butlast xs) q" for q by (intro ppath_frame a) (rule in_set_butlastD)
  then show ?thesis by (simp add: tail_at_def)
qed

lemma tail_at_plist: "plist m v xs \<Longrightarrow> xs \<noteq> [] \<Longrightarrow> tail_at var v m xs (Link (last xs))"
proof -
  assume a: "plist m v xs" "xs \<noteq> []"
  then have "ppath m v (butlast xs @ [last xs]) 0" by (simp add: ppath_plist)
  then show ?thesis using a(2) unfolding ppath_append by (auto simp: tail_at_def)
qed

text \<open>A store through the tail pointer completes the list.\<close>

lemma ppath_store:
  assumes "xs \<noteq> []" "distinct xs" "last xs \<noteq> 0" "ppath m v (butlast xs) (last xs)"
  shows "ppath (set_page (last xs) q m) v xs q"
proof -
  have "last xs \<notin> set (butlast xs)" using assms(1,2) by (metis append_butlast_last_id distinct_butlast not_distinct_conv_prefix)
  then have "ppath (set_page (last xs) q m) v (butlast xs) (last xs)"
    using assms(4) ppath_frame [of "butlast xs" "set_page (last xs) q m" m] by (metis set_page_simps(1))
  then have "ppath (set_page (last xs) q m) v (butlast xs @ [last xs]) q"
    using assms(3) unfolding ppath_append by auto
  then show ?thesis using assms(1) by simp
qed

lemma store_a:
  assumes "tail_at A_var a m xs t" "distinct xs"
  obtains a' m' where "qstore t q (a, b, m) = (a', b, m')" "ppath m' a' xs q" "same_keys (set xs) m m'"
proof (cases "xs = []")
  case True
  then show ?thesis using assms by (intro that [of q m]) (auto simp: tail_at_def)
next
  case False
  then show ?thesis
    using assms ppath_store [of xs m a q] same_keys_set [of "last xs" "set xs"]
    by (intro that [of a "set_page (last xs) q m"]) (auto simp: tail_at_def)
qed

lemma store_b:
  assumes "tail_at B_var b m xs t" "distinct xs"
  obtains b' m' where "qstore t q (a, b, m) = (a, b', m')" "ppath m' b' xs q" "same_keys (set xs) m m'"
proof (cases "xs = []")
  case True
  then show ?thesis using assms by (intro that [of q m]) (auto simp: tail_at_def)
next
  case False
  then show ?thesis
    using assms ppath_store [of xs m b q] same_keys_set [of "last xs" "set xs"]
    by (intro that [of b "set_page (last xs) q m"]) (auto simp: tail_at_def)
qed

section \<open>The loops on a list\<close>

lemma pcmp_gt: "a < 2 ^ 31 \<Longrightarrow> b < 2 ^ 31 \<Longrightarrow> pcmp m a b > 0 \<longleftrightarrow> \<not> page_le m a b"
  using pcmp_le [of a b m] by linarith

lemma pivot_loop_list:
  assumes "tail_at A_var a m us t" "ppath m a us x" "x \<noteq> 0" "plist m p ws" "pg_page (m x) = p" "\<forall>y \<in> set (x # ws). y < 2 ^ 31"
    and "sorted_wrt (page_le m) (us @ [x])"
  shows "\<exists>t' us' x' vs. pivot_loop m t x p = Some (t', x', if vs = [] then 0 else hd vs) \<and> us @ x # ws = us' @ x' # vs \<and>
    sorted_wrt (page_le m) (us' @ [x']) \<and> tail_at A_var a m us' t' \<and> (vs \<noteq> [] \<longrightarrow> \<not> page_le m x' (hd vs)) \<and> plist m (pg_page (m x')) vs"
  using assms
proof (induction ws arbitrary: us t x p)
  case Nil
  then show ?case by (intro exI [of _ t] exI [of _ us] exI [of _ x] exI [of _ "[]"]) (simp add: pivot_loop.simps)
next
  case (Cons w ws)
  have p: "p = w" "w \<noteq> 0" "plist m (pg_page (m w)) ws" using Cons.prems(4) by simp_all
  have c: "pcmp m x w > 0 \<longleftrightarrow> \<not> page_le m x w" using Cons.prems(6) by (intro pcmp_gt) simp_all
  show ?case
  proof (cases "page_le m x w")
    case False
    then show ?thesis using Cons.prems p c
      by (intro exI [of _ t] exI [of _ us] exI [of _ x] exI [of _ "w # ws"]) (simp add: pivot_loop.simps)
  next
    case True
    have s: "sorted_wrt (page_le m) ((us @ [x]) @ [w])"
      using Cons.prems(7) True page_le_trans [of m _ x w] by (auto simp: sorted_wrt_append)
    have t: "tail_at A_var a m (us @ [x]) (Link x)" using Cons.prems(2,3) by (simp add: tail_at_snoc)
    have q: "ppath m a (us @ [x]) w" using Cons.prems(2,3,5) p(1) by (auto simp: ppath_append)
    have b: "\<forall>y \<in> set (w # ws). y < 2 ^ 31" using Cons.prems(6) by simp
    have "pivot_loop m t x p = pivot_loop m (Link x) w (pg_page (m w))"
      using p c True by (subst pivot_loop.simps) simp
    then show ?thesis using Cons.IH [OF t q p(2,3) refl b s] by simp
  qed
qed

text \<open>What the loop that deals the pages out ends with.\<close>

lemma part_loop_list:
  assumes "tail_at A_var a m us ta" "tail_at B_var b m vs tb" "plist m p ws" "distinct (us @ vs @ ws)"
    and "pv < 2 ^ 31" "\<forall>y \<in> set ws. y < 2 ^ 31"
  shows "\<exists>ta' tb' a' b' m'. part_loop pv ta tb p (a, b, m) = Some (ta', tb', a', b', m') \<and>
    tail_at A_var a' m' (us @ filter (\<lambda>y. \<not> page_le m pv y) ws) ta' \<and> tail_at B_var b' m' (vs @ filter (page_le m pv) ws) tb' \<and>
    same_keys (set us \<union> set vs \<union> set ws) m m'"
  using assms
proof (induction ws arbitrary: us vs ta tb p a b m)
  case Nil
  then show ?case by (auto simp: part_loop.simps)
next
  case (Cons w ws)
  have p: "p = w" "w \<noteq> 0" "plist m (pg_page (m w)) ws" using Cons.prems(3) by simp_all
  have c: "pcmp m pv w > 0 \<longleftrightarrow> \<not> page_le m pv w" using Cons.prems(5,6) by (intro pcmp_gt) simp_all
  have d: "distinct us" "distinct vs" using Cons.prems(4) by simp_all
  have ws: "plist m' (pg_page (m' w)) ws" if k: "same_keys X m m'" "X \<inter> set (w # ws) = {}" for X m'
  proof -
    have "m' y = m y" if "y \<in> set (w # ws)" for y using k that by (intro same_keys_out [OF k(1)]) auto
    then show ?thesis using p(3) plist_frame [of ws m' m] by simp
  qed
  show ?case
  proof (cases "page_le m pv w")
    case False
    obtain a' m' where s: "qstore ta w (a, b, m) = (a', b, m')" "ppath m' a' us w" "same_keys (set us) m m'"
      by (rule store_a [OF Cons.prems(1) d(1)])
    have "tail_at B_var b m' vs tb" using Cons.prems(2,4) s(3) by (subst tail_at_frame [of vs m' m]) (auto intro!: same_keys_out)
    moreover have "tail_at A_var a' m' (us @ [w]) (Link w)" using s(2) p(2) by (simp add: tail_at_snoc)
    moreover have "plist m' (pg_page (m' w)) ws" using Cons.prems(4) by (intro ws [OF s(3)]) auto
    ultimately obtain ta' tb' a2 b2 m2 where r: "part_loop pv (Link w) tb (pg_page (m' w)) (a', b, m') = Some (ta', tb', a2, b2, m2)"
        "tail_at A_var a2 m2 ((us @ [w]) @ filter (\<lambda>y. \<not> page_le m pv y) ws) ta'" "tail_at B_var b2 m2 (vs @ filter (page_le m pv) ws) tb'"
        "same_keys (set (us @ [w]) \<union> set vs \<union> set ws) m' m2"
      using Cons.IH [of a' m' "us @ [w]" "Link w" b vs tb "pg_page (m' w)"] Cons.prems(4-6) same_keys_le [OF s(3)] by auto
    have "part_loop pv ta tb p (a, b, m) = Some (ta', tb', a2, b2, m2)"
      using r(1) s(1) p c False by (subst part_loop.simps) simp
    moreover have "same_keys (set us \<union> set vs \<union> set (w # ws)) m m2" by (rule same_keys_trans [OF s(3) r(4)]) auto
    ultimately show ?thesis using r(2,3) False by auto
  next
    case True
    obtain b' m' where s: "qstore tb w (a, b, m) = (a, b', m')" "ppath m' b' vs w" "same_keys (set vs) m m'"
      by (rule store_b [OF Cons.prems(2) d(2)])
    have "tail_at A_var a m' us ta" using Cons.prems(1,4) s(3) by (subst tail_at_frame [of us m' m]) (auto intro!: same_keys_out)
    moreover have "tail_at B_var b' m' (vs @ [w]) (Link w)" using s(2) p(2) by (simp add: tail_at_snoc)
    moreover have "plist m' (pg_page (m' w)) ws" using Cons.prems(4) by (intro ws [OF s(3)]) auto
    ultimately obtain ta' tb' a2 b2 m2 where r: "part_loop pv ta (Link w) (pg_page (m' w)) (a, b', m') = Some (ta', tb', a2, b2, m2)"
        "tail_at A_var a2 m2 (us @ filter (\<lambda>y. \<not> page_le m pv y) ws) ta'" "tail_at B_var b2 m2 ((vs @ [w]) @ filter (page_le m pv) ws) tb'"
        "same_keys (set us \<union> set (vs @ [w]) \<union> set ws) m' m2"
      using Cons.IH [of a m' us ta b' "vs @ [w]" "Link w" "pg_page (m' w)"] Cons.prems(4-6) same_keys_le [OF s(3)] by auto
    have "part_loop pv ta tb p (a, b, m) = Some (ta', tb', a2, b2, m2)"
      using r(1) s(1) p c True by (subst part_loop.simps) simp
    moreover have "same_keys (set us \<union> set vs \<union> set (w # ws)) m m2" by (rule same_keys_trans [OF s(3) r(4)]) auto
    ultimately show ?thesis using r(2,3) True by auto
  qed
qed

section \<open>The sort on a list\<close>

definition qsorts_to :: "ptab \<Rightarrow> nat list \<Rightarrow> (nat \<times> qslot option \<times> ptab) option \<Rightarrow> bool" where
  "qsorts_to m xs r \<longleftrightarrow> (\<exists>p' m' ys. r = Some (p', if xs = [] then None else Some (Link (last ys)), m') \<and> plist m' p' ys \<and>
     mset ys = mset xs \<and> sorted_wrt (page_le m) ys \<and> same_keys (set xs) m m')"

lemma plist_append: "plist m p (xs @ ys) \<longleftrightarrow> (\<exists>r. ppath m p xs r \<and> plist m r ys)"
  by (simp flip: ppath_plist add: ppath_append)

lemma quick_if: "(if a \<noteq> 0 then page_list_quicksort a m else Some (a, None, m)) = page_list_quicksort a m"
  by (simp add: page_list_quicksort.simps)

text \<open>The sorted lists and the pivot are put together.\<close>

lemma quick_join:
  assumes us: "plist m a us" "tail_at A_var a m us ta" and vs: "plist m b vs" and d: "distinct (us @ pv # vs)" "pv \<noteq> 0"
  obtains a' m4 where "qstore ta pv (a, b, m) = (a', b, m4)" "plist (set_page pv b m4) a' (us @ pv # vs)"
    "same_keys (set us \<union> {pv}) m (set_page pv b m4)"
proof -
  have "distinct us" using d by simp
  from store_a [OF us(2) this] obtain a' m4 where s: "qstore ta pv (a, b, m) = (a', b, m4)" "ppath m4 a' us pv" "same_keys (set us) m m4" .
  let ?m = "set_page pv b m4"
  have o: "?m y = m4 y" if "y \<in> set us \<union> set vs" for y using d that by (intro set_page_simps(1)) auto
  have "ppath ?m a' us pv" using s(2) o by (subst ppath_frame [of us ?m m4]) auto
  moreover have "?m y = m y" if "y \<in> set vs" for y using that d o [of y] same_keys_out [OF s(3), of y] by auto
  then have "plist ?m b vs" using vs plist_frame [of vs ?m m b] by simp
  ultimately have "plist ?m a' (us @ pv # vs)" using d(2) by (auto simp: plist_append)
  moreover have "same_keys (set us \<union> {pv}) m ?m" by (rule same_keys_trans [OF s(3) same_keys_set [of pv "{pv}"]]) auto
  ultimately show ?thesis using s(1) that by blast
qed

lemma sorted_join:
  assumes "sorted_wrt (page_le m) us" "sorted_wrt (page_le m) vs" "\<forall>x \<in> set us. page_le m x pv" "\<forall>x \<in> set vs. page_le m pv x"
  shows "sorted_wrt (page_le m) (us @ pv # vs)"
  using assms page_le_trans [of m _ pv] by (auto simp: sorted_wrt_append)

text \<open>The two recursive calls and what follows them, after the pages have been dealt out to \<open>us\<close> and \<open>vs\<close>.\<close>

lemma quick_halves:
  assumes us: "tail_at A_var a0 m0 us ta" and vs: "tail_at B_var b0 m0 vs tb" and d: "distinct (us @ pv # vs)" "pv \<noteq> 0"
    and IH: "\<And>a m. plist m a us \<Longrightarrow> qsorts_to m us (page_list_quicksort a m)" "\<And>a m. plist m a vs \<Longrightarrow> qsorts_to m vs (page_list_quicksort a m)"
    and le: "\<forall>x \<in> set us. page_le m0 x pv" "\<forall>x \<in> set vs. page_le m0 pv x" and xs: "mset xs = mset us + mset vs + {#pv#}"
  shows "qsorts_to m0 xs
    (let (a, b, m1) = qstore tb 0 (qstore ta 0 (a0, b0, m0))
     in Option.bind (if a \<noteq> 0 then page_list_quicksort a m1 else Some (a, None, m1)) (\<lambda>(a, ta', m2).
        Option.bind (if b \<noteq> 0 then page_list_quicksort b m2 else Some (b, None, m2)) (\<lambda>(b, tb', m3).
          let (a, b, m4) = qstore (case ta' of None \<Rightarrow> ta | Some t \<Rightarrow> t) pv (a, b, m3);
              m5 = set_page pv b m4
          in Some (a, Some (if b \<noteq> 0 then (case tb' of None \<Rightarrow> tb | Some t \<Rightarrow> t) else Link pv), m5))))"
proof -
  have du: "distinct us" "distinct vs" "set us \<inter> set vs = {}" "pv \<notin> set us" "pv \<notin> set vs" using d by auto
  from store_a [OF us du(1)] obtain a1 m1 where s1: "qstore ta 0 (a0, b0, m0) = (a1, b0, m1)" "ppath m1 a1 us 0" "same_keys (set us) m0 m1" .
  have "tail_at B_var b0 m1 vs tb" using vs du(3) same_keys_out [OF s1(3)] by (subst tail_at_frame [of vs m1 m0]) auto
  from store_b [OF this du(2)] obtain b1 m2 where s2: "qstore tb 0 (a1, b0, m1) = (a1, b1, m2)" "ppath m2 b1 vs 0" "same_keys (set vs) m1 m2" .
  have k2: "same_keys (set us \<union> set vs) m0 m2" by (rule same_keys_trans [OF s1(3) s2(3)]) simp
  have "plist m2 a1 us" using s1(2) du(3) same_keys_out [OF s2(3)] by (subst plist_frame [of us m2 m1]) (auto simp: ppath_plist)
  from IH(1) [OF this] obtain a2 m3 us' where r1: "page_list_quicksort a1 m2 = Some (a2, if us = [] then None else Some (Link (last us')), m3)"
    "plist m3 a2 us'" "mset us' = mset us" "sorted_wrt (page_le m2) us'" "same_keys (set us) m2 m3" by (auto simp: qsorts_to_def)
  have "plist m3 b1 vs" using s2(2) du(3) same_keys_out [OF r1(5)] by (subst plist_frame [of vs m3 m2]) (auto simp: ppath_plist)
  from IH(2) [OF this] obtain b2 m4 vs' where r2: "page_list_quicksort b1 m3 = Some (b2, if vs = [] then None else Some (Link (last vs')), m4)"
    "plist m4 b2 vs'" "mset vs' = mset vs" "sorted_wrt (page_le m3) vs'" "same_keys (set vs) m3 m4" by (auto simp: qsorts_to_def)
  have set: "set us' = set us" "set vs' = set vs" "distinct us'" "distinct vs'" "us' = [] \<longleftrightarrow> us = []" "vs' = [] \<longleftrightarrow> vs = []"
    using mset_eq_setD [OF r1(3)] mset_eq_setD [OF r2(3)] mset_eq_imp_distinct_iff [OF r1(3)] mset_eq_imp_distinct_iff [OF r2(3)] du by auto
  have pl: "plist m4 a2 us'" using r1(2) du(3) same_keys_out [OF r2(5)] set by (subst plist_frame [of us' m4 m3]) auto
  let ?ta = "case (if us = [] then None else Some (Link (last us'))) of None \<Rightarrow> ta | Some t \<Rightarrow> t"
  have "tail_at A_var a2 m4 us' ?ta" using us tail_at_plist [OF pl, of A_var] set(5) by (auto simp: tail_at_def)
  from quick_join [OF pl this r2(2), of pv] d set obtain a3 m5 where j: "qstore ?ta pv (a2, b2, m4) = (a3, b2, m5)"
    "plist (set_page pv b2 m5) a3 (us' @ pv # vs')" "same_keys (set us' \<union> {pv}) m4 (set_page pv b2 m5)" by auto
  have k: "same_keys (set xs) m0 (set_page pv b2 m5)"
  proof -
    have "set xs = set us \<union> set vs \<union> {pv}" using arg_cong [OF xs, of set_mset] by simp
    moreover have "same_keys (set us \<union> set vs) m0 m3" by (rule same_keys_trans [OF k2 r1(5)]) simp
    then have "same_keys (set us \<union> set vs) m0 m4" by (rule same_keys_trans [OF _ r2(5)]) simp
    ultimately show ?thesis using j(3) set(1) by (auto intro: same_keys_trans)
  qed
  have l: "page_le m2 = page_le m0" "page_le m3 = page_le m0" using same_keys_le [OF k2] same_keys_le [OF r1(5)] by simp_all
  have "sorted_wrt (page_le m0) (us' @ pv # vs')" using r1(4) r2(4) le set unfolding l by (intro sorted_join) auto
  moreover have "b2 \<noteq> 0 \<longleftrightarrow> vs \<noteq> []" using r2(2) set(6) by (cases vs') auto
  moreover have "xs \<noteq> []" using xs by auto
  moreover have "mset (us' @ pv # vs') = mset xs" using xs r1(3) r2(3) by simp
  ultimately show ?thesis using s1(1) s2(1) r1(1) r2(1) j(1,2) k set(6)
    unfolding qsorts_to_def quick_if by (auto intro!: exI [of _ "us' @ pv # vs'"])
qed

lemma qsorts_to_keys: "same_keys X m m0 \<Longrightarrow> qsorts_to m0 xs r \<Longrightarrow> X \<subseteq> set xs \<Longrightarrow> qsorts_to m xs r"
proof -
  assume a: "same_keys X m m0" "qsorts_to m0 xs r" "X \<subseteq> set xs"
  have "same_keys (set xs) m m'" if "same_keys (set xs) m0 m'" for m' using a(3) by (intro same_keys_trans [OF a(1) that]) simp
  then show ?thesis using a(2) unfolding qsorts_to_def same_keys_le [OF a(1)] by blast
qed

lemma page_list_quicksort_list:
  assumes "plist m p xs" "distinct xs" "\<forall>x \<in> set xs. x < 2 ^ 31"
  shows "qsorts_to m xs (page_list_quicksort p m)"
  using assms
proof (induction "length xs" arbitrary: p m xs rule: less_induct)
  case less
  show ?case
  proof (cases xs)
    case Nil
    then show ?thesis using less.prems(1) by (simp add: page_list_quicksort.simps qsorts_to_def)
  next
    case (Cons x ws)
    then have p: "p = x" "x \<noteq> 0" "plist m (pg_page (m x)) ws" using less.prems(1) by simp_all
    have "tail_at A_var p m [] A_var" by (simp add: tail_at_def)
    from pivot_loop_list [OF this _ p(2,3) refl] less.prems(3) Cons p(1) obtain t us pv vs where
      q: "pivot_loop m A_var p (pg_page (m p)) = Some (t, pv, if vs = [] then 0 else hd vs)" "xs = us @ pv # vs"
        "sorted_wrt (page_le m) (us @ [pv])" "tail_at A_var p m us t" "vs \<noteq> [] \<longrightarrow> \<not> page_le m pv (hd vs)" "plist m (pg_page (m pv)) vs"
      by auto
    show ?thesis
    proof (cases "vs = []")
      case True
      then show ?thesis using q p less.prems(1)
        by (subst page_list_quicksort.simps) (auto simp: qsorts_to_def intro!: exI [of _ "us @ [pv]"])
    next
      case False
      have "ppath m p us pv \<and> pv \<noteq> 0" using less.prems(1) q(2) by (auto simp: plist_append)
      then have pv: "pv \<noteq> 0" by simp
      have h: "hd vs \<noteq> 0" "plist m (hd vs) vs" using q(6) False by (cases vs; auto)+
      have d: "distinct (us @ pv # vs)" using less.prems(2) q(2) by simp
      have "tail_at B_var 0 m [] B_var" by (simp add: tail_at_def)
      from part_loop_list [OF q(4) this h(2), of pv] d less.prems(3) q(2) obtain ta tb a0 b0 m0 where
        pt: "part_loop pv t B_var (hd vs) (p, 0, m) = Some (ta, tb, a0, b0, m0)"
          "tail_at A_var a0 m0 (us @ filter (\<lambda>y. \<not> page_le m pv y) vs) ta" "tail_at B_var b0 m0 (filter (page_le m pv) vs) tb"
          "same_keys (set us \<union> set vs) m m0" by auto
      let ?us = "us @ filter (\<lambda>y. \<not> page_le m pv y) vs" and ?vs = "filter (page_le m pv) vs"
      have ih: "qsorts_to n ys (page_list_quicksort a n)" if "plist n a ys" "ys = ?us \<or> ys = ?vs" for a n ys
      proof (rule less.hyps)
        show "length ys < length xs" using that(2) length_filter_le [of _ vs] by (auto simp: q(2) le_imp_less_Suc trans_le_add2)
        show "distinct ys" "\<forall>y \<in> set ys. y < 2 ^ 31" using that(2) d less.prems(3) by (auto simp: q(2))
      qed (rule that(1))
      have le: "page_le m0 = page_le m" by (rule same_keys_le [OF pt(4)])
      have "mset vs = mset (filter (\<lambda>y. \<not> page_le m pv y) vs) + mset ?vs" by (induction vs) simp_all
      then have ms: "mset xs = mset ?us + mset ?vs + {#pv#}" by (simp add: q(2))
      have "\<forall>y \<in> set us. page_le m y pv" using q(3) by (simp add: sorted_wrt_append)
      then have "\<forall>y \<in> set ?us. page_le m0 y pv" using page_le_total unfolding le by auto
      then have "qsorts_to m0 xs (page_list_quicksort p m)"
        using quick_halves [OF pt(2,3) _ pv ih ih _ _ ms] d q(1) pt(1) p(1,2) False h(1) le
        by (subst page_list_quicksort.simps) (auto simp: Let_def)
      then show ?thesis by (rule qsorts_to_keys [OF pt(4)]) (auto simp: q(2))
    qed
  qed
qed

section \<open>Both sorters\<close>

text \<open>Pages are ordered totally, so the sorted list is determined, and with it the links.\<close>

lemma sorted_pages_unique:
  assumes "sorted_wrt (page_le m) xs" "sorted_wrt (page_le m) ys" "mset xs = mset ys"
  shows "xs = ys"
  using assms
proof (induction xs arbitrary: ys)
  case (Cons x xs)
  obtain y ys' where ys: "ys = y # ys'" using Cons.prems(3) by (cases ys) auto
  have s: "set (x # xs) = set ys" by (rule mset_eq_setD [OF Cons.prems(3)])
  then have "x \<in> set (y # ys')" "y \<in> set (x # xs)" by (auto simp: ys)
  then have "page_le m x y" "page_le m y x" using Cons.prems(1,2) by (auto simp: ys page_le_def)
  then have "x = y" by (auto simp: page_le_def)
  then show ?case using Cons by (simp add: ys)
qed simp

lemma plist_links: "plist m p xs \<Longrightarrow> plist m' p' xs \<Longrightarrow> p' = p \<and> (\<forall>x \<in> set xs. pg_page (m' x) = pg_page (m x))"
proof (induction xs arbitrary: p p')
  case (Cons x xs)
  from Cons.prems have "plist m (pg_page (m x)) xs" "plist m' (pg_page (m' x)) xs" "p = x" "p' = x" by auto
  then show ?case using Cons.IH [of "pg_page (m x)" "pg_page (m' x)"] by simp
qed simp

lemma plist_det: "plist m p xs \<Longrightarrow> plist m p ys \<Longrightarrow> xs = ys"
proof (induction xs arbitrary: p ys)
  case Nil
  then show ?case by (cases ys) auto
next
  case (Cons x xs)
  then show ?case by (cases ys) auto
qed

lemma same_keys_links:
  assumes "same_keys X m m1" "same_keys X m m2" "\<forall>x \<in> X. pg_page (m2 x) = pg_page (m1 x)"
  shows "m2 = m1"
proof
  fix x
  show "m2 x = m1 x"
  proof (cases "x \<in> X")
    case True
    have "m1 x = (m x)\<lparr>pg_page := pg_page (m1 x)\<rparr>" "m2 x = (m x)\<lparr>pg_page := pg_page (m2 x)\<rparr>" using assms(1,2) unfolding same_keys_def by blast+
    then show ?thesis using assms(3) True by metis
  next
    case False
    then show ?thesis using same_keys_out [OF assms(1)] same_keys_out [OF assms(2)] by simp
  qed
qed

text \<open>
  (C21) The quicksort that is compiled out and the merge sort in use are the same function on every list of different pages with
  numbers below \<open>2^31\<close>: both return, with the same first page and the same table of descriptors. The quicksort also gives
  the address of the last link of the sorted list through \<open>tail\<close>, and nothing for the empty list.
\<close>

theorem quicksort_is_merge_sort:
  assumes "plist m p xs" "distinct xs" "\<forall>x \<in> set xs. x < 2 ^ 31"
  shows "\<exists>p' m' ys. page_list_quicksort p m = Some (p', if xs = [] then None else Some (Link (last ys)), m') \<and>
    page_list_sort p m = Some (p', m') \<and> plist m' p' ys \<and> mset ys = mset xs"
proof -
  from page_list_sort_list [OF assms] obtain p1 m1 ys where
    r1: "page_list_sort p m = Some (p1, m1)" "plist m1 p1 ys" "mset ys = mset xs" "sorted_wrt (page_le m) ys" "same_keys (set xs) m m1"
    unfolding sorts_to_def by blast
  from page_list_quicksort_list [OF assms] obtain p2 m2 zs where
    r2: "page_list_quicksort p m = Some (p2, if xs = [] then None else Some (Link (last zs)), m2)" "plist m2 p2 zs" "mset zs = mset xs"
      "sorted_wrt (page_le m) zs" "same_keys (set xs) m m2"
    unfolding qsorts_to_def by blast
  have e: "zs = ys" using r1(3) r2(3) by (intro sorted_pages_unique [OF r2(4) r1(4)]) simp
  with plist_links [OF r1(2), of m2 p2] r2(2) have l: "p2 = p1" "\<forall>x \<in> set ys. pg_page (m2 x) = pg_page (m1 x)" by simp_all
  have "set ys = set xs" by (rule mset_eq_setD [OF r1(3)])
  with l(2) have "m2 = m1" by (intro same_keys_links [OF r1(5) r2(5)]) simp
  then show ?thesis using r1 r2 l(1) e by blast
qed

theorem quicksort_is_merge_sort_witness:
  "\<exists>p' m'. page_list_quicksort 5 demo_pages = Some (p', Some (Link 5), m') \<and> page_list_sort 5 demo_pages = Some (p', m') \<and> plist m' p' [7, 3, 5]"
proof -
  have "plist demo_pages 5 [5, 3, 7]" by (simp add: demo_pages_def)
  from quicksort_is_merge_sort [OF this] obtain p' m' ys where
    r: "page_list_quicksort 5 demo_pages = Some (p', Some (Link (last ys)), m')" "page_list_sort 5 demo_pages = Some (p', m')"
      "plist m' p' ys" "mset ys = mset [5, 3, 7]" by auto
  from page_list_sort_list [OF \<open>plist demo_pages 5 [5, 3, 7]\<close>] obtain zs where
    z: "plist m' p' zs" "mset zs = mset [5, 3, 7]" "sorted_wrt (page_le demo_pages) zs" unfolding sorts_to_def r(2) by auto
  have "sorted_wrt (page_le demo_pages) [7, 3, 5]" by (simp add: page_le_def demo_pages_def)
  then have "zs = [7, 3, 5]" using z(2) by (intro sorted_pages_unique [OF z(3)]) auto
  moreover have "ys = zs" using r(3) z(1) plist_det by blast
  ultimately show ?thesis using r by auto
qed

end
