(* ===== verification/Heapdump.thy ===== *)
theory Heapdump
  imports Chunks
begin

text \<open>
  \<open>heapdump\<close> of \<open>src/c/malloc.c\<close>, which prints the pool: a mark for every page, the lists of free chunks of every size class, and the free
  extents by size. What a call of \<open>printf\<close> prints is an element of type \<open>dump\<close>, with the arguments of the call. \<^const>\<open>None\<close> means
  that a loop over a list does not end. The theorem says that on a consistent pool the dump is the abstract state, mark by mark.
\<close>

section \<open>Output\<close>

datatype dump =
    Header nat nat              \<comment> \<open>\<open>membase = .., end = .., .. pages total\<close>\<close>
  | Row nat                     \<comment> \<open>the address at the start of a line of eight pages\<close>
  | Small_mark nat int          \<comment> \<open>size and count of a page of chunks\<close>
  | Big_mark bool int           \<comment> \<open>\<open>F\<close> or \<open>B\<close> with the length of the extent\<close>
  | Arrow_mark | Lost_mark      \<comment> \<open>\<open><-->\<close> and \<open>?--?\<close>\<close>
  | Gap_mark | Base_mark | Unknown_mark
  | Class_head nat nat          \<comment> \<open>\<open>SIZE ..: local ..\<close>\<close>
  | Open_free nat | Open_aux nat | Item nat | Close
  | Global_head                 \<comment> \<open>\<open>global\<close>\<close>
  | Wrong_code nat
  | Page_open int               \<comment> \<open>the count of a page and \<open>[\<close>\<close>
  | Chunk_item nat bool         \<comment> \<open>a chunk, followed by a comma (\<^const>\<open>True\<close>) or by \<open>]\<close>\<close>
  | Plus
  | Big_head                    \<comment> \<open>\<open>BIG:\<close>\<close>
  | Extent_open int nat | Extent_item nat | Extent_close
  | Tail

section \<open>The pages\<close>

text \<open>The mark of page \<open>i\<close>, and the new value of \<open>lbig\<close>.\<close>

definition page_mark :: "page \<Rightarrow> nat \<Rightarrow> nat \<Rightarrow> dump \<times> nat" where
  "page_mark pg i lbig =
     (let c = pg_code pg; kind = c - c mod 2
      in if c < NUMSMALL then (Small_mark (SIZE c) (pg_count pg), 0)
         else if kind = BIG then (Big_mark (odd c) (to_int (int (pg_page pg) - int i)), i)
         else if kind = MIDDLE then (if pg_page pg = lbig then Arrow_mark else Lost_mark, lbig)
         else if kind = BASE then (if odd c then Gap_mark else Base_mark, 0)
         else (Unknown_mark, 0))"

text \<open>The loop over the pages, of which \<open>n\<close> are left.\<close>

fun dump_pages :: "ptab \<Rightarrow> nat \<Rightarrow> nat \<Rightarrow> nat \<Rightarrow> dump list" where
  "dump_pages m 0 i lbig = []"
| "dump_pages m (Suc n) i lbig =
     (let (mark, lbig') = page_mark (m i) i lbig
      in (if i mod 8 = 0 then [Row (i * PAGESIZE)] else []) @ mark # dump_pages m n (i + 1) lbig')"

section \<open>The lists\<close>

text \<open>The loop \<open>for (; cp; cp = cp->next)\<close>: the chunks it meets.\<close>

partial_function (option) chunks_from :: "(nat \<Rightarrow> nat) \<Rightarrow> nat \<Rightarrow> nat list option" where
  "chunks_from nx cp = (if cp = 0 then Some [] else Option.bind (chunks_from nx (nx cp)) (\<lambda>cs. Some (cp # cs)))"

definition dump_local :: "(nat \<Rightarrow> dump) \<Rightarrow> (nat \<Rightarrow> nat) \<Rightarrow> nat \<Rightarrow> dump list option" where
  "dump_local start nx p =
     (if p = 0 then Some [] else Option.bind (chunks_from nx (nx p)) (\<lambda>cs. Some (start p # map Item cs @ [Close])))"

partial_function (option) dump_global :: "heap \<Rightarrow> nat \<Rightarrow> nat \<Rightarrow> dump list option" where
  "dump_global h l j =
     (if j = 0 then Some []
      else let pg = ph_tab h j
           in Option.bind (if pg_count pg \<noteq> 0 then chunks_from (hp_next h) (page_addr j + pg_free pg * SIZE l) else Some []) (\<lambda>cs.
                Option.bind (dump_global h l (pg_page pg)) (\<lambda>ds.
                  Some ((if pg_code pg \<noteq> l then [Wrong_code (pg_code pg)] else []) @ Page_open (pg_count pg) #
                    map (\<lambda>cp. Chunk_item cp (hp_next h cp \<noteq> 0)) cs @ (if pg_page pg \<noteq> 0 then [Plus] else []) @ ds))))"

definition dump_class :: "heap \<Rightarrow> nat \<Rightarrow> dump list option" where
  "dump_class h l = do {
     a \<leftarrow> dump_local Open_free (hp_next h) (lf_free (hp_local h l));
     b \<leftarrow> dump_local Open_aux (hp_next h) (lf_aux (hp_local h l));
     c \<leftarrow> dump_global h l (hp_freechunks h l);
     Some (Class_head (SIZE l) (lf_count (hp_local h l)) # a @ b @ Global_head # c)
   }"

fun dump_classes :: "heap \<Rightarrow> nat \<Rightarrow> nat \<Rightarrow> dump list option" where
  "dump_classes h 0 l = Some []"
| "dump_classes h (Suc n) l = do { a \<leftarrow> dump_class h l; b \<leftarrow> dump_classes h n (l + 1); Some (a @ b) }"

partial_function (option) dump_same :: "fpool \<Rightarrow> nat option \<Rightarrow> dump list option" where
  "dump_same s p2 =
     (case p2 of None \<Rightarrow> Some []
      | Some x \<Rightarrow> Option.bind (dump_same s (fp_next (fp_mem s x))) (\<lambda>ds. Some (Extent_item x # ds)))"

partial_function (option) dump_extents :: "fpool \<Rightarrow> nat option \<Rightarrow> dump list option" where
  "dump_extents s p1 =
     (case p1 of None \<Rightarrow> Some []
      | Some x \<Rightarrow> Option.bind (dump_same s (fp_next (fp_mem s x))) (\<lambda>a.
          Option.bind (dump_extents s (fp_bigger (fp_mem s x))) (\<lambda>b. Some (Extent_open (fp_size (fp_mem s x)) x # a @ Extent_close # b))))"

definition heapdump :: "heap \<Rightarrow> dump list option" where
  "heapdump h = do {
     c \<leftarrow> dump_classes h NUMSMALL 0;
     b \<leftarrow> dump_extents (ph_fp h) (fp_root (ph_fp h));
     Some (Header (ph_end h * PAGESIZE) (ph_end h) # dump_pages (ph_tab h) (ph_end h) 0 0 @ c @ Big_head # b @ [Tail])
   }"

declare chunks_from.simps [code] dump_global.simps [code] dump_same.simps [code] dump_extents.simps [code]

section \<open>The marks of the pages\<close>

text \<open>What the mark of a page should be, given the extents.\<close>

definition mark_of :: "extents \<Rightarrow> ptab \<Rightarrow> nat \<Rightarrow> dump" where
  "mark_of E m i =
     (case E i of
        Some (n, f) \<Rightarrow> Big_mark f (int n)
      | None \<Rightarrow> if inside E i then Arrow_mark
                else if pg_code (m i) < NUMSMALL then Small_mark (SIZE (pg_code (m i))) (pg_count (m i))
                else if pg_code (m i) = BASE then Base_mark else Gap_mark)"

definition marked :: "(nat \<Rightarrow> dump) \<Rightarrow> nat \<Rightarrow> dump list" where
  "marked f i = (if i mod 8 = 0 then [Row (i * PAGESIZE)] else []) @ [f i]"

text \<open>Pages outside the extents hold chunks, belong to the allocator, or are a gap.\<close>

definition codes_ok :: "ptab \<Rightarrow> nat \<Rightarrow> extents \<Rightarrow> bool" where
  "codes_ok m e E \<longleftrightarrow> (\<forall>i < e. \<not> inside E i \<longrightarrow> pg_code (m i) < NUMSMALL \<or> pg_code (m i) \<in> {BASE, BASE + FREE})"

text \<open>\<open>lbig\<close> is the extent that page \<open>i\<close> continues, if it does.\<close>

definition lbig_ok :: "extents \<Rightarrow> nat \<Rightarrow> nat \<Rightarrow> bool" where
  "lbig_ok E i lbig \<longleftrightarrow> (\<forall>p n f. E p = Some (n, f) \<and> p < i \<and> i < p + n \<longrightarrow> lbig = p)"

lemma page_mark_ok:
  assumes t: "table_ok m e E" and c: "codes_ok m e E" and i: "i < e" "e < 2 ^ 31" and l: "lbig_ok E i lbig"
  shows "\<exists>lbig'. page_mark (m i) i lbig = (mark_of E m i, lbig') \<and> lbig_ok E (Suc i) lbig'"
proof -
  have dj: "p + n \<le> q" if "E p = Some (n, f)" "E q = Some (k, g)" "p < q" for p n f q k g
    using t that unfolding table_ok_def disjoint_extents_def by blast
  consider (start) n f where "E i = Some (n, f)" | (mid) p n f where "E i = None" "E p = Some (n, f)" "p < i" "i < p + n" | (out) "\<not> inside E i"
    unfolding inside_def by (metis le_neq_implies_less not_Some_eq surj_pair)
  then show ?thesis
  proof cases
    case start
    then have e: "extent_ok m i n f" "i + n \<le> e" using t unfolding table_ok_def by blast+
    then have "to_int (int (pg_page (m i)) - int i) = int n" using i(2) by (simp add: extent_ok_def to_int_signed)
    then have "page_mark (m i) i lbig = (mark_of E m i, i)"
      using e start by (cases f) (auto simp: page_mark_def mark_of_def extent_ok_def code_defs NUMSMALL_def size256_def)
    moreover have "lbig_ok E (Suc i) i" unfolding lbig_ok_def
    proof (intro allI impI)
      fix q k g assume q: "E q = Some (k, g) \<and> q < Suc i \<and> Suc i < q + k"
      then show "i = q" using dj [of q k g i n f] start by (cases "q < i") auto
    qed
    ultimately show ?thesis by blast
  next
    case mid
    then have e: "extent_ok m p n f" using t unfolding table_ok_def by blast
    have lb: "lbig = p" using l mid unfolding lbig_ok_def by blast
    have "inside E i" using mid unfolding inside_def by (metis less_imp_le)
    then have "page_mark (m i) i lbig = (mark_of E m i, lbig)"
      using e mid lb by (auto simp: page_mark_def mark_of_def extent_ok_def code_defs NUMSMALL_def size256_def)
    moreover have "lbig_ok E (Suc i) lbig" unfolding lbig_ok_def
    proof (intro allI impI)
      fix q k g assume q: "E q = Some (k, g) \<and> q < Suc i \<and> Suc i < q + k"
      then have "q \<noteq> i" using mid(1) by auto
      then show "lbig = q" using l q unfolding lbig_ok_def by (metis Suc_lessD less_SucE)
    qed
    ultimately show ?thesis by blast
  next
    case out
    have n: "E i = None" using out t unfolding inside_def table_ok_def extent_ok_def by (metis le_refl less_add_same_cancel1 not_Some_eq surj_pair)
    have "pg_code (m i) < NUMSMALL \<or> pg_code (m i) = BASE \<or> pg_code (m i) = BASE + FREE" using c i(1) out unfolding codes_ok_def by blast
    then have "page_mark (m i) i lbig = (mark_of E m i, 0)"
      using out n by (auto simp: page_mark_def mark_of_def code_defs NUMSMALL_def size256_def)
    moreover have "lbig_ok E (Suc i) 0"
      using out unfolding lbig_ok_def inside_def by (metis Suc_lessD less_Suc_eq_le)
    ultimately show ?thesis by blast
  qed
qed

lemma dump_pages_ok:
  assumes t: "table_ok m e E" and c: "codes_ok m e E" and e: "e < 2 ^ 31"
  shows "i + n \<le> e \<Longrightarrow> lbig_ok E i lbig \<Longrightarrow> dump_pages m n i lbig = concat (map (marked (mark_of E m)) [i ..< i + n])"
proof (induction n arbitrary: i lbig)
  case (Suc n)
  then have "i < e" by simp
  from page_mark_ok [OF t c this e Suc.prems(2)] obtain lb where
    p: "page_mark (m i) i lbig = (mark_of E m i, lb)" "lbig_ok E (Suc i) lb" by blast
  have "[i ..< i + Suc n] = i # [Suc i ..< Suc i + n]" by (simp add: upt_conv_Cons)
  then show ?case using Suc.IH [OF _ p(2)] Suc.prems(1) p(1) by (simp add: marked_def)
qed simp

section \<open>The lists of chunks\<close>

lemma chunks_from_list: "clist nx p cs \<Longrightarrow> chunks_from nx p = Some cs"
  by (induction cs arbitrary: p) (simp_all add: chunks_from.simps)

definition list_shown :: "(nat \<Rightarrow> dump) \<Rightarrow> nat list \<Rightarrow> dump list" where
  "list_shown start cs = (case cs of [] \<Rightarrow> [] | c # cs \<Rightarrow> start c # map Item cs @ [Close])"

lemma dump_local_ok: "clist nx p cs \<Longrightarrow> dump_local start nx p = Some (list_shown start cs)"
  using chunks_from_list [of nx "nx p" "tl cs"] by (cases cs) (auto simp: dump_local_def list_shown_def)

text \<open>The chunks of a page, closed by a bracket; the pages of a class, joined by plus signs.\<close>

definition page_shown :: "int \<Rightarrow> nat list \<Rightarrow> dump list" where
  "page_shown k cs = Page_open k # map (\<lambda>c. Chunk_item c True) (butlast cs) @ [Chunk_item (last cs) False]"

fun pages_shown :: "(nat \<Rightarrow> dump list) \<Rightarrow> nat list \<Rightarrow> dump list" where
  "pages_shown f [] = []"
| "pages_shown f (pn # pns) = f pn @ (if pns = [] then [] else [Plus]) @ pages_shown f pns"

text \<open>Page \<open>pn\<close> is in the list of class \<open>l\<close> with the free chunks \<open>cs\<close>.\<close>

definition listed :: "heap \<Rightarrow> nat \<Rightarrow> nat \<Rightarrow> nat list \<Rightarrow> bool" where
  "listed h l pn cs \<longleftrightarrow> pg_code (ph_tab h pn) = l \<and> pg_count (ph_tab h pn) \<noteq> 0 \<and> cs \<noteq> [] \<and>
     clist (hp_next h) (chunk pn l (pg_free (ph_tab h pn))) cs"

lemma chunk_items:
  "clist nx p cs \<Longrightarrow> cs \<noteq> [] \<Longrightarrow> map (\<lambda>c. Chunk_item c (nx c \<noteq> 0)) cs = map (\<lambda>c. Chunk_item c True) (butlast cs) @ [Chunk_item (last cs) False]"
proof (induction cs arbitrary: p)
  case (Cons c cs)
  then show ?case by (cases cs) auto
qed simp

lemma dump_global_ok:
  assumes "plist (ph_tab h) j pns" "\<forall>pn \<in> set pns. listed h l pn (cs pn)"
  shows "dump_global h l j = Some (pages_shown (\<lambda>pn. page_shown (pg_count (ph_tab h pn)) (cs pn)) pns)"
  using assms
proof (induction pns arbitrary: j)
  case Nil
  then show ?case by (simp add: dump_global.simps)
next
  case (Cons pn pns)
  have l: "listed h l pn (cs pn)" and j: "j = pn" "pn \<noteq> 0" "plist (ph_tab h) (pg_page (ph_tab h pn)) pns" using Cons.prems by simp_all
  have r: "dump_global h l (pg_page (ph_tab h pn)) = Some (pages_shown (\<lambda>pn. page_shown (pg_count (ph_tab h pn)) (cs pn)) pns)"
    using Cons.prems(2) by (intro Cons.IH [OF j(3)]) simp
  have "chunks_from (hp_next h) (page_addr pn + pg_free (ph_tab h pn) * SIZE l) = Some (cs pn)"
    using l chunks_from_list [of "hp_next h" _ "cs pn"] by (simp add: listed_def chunk_def)
  moreover have "map (\<lambda>c. Chunk_item c (hp_next h c \<noteq> 0)) (cs pn) = map (\<lambda>c. Chunk_item c True) (butlast (cs pn)) @ [Chunk_item (last (cs pn)) False]"
    using l by (intro chunk_items [of _ "chunk pn l (pg_free (ph_tab h pn))"]) (simp_all add: listed_def)
  moreover have "pg_page (ph_tab h pn) = 0 \<longleftrightarrow> pns = []" using j(3) by (cases pns) auto
  ultimately show ?case using l j(1,2) r
    by (subst dump_global.simps) (auto simp: listed_def page_shown_def Let_def)
qed

section \<open>The free extents\<close>

lemma dump_same_ok: "same_size s a xs \<Longrightarrow> dump_same s (deref s a) = Some (map Extent_item xs)"
proof (induction xs arbitrary: a)
  case Nil
  then show ?case by (simp add: dump_same.simps)
next
  case (Cons x xs)
  then have "dump_same s (fp_next (fp_mem s x)) = Some (map Extent_item xs)" "deref s a = Some x"
    using Cons.IH [of "Next x"] by (simp_all add: deref.simps)
  then show ?case by (subst dump_same.simps) simp
qed

definition group_shown :: "(nat \<Rightarrow> int) \<Rightarrow> nat list \<Rightarrow> dump list" where
  "group_shown sz g = Extent_open (sz (hd g)) (hd g) # map Extent_item (tl g) @ [Extent_close]"

lemma dump_extents_ok: "by_size s a gs \<Longrightarrow> dump_extents s (deref s a) = Some (concat (map (group_shown (size_of s)) gs))"
proof (induction gs arbitrary: a)
  case Nil
  then show ?case by (simp add: dump_extents.simps)
next
  case (Cons g gs)
  obtain x xs where g: "g = x # xs" using Cons.prems by (cases g) auto
  then have r: "deref s a = Some x" "same_size s (Next x) xs" "by_size s (Bigger x) gs" using Cons.prems by simp_all
  have "dump_same s (fp_next (fp_mem s x)) = Some (map Extent_item xs)" using dump_same_ok [OF r(2)] by (simp add: deref.simps)
  moreover have "dump_extents s (fp_bigger (fp_mem s x)) = Some (concat (map (group_shown (size_of s)) gs))"
    using Cons.IH [OF r(3)] by (simp add: deref.simps)
  ultimately show ?case using r(1) by (subst dump_extents.simps) (simp add: g group_shown_def)
qed

section \<open>Properties\<close>

text \<open>The lists of a class: \<open>fs\<close> and \<open>as\<close> are the lists of the thread, \<open>pns\<close> the pages with free chunks, \<open>cs\<close> the chunks of a page.\<close>

definition class_lists :: "heap \<Rightarrow> nat \<Rightarrow> nat list \<Rightarrow> nat list \<Rightarrow> nat list \<Rightarrow> (nat \<Rightarrow> nat list) \<Rightarrow> bool" where
  "class_lists h l fs as pns cs \<longleftrightarrow> clist (hp_next h) (lf_free (hp_local h l)) fs \<and> clist (hp_next h) (lf_aux (hp_local h l)) as \<and>
     plist (ph_tab h) (hp_freechunks h l) pns \<and> (\<forall>pn \<in> set pns. listed h l pn (cs pn))"

definition class_shown :: "heap \<Rightarrow> nat \<Rightarrow> nat list \<Rightarrow> nat list \<Rightarrow> nat list \<Rightarrow> (nat \<Rightarrow> nat list) \<Rightarrow> dump list" where
  "class_shown h l fs as pns cs = Class_head (SIZE l) (lf_count (hp_local h l)) # list_shown Open_free fs @ list_shown Open_aux as @
     Global_head # pages_shown (\<lambda>pn. page_shown (pg_count (ph_tab h pn)) (cs pn)) pns"

lemma dump_class_ok: "class_lists h l fs as pns cs \<Longrightarrow> dump_class h l = Some (class_shown h l fs as pns cs)"
  using dump_local_ok [of "hp_next h" "lf_free (hp_local h l)" fs] dump_local_ok [of "hp_next h" "lf_aux (hp_local h l)" as]
    dump_global_ok [of h "hp_freechunks h l" pns l cs]
  by (simp add: class_lists_def dump_class_def class_shown_def)

lemma dump_classes_ok:
  "\<forall>i. l \<le> i \<and> i < l + n \<longrightarrow> class_lists h i (fs i) (as i) (pns i) cs \<Longrightarrow>
     dump_classes h n l = Some (concat (map (\<lambda>i. class_shown h i (fs i) (as i) (pns i) cs) [l ..< l + n]))"
proof (induction n arbitrary: l)
  case (Suc n)
  have "[l ..< l + Suc n] = l # [Suc l ..< Suc l + n]" by (simp add: upt_conv_Cons)
  moreover have "dump_class h l = Some (class_shown h l (fs l) (as l) (pns l) cs)" using Suc.prems by (intro dump_class_ok) simp
  ultimately show ?case using Suc.IH [of "Suc l"] Suc.prems by simp
qed simp

text \<open>
  (C34) On a consistent pool \<open>heapdump\<close> comes to an end and prints the state of the pool: the mark of every page is what the extents say
  (\<open>F n\<close> or \<open>B n\<close> at the start of an extent of \<open>n\<close> pages, \<open><-->\<close> inside, the size and the count for a page of chunks), so neither
  \<open>?--?\<close> nor \<open>????\<close> nor \<open>WRONG CODE\<close> appears; the lists of every size class are printed in full; and the last part names exactly
  the free extents, grouped by ascending size.
\<close>

theorem heapdump_shows_pool:
  assumes "layout h E" "codes_ok (ph_tab h) (ph_end h) E" "\<forall>l < NUMSMALL. class_lists h l (fs l) (as l) (pns l) cs"
  shows "\<exists>gs. heapdump h = Some (Header (ph_end h * PAGESIZE) (ph_end h) #
      concat (map (marked (mark_of E (ph_tab h))) [0 ..< ph_end h]) @
      concat (map (\<lambda>l. class_shown h l (fs l) (as l) (pns l) cs) [0 ..< NUMSMALL]) @
      Big_head # concat (map (group_shown (size_of (ph_fp h))) gs) @ [Tail]) \<and>
    set (concat gs) = free_starts E \<and> sizes_ok (size_of (ph_fp h)) gs \<and> (\<forall>p n. E p = Some (n, True) \<longrightarrow> size_of (ph_fp h) p = int n)"
proof -
  have t: "table_ok (ph_tab h) (ph_end h) E" "ph_end h < 2 ^ 31" and s: "store_ok (ph_fp h) E {}" using assms(1) by (simp_all add: layout_def)
  have "lbig_ok E 0 0" by (simp add: lbig_ok_def)
  from dump_pages_ok [OF t(1) assms(2) t(2) _ this, of "ph_end h"]
  have p: "dump_pages (ph_tab h) (ph_end h) 0 0 = concat (map (marked (mark_of E (ph_tab h))) [0 ..< ph_end h])" by simp
  have c: "dump_classes h NUMSMALL 0 = Some (concat (map (\<lambda>l. class_shown h l (fs l) (as l) (pns l) cs) [0 ..< NUMSMALL]))"
    using dump_classes_ok [of 0 NUMSMALL h fs as pns cs] assms(3) by simp
  obtain gs where g: "free_list (ph_fp h) gs" "set (concat gs) = free_starts E"
    using s by (auto simp: store_ok_def fp_stored_def)
  have "dump_extents (ph_fp h) (fp_root (ph_fp h)) = Some (concat (map (group_shown (size_of (ph_fp h))) gs))"
    using dump_extents_ok [of "ph_fp h" Root gs] g(1) by (simp add: free_list_def deref.simps)
  then show ?thesis using p c g s by (intro exI [of _ gs]) (simp add: heapdump_def free_list_def store_ok_def)
qed

text \<open>A pool with three extents and a page of 64-byte chunks, of which one is in the list of the page and one with the thread.\<close>

definition shown_heap :: heap where
  "shown_heap = fresh\<lparr>ph_tab := (ph_tab demo_pool)(9 := \<lparr>pg_page = 0, pg_free = 2, pg_count = 1, pg_code = 3\<rparr>), ph_fp := ph_fp demo_pool,
     ph_end := 10, hp_freechunks := (\<lambda>_. 0)(3 := 9), hp_local := (\<lambda>_. empty_local)(3 := \<lparr>lf_free = 36928, lf_aux = 0, lf_count = 1, lf_target = 8\<rparr>)\<rparr>"

lemma shown_heap_ok: "layout shown_heap demo_extents" "codes_ok (ph_tab shown_heap) (ph_end shown_heap) demo_extents"
proof -
  have d: "table_ok (ph_tab demo_pool) 9 demo_extents" "store_ok (ph_fp demo_pool) demo_extents {}"
    using demo_layout(1) by (simp_all add: layout_def) (simp add: demo_pool_def)
  have o: "ph_tab shown_heap i = ph_tab demo_pool i" if "i \<noteq> 9" for i using that by (simp add: shown_heap_def)
  have n: "pg_code (ph_tab shown_heap 9) = 3" by (simp add: shown_heap_def)
  have "extent_ok (ph_tab shown_heap) p k f \<and> p + k \<le> 10" if e: "demo_extents p = Some (k, f)" for p k f
  proof -
    have x: "extent_ok (ph_tab demo_pool) p k f" "p + k \<le> 9" using d(1) e unfolding table_ok_def by blast+
    then have "ph_tab shown_heap i = ph_tab demo_pool i" if "i < p + k" for i using that by (intro o) simp
    then show ?thesis using x by (simp add: extent_ok_def)
  qed
  moreover have "pg_code (ph_tab shown_heap i) \<notin> {BIG, BIG + FREE, MIDDLE}" if i: "i < 10" "\<not> inside demo_extents i" for i
  proof (cases "i = 9")
    case True
    then show ?thesis using n by (simp add: code_defs)
  next
    case False
    then show ?thesis using d(1) i o [OF False] unfolding table_ok_def by simp
  qed
  ultimately have "table_ok (ph_tab shown_heap) 10 demo_extents" using d(1) unfolding table_ok_def by blast
  then show "layout shown_heap demo_extents" using d(2) by (simp add: layout_def) (simp add: shown_heap_def)
  have "i \<notin> {3..8}" if "\<not> inside demo_extents i" for i
    using that insideI [of demo_extents 3 3 True i] insideI [of demo_extents 6 1 False i]
      insideI [of demo_extents 7 2 False i] by (cases "i < 6"; cases "i < 7") (auto simp: demo_extents_iff)
  moreover have "pg_code (ph_tab demo_pool i) = BASE" if "i \<notin> {3..8}" for i using that by (auto simp: demo_pool_def BASE_def)
  ultimately show "codes_ok (ph_tab shown_heap) (ph_end shown_heap) demo_extents"
    unfolding codes_ok_def using n o by (metis NUMSMALL_def insertI1 less_numeral_extra numeral_less_iff semiring_norm size256_def)
qed

theorem heapdump_shows_pool_witness:
  "\<exists>a b. heapdump shown_heap = Some (Header 40960 10 #
     [Row 0, Base_mark, Base_mark, Base_mark, Big_mark True 3, Arrow_mark, Arrow_mark, Big_mark False 1, Big_mark False 2,
      Row 32768, Arrow_mark, Small_mark 64 1] @ a @ Big_head # b @ [Tail])"
proof -
  let ?fs = "(\<lambda>_. [])(3 := [36928 :: nat])" and ?pns = "(\<lambda>_. [])(3 := [9 :: nat])" and ?cs = "\<lambda>_ :: nat. [36992 :: nat]"
  have "\<forall>l < NUMSMALL. class_lists shown_heap l (?fs l) [] (?pns l) ?cs"
    by (auto simp: class_lists_def shown_heap_def listed_def empty_local_def fresh_simps chunk_def page_addr_def PAGESIZE_def SIZE_def size256_def)
  from heapdump_shows_pool [OF shown_heap_ok, of ?fs "\<lambda>_. []", OF this] obtain gs where
    "heapdump shown_heap = Some (Header (ph_end shown_heap * PAGESIZE) (ph_end shown_heap) #
      concat (map (marked (mark_of demo_extents (ph_tab shown_heap))) [0 ..< ph_end shown_heap]) @
      concat (map (\<lambda>l. class_shown shown_heap l (?fs l) [] (?pns l) ?cs) [0 ..< NUMSMALL]) @
      Big_head # concat (map (group_shown (size_of (ph_fp shown_heap))) gs) @ [Tail])" by blast
  moreover have "[0 ..< 10] = [0, 1, 2, 3, 4, 5, 6, 7, 8, 9 :: nat]" by (simp add: upt_rec)
  moreover have "inside demo_extents 4" "inside demo_extents 5" "inside demo_extents 8"
    by (rule insideI [of _ 3 3 True] insideI [of _ 7 2 False]; simp add: demo_extents_iff)+
  moreover have "\<not> inside demo_extents 0" "\<not> inside demo_extents 1" "\<not> inside demo_extents 2" "\<not> inside demo_extents 9"
    by (auto simp: inside_def demo_extents_iff)
  ultimately show ?thesis
    by (intro exI) (simp add: marked_def mark_of_def demo_extents_def shown_heap_def demo_pool_def code_defs PAGESIZE_def NUMSMALL_def size256_def SIZE_def)
qed

end
