(* ===== verification/Lock_Configs.thy ===== *)
theory Lock_Configs
  imports Spinlock
begin

text \<open>
  The other locks that \<open>src/c/malloc.c\<close> can be compiled with: System V semaphores (\<open>LOCKTYPE == SYSVSEM\<close>), file locks (\<open>FLOCK\<close>) and pthread
  mutexes (\<open>PMUTEX\<close>), each with its \<open>lock_init\<close>, \<open>LOCK\<close>, \<open>UNLOCK\<close> and \<open>LOCK_DESTROY\<close>. The first two build their request in a static
  variable of the process, field by field, before the call; the machine below has one step per assignment and one for the
  call. A call that a signal interrupts is made again and changes nothing, so it is no step of its own.
\<close>

section \<open>Requests built in a static variable\<close>

text \<open>
  \<open>Rq_set q b j\<close>: inside \<open>LOCK(q)\<close> (\<open>b\<close>) or \<open>UNLOCK(q)\<close>, before assignment number \<open>j\<close>; \<open>Rq_call\<close>: before the call of the operating system;
  \<open>Rq_in q\<close>: between \<open>LOCK(q)\<close> and \<open>UNLOCK(q)\<close>. The state has one static variable per process.
\<close>

datatype rq_pc = Rq_out | Rq_set nat bool nat | Rq_call nat bool | Rq_in nat

record ('r, 'k) rq_state =
  rq_req :: "nat \<Rightarrow> 'r"
  rq_kernel :: 'k
  rq_pcs :: "nat \<Rightarrow> rq_pc"

text \<open>A step of a thread of process \<open>p\<close>; a thread that is outside goes for lock \<open>q0\<close>. The result \<^const>\<open>None\<close> means that the call waits.\<close>

fun rq_next :: "(nat \<Rightarrow> bool \<Rightarrow> ('r \<Rightarrow> 'r) list) \<Rightarrow> (nat \<Rightarrow> nat \<Rightarrow> bool \<Rightarrow> 'r \<Rightarrow> 'k \<Rightarrow> 'k option) \<Rightarrow> nat \<Rightarrow> nat \<Rightarrow> rq_pc \<Rightarrow> 'r \<Rightarrow> 'k \<Rightarrow> (rq_pc \<times> 'r \<times> 'k) option" where
  "rq_next sets call p q0 Rq_out r k = Some (Rq_set q0 True 0, r, k)"
| "rq_next sets call p q0 (Rq_set q b j) r k =
     (if j < length (sets q b) then Some (Rq_set q b (j + 1), (sets q b ! j) r, k) else Some (Rq_call q b, r, k))"
| "rq_next sets call p q0 (Rq_call q b) r k = map_option (\<lambda>k'. (if b then Rq_in q else Rq_out, r, k')) (call p q b r k)"
| "rq_next sets call p q0 (Rq_in q) r k = Some (Rq_set q False 0, r, k)"

definition rq_act :: "(nat \<Rightarrow> bool \<Rightarrow> ('r \<Rightarrow> 'r) list) \<Rightarrow> (nat \<Rightarrow> nat \<Rightarrow> bool \<Rightarrow> 'r \<Rightarrow> 'k \<Rightarrow> 'k option) \<Rightarrow> (nat \<Rightarrow> nat) \<Rightarrow> nat \<Rightarrow> nat \<Rightarrow> ('r, 'k) rq_state \<Rightarrow> ('r, 'k) rq_state option" where
  "rq_act sets call proc i q0 s =
     map_option (\<lambda>(c, r, k). \<lparr>rq_req = (rq_req s)(proc i := r), rq_kernel = k, rq_pcs = (rq_pcs s)(i := c)\<rparr>)
       (rq_next sets call (proc i) q0 (rq_pcs s i) (rq_req s (proc i)) (rq_kernel s))"

definition rq_step :: "(nat \<Rightarrow> bool \<Rightarrow> ('r \<Rightarrow> 'r) list) \<Rightarrow> (nat \<Rightarrow> nat \<Rightarrow> bool \<Rightarrow> 'r \<Rightarrow> 'k \<Rightarrow> 'k option) \<Rightarrow> (nat \<Rightarrow> nat) \<Rightarrow> ('r, 'k) rq_state \<Rightarrow> ('r, 'k) rq_state \<Rightarrow> bool" where
  "rq_step sets call proc s s' \<longleftrightarrow> (\<exists>i q0. rq_act sets call proc i q0 s = Some s')"

fun rq_run :: "(nat \<Rightarrow> bool \<Rightarrow> ('r \<Rightarrow> 'r) list) \<Rightarrow> (nat \<Rightarrow> nat \<Rightarrow> bool \<Rightarrow> 'r \<Rightarrow> 'k \<Rightarrow> 'k option) \<Rightarrow> (nat \<Rightarrow> nat) \<Rightarrow> (nat \<times> nat) list \<Rightarrow> ('r, 'k) rq_state \<Rightarrow> ('r, 'k) rq_state option" where
  "rq_run sets call proc [] s = Some s"
| "rq_run sets call proc ((i, q0) # as) s = Option.bind (rq_act sets call proc i q0 s) (rq_run sets call proc as)"

section \<open>System V semaphores\<close>

text \<open>
  The semaphore sets of the system by key, \<open>membase->semkey\<close>, and the set this process uses (\<open>semid\<close>, identified with its key; \<^const>\<open>None\<close> for
  \<open>-1\<close>). What the system decides is an argument: for which keys creating a set fails (with an error other than
  \<open>EEXIST\<close>), and whether \<open>SETALL\<close> succeeds.
\<close>

record sysv =
  sv_sets :: "nat \<Rightarrow> int list option"
  sv_semkey :: nat
  sv_semid :: "nat option"

definition FIRSTKEY :: nat where
  "FIRSTKEY = 1"

text \<open>The loop over the keys. The result says whether the set was created.\<close>

partial_function (option) sem_search :: "(nat \<Rightarrow> bool) \<Rightarrow> (nat \<Rightarrow> int list option) \<Rightarrow> nat \<Rightarrow> (nat \<times> bool) option" where
  "sem_search fails sets key =
     (if sets key \<noteq> None then sem_search fails sets (key + 1)
      else Some (key, \<not> fails key))"

declare sem_search.simps [code]

definition sem_lock_init :: "(nat \<Rightarrow> bool) \<Rightarrow> bool \<Rightarrow> bool \<Rightarrow> sysv \<Rightarrow> (int \<times> sysv) option" where
  "sem_lock_init fails setall init s =
     (if init then
        Option.bind (sem_search fails (sv_sets s) FIRSTKEY) (\<lambda>(key, created).
          let s1 = s\<lparr>sv_semkey := key\<rparr>
          in if \<not> created then Some (- 1, s1\<lparr>sv_semid := None\<rparr>)
             else if \<not> setall then Some (- 1, s1\<lparr>sv_semid := Some key\<rparr>)
             else Some (0, s1\<lparr>sv_semid := Some key, sv_sets := (sv_sets s)(key \<mapsto> replicate (NUMSMALL + 1) 1)\<rparr>))
      else if sv_sets s (sv_semkey s) = None then Some (- 1, s\<lparr>sv_semid := None\<rparr>)
      else Some (0, s\<lparr>sv_semid := Some (sv_semkey s)\<rparr>))"

definition sem_lock_destroy :: "sysv \<Rightarrow> sysv" where
  "sem_lock_destroy s = (case sv_semid s of None \<Rightarrow> s | Some k \<Rightarrow> s\<lparr>sv_sets := (sv_sets s)(k := None)\<rparr>)"

text \<open>\<open>LOCK\<close> and \<open>UNLOCK\<close>: the three assignments to \<open>sembuf\<close>, and \<open>semop\<close> on the values of the set.\<close>

record sembuf =
  sem_num :: nat
  sem_op :: int
  sem_flg :: int

definition sem_index :: "nat \<Rightarrow> nat" where
  "sem_index q = (if q < NUMSMALL then q else NUMSMALL)"

definition sem_sets :: "nat \<Rightarrow> bool \<Rightarrow> (sembuf \<Rightarrow> sembuf) list" where
  "sem_sets q b =
     [\<lambda>r. r\<lparr>sem_num := sem_index q\<rparr>,
      \<lambda>r. r\<lparr>sem_op := (if b then - 1 else 1)\<rparr>,
      \<lambda>r. r\<lparr>sem_flg := 0\<rparr>]"

definition sem_call :: "nat \<Rightarrow> nat \<Rightarrow> bool \<Rightarrow> sembuf \<Rightarrow> (nat \<Rightarrow> int) \<Rightarrow> (nat \<Rightarrow> int) option" where
  "sem_call p q b r val =
     (let v = val (sem_num r) + sem_op r in if v < 0 then None else Some (val(sem_num r := v)))"

section \<open>File locks\<close>

text \<open>The lock files that exist and the one that is open. \<open>opens\<close> says whether \<open>open\<close> of a file (and, when \<open>init\<close>, creating it) succeeds.\<close>

record lockfile =
  lk_files :: "string set"
  lk_fd :: "string option"

definition lfile :: "string \<Rightarrow> string" where
  "lfile mfile = mfile @ ''.lock''"

definition file_lock_init :: "(string \<Rightarrow> bool) \<Rightarrow> bool \<Rightarrow> string \<Rightarrow> lockfile \<Rightarrow> int \<times> lockfile" where
  "file_lock_init opens init mfile s =
     (let f = lfile mfile
      in if \<not> init then (if f \<in> lk_files s \<and> opens f then (0, s\<lparr>lk_fd := Some f\<rparr>) else (- 1, s\<lparr>lk_fd := None\<rparr>))
         else if \<not> opens f then (- 1, s\<lparr>lk_fd := None\<rparr>)
         else (0, s\<lparr>lk_fd := Some f, lk_files := insert f (lk_files s)\<rparr>))"

definition file_lock_fini :: "lockfile \<Rightarrow> lockfile" where
  "file_lock_fini s = s\<lparr>lk_fd := None\<rparr>"

definition file_lock_destroy :: "string \<Rightarrow> lockfile \<Rightarrow> lockfile" where
  "file_lock_destroy mfile s = s\<lparr>lk_files := lk_files s - {lfile mfile}, lk_fd := None\<rparr>"

text \<open>The process that has each byte of the file locked is what \<open>fcntl\<close> keeps; a process never waits for itself.\<close>

datatype fl_type = F_WRLCK | F_UNLCK

record flock =
  l_type :: fl_type
  l_start :: nat

definition flock_sets :: "nat \<Rightarrow> bool \<Rightarrow> (flock \<Rightarrow> flock) list" where
  "flock_sets q b =
     [\<lambda>r. r\<lparr>l_type := (if b then F_WRLCK else F_UNLCK)\<rparr>,
      \<lambda>r. r\<lparr>l_start := q\<rparr>]"

definition flock_call :: "nat \<Rightarrow> nat \<Rightarrow> bool \<Rightarrow> flock \<Rightarrow> (nat \<Rightarrow> nat option) \<Rightarrow> (nat \<Rightarrow> nat option) option" where
  "flock_call p q b r own =
     (case l_type r of
        F_WRLCK \<Rightarrow> if own (l_start r) \<in> {None, Some p} then Some (own(l_start r \<mapsto> p)) else None
      | F_UNLCK \<Rightarrow> Some (if own (l_start r) = Some p then own(l_start r := None) else own))"

section \<open>Mutexes\<close>

text \<open>The thread that holds each mutex. There is no request; \<open>p\<close> is the thread.\<close>

definition mutex_lock_init :: "bool \<Rightarrow> nat option list \<Rightarrow> int \<times> nat option list" where
  "mutex_lock_init init locks = (0, if init then map (\<lambda>_. None) locks else locks)"

definition mutex_sets :: "nat \<Rightarrow> bool \<Rightarrow> (unit \<Rightarrow> unit) list" where
  "mutex_sets q b = []"

definition mutex_call :: "nat \<Rightarrow> nat \<Rightarrow> bool \<Rightarrow> unit \<Rightarrow> (nat \<Rightarrow> nat option) \<Rightarrow> (nat \<Rightarrow> nat option) option" where
  "mutex_call p q b r own =
     (if b then (if own q = None then Some (own(q \<mapsto> p)) else None) else Some (own(q := None)))"

section \<open>Locks by request\<close>

text \<open>The thread holds lock number \<open>n\<close>: it is inside, or on its way out.\<close>

fun rq_holds :: "(nat \<Rightarrow> nat) \<Rightarrow> rq_pc \<Rightarrow> nat \<Rightarrow> bool" where
  "rq_holds idx Rq_out n \<longleftrightarrow> False"
| "rq_holds idx (Rq_set q b j) n \<longleftrightarrow> \<not> b \<and> idx q = n"
| "rq_holds idx (Rq_call q b) n \<longleftrightarrow> \<not> b \<and> idx q = n"
| "rq_holds idx (Rq_in q) n \<longleftrightarrow> idx q = n"

text \<open>
  What a lock has to provide: the assignments fill in the whole request, whatever was there before; the call with that
  request takes the lock only when it is free (or the process has it already), gives it back when the process has it, and does
  not wait in either of these cases. \<open>rel\<close> relates what the system keeps to the owners.
\<close>

locale lock_calls =
  fixes sets :: "nat \<Rightarrow> bool \<Rightarrow> ('r \<Rightarrow> 'r) list" and call :: "nat \<Rightarrow> nat \<Rightarrow> bool \<Rightarrow> 'r \<Rightarrow> 'k \<Rightarrow> 'k option"
    and req :: "nat \<Rightarrow> bool \<Rightarrow> 'r" and idx :: "nat \<Rightarrow> nat" and rel :: "'k \<Rightarrow> (nat \<Rightarrow> nat option) \<Rightarrow> bool"
  assumes request: "foldl (\<lambda>r f. f r) r (sets q b) = req q b"
    and acquire: "rel k ow \<Longrightarrow> call p q True (req q True) k = Some k' \<Longrightarrow> ow (idx q) \<in> {None, Some p} \<and> rel k' (ow(idx q \<mapsto> p))"
    and release: "rel k ow \<Longrightarrow> ow (idx q) = Some p \<Longrightarrow> \<exists>k'. call p q False (req q False) k = Some k' \<and> rel k' (ow(idx q := None))"
    and granted: "rel k ow \<Longrightarrow> ow (idx q) = None \<Longrightarrow> call p q True (req q True) k \<noteq> None"
begin

definition ready :: "rq_pc \<Rightarrow> 'r \<Rightarrow> bool" where
  "ready c r \<longleftrightarrow> (case c of
      Rq_set q b j \<Rightarrow> \<exists>r0. r = foldl (\<lambda>r f. f r) r0 (take j (sets q b))
    | Rq_call q b \<Rightarrow> r = req q b
    | _ \<Rightarrow> True)"

definition owned :: "(nat \<Rightarrow> nat) \<Rightarrow> (nat \<Rightarrow> rq_pc) \<Rightarrow> (nat \<Rightarrow> nat option) \<Rightarrow> bool" where
  "owned proc pcs ow \<longleftrightarrow> (\<forall>n p. ow n = Some p \<longleftrightarrow> (\<exists>i. proc i = p \<and> rq_holds idx (pcs i) n))"

definition rq_inv :: "(nat \<Rightarrow> nat) \<Rightarrow> ('r, 'k) rq_state \<Rightarrow> bool" where
  "rq_inv proc s \<longleftrightarrow> (\<forall>i. ready (rq_pcs s i) (rq_req s (proc i))) \<and> (\<exists>ow. rel (rq_kernel s) ow \<and> owned proc (rq_pcs s) ow)"

definition rq_start :: "('r, 'k) rq_state \<Rightarrow> bool" where
  "rq_start s \<longleftrightarrow> rel (rq_kernel s) (\<lambda>_. None) \<and> (\<forall>i. rq_pcs s i = Rq_out)"

lemma ready_simps: "ready Rq_out r" "ready (Rq_in q) r" "ready (Rq_set q b 0) r"
  by (auto simp: ready_def)

lemma ready_set: "ready (Rq_set q b j) r \<Longrightarrow> j < length (sets q b) \<Longrightarrow> ready (Rq_set q b (Suc j)) ((sets q b ! j) r)"
  by (auto simp: ready_def take_Suc_conv_app_nth)

lemma ready_call: "ready (Rq_set q b j) r \<Longrightarrow> \<not> j < length (sets q b) \<Longrightarrow> ready (Rq_call q b) r"
  using request by (auto simp: ready_def)

lemma owned_upd:
  assumes "inj proc" "owned proc pcs ow" "\<And>n. rq_holds idx c n = rq_holds idx (pcs i) n"
  shows "owned proc (pcs(i := c)) ow"
  unfolding owned_def using assms(2) unfolding owned_def by (metis assms(3) fun_upd_other fun_upd_same)

lemma owned_take:
  assumes "inj proc" "owned proc pcs ow" "\<And>n. \<not> rq_holds idx (pcs i) n" "ow (idx q) \<in> {None, Some (proc i)}"
  shows "owned proc (pcs(i := Rq_in q)) (ow(idx q \<mapsto> proc i))"
proof -
  have "rq_holds idx ((pcs(i := Rq_in q)) j) n \<longleftrightarrow> (if j = i then n = idx q else rq_holds idx (pcs j) n)" for j n by auto
  moreover have "\<not> rq_holds idx (pcs j) (idx q)" for j
    using assms unfolding owned_def by (metis inj_eq insertE option.distinct(1) option.inject singletonD)
  ultimately show ?thesis using assms(1-3) unfolding owned_def inj_def by (auto; metis)
qed

lemma owned_give:
  assumes "inj proc" "owned proc pcs ow" "\<And>n. rq_holds idx (pcs i) n \<longleftrightarrow> n = idx q"
  shows "owned proc (pcs(i := Rq_out)) (ow(idx q := None))"
proof -
  have "rq_holds idx ((pcs(i := Rq_out)) j) n \<longleftrightarrow> j \<noteq> i \<and> rq_holds idx (pcs j) n" for j n by auto
  moreover have "ow (idx q) = Some (proc i)" using assms unfolding owned_def by blast
  then have "\<not> rq_holds idx (pcs j) (idx q)" if "j \<noteq> i" for j
    using assms(1,2) that unfolding owned_def inj_def by (metis option.inject)
  ultimately show ?thesis using assms unfolding owned_def inj_def by (auto; metis)
qed

text \<open>The step of one thread, with what it does to its request.\<close>

lemma rq_next_ready:
  assumes "rq_next sets call p q0 c r k = Some (c', r', k')" "ready c r"
  shows "ready c' r'"
proof (cases c)
  case (Rq_set q b j)
  then show ?thesis using assms ready_set [of q b j r] ready_call [of q b j r] by (cases "j < length (sets q b)") auto
qed (use assms in \<open>auto simp: ready_simps split: if_splits\<close>)

lemma rq_act_inv:
  assumes pr: "inj proc" and inv: "rq_inv proc s" and st: "rq_act sets call proc i q0 s = Some s'"
  shows "rq_inv proc s'"
proof -
  obtain c r k where n: "rq_next sets call (proc i) q0 (rq_pcs s i) (rq_req s (proc i)) (rq_kernel s) = Some (c, r, k)"
    and s': "s' = \<lparr>rq_req = (rq_req s)(proc i := r), rq_kernel = k, rq_pcs = (rq_pcs s)(i := c)\<rparr>"
    using st by (auto simp: rq_act_def)
  obtain ow where ow: "rel (rq_kernel s) ow" "owned proc (rq_pcs s) ow" and rd: "\<And>i. ready (rq_pcs s i) (rq_req s (proc i))"
    using inv by (auto simp: rq_inv_def)
  have "ready c r" using n rd by (rule rq_next_ready)
  then have "ready (rq_pcs s' j) (rq_req s' (proc j))" for j using rd pr by (auto simp: s' inj_eq)
  moreover have "\<exists>ow'. rel k ow' \<and> owned proc ((rq_pcs s)(i := c)) ow'"
  proof (cases "\<exists>q b. rq_pcs s i = Rq_call q b")
    case False
    then have "k = rq_kernel s" "rq_holds idx c n = rq_holds idx (rq_pcs s i) n" for n
      using n by (cases "rq_pcs s i"; auto split: if_splits)+
    then show ?thesis using ow owned_upd [OF pr ow(2)] by blast
  next
    case True
    then obtain q b where pc: "rq_pcs s i = Rq_call q b" by blast
    then have rq: "rq_req s (proc i) = req q b" using rd [of i] by (simp add: ready_def)
    have kc: "call (proc i) q b (req q b) (rq_kernel s) = Some k" "c = (if b then Rq_in q else Rq_out)" using n pc rq by auto
    show ?thesis
    proof (cases b)
      case True
      then have "ow (idx q) \<in> {None, Some (proc i)}" "rel k (ow(idx q \<mapsto> proc i))" using acquire [OF ow(1), of "proc i" q k] kc(1) by simp_all
      then show ?thesis using owned_take [OF pr ow(2), of i q] kc(2) True pc by auto
    next
      case False
      then have h: "rq_holds idx (rq_pcs s i) n \<longleftrightarrow> n = idx q" for n using pc by auto
      then have "ow (idx q) = Some (proc i)" using ow(2) unfolding owned_def by blast
      then have "rel k (ow(idx q := None))" using release [OF ow(1)] kc(1) False by fastforce
      then show ?thesis using owned_give [OF pr ow(2) h] kc(2) False by auto
    qed
  qed
  ultimately show ?thesis by (simp add: rq_inv_def s')
qed

lemma rq_start_inv: "rq_start s \<Longrightarrow> rq_inv proc s"
  unfolding rq_start_def rq_inv_def owned_def ready_def by (intro conjI exI [of _ "\<lambda>_. None"]) auto

lemma machine: "inj proc \<Longrightarrow> state_machine rq_start (rq_step sets call proc) (rq_inv proc)"
  by unfold_locales (auto simp: rq_step_def intro: rq_start_inv rq_act_inv)

lemma exclusive:
  assumes "inj proc" "rq_start s0" "(rq_step sets call proc)\<^sup>*\<^sup>* s0 s" "rq_holds idx (rq_pcs s i) n" "rq_holds idx (rq_pcs s j) n"
  shows "i = j"
proof -
  have "rq_inv proc s" using state_machine.reachable_inv [OF machine [OF assms(1)] assms(2,3)] .
  then obtain ow where "owned proc (rq_pcs s) ow" by (auto simp: rq_inv_def)
  then have "ow n = Some (proc i)" "ow n = Some (proc j)" using assms(4,5) unfolding owned_def by blast+
  then show ?thesis using assms(1) by (simp add: inj_eq)
qed

text \<open>A thread at its call gets a lock that nobody holds, and a thread that gives a lock back does not wait.\<close>

lemma progress:
  assumes "inj proc" "rq_start s0" "(rq_step sets call proc)\<^sup>*\<^sup>* s0 s" "rq_pcs s i = Rq_call q b" "b \<longrightarrow> (\<forall>j. \<not> rq_holds idx (rq_pcs s j) (idx q))"
  shows "\<exists>s'. rq_act sets call proc i q0 s = Some s' \<and> rq_pcs s' i = (if b then Rq_in q else Rq_out)"
proof -
  have "rq_inv proc s" using state_machine.reachable_inv [OF machine [OF assms(1)] assms(2,3)] .
  then obtain ow where ow: "rel (rq_kernel s) ow" "owned proc (rq_pcs s) ow" "ready (rq_pcs s i) (rq_req s (proc i))"
    by (auto simp: rq_inv_def)
  have rq: "rq_req s (proc i) = req q b" using ow(3) assms(4) by (simp add: ready_def)
  have "call (proc i) q b (req q b) (rq_kernel s) \<noteq> None"
  proof (cases b)
    case True
    then have "ow (idx q) = None" using assms(5) ow(2) unfolding owned_def by (metis not_Some_eq)
    then show ?thesis using granted [OF ow(1)] True by simp
  next
    case False
    then have "ow (idx q) = Some (proc i)" using ow(2) assms(4) unfolding owned_def by (metis rq_holds.simps(3))
    then show ?thesis using release [OF ow(1)] False by fastforce
  qed
  then show ?thesis using assms(4) rq by (auto simp: rq_act_def)
qed

end

section \<open>The three kinds of locks\<close>

lemma sem_index_le: "sem_index q \<le> NUMSMALL"
  by (simp add: sem_index_def)

interpretation sem: lock_calls sem_sets sem_call "\<lambda>q b. \<lparr>sem_num = sem_index q, sem_op = (if b then - 1 else 1), sem_flg = 0\<rparr>" sem_index
  "\<lambda>val ow. \<forall>n \<le> NUMSMALL. val n = (if ow n = None then 1 else 0)"
proof unfold_locales
  fix r :: sembuf and q b
  show "foldl (\<lambda>r f. f r) r (sem_sets q b) = \<lparr>sem_num = sem_index q, sem_op = (if b then - 1 else 1), sem_flg = 0\<rparr>"
    by (cases r) (simp add: sem_sets_def)
qed (use sem_index_le in \<open>auto simp: sem_call_def Let_def split: if_splits\<close>)

interpretation fl: lock_calls flock_sets flock_call "\<lambda>q b. \<lparr>l_type = (if b then F_WRLCK else F_UNLCK), l_start = q\<rparr>" id "\<lambda>own ow. own = ow"
proof unfold_locales
  fix r :: flock and q b
  show "foldl (\<lambda>r f. f r) r (flock_sets q b) = \<lparr>l_type = (if b then F_WRLCK else F_UNLCK), l_start = q\<rparr>"
    by (cases r) (simp add: flock_sets_def)
qed (auto simp: flock_call_def split: if_splits)

interpretation pm: lock_calls mutex_sets mutex_call "\<lambda>_ _. ()" id "\<lambda>own ow. own = ow"
  by unfold_locales (auto simp: mutex_call_def split: if_splits)

section \<open>Properties\<close>


definition sem_idle :: "(sembuf, nat \<Rightarrow> int) rq_state" where
  "sem_idle = \<lparr>rq_req = (\<lambda>_. \<lparr>sem_num = 0, sem_op = 0, sem_flg = 0\<rparr>), rq_kernel = (\<lambda>_. 1), rq_pcs = (\<lambda>_. Rq_out)\<rparr>"

definition flock_idle :: "(flock, nat \<Rightarrow> nat option) rq_state" where
  "flock_idle = \<lparr>rq_req = (\<lambda>_. \<lparr>l_type = F_UNLCK, l_start = 0\<rparr>), rq_kernel = (\<lambda>_. None), rq_pcs = (\<lambda>_. Rq_out)\<rparr>"

definition mutex_idle :: "(unit, nat \<Rightarrow> nat option) rq_state" where
  "mutex_idle = \<lparr>rq_req = (\<lambda>_. ()), rq_kernel = (\<lambda>_. None), rq_pcs = (\<lambda>_. Rq_out)\<rparr>"

lemma rq_run_steps: "rq_run sets call proc as s = Some s' \<Longrightarrow> (rq_step sets call proc)\<^sup>*\<^sup>* s s'"
proof (induction as arbitrary: s)
  case (Cons a as)
  then obtain s1 where s1: "rq_act sets call proc (fst a) (snd a) s = Some s1" "rq_run sets call proc as s1 = Some s'"
    by (cases a) (auto simp: bind_eq_Some_conv)
  then have "rq_step sets call proc s s1" unfolding rq_step_def by blast
  then show ?case using Cons.IH [OF s1(2)] by (rule converse_rtranclp_into_rtranclp)
qed simp


text \<open>
  (C26) The static request is not safe for threads. When two threads of one process use the semaphores, one can fill in its
  \<open>UNLOCK\<close> between the assignments and the \<open>semop\<close> of the other, whose \<open>LOCK\<close> then raises the semaphore: both end up inside the same
  lock. With file locks both get in without any overlap of the requests, since a process does not wait for its own locks.
\<close>

theorem static_request_race:
  "(\<exists>as s. rq_run sem_sets sem_call (\<lambda>_. 0) as sem_idle = Some s \<and> rq_pcs s 0 = Rq_in 2 \<and> rq_pcs s 1 = Rq_in 2) \<and>
   (\<exists>as f. rq_run flock_sets flock_call (\<lambda>_. 0) as flock_idle = Some f \<and> rq_pcs f 0 = Rq_in 2 \<and> rq_pcs f 1 = Rq_in 2)"
proof
  let ?as = "replicate 6 (0, 2) @ replicate 5 (1, 2) @ replicate 5 (0, 2) @ [(1, 2), (0, 2)] @ replicate 6 (0, 2)"
  have "map_option (\<lambda>s. (rq_pcs s 0, rq_pcs s 1)) (rq_run sem_sets sem_call (\<lambda>_. 0) ?as sem_idle) = Some (Rq_in 2, Rq_in 2)" by code_simp
  then show "\<exists>as s. rq_run sem_sets sem_call (\<lambda>_. 0) as sem_idle = Some s \<and> rq_pcs s 0 = Rq_in 2 \<and> rq_pcs s 1 = Rq_in 2" by blast
  let ?bs = "replicate 5 (0, 2) @ replicate 5 (1, 2)"
  have "map_option (\<lambda>s. (rq_pcs s 0, rq_pcs s 1)) (rq_run flock_sets flock_call (\<lambda>_. 0) ?bs flock_idle) = Some (Rq_in 2, Rq_in 2)" by code_simp
  then show "\<exists>as f. rq_run flock_sets flock_call (\<lambda>_. 0) as flock_idle = Some f \<and> rq_pcs f 0 = Rq_in 2 \<and> rq_pcs f 1 = Rq_in 2" by blast
qed

text \<open>The search for a key.\<close>

lemma sem_search_finds:
  assumes "finite (dom sets)"
  shows "\<exists>k. key \<le> k \<and> sem_search fails sets key = Some (k, \<not> fails k) \<and> sets k = None \<and> (\<forall>i. key \<le> i \<and> i < k \<longrightarrow> sets i \<noteq> None)"
proof (induction "card (dom sets \<inter> {key..})" arbitrary: key rule: less_induct)
  case less
  show ?case
  proof (cases "sets key")
    case None
    then show ?thesis by (intro exI [of _ key]) (auto simp: sem_search.simps)
  next
    case (Some v)
    then have "key \<in> dom sets \<inter> {key..}" "key \<notin> dom sets \<inter> {Suc key..}" "dom sets \<inter> {Suc key..} \<subseteq> dom sets \<inter> {key..}" by auto
    then have "dom sets \<inter> {Suc key..} \<subset> dom sets \<inter> {key..}" by blast
    then have "card (dom sets \<inter> {Suc key..}) < card (dom sets \<inter> {key..})" using assms by (intro psubset_card_mono) auto
    from less [OF this] obtain k where k: "Suc key \<le> k" "sem_search fails sets (Suc key) = Some (k, \<not> fails k)" "sets k = None"
      "\<forall>i. Suc key \<le> i \<and> i < k \<longrightarrow> sets i \<noteq> None" by blast
    have "sets i \<noteq> None" if "key \<le> i" "i < k" for i using that k(4) Some by (cases "i = key") auto
    moreover have "sem_search fails sets key = Some (k, \<not> fails k)" using k(2) Some by (subst sem_search.simps) simp
    ultimately show ?thesis using k(1,3) by (intro exI [of _ k]) auto
  qed
qed

text \<open>
  \<open>lock_init\<close> with semaphores. The process that makes the pool takes the first key from 1 on that no set has, whatever sets there
  are, and leaves \<open>NUMSMALL + 1\<close> semaphores at 1 there and the other sets as they were; a process that attaches later finds this
  set through \<open>semkey\<close>; and when the system refuses the set or its values, the result is -1 and no set is left behind.
\<close>

theorem sem_lock_init_finds:
  assumes "finite (dom (sv_sets s))"
  shows "\<exists>k \<ge> 1. sv_sets s k = None \<and> (\<forall>i. 1 \<le> i \<and> i < k \<longrightarrow> sv_sets s i \<noteq> None) \<and>
    (if fails k \<or> \<not> setall then \<exists>s'. sem_lock_init fails setall True s = Some (- 1, s') \<and> sv_sets s' = sv_sets s
     else \<exists>s'. sem_lock_init fails setall True s = Some (0, s') \<and> sv_sets s' = (sv_sets s)(k \<mapsto> replicate (NUMSMALL + 1) 1) \<and>
       sem_lock_init fails setall False (s'\<lparr>sv_semid := None\<rparr>) = Some (0, s') \<and> sv_sets (sem_lock_destroy s') = sv_sets s)"
proof -
  obtain k where k: "1 \<le> k" "sem_search fails (sv_sets s) 1 = Some (k, \<not> fails k)" "sv_sets s k = None" "\<forall>i. 1 \<le> i \<and> i < k \<longrightarrow> sv_sets s i \<noteq> None"
    using sem_search_finds [OF assms, of 1 fails] by blast
  show ?thesis
  proof (intro exI [of _ k] conjI)
    show "if fails k \<or> \<not> setall then \<exists>s'. sem_lock_init fails setall True s = Some (- 1, s') \<and> sv_sets s' = sv_sets s
      else \<exists>s'. sem_lock_init fails setall True s = Some (0, s') \<and> sv_sets s' = (sv_sets s)(k \<mapsto> replicate (NUMSMALL + 1) 1) \<and>
        sem_lock_init fails setall False (s'\<lparr>sv_semid := None\<rparr>) = Some (0, s') \<and> sv_sets (sem_lock_destroy s') = sv_sets s"
      using k(2,3) by (cases s) (auto simp: sem_lock_init_def FIRSTKEY_def sem_lock_destroy_def Let_def)
  qed (use k in auto)
qed

theorem sem_lock_init_finds_witness:
  "\<exists>s'. sem_lock_init (\<lambda>_. False) True True \<lparr>sv_sets = [1 \<mapsto> [0], 2 \<mapsto> []], sv_semkey = 0, sv_semid = None\<rparr> = Some (0, s')"
  using sem_lock_init_finds [of "\<lparr>sv_sets = [1 \<mapsto> [0], 2 \<mapsto> []], sv_semkey = 0, sv_semid = None\<rparr>" "\<lambda>_. False" True] by auto

end
