(* ===== verification/Pool_Configs.thy ===== *)
theory Pool_Configs
  imports Heap_Props
begin

text \<open>
  Code of \<open>src/c/malloc.c\<close> for other configurations of the pool: \<open>minit\<close>, which sets up the heap of a process without \<open>SHM\<close> above its
  break; \<open>brk\<close> on top of \<open>sbrk\<close> for \<open>WINNT\<close>; and \<open>cygwin_mmap\<close>, which stands in for \<open>mmap\<close> on Cygwin. \<open>sbrk\<close> moves the break of the process by an
  amount when the system lets it, which is an argument.
\<close>

unbundle bit_operations_syntax

section \<open>A heap without shared memory\<close>

text \<open>The result of \<open>sbrk(d)\<close> at break \<open>cur\<close>: what it returns (\<^const>\<open>None\<close> for \<open>(void *)-1\<close>) and the new break.\<close>

definition sbrk :: "(int \<Rightarrow> bool) \<Rightarrow> int \<Rightarrow> int \<Rightarrow> int option \<times> int" where
  "sbrk grants d cur = (if d = 0 \<or> grants d then (Some cur, cur + d) else (None, cur))"

text \<open>
  \<open>minit\<close>. The results of the calls that move the break are not looked at: without the first one the assertion fails, without
  the second \<open>msetup\<close> writes outside the heap. Both are \<^const>\<open>None\<close>. The results are \<open>membase\<close>, the break and the heap.
\<close>

definition minit :: "(int \<Rightarrow> bool) \<Rightarrow> int \<Rightarrow> heap \<Rightarrow> (int \<times> int \<times> heap) option" where
  "minit grants cur h =
     (let p = cur;
          cur1 = (if p mod page_size \<noteq> 0 then snd (sbrk grants (page_size - p mod page_size) cur) else cur);
          p1 = cur1
      in if p1 mod page_size \<noteq> 0 then None
         else case sbrk grants (page_size * 3) cur1 of
                (None, _) \<Rightarrow> None
              | (Some _, cur2) \<Rightarrow>
                  let h1 = (msetup h)\<lparr>hp_base := p1\<rparr>
                  in Some (p1, cur2, h1\<lparr>hp_locks := snd (lock_init True (hp_locks h1))\<rparr>))"

text \<open>\<open>brk\<close> for \<open>WINNT\<close>: pointers are cut to \<open>int\<close>, and the result is that of \<open>sbrk\<close>.\<close>

definition brk_winnt :: "(int \<Rightarrow> bool) \<Rightarrow> int \<Rightarrow> int \<Rightarrow> int \<times> int" where
  "brk_winnt grants p cur =
     (let op = cur in
      case sbrk grants (to_int (to_int p - to_int op)) cur of
        (None, cur') \<Rightarrow> (- 1, cur')
      | (Some old, cur') \<Rightarrow> (to_int old, cur'))"

section \<open>Cygwin\<close>

text \<open>The calls that \<open>cygwin_mmap\<close> makes; without one it returns \<open>addr\<close>. A negative \<open>fd\<close> asks for anonymous memory.\<close>

datatype map_call =
    Munmap u64 u64
  | Mmap u64 u64 int u64

definition cygwin_mmap :: "u64 \<Rightarrow> u64 \<Rightarrow> u64 \<Rightarrow> int \<Rightarrow> u64 \<Rightarrow> map_call list" where
  "cygwin_mmap base addr len fd offset =
     (if fd \<ge> 0 \<and> addr \<noteq> base then [Munmap base offset, Mmap base (len + offset) fd 0]
      else if fd < 0 then
        let already = (- addr) AND 0xffff
        in if len \<le> already then []
           else let addr' = addr + already; len1 = len - already; len2 = (len1 OR 0xffff) + 1
                in [Mmap addr' len2 fd 0]
      else [Mmap addr len fd offset])"

section \<open>Facts\<close>

lemma nat_or_64k: "(x :: nat) OR 65535 = x div 65536 * 65536 + 65535"
proof -
  have m: "(65535 :: nat) = mask 16" by (simp add: mask_eq_exp_minus_1)
  have "x div 65536 * 65536 = push_bit 16 (drop_bit 16 x)" by (simp add: push_bit_eq_mult drop_bit_eq_div)
  moreover have "x OR mask 16 = push_bit 16 (drop_bit 16 x) OR mask 16" by (rule bit_eqI) (auto simp: bit_simps)
  moreover have "push_bit 16 (drop_bit 16 x) + mask 16 = push_bit 16 (drop_bit 16 x) OR mask 16"
    by (rule disjunctive_add_eq_or) (auto simp: bit_eq_iff bit_simps)
  ultimately show ?thesis unfolding m by simp
qed

text \<open>\<open>length |= 0xffff; length++\<close> gives the next multiple of 64K, which is larger even for a length that is one already.\<close>

lemma round_up_64k:
  assumes "unat (x :: u64) + 65536 < 2 ^ 64"
  shows "unat ((x OR 0xffff) + 1) = (unat x div 65536 + 1) * 65536"
proof -
  have o: "unat (x OR 0xffff) = unat x div 65536 * 65536 + 65535" by (simp add: unsigned_or_eq nat_or_64k)
  have "unat (x OR 0xffff) + 1 < 2 ^ 64" using assms unfolding o by simp
  then have "unat ((x OR 0xffff) + 1) = unat (x OR 0xffff) + 1" by (simp add: unat_word_ariths)
  then show ?thesis unfolding o by simp
qed

lemma to_next_64k: "unat ((- a :: u64) AND 0xffff) < 65536 \<and> (unat a + unat ((- a) AND 0xffff)) mod 65536 = 0"
proof -
  have "unat ((- a) AND 0xffff) = unat (- a) AND unat (0xffff :: u64)" by (rule unsigned_and_eq)
  moreover have "unat (- a) AND 65535 = unat (- a) mod 65536"
    using take_bit_eq_mask [of 16 "unat (- a)"] by (simp add: take_bit_eq_mod mask_eq_exp_minus_1)
  ultimately have u: "unat ((- a) AND 0xffff) = unat (- a) mod 65536" by simp
  have "(unat a + unat (- a)) mod 2 ^ 64 = 0" using unat_word_ariths(1) [of a "- a"] by simp
  then have "(2 :: nat) ^ 64 dvd unat a + unat (- a)" by (simp add: mod_eq_0_iff_dvd)
  then have "65536 dvd unat a + unat (- a)" by (rule dvd_trans [rotated]) simp
  then have "(unat a + unat (- a) mod 65536) mod 65536 = 0" by (simp add: mod_add_right_eq mod_eq_0_iff_dvd)
  then show ?thesis unfolding u by simp
qed

section \<open>Properties\<close>

text \<open>
  \<open>minit\<close>: when the system grants the memory, the heap starts at the first page boundary at or above the break, occupies the three pages
  from there to the new break, and has its descriptors and locks set up for that address. When it does not grant what
  is asked first, \<open>minit\<close> does not come back (the results of \<open>sbrk\<close> are not looked at).
\<close>

lemma minit_places_heap:
  assumes g: "\<forall>d. grants d"
  shows "\<exists>base h'. minit grants cur h = Some (base, base + int (ph_end h') * page_size, h') \<and>
    base mod page_size = 0 \<and> cur \<le> base \<and> base < cur + page_size \<and> ph_end h' = 3 \<and> hp_base h' = base \<and>
    (\<forall>i < 3. pg_code (ph_tab h' i) = BASE) \<and> hp_locks h' = replicate (NUMSMALL + 1) 0"
proof -
  define base where "base = (if cur mod page_size \<noteq> 0 then cur + (page_size - cur mod page_size) else cur)"
  let ?h = "(msetup h)\<lparr>hp_base := base\<rparr>" let ?h = "?h\<lparr>hp_locks := snd (lock_init True (hp_locks ?h))\<rparr>"
  have ps: "0 < page_size" by (simp add: PAGESIZE_def)
  have "(cur + (page_size - cur mod page_size)) mod page_size = 0"
  proof -
    have "cur + (page_size - cur mod page_size) = (cur div page_size + 1) * page_size" by (simp add: algebra_simps minus_mod_eq_mult_div)
    then show ?thesis by (metis mod_mult_self2_is_0)
  qed
  then have al: "base mod page_size = 0" by (simp add: base_def)
  have "minit grants cur h = Some (base, base + page_size * 3, ?h)"
    using g al by (auto simp: minit_def sbrk_def base_def Let_def)
  moreover have "cur \<le> base" "base < cur + page_size"
    using pos_mod_bound [OF ps, of cur] pos_mod_sign [OF ps, of cur] by (auto simp: base_def) 
  moreover have "pg_code (ph_tab ?h i) = BASE" if "i < 3" for i
  proof -
    have "i = 0 \<or> i = 1 \<or> i = 2" using that by auto
    then show ?thesis by (elim disjE) (simp_all add: msetup_def Let_def set_code_def)
  qed
  moreover have "hp_locks ?h = replicate (NUMSMALL + 1) 0" by (simp add: msetup_def lock_init_def Let_def)
  ultimately show ?thesis
    using al by (intro exI [of _ base] exI [of _ ?h]) (simp add: msetup_def Let_def)
qed

lemma minit_refused: "\<forall>d. \<not> grants d \<Longrightarrow> minit grants cur h = None"
  by (auto simp: minit_def sbrk_def Let_def PAGESIZE_def)

text \<open>\<open>brk\<close> for \<open>WINNT\<close> moves the break where it should, but gives back the old break and not 0.\<close>

lemma brk_winnt_moves:
  assumes "grants (p - cur)" "- (2 ^ 31) \<le> p" "p < 2 ^ 31" "- (2 ^ 31) \<le> cur" "cur < 2 ^ 31" "- (2 ^ 31) \<le> p - cur" "p - cur < 2 ^ 31"
  shows "brk_winnt grants p cur = (cur, p)"
  using assms by (simp add: brk_winnt_def sbrk_def to_int_signed)

text \<open>
  \<open>cygwin_mmap\<close> for anonymous memory: what a previous call mapped reaches up to the next 64K boundary, so nothing is mapped when the
  request ends there; otherwise the call maps whole 64K blocks from that boundary on, and they cover the rest of the request with at
  most 64K to spare, when nothing overflows 64 bits.
\<close>

theorem cygwin_mmap_covers:
  assumes "fd < 0" "unat addr + unat len + 131072 < 2 ^ 64"
  shows "let skip = unat ((- addr) AND 0xffff) in skip < 65536 \<and> (unat addr + skip) mod 65536 = 0 \<and>
    (if unat len \<le> skip then cygwin_mmap base addr len fd offset = []
     else \<exists>a n. cygwin_mmap base addr len fd offset = [Mmap a n fd 0] \<and> unat a = unat addr + skip \<and> unat n mod 65536 = 0 \<and>
       unat addr + unat len < unat a + unat n \<and> unat a + unat n \<le> unat addr + unat len + 65536)"
proof -
  define d where "d = (- addr) AND 0xffff"
  have d: "unat d < 65536" "(unat addr + unat d) mod 65536 = 0" using to_next_64k [of addr] by (simp_all add: d_def)
  have a: "unat (addr + d) = unat addr + unat d" using d(1) assms(2) by (simp add: unat_word_ariths)
  show ?thesis
  proof (cases "unat len \<le> unat d")
    case True
    then show ?thesis using assms(1) d by (simp add: cygwin_mmap_def d_def [symmetric] word_le_nat_alt)
  next
    case False
    define n where "n = ((len - d) OR 0xffff) + 1"
    have l: "unat (len - d) = unat len - unat d" using False by (simp add: unat_sub word_le_nat_alt)
    have "unat n = ((unat len - unat d) div 65536 + 1) * 65536" unfolding n_def l [symmetric] using assms(2) l by (intro round_up_64k) simp
    then have "unat n mod 65536 = 0" "unat len - unat d < unat n" "unat n \<le> unat len - unat d + 65536" by simp_all
    moreover have "cygwin_mmap base addr len fd offset = [Mmap (addr + d) n fd 0]"
      using assms(1) False by (simp add: cygwin_mmap_def d_def [symmetric] n_def word_le_nat_alt Let_def)
    ultimately show ?thesis using a d False unfolding d_def [symmetric] Let_def by auto
  qed
qed

theorem cygwin_mmap_covers_witness: "\<exists>n. cygwin_mmap 0 0x1000 0x20000 (- 1) 0 = [Mmap 0x10000 n (- 1) 0] \<and> unat n = 0x20000"
proof -
  have s: "unat ((- 0x1000 :: u64) AND 0xffff) = 0xf000" by (simp add: unsigned_and_eq)
  from cygwin_mmap_covers [of "- 1" "0x1000" "0x20000" 0 0] obtain a n where
    "cygwin_mmap 0 0x1000 0x20000 (- 1) 0 = [Mmap a n (- 1) 0]" "unat a = 0x10000" "unat n mod 65536 = 0"
    "0x21000 < 0x10000 + unat n" "0x10000 + unat n \<le> 0x31000" unfolding s by auto
  moreover have "a = 0x10000" using \<open>unat a = 0x10000\<close> by (simp add: word_unat_eq_iff)
  moreover have "unat n = 0x20000" 
  proof -
    define k where "k = unat n div 65536"
    have "unat n = 65536 * k" using \<open>unat n mod 65536 = 0\<close> by (simp add: k_def mod_eq_0_iff_dvd)
    then show ?thesis using \<open>0x21000 < 0x10000 + unat n\<close> \<open>0x10000 + unat n \<le> 0x31000\<close> by simp
  qed
  ultimately show ?thesis by auto
qed

end
