(* ===== verification/Driver_Main.thy ===== *)
theory Driver_Main
  imports Driver Cpp_Driver Heap
begin

text \<open>
  What surrounds the loops of the two simulation programs \<open>src/c/main.c\<close> and \<open>src/c++/main.cpp\<close>: the clock and the times that are
  printed, pinning a thread to a core, the processes of the C program with its start and its end, and \<open>receiver\<close> of the C++ program, whose
  process is commented out. Rounding to floating-point numbers is left out.
\<close>

section \<open>Time\<close>

text \<open>\<open>elapsed_time_ns\<close> with what \<open>clock_gettime\<close> gives; all values are \<open>unsigned long long\<close>.\<close>

definition elapsed_time_ns :: "timespec \<Rightarrow> u64 \<Rightarrow> u64" where
  "elapsed_time_ns t ns = word_of_int (tv_sec t * 1000000000 + tv_nsec t) - ns"

text \<open>The time of a run, less the overhead of reading the clock.\<close>

definition run_time :: "u64 \<Rightarrow> u64 \<Rightarrow> u64 \<Rightarrow> u64" where
  "run_time delay start stop = (let timer_overhead = start - delay in stop - start - timer_overhead)"

text \<open>The loop over the results of the threads: sum, minimum and maximum.\<close>

definition INT_MAX_ull :: u64 where
  "INT_MAX_ull = 2147483647"

fun stat_loop :: "u64 list \<Rightarrow> u64 \<times> u64 \<times> u64 \<Rightarrow> u64 \<times> u64 \<times> u64" where
  "stat_loop [] s = s"
| "stat_loop (b # bs) (avg, mn, mx) = stat_loop bs (avg + b, if mn > b then b else mn, if mx > b then mx else b)"

definition run_stats :: "u64 list \<Rightarrow> u64 \<times> u64 \<times> u64" where
  "run_stats bufs = stat_loop bufs (0, INT_MAX_ull, 0)"

section \<open>Pinning\<close>

text \<open>
  \<open>thread_pin\<close> and \<open>assign_thread_to_core\<close>: a core that is not there is refused, otherwise the system is asked with the set of this one core.
  \<open>CPU_SET\<close> ignores numbers beyond the set.
\<close>

definition EINVAL :: int where "EINVAL = 22"

definition CPU_SET :: "int \<Rightarrow> int set \<Rightarrow> int set" where
  "CPU_SET core cpus = (if core < 1024 then insert core cpus else cpus)"

definition thread_pin :: "int \<Rightarrow> (int set \<Rightarrow> int) \<Rightarrow> int \<Rightarrow> int" where
  "thread_pin num_cores setaffinity core_id =
     (if core_id < 0 \<or> core_id \<ge> num_cores then EINVAL else setaffinity (CPU_SET core_id {}))"

definition assign_thread_to_core :: "int \<Rightarrow> (nat \<Rightarrow> int set \<Rightarrow> int) \<Rightarrow> int \<Rightarrow> nat \<Rightarrow> int" where
  "assign_thread_to_core num_cores setaffinity core_id pthread =
     (if core_id < 0 \<or> core_id \<ge> num_cores then EINVAL else setaffinity pthread (CPU_SET core_id {}))"

section \<open>The C program\<close>

text \<open>
  The start of \<open>main\<close>, up to the queues: \<open>shm_init\<close>, whose result is not looked at, the memory for the barrier, and the barrier itself, whose
  initialisation the system may refuse. Without memory the program faults. The results are the value that \<open>main\<close>
  returns (\<open>Inl\<close>) or the barrier.
\<close>

definition sizeof_barrier :: nat where "sizeof_barrier = 32"

definition main_start :: "os \<Rightarrow> bool \<Rightarrow> nat \<Rightarrow> nat \<Rightarrow> open_ans list \<Rightarrow> heap \<Rightarrow> ((int + nat) \<times> heap) option" where
  "main_start os barrier_ok empties polls tries h = do {
     (_, h1) \<leftarrow> shm_init os (Some ''tshm_file'') None empties polls tries h;
     (b, h2) \<leftarrow> malloc os sizeof_barrier h1;
     if b = 0 then None else if \<not> barrier_ok then Some (Inl (- 1), h2) else Some (Inr b, h2)
   }"

text \<open>The forks. A process is the threads it runs and the number of its children; a fork that fails is not noticed.\<close>

datatype c_role = Senders | Intermediates | Receivers | Main_process

definition main_processes :: "bool \<Rightarrow> bool \<Rightarrow> bool \<Rightarrow> (c_role \<times> nat) list" where
  "main_processes works1 works2 works3 =
     concat (map (\<lambda>(r1, c1). if r1 = 0 then [(Senders, c1)] else
       concat (map (\<lambda>(r2, c2). if r2 = 0 then [(Intermediates, c2)] else
         map (\<lambda>(r3, c3). if r3 = 0 then (Receivers, c3) else (Main_process, c3)) (fork_process works3 c2))
       (fork_process works2 c1)))
     (fork_process works1 0))"

definition threads_started :: "(c_role \<times> nat) list \<Rightarrow> nat" where
  "threads_started ps = sum_list (map (\<lambda>(r, _). if r = Main_process then 0 else NUM_THREAD) ps)"

definition barrier_count :: nat where
  "barrier_count = NUM_THREAD * 3"

text \<open>\<open>while (wait(&status) > 0);\<close>\<close>

function wait_loop_c :: "nat \<Rightarrow> int" where
  "wait_loop_c children = (case wait_call children of (r, children') \<Rightarrow> if r > 0 then wait_loop_c children' else r)"
  by pat_completeness auto
termination by (relation "measure id") (auto simp: wait_call_def split: if_splits)

declare wait_loop_c.simps [simp del]

text \<open>The end of \<open>main\<close> in the parent, with the result of \<open>pthread_barrier_destroy\<close>.\<close>

definition main_end :: "os \<Rightarrow> int \<Rightarrow> heap \<Rightarrow> (int \<times> heap) option" where
  "main_end os status h =
     (if status \<noteq> 0 then Some (- 1, h)
      else do { (_, h1) \<leftarrow> shm_fini os h; let (_, h2) = shm_destroy h1; Some (0, h2) })"

section \<open>The receiver of the C++ program\<close>

text \<open>The inner loop, \<open>n\<close> iterations of it, and the runs. The results are \<open>res\<close> and the queues \<open>q23\<close> and \<open>q32\<close>.\<close>

fun receiver_iters :: "node_alloc \<Rightarrow> nat \<Rightarrow> nat \<Rightarrow> u64 option \<Rightarrow> scrq \<Rightarrow> scrq \<Rightarrow> (cpp_fault + u64 option \<times> scrq \<times> scrq) option" where
  "receiver_iters al tid 0 res q23 q32 = Some (Inr (res, q23, q32))"
| "receiver_iters al tid (Suc n) res q23 q32 =
     (case scr_dequeue (\<lambda>s. s) tid q23 of
        None \<Rightarrow> None
      | Some (Inl f) \<Rightarrow> Some (Inl f)
      | Some (Inr (v, q23')) \<Rightarrow>
          (case scr_spinEnqueue al v tid q32 of
             None \<Rightarrow> None
           | Some (Inl f) \<Rightarrow> Some (Inl f)
           | Some (Inr q32') \<Rightarrow> receiver_iters al tid n (Some v) q23' q32'))"

fun receiver_runs :: "node_alloc \<Rightarrow> nat \<Rightarrow> nat \<Rightarrow> u64 option \<Rightarrow> scrq \<Rightarrow> scrq \<Rightarrow> (cpp_fault + u64 option \<times> scrq \<times> scrq) option" where
  "receiver_runs al N 0 res q23 q32 = Some (Inr (res, q23, q32))"
| "receiver_runs al N (Suc R) res q23 q32 =
     (case receiver_iters al 0 N res q23 q32 of
        None \<Rightarrow> None
      | Some (Inl f) \<Rightarrow> Some (Inl f)
      | Some (Inr (res', q23', q32')) \<Rightarrow> receiver_runs al N R res' q23' q32')"

section \<open>Facts\<close>

lemma stat_loop_sum: "fst (stat_loop bs (a, mn, mx)) = a + sum_list bs"
  by (induction bs arbitrary: a mn mx) (auto simp: add.assoc)

lemma stat_loop_min: "fst (snd (stat_loop bs (a, mn, mx))) = Min (insert mn (set bs))"
proof (induction bs arbitrary: a mn mx)
  case (Cons b bs)
  have "Min (insert mn (insert b (set bs))) = Min (insert (if mn > b then b else mn) (set bs))"
    by (cases "set bs = {}") (auto simp: min_def)
  then show ?case using Cons by simp
qed simp

lemma stat_loop_max: "snd (snd (stat_loop bs (a, mn, mx))) = Max (insert mx (set bs))"
proof (induction bs arbitrary: a mn mx)
  case (Cons b bs)
  have "Max (insert mx (insert b (set bs))) = Max (insert (if mx > b then mx else b) (set bs))"
    by (cases "set bs = {}") (auto simp: max_def)
  then show ?case using Cons by simp
qed simp

lemma wait_loop_all: "wait_loop_c n = - 1"
  by (induction n) (simp_all add: wait_loop_c.simps wait_call_def)

lemma receiver_iters_ok:
  assumes "queue_holds a3 K (n + c) (xs @ ys) q23" "queue_holds al K (n + c) zs q32" "length xs = n" "0 \<notin> set xs" "tid < 2"
  shows "\<exists>q23' q32'. receiver_iters al tid n res q23 q32 = Some (Inr (if xs = [] then res else Some (last xs), q23', q32')) \<and>
    queue_holds a3 K c ys q23' \<and> queue_holds al K c (zs @ xs) q32'"
  using assms
proof (induction n arbitrary: xs zs res q23 q32)
  case (Suc n)
  obtain x xs' where xs: "xs = x # xs'" using Suc.prems(3) by (cases xs) auto
  have "queue_holds a3 K (Suc (n + c)) (x # (xs' @ ys)) q23" using Suc.prems(1) by (simp add: xs)
  from dequeue_holds [OF this Suc.prems(5)] obtain q1 where
    q1: "scr_dequeue (\<lambda>s. s) tid q23 = Some (Inr (x, q1))" "queue_holds a3 K (n + c) (xs' @ ys) q1" by blast
  have "queue_holds al K (Suc (n + c)) zs q32" "x \<noteq> 0" using Suc.prems(2,4) by (auto simp: xs)
  from spinEnqueue_holds [OF this] obtain q2 where
    q2: "scr_spinEnqueue al x tid q32 = Some (Inr q2)" "queue_holds al K (n + c) (zs @ [x]) q2" by blast
  from Suc.IH [OF q1(2) q2(2), of "Some x"] Suc.prems(3-5) show ?case using q1(1) q2(1) by (auto simp: xs)
qed simp

lemma unat_uminus: "unat (- x) = 2 ^ 64 - unat x" if "x \<noteq> 0" for x :: u64
proof -
  have "(unat x + unat (- x)) mod 2 ^ 64 = 0" using unat_word_ariths(1) [of x "- x"] by simp
  then obtain k where k: "unat x + unat (- x) = 2 ^ 64 * k" unfolding mod_eq_0_iff_dvd by (auto elim: dvdE)
  have "0 < unat x" "unat x < 2 ^ 64" "unat (- x) < 2 ^ 64"
    using that unsigned_less [of x] unsigned_less [of "- x"] by (auto simp: unat_gt_0)
  then have "0 < 2 ^ 64 * k" "2 ^ 64 * k < 2 ^ 64 * 2" unfolding k [symmetric] by linarith+
  then have "0 < k \<and> k < 2" by (simp only: nat_mult_less_cancel_disj) simp
  then have "k = 1" by simp
  then show ?thesis using k by simp
qed

section \<open>Theorems\<close>

text \<open>
  The times. The clock is monotonic; then the time of a run is its duration less the overhead of the clock, unless the run was
  shorter than the overhead: then the number wraps and is close to \<open>2^64\<close>. The maximum and the sum of the results are right;
  the minimum starts at \<open>INT_MAX\<close>, so it is never above about 2.1 seconds, whatever the results are.
\<close>

theorem run_time_exact:
  assumes "delay \<le> start" "start \<le> stop"
  shows "unat (run_time delay start stop) =
    (if unat start - unat delay \<le> unat stop - unat start then unat stop - unat start - (unat start - unat delay)
     else 2 ^ 64 - (unat start - unat delay - (unat stop - unat start)))"
proof -
  have e: "unat (stop - start) = unat stop - unat start" "unat (start - delay) = unat start - unat delay"
    using assms by (simp_all add: unat_sub)
  show ?thesis
  proof (cases "start - delay \<le> stop - start")
    case True
    then have "unat (run_time delay start stop) = unat (stop - start) - unat (start - delay)" 
      unfolding run_time_def Let_def by (rule unat_sub)
    then show ?thesis using True e by (simp add: word_le_nat_alt)
  next
    case False
    then have l: "unat (stop - start) < unat (start - delay)" by (simp add: word_le_nat_alt)
    have "run_time delay start stop = - (start - delay - (stop - start))" by (simp add: run_time_def)
    moreover have "unat (start - delay - (stop - start)) = unat (start - delay) - unat (stop - start)"
      using l by (intro unat_sub) (simp add: word_le_nat_alt)
    moreover have "start - delay - (stop - start) \<noteq> 0" using l unfolding right_minus_eq by auto
    ultimately show ?thesis using l e unat_uminus [of "start - delay - (stop - start)"] by simp
  qed
qed

lemma run_stats_values:
  assumes "bufs \<noteq> []"
  shows "run_stats bufs = (sum_list bufs, min INT_MAX_ull (Min (set bufs)), Max (set bufs))"
proof -
  have "Max (insert 0 (set bufs)) = Max (set bufs)" using assms by (simp add: max_def)
  moreover have "Min (insert INT_MAX_ull (set bufs)) = min INT_MAX_ull (Min (set bufs))" using assms by simp
  ultimately show ?thesis
    using stat_loop_sum [of bufs 0 INT_MAX_ull 0] stat_loop_min [of bufs 0 INT_MAX_ull 0] stat_loop_max [of bufs 0 INT_MAX_ull 0]
    by (simp add: run_stats_def prod_eq_iff)
qed

text \<open>Pinning works for the cores that are there, and only those; the programs do not look at the result.\<close>

lemma pin_cores:
  assumes "0 \<le> core" "num \<le> 1024"
  shows "thread_pin num aff core = (if core < num then aff {core} else EINVAL)"
    "assign_thread_to_core num (\<lambda>_. aff) core t = thread_pin num aff core"
  using assms by (simp_all add: thread_pin_def assign_thread_to_core_def CPU_SET_def)

text \<open>
  The processes of the C program. The barrier is for 18 threads, which are there only when all three forks succeed; otherwise no thread
  passes it. The parent returns from its loop on \<open>wait\<close> once it has no children, and then unmaps the pool, unless
  the barrier cannot be destroyed.
\<close>

lemma barrier_needs_all: "threads_started (main_processes w1 w2 w3) = barrier_count \<longleftrightarrow> w1 \<and> w2 \<and> w3"
  by (cases w1; cases w2; cases w3) (simp_all add: main_processes_def fork_process_def threads_started_def barrier_count_def NUM_THREAD_def)

lemma main_parent: "(Main_process, n) \<in> set (main_processes w1 w2 w3) \<longleftrightarrow> n = length (filter (\<lambda>w. w) [w1, w2, w3])"
  by (cases w1; cases w2; cases w3) (auto simp: main_processes_def fork_process_def)

lemma main_end_unmaps:
  assumes "main_end os status h = Some (r, h')"
  shows "if status = 0 then r = 0 \<and> hp_mapped h' \<le> 0 else r = - 1 \<and> h' = h"
  using assms by (auto simp: main_end_def shm_destroy_def do_munmap_def bind_eq_Some_conv split: if_splits)

text \<open>
  \<open>receiver\<close> of the C++ program passes on what it gets: with \<open>R * N\<close> values in \<open>q23\<close>, it returns after \<open>R\<close> runs of \<open>N\<close> iterations, and the
  values are at the end of \<open>q32\<close>, all of them, in order; the rest of \<open>q23\<close> is untouched.
\<close>

theorem receiver_forwards:
  assumes "queue_holds a3 K (R * N + c) (xs @ ys) q23" "queue_holds al K (R * N + c) zs q32" "length xs = R * N" "0 \<notin> set xs"
  shows "\<exists>res q23' q32'. receiver_runs al N R res0 q23 q32 = Some (Inr (res, q23', q32')) \<and>
    queue_holds a3 K c ys q23' \<and> queue_holds al K c (zs @ xs) q32'"
  using assms
proof (induction R arbitrary: xs zs res0 q23 q32)
  case (Suc R)
  let ?us = "take N xs" and ?vs = "drop N xs"
  have l: "length ?us = N" "length ?vs = R * N" "0 \<notin> set ?us" "0 \<notin> set ?vs" using Suc.prems(3,4) by (auto dest: in_set_takeD in_set_dropD)
  have "queue_holds a3 K (N + (R * N + c)) (?us @ ?vs @ ys) q23" "queue_holds al K (N + (R * N + c)) zs q32"
    using Suc.prems(1,2) by (simp_all add: add.assoc append.assoc [symmetric] del: append.assoc)
  from receiver_iters_ok [OF this l(1,3), of 0 res0] obtain res q1 q2 where
    q: "receiver_iters al 0 N res0 q23 q32 = Some (Inr (res, q1, q2))" "queue_holds a3 K (R * N + c) (?vs @ ys) q1"
      "queue_holds al K (R * N + c) (zs @ ?us) q2" by auto
  from Suc.IH [OF q(2,3) l(2,4), of res] q(1) show ?case by auto
qed auto

text \<open>A message in \<open>q23\<close>, and a queue \<open>q32\<close> that has been found empty once.\<close>

theorem receiver_forwards_witness:
  "\<exists>q23 q32 res q23' q32'. lcrq_contents (sq_queue q23) = [5] \<and>
     receiver_runs (demo_pools Q32) 1 1 None q23 q32 = Some (Inr (res, q23', q32')) \<and> lcrq_contents (sq_queue q32') = [5]"
proof -
  obtain a b where "queue_holds (demo_pools Q23) 3 2 [] a" "queue_holds (demo_pools Q32) 3 2 [] b"
    using ctor_holds [OF demo_ok(1), of Q23] ctor_holds [OF demo_ok(1), of Q32] by (auto simp: numeral_3_eq_3)
  then have h: "queue_holds (demo_pools Q23) 3 (Suc 1) [] a" "queue_holds (demo_pools Q32) 3 (Suc 1) [] b" by (simp_all add: numeral_2_eq_2)
  obtain q23 where q23: "queue_holds (demo_pools Q23) 3 1 [5] q23" using spinEnqueue_holds [OF h(1), of 5] by auto
  obtain q32 where q32: "queue_holds (demo_pools Q32) 3 1 [] q32" using spinDequeue_holds [OF h(2), of 0] by auto
  from receiver_forwards [of "demo_pools Q23" 3 1 1 0 "[5]" "[]" q23 "demo_pools Q32" "[]" q32 None] q23 q32 obtain res q23' q32' where
    "receiver_runs (demo_pools Q32) 1 1 None q23 q32 = Some (Inr (res, q23', q32'))" "queue_holds (demo_pools Q32) 3 0 [5] q32'" by auto
  then show ?thesis using q23 unfolding queue_holds_def by blast
qed

end
