(* ===== verification/Small_Blocks.thy ===== *)
theory Small_Blocks
  imports Chunks
begin

text \<open>
  Who owns the small blocks: every chunk of a page that is cut into chunks is in the list of its page, in one of the two lists of the
  thread, or with a user. Here are the lists of all pages and all size classes, what \<open>flush_to_global_freelist\<close> does to them with the sort
  of the pages, and the return of complete pages to the page allocator.
\<close>

section \<open>The lists\<close>

text \<open>Page \<open>pn\<close> is cut into chunks of class \<open>l\<close> and \<open>c\<close> are free; a page all of whose chunks are free has the count \<open>-1\<close>.\<close>

definition page_free :: "heap \<Rightarrow> nat \<Rightarrow> nat \<Rightarrow> nat list \<Rightarrow> bool" where
  "page_free h l pn c \<longleftrightarrow> 3 \<le> pn \<and> pg_count (ph_tab h pn) = (if length c = PERPAGE l then - 1 else int (length c)) \<and>
     (c \<noteq> [] \<longrightarrow> clist (hp_next h) (chunk pn l (pg_free (ph_tab h pn))) c) \<and> distinct c \<and> set c \<subseteq> chunk pn l ` {..<PERPAGE l}"

definition chunk_page_of :: "heap \<Rightarrow> nat \<Rightarrow> nat \<Rightarrow> bool" where
  "chunk_page_of h l pn \<longleftrightarrow> l < NUMSMALL \<and> pn < ph_end h \<and> pg_code (ph_tab h pn) = l"

text \<open>The lists of pages of all classes, and the lists of chunks of all pages.\<close>

definition global_ok :: "heap \<Rightarrow> (nat \<Rightarrow> nat list) \<Rightarrow> (nat \<Rightarrow> nat list) \<Rightarrow> bool" where
  "global_ok h pns cs \<longleftrightarrow>
     (\<forall>l pn. chunk_page_of h l pn \<longrightarrow> page_free h l pn (cs pn)) \<and>
     (\<forall>pn. cs pn \<noteq> [] \<longrightarrow> (\<exists>l. chunk_page_of h l pn)) \<and>
     (\<forall>l < NUMSMALL. plist (ph_tab h) (hp_freechunks h l) (pns l) \<and> distinct (pns l) \<and>
        set (pns l) = {pn. chunk_page_of h l pn \<and> cs pn \<noteq> []})"

definition is_chunk :: "heap \<Rightarrow> nat \<Rightarrow> nat \<Rightarrow> bool" where
  "is_chunk h l a \<longleftrightarrow> chunk_page_of h l (page_of a) \<and> a \<in> chunk (page_of a) l ` {..<PERPAGE l}"

lemma page_free_cong:
  assumes "ph_tab h' pn = ph_tab h pn" "\<And>x. x \<in> set c \<Longrightarrow> hp_next h' x = hp_next h x"
  shows "page_free h' l pn c = page_free h l pn c"
  using assms clist_cong [of c "hp_next h'" "hp_next h"] by (simp add: page_free_def)

lemma page_free_room:
  assumes "l < NUMSMALL" "page_free h l pn c" "k < PERPAGE l" "chunk pn l k \<notin> set c"
  shows "length c < PERPAGE l"
proof -
  have s: "set c \<subseteq> chunk pn l ` {..<PERPAGE l} - {chunk pn l k}" "distinct c" using assms by (auto simp: page_free_def)
  have "inj_on (chunk pn l) {..<PERPAGE l}" by (simp add: inj_on_def chunk_eq)
  then have "card (chunk pn l ` {..<PERPAGE l}) = PERPAGE l" by (simp add: card_image)
  then have "card (chunk pn l ` {..<PERPAGE l} - {chunk pn l k}) = PERPAGE l - 1" using assms(3) by (subst card_Diff_singleton) auto
  moreover have "length c = card (set c)" using s(2) distinct_card by metis
  moreover have "card (set c) \<le> card (chunk pn l ` {..<PERPAGE l} - {chunk pn l k})" by (rule card_mono [OF _ s(1)]) simp
  ultimately show ?thesis using assms(3) by linarith
qed

lemma page_free_len: "l < NUMSMALL \<Longrightarrow> page_free h l pn c \<Longrightarrow> length c \<le> PERPAGE l"
proof -
  assume "l < NUMSMALL" and p: "page_free h l pn c"
  have "inj_on (chunk pn l) {..<PERPAGE l}" by (simp add: inj_on_def chunk_eq)
  then have "card (chunk pn l ` {..<PERPAGE l}) = PERPAGE l" by (simp add: card_image)
  moreover have "card (set c) \<le> card (chunk pn l ` {..<PERPAGE l})" using p by (intro card_mono) (auto simp: page_free_def)
  ultimately show ?thesis using p distinct_card [of c] by (auto simp: page_free_def)
qed

lemma page_free_count: "l < NUMSMALL \<Longrightarrow> page_free h l pn c \<Longrightarrow> pg_count (ph_tab h pn) = 0 \<longleftrightarrow> c = []"
  using SIZE_PERPAGE [of l] by (auto simp: page_free_def split: if_splits)

section \<open>Giving a chunk back\<close>

lemma chunk_off: "l < NUMSMALL \<Longrightarrow> k < PERPAGE l \<Longrightarrow> bits11 (int ((chunk pn l k - page_addr pn) div SIZE l)) = k"
  using SIZE_PERPAGE [of l] SIZE_pos [of l] by (simp add: chunk_def bits_small)

lemma give_page_free:
  assumes l: "l < NUMSMALL" and pf: "page_free h l pn c" and k: "k < PERPAGE l" "chunk pn l k \<notin> set c" "0 < pn"
  shows "page_free (give_chunk l (chunk pn l k) h) l pn (chunk pn l k # c)"
proof -
  note sz = SIZE_PERPAGE [OF l] and room = page_free_room [OF l pf k(1,2)] and z = page_free_count [OF l pf]
  have pg: "page_of (chunk pn l k) = pn" using chunk_page [OF l k(1)] by simp
  have pos: "chunk pn l k \<noteq> 0" using k(3) by (simp add: chunk_def page_addr_def PAGESIZE_def)
  have cnt: "pg_count (ph_tab h pn) = int (length c)" using pf room by (simp add: page_free_def)
  have b: "bits12 (int (length c) + 1) = int (Suc (length c))" using room sz by (subst bits_small) auto
  have n: "pg_count (ph_tab (give_chunk l (chunk pn l k) h) pn) = (if Suc (length c) = PERPAGE l then - 1 else int (Suc (length c)))"
    using room b by (cases c) (auto simp: give_chunk_def Let_def pg cnt)
  have f: "pg_free (ph_tab (give_chunk l (chunk pn l k) h) pn) = k" using chunk_off [OF l k(1)] by (simp add: give_chunk_def Let_def pg)
  have "hp_next (give_chunk l (chunk pn l k) h) (chunk pn l k) = (if c = [] then 0 else chunk pn l (pg_free (ph_tab h pn)))"
    using z by (simp add: give_chunk_def Let_def pg chunk_def [of pn l "pg_free (ph_tab h pn)"])
  moreover have "clist (hp_next (give_chunk l (chunk pn l k) h)) q c = clist (hp_next h) q c" for q
    using k(2) by (simp add: give_chunk_def Let_def)
  ultimately have "clist (hp_next (give_chunk l (chunk pn l k) h)) (chunk pn l k) (chunk pn l k # c)"
    using pf pos by (auto simp: page_free_def)
  then show ?thesis using pf k f n by (simp add: page_free_def)
qed

lemma give_chunk_fields:
  assumes "page_of cp = pn"
  shows "i \<noteq> pn \<Longrightarrow> ph_tab (give_chunk l cp h) i = ph_tab h i" "pg_code (ph_tab (give_chunk l cp h) i) = pg_code (ph_tab h i)"
    "x \<noteq> cp \<Longrightarrow> hp_next (give_chunk l cp h) x = hp_next h x" "ph_end (give_chunk l cp h) = ph_end h"
    "hp_freechunks (give_chunk l cp h) = (if pg_count (ph_tab h pn) = 0 then (hp_freechunks h)(l := pn) else hp_freechunks h)"
    "pg_page (ph_tab (give_chunk l cp h) pn) = (if pg_count (ph_tab h pn) = 0 then hp_freechunks h l else pg_page (ph_tab h pn))"
    "hp_local (give_chunk l cp h) = hp_local h" "chunk_page_of (give_chunk l cp h) l' i = chunk_page_of h l' i"
  using assms by (auto simp: give_chunk_def Let_def chunk_page_of_def)

lemma give_chunk_global:
  assumes g: "global_ok h pns cs" and a: "is_chunk h l a" "a \<notin> set (cs (page_of a))"
  shows "global_ok (give_chunk l a h) (pns(l := (if cs (page_of a) = [] then page_of a # pns l else pns l))) (cs(page_of a := a # cs (page_of a)))"
proof -
  let ?pn = "page_of a" and ?h = "give_chunk l a h"
  let ?pns = "pns(l := (if cs ?pn = [] then ?pn # pns l else pns l))" and ?cs = "cs(?pn := a # cs ?pn)"
  have cp: "chunk_page_of h l ?pn" and l: "l < NUMSMALL" using a by (simp_all add: is_chunk_def chunk_page_of_def)
  obtain k where k: "a = chunk ?pn l k" "k < PERPAGE l" using a by (auto simp: is_chunk_def)
  have pf: "page_free h l' pn (cs pn)" if "chunk_page_of h l' pn" for l' pn using g that unfolding global_ok_def by blast
  have pl: "plist (ph_tab h) (hp_freechunks h l') (pns l')" "distinct (pns l')" "set (pns l') = {pn. chunk_page_of h l' pn \<and> cs pn \<noteq> []}"
    if "l' < NUMSMALL" for l' using g that unfolding global_ok_def by blast+
  note fl = give_chunk_fields [of a ?pn, OF refl]
  have z: "pg_count (ph_tab h ?pn) = 0 \<longleftrightarrow> cs ?pn = []" by (rule page_free_count [OF l pf [OF cp]])
  have pos: "0 < ?pn" using pf [OF cp] by (simp add: page_free_def)
  have "page_free ?h l' pn (?cs pn)" if c: "chunk_page_of ?h l' pn" for l' pn
  proof (cases "pn = ?pn")
    case True
    then have "l' = l" using c cp by (simp add: fl(8)) (simp add: chunk_page_of_def)
    then show ?thesis using give_page_free [OF l pf [OF cp], of k] k a(2) pos True by simp
  next
    case False
    have c': "chunk_page_of h l' pn" using c by (simp only: fl(8))
    have "a \<notin> set (cs pn)"
    proof
      assume "a \<in> set (cs pn)"
      then obtain k' where "a = chunk pn l' k'" "k' < PERPAGE l'" using pf [OF c'] by (auto simp: page_free_def)
      then have "page_of a = pn" using chunk_page [of l' k' pn] c' by (simp add: chunk_page_of_def)
      then show False using False by simp
    qed
    then have "page_free ?h l' pn (cs pn) = page_free h l' pn (cs pn)" using False by (intro page_free_cong fl) auto
    then show ?thesis using False pf [OF c'] by simp
  qed
  moreover have "\<exists>l. chunk_page_of ?h l pn" if "?cs pn \<noteq> []" for pn
    using that g cp unfolding fl(8) global_ok_def by (auto split: if_splits)
  moreover have "plist (ph_tab ?h) (hp_freechunks ?h l') (?pns l') \<and> distinct (?pns l') \<and>
      set (?pns l') = {pn. chunk_page_of ?h l' pn \<and> ?cs pn \<noteq> []}" if l': "l' < NUMSMALL" for l'
  proof (cases "l' = l")
    case False
    then have "?pn \<notin> set (pns l')" using pl(3) [OF l'] cp by (auto simp: chunk_page_of_def)
    then have "plist (ph_tab ?h) (hp_freechunks h l') (pns l')" using pl(1) [OF l'] plist_frame [of "pns l'" "ph_tab ?h"] fl(1) by metis
    moreover have "\<not> chunk_page_of h l' ?pn" using False cp by (auto simp: chunk_page_of_def)
    ultimately show ?thesis using pl [OF l'] False by (auto simp: fl(5,8))
  next
    case True
    show ?thesis
    proof (cases "cs ?pn = []")
      case e: True
      then have "?pn \<notin> set (pns l)" using pl(3) [OF l] by auto
      then have "plist (ph_tab ?h) (hp_freechunks h l) (pns l)" using pl(1) [OF l] plist_frame [of "pns l" "ph_tab ?h"] fl(1) by metis
      then show ?thesis using True e z pl [OF l] pos cp by (auto simp: fl(5,6,8))
    next
      case e: False
      have "plist (ph_tab ?h) p xs = plist (ph_tab h) p xs" for p xs
        by (induction xs arbitrary: p) (use e z fl(1,6) in \<open>auto, metis+\<close>)
      then show ?thesis using True e z pl [OF l] cp by (auto simp: fl(5,8))
    qed
  qed
  ultimately show ?thesis unfolding global_ok_def by blast
qed

section \<open>Changes to chunks only\<close>

text \<open>Only descriptors of pages of chunks, links and the heads of the lists change; the codes stay, and the links outside \<open>X\<close>.\<close>

definition chunk_upd :: "nat set \<Rightarrow> heap \<Rightarrow> heap \<Rightarrow> bool" where
  "chunk_upd X h h' \<longleftrightarrow> h' = h\<lparr>ph_tab := ph_tab h', hp_next := hp_next h', hp_freechunks := hp_freechunks h'\<rparr> \<and>
     (\<forall>i. pg_code (ph_tab h' i) = pg_code (ph_tab h i)) \<and> (\<forall>i. \<not> pg_code (ph_tab h i) < NUMSMALL \<longrightarrow> ph_tab h' i = ph_tab h i) \<and>
     (\<forall>x. x \<notin> X \<longrightarrow> hp_next h' x = hp_next h x)"

lemma chunk_updD:
  assumes "chunk_upd X h h'"
  shows "ph_end h' = ph_end h" "hp_local h' = hp_local h" "hp_locks h' = hp_locks h" "pg_code (ph_tab h' i) = pg_code (ph_tab h i)"
    "x \<notin> X \<Longrightarrow> hp_next h' x = hp_next h x" "chunk_page_of h' l pn = chunk_page_of h l pn" "is_chunk h' l a = is_chunk h l a"
proof -
  have e: "h' = h\<lparr>ph_tab := ph_tab h', hp_next := hp_next h', hp_freechunks := hp_freechunks h'\<rparr>" using assms by (simp add: chunk_upd_def)
  show f: "ph_end h' = ph_end h" "hp_local h' = hp_local h" "hp_locks h' = hp_locks h" by (subst e, simp)+
  show c: "pg_code (ph_tab h' i) = pg_code (ph_tab h i)" for i using assms by (simp add: chunk_upd_def)
  show "x \<notin> X \<Longrightarrow> hp_next h' x = hp_next h x" using assms by (simp add: chunk_upd_def)
  show p: "chunk_page_of h' l pn = chunk_page_of h l pn" for pn by (simp add: chunk_page_of_def f c)
  show "is_chunk h' l a = is_chunk h l a" by (simp add: is_chunk_def p)
qed

lemma chunk_upd_refl [simp]: "chunk_upd X h h"
  by (simp add: chunk_upd_def)

lemma chunk_upd_trans: "chunk_upd X h h1 \<Longrightarrow> chunk_upd Y h1 h2 \<Longrightarrow> X \<union> Y \<subseteq> Z \<Longrightarrow> chunk_upd Z h h2"
proof -
  assume a: "chunk_upd X h h1" "chunk_upd Y h1 h2" "X \<union> Y \<subseteq> Z"
  have "h2 = h1\<lparr>ph_tab := ph_tab h2, hp_next := hp_next h2, hp_freechunks := hp_freechunks h2\<rparr>"
    "h1 = h\<lparr>ph_tab := ph_tab h1, hp_next := hp_next h1, hp_freechunks := hp_freechunks h1\<rparr>" using a by (simp_all add: chunk_upd_def)
  then have "h2 = h\<lparr>ph_tab := ph_tab h2, hp_next := hp_next h2, hp_freechunks := hp_freechunks h2\<rparr>" by (cases h; cases h1; cases h2) simp
  moreover have "hp_next h2 x = hp_next h x" if "x \<notin> Z" for x
  proof -
    have "x \<notin> X" "x \<notin> Y" using a(3) that by auto
    then show ?thesis using a(1,2) by (simp add: chunk_upd_def)
  qed
  ultimately show ?thesis using a(1,2) by (simp add: chunk_upd_def)
qed

lemma pool_chunks:
  assumes ok: "pool_ok h E" and u: "chunk_upd X h h'"
  shows "pool_ok h' E"
proof -
  have h': "h' = h\<lparr>ph_tab := ph_tab h', hp_next := hp_next h', hp_freechunks := hp_freechunks h'\<rparr>"
    "\<And>i. pg_code (ph_tab h' i) = pg_code (ph_tab h i)" "\<And>i. \<not> pg_code (ph_tab h i) < NUMSMALL \<Longrightarrow> ph_tab h' i = ph_tab h i"
    using u by (simp_all add: chunk_upd_def)
  have t: "table_ok (ph_tab h) (ph_end h) E" using ok by (simp add: pool_ok_def layout_def)
  have "extent_ok (ph_tab h') p n f" if "E p = Some (n, f)" for p n f
  proof -
    have e: "extent_ok (ph_tab h) p n f" "0 < n" using table_extent [OF t that] by (auto simp: extent_ok_def)
    have "ph_tab h' i = ph_tab h i" if "p \<le> i" "i < p + n" for i
      using e that by (intro h'(3)) (cases "i = p"; auto simp: extent_ok_def code_defs NUMSMALL_def size256_def)
    then show ?thesis using e by (simp add: extent_ok_def)
  qed
  then have "table_ok (ph_tab h') (ph_end h) E" using t h'(2) unfolding table_ok_def by simp
  then have "pool_ok (h\<lparr>ph_tab := ph_tab h', hp_next := hp_next h', hp_freechunks := hp_freechunks h'\<rparr>) E"
    using ok by (simp add: pool_ok_def layout_def brk_inv_def)
  then show ?thesis using h'(1) by simp
qed

lemma give_chunk_upd: "pg_code (ph_tab h (page_of a)) < NUMSMALL \<Longrightarrow> chunk_upd {a} h (give_chunk l a h)"
  by (cases h) (auto simp: chunk_upd_def give_chunk_def Let_def)

section \<open>Giving a list back\<close>

text \<open>What the lists of the pages hold after the chunks \<open>as\<close> have been given back.\<close>

definition given :: "nat list \<Rightarrow> (nat \<Rightarrow> nat list) \<Rightarrow> (nat \<Rightarrow> nat list) \<Rightarrow> bool" where
  "given as cs cs' \<longleftrightarrow> (\<forall>pn. set (cs' pn) = set (cs pn) \<union> {a \<in> set as. page_of a = pn})"

lemma give_loop_global:
  assumes "global_ok h pns cs" "clist (hp_next h) p as" "distinct as" "\<forall>a \<in> set as. is_chunk h l a \<and> a \<notin> set (cs (page_of a))"
  shows "\<exists>h' pns' cs'. give_loop l p 0 h = Some h' \<and> global_ok h' pns' cs' \<and> given as cs cs' \<and> chunk_upd (set as) h h'"
  using assms
proof (induction as arbitrary: p h pns cs)
  case Nil
  then show ?case by (intro exI [of _ h] exI [of _ pns] exI [of _ cs]) (simp add: give_loop.simps given_def)
next
  case (Cons a as)
  let ?h = "give_chunk l a h" and ?cs = "cs(page_of a := a # cs (page_of a))"
  let ?pns = "pns(l := (if cs (page_of a) = [] then page_of a # pns l else pns l))"
  have p: "p = a" "a \<noteq> 0" "clist (hp_next h) (hp_next h a) as" using Cons.prems(2) by simp_all
  have a: "is_chunk h l a" "a \<notin> set (cs (page_of a))" using Cons.prems(4) by simp_all
  have g: "global_ok ?h ?pns ?cs" by (rule give_chunk_global [OF Cons.prems(1) a])
  have u: "chunk_upd {a} h ?h" using a(1) by (intro give_chunk_upd) (simp add: is_chunk_def chunk_page_of_def)
  note ud = chunk_updD [OF u]
  have "hp_next ?h x = hp_next h x" if "x \<in> set as" for x using that Cons.prems(3) by (intro ud(5)) auto
  then have cl: "clist (hp_next ?h) (hp_next h a) as" using p(3) clist_cong [of as "hp_next ?h" "hp_next h"] by simp
  have "\<forall>b \<in> set as. is_chunk ?h l b \<and> b \<notin> set (?cs (page_of b))" using Cons.prems(3,4) ud(7) by auto
  with Cons.prems(3) have "distinct as" "\<forall>b \<in> set as. is_chunk ?h l b \<and> b \<notin> set (?cs (page_of b))" by simp_all
  from Cons.IH [OF g cl this] obtain h' pns' cs' where
    h': "give_loop l (hp_next h a) 0 ?h = Some h'" "global_ok h' pns' cs'" "given as ?cs cs'" "chunk_upd (set as) ?h h'" by blast
  have "give_loop l p 0 h = Some h'"
    using h'(1) p(1,2) by (subst give_loop.simps) (auto simp: Let_def)
  moreover have "given (a # as) cs cs'" using h'(3) by (auto simp: given_def)
  moreover have "chunk_upd (set (a # as)) h h'" by (rule chunk_upd_trans [OF u h'(4)]) simp
  ultimately show ?case using h'(2) by blast
qed

section \<open>Busy chunks\<close>

text \<open>The chunks of class \<open>l\<close> that are in no list of a page.\<close>

definition busy :: "heap \<Rightarrow> (nat \<Rightarrow> nat list) \<Rightarrow> nat \<Rightarrow> nat set" where
  "busy h cs l = {a. is_chunk h l a \<and> a \<notin> set (cs (page_of a))}"

lemma is_chunk_class: "is_chunk h l a \<Longrightarrow> is_chunk h l' a \<Longrightarrow> l' = l"
  by (simp add: is_chunk_def chunk_page_of_def)

lemma busy_given:
  assumes "given as cs cs'" "chunk_upd X h h'" "\<forall>a \<in> set as. is_chunk h l a"
  shows "busy h' cs' l' = (if l' = l then busy h cs l - set as else busy h cs l')"
  using assms(1,3) is_chunk_class [of h l _ l'] unfolding busy_def chunk_updD(7) [OF assms(2)] given_def by auto

section \<open>The page allocator leaves pages of chunks alone\<close>

lemma merge_below_tab:
  assumes r: "merge_below p h = Some (q, h1)" and n: "pg_page (ph_tab h p) = e" and p: "0 < p" "p < 2 ^ 32"
    and b: "(if pg_code (ph_tab h (p - 1)) = MIDDLE then pg_page (ph_tab h (p - 1)) else p - 1) < p"
    and i: "i \<noteq> q" "i < p \<or> e \<le> i" "p < e"
  shows "ph_tab h1 i = ph_tab h i"
proof -
  define adj where "adj = (if pg_code (ph_tab h (p - 1)) = MIDDLE then pg_page (ph_tab h (p - 1)) else p - 1)"
  have u: "usub p 1 = p - 1" using p by (intro usub_small) simp_all
  show ?thesis
  proof (cases "pg_code (ph_tab h adj) = BIG + FREE")
    case True
    let ?m = "set_code p MIDDLE (set_page adj e (ph_tab h))"
    have a: "adj < p" using b by (simp add: adj_def)
    then obtain m' where m': "fwd_loop adj adj p ?m = Some m'"
      "\<forall>j. m' j = (if p \<le> j \<and> j < pg_page (?m adj) then (?m j)\<lparr>pg_page := adj\<rparr> else ?m j)" using fwd_loop_eq by blast
    have q: "q = adj" "ph_tab h1 = m'" using r True m'(1) n unfolding merge_below_def u adj_def [symmetric] Let_def by auto
    have "pg_page (?m adj) = e" using a by (simp add: set_code_def)
    then show ?thesis using m'(2) i q a by (auto simp: set_code_def set_page_def)
  next
    case False
    then show ?thesis using r unfolding merge_below_def u adj_def [symmetric] Let_def by auto
  qed
qed

lemma merge_above_tab:
  assumes r: "merge_above q h = Some h1" and e: "pg_page (ph_tab h q) = e" "q < e" and i: "i \<noteq> q"
    "e < ph_end h \<and> pg_code (ph_tab h e) = BIG + FREE \<Longrightarrow> e < pg_page (ph_tab h e) \<and> (i < e \<or> pg_page (ph_tab h e) \<le> i)"
  shows "ph_tab h1 i = ph_tab h i"
proof (cases "e < ph_end h \<and> pg_code (ph_tab h e) = BIG + FREE")
  case True
  let ?m = "set_page q (pg_page (ph_tab h e)) (set_code e MIDDLE (ph_tab h))"
  obtain m' where m': "fwd_loop q q e ?m = Some m'"
    "\<forall>j. m' j = (if e \<le> j \<and> j < pg_page (?m q) then (?m j)\<lparr>pg_page := q\<rparr> else ?m j)" using fwd_loop_eq [OF e(2)] by blast
  have "ph_tab h1 = m'" using r True m'(1) e(1) unfolding merge_above_def Let_def by auto
  then show ?thesis using m'(2) i(1) i(2) [OF True] by (auto simp: set_code_def set_page_def)
next
  case False
  then show ?thesis using r e(1) unfolding merge_above_def Let_def by (auto split: if_splits)
qed

lemma free_pages_tab:
  assumes lay: "layout h E" and p: "E p = Some (n, False)" and r: "free_pages p h = Some (q', h')" and i: "\<not> inside E i"
  shows "ph_tab h' i = ph_tab h i"
proof -
  let ?E1 = "E(p := Some (n, True))" and ?h1 = "h\<lparr>ph_tab := set_code p (BIG + FREE) (ph_tab h)\<rparr>"
  have e: "ph_end h < 2 ^ 31" and t: "table_ok (ph_tab h) (ph_end h) E" and st: "store_ok (ph_fp h) E {}"
    using lay by (simp_all add: layout_def)
  have x: "extent_ok (ph_tab h) p n False" "p + n \<le> ph_end h" using table_extent [OF t p] by simp_all
  have c: "pg_code (ph_tab h p) = BIG" "0 < n" "0 < p" "pg_page (ph_tab h p) = p + n" using x(1) by (simp_all add: extent_ok_def)
  have t1: "table_ok (ph_tab ?h1) (ph_end ?h1) ?E1" using table_set_code [OF t p, of "BIG + FREE" True] by simp
  have "free_starts ?E1 - {p} = free_starts E" using p by (auto simp: free_starts_upd free_starts_iff)
  then have st1: "store_ok (ph_fp ?h1) ?E1 {p}" using st by (auto simp: store_ok_def split: if_splits)
  obtain h2 q E2 where 2: "merge_below p ?h1 = Some (q, h2)" "ph_end h2 = ph_end h" "table_ok (ph_tab h2) (ph_end h2) E2"
    "replaced ?E1 q (p + n - q) E2" "q \<le> p" "if q = p then \<nexists>a k. ?E1 a = Some (k, True) \<and> a + k = p else ?E1 q = Some (p - q, True)"
    using merge_below_replaced [OF t1 st1, of n] e by auto
  have E2q: "E2 q = Some (p + n - q, True)" using 2(4) by (simp add: replaced_def)
  have iq: "i \<noteq> q" "i < p \<or> p + n \<le> i"
    using i 2(5,6) p c(2) insideI [of E p n False i] insideI [of E q "p - q" True q] by (cases "q = p"; force)+
  have bl: "(if pg_code (ph_tab ?h1 (p - 1)) = MIDDLE then pg_page (ph_tab ?h1 (p - 1)) else p - 1) < p"
    by (rule below_less [OF t1]) simp
  have s1: "ph_tab h2 i = ph_tab ?h1 i"
    by (rule merge_below_tab [OF 2(1) _ c(3) _ bl iq(1), of "p + n"]) (use iq(2) c x e in \<open>auto simp: set_code_def\<close>)
  obtain h3 where 3: "merge_above q h2 = Some h3" "ph_tab h' = ph_tab h3"
    using r 2(1) c(1) by (auto simp: free_pages_def bind_eq_Some_conv)
  have x2: "extent_ok (ph_tab h2) q (p + n - q) True" using table_extent [OF 2(3) E2q] by simp
  have "ph_tab h3 i = ph_tab h2 i"
  proof (rule merge_above_tab [OF 3(1) _ _ iq(1), of "p + n"])
    show "pg_page (ph_tab h2 q) = p + n" "q < p + n" using x2 2(5) c(2) by (simp_all add: extent_ok_def)
    assume a: "p + n < ph_end h2 \<and> pg_code (ph_tab h2 (p + n)) = BIG + FREE"
    then obtain k where k: "E2 (p + n) = Some (k, True)" using table_free [OF 2(3)] by blast
    then have "?E1 (p + n) = Some (k, True)" using 2(4,5) by (simp add: replaced_def)
    then have "E (p + n) = Some (k, True)" using c(2) by simp
    then have "\<not> (p + n \<le> i \<and> i < p + n + k)" using i insideI by blast
    moreover have "extent_ok (ph_tab h2) (p + n) k True" using table_extent [OF 2(3) k] by simp
    ultimately show "p + n < pg_page (ph_tab h2 (p + n)) \<and> (i < p + n \<or> pg_page (ph_tab h2 (p + n)) \<le> i)" by (auto simp: extent_ok_def)
  qed
  moreover have "i \<noteq> p" using iq(2) c(2) by auto
  ultimately show ?thesis using s1 3(2) by (simp add: set_code_def)
qed

lemma free_extent_frame:
  assumes "free_extent os a h = Some h'"
  shows "\<exists>h0 f h1. LOCK NUMSMALL h = Some h0 \<and> free_pages (page_of a) h0 = Some (f, h1) \<and> ph_tab h' = ph_tab h1 \<and>
    hp_next h' = hp_next h1 \<and> hp_local h' = hp_local h1 \<and> hp_freechunks h' = hp_freechunks h1"
proof -
  obtain h0 f h1 where r: "LOCK NUMSMALL h = Some h0" "free_pages (page_of a) h0 = Some (f, h1)"
    using assms by (auto simp: free_extent_def bind_eq_Some_conv split: if_splits)
  have sb: "ph_tab y = ph_tab x \<and> hp_next y = hp_next x \<and> hp_local y = hp_local x \<and> hp_freechunks y = hp_freechunks x"
    if "shm_sbrk os d x = (b, y)" for d x y b
  proof -
    have "brk_frame x y" using that by (rule shm_sbrk_frame)
    then have y: "y = x\<lparr>hp_brk := hp_brk y, hp_eof := hp_eof y, hp_localbrk := hp_localbrk y, hp_mapped := hp_mapped y\<rparr>" by (simp add: brk_frame_def)
    show ?thesis by (subst y, simp)+
  qed
  have sn: "ph_tab (snd (shm_sbrk os d x)) = ph_tab x \<and> hp_next (snd (shm_sbrk os d x)) = hp_next x \<and>
      hp_local (snd (shm_sbrk os d x)) = hp_local x \<and> hp_freechunks (snd (shm_sbrk os d x)) = hp_freechunks x" for d x
    using sb [of d x "fst (shm_sbrk os d x)" "snd (shm_sbrk os d x)"] by simp
  show ?thesis
    using assms r sn by (auto simp: free_extent_def UNLOCK_def Let_def split: if_splits option.splits prod.splits dest!: sb)
qed

lemma chunk_not_inside: "pool_ok h E \<Longrightarrow> chunk_page_of h l i \<Longrightarrow> \<not> inside E i"
proof
  assume a: "pool_ok h E" "chunk_page_of h l i" "inside E i"
  then obtain p n f where p: "E p = Some (n, f)" "p \<le> i" "i < p + n" by (auto simp: inside_def)
  have "extent_ok (ph_tab h) p n f" using a(1) table_extent [of "ph_tab h" "ph_end h" E p n f] p(1) by (simp add: pool_ok_def layout_def)
  then have "\<not> pg_code (ph_tab h i) < NUMSMALL" using p(2,3)
    by (cases "i = p"; auto simp: extent_ok_def code_defs NUMSMALL_def size256_def)
  then show False using a(2) by (simp add: chunk_page_of_def)
qed

lemma free_extent_chunks:
  assumes ok: "pool_ok h E" and os: "os_ok os" and p: "E p = Some (n, False)"
  shows "\<exists>h' E'. free_extent os (page_addr p) h = Some h' \<and> pool_ok h' E' \<and> hp_next h' = hp_next h \<and> hp_local h' = hp_local h \<and>
    hp_freechunks h' = hp_freechunks h \<and> hp_locks h' = hp_locks h \<and> (\<forall>l i. chunk_page_of h' l i = chunk_page_of h l i) \<and>
    (\<forall>l i. chunk_page_of h l i \<longrightarrow> ph_tab h' i = ph_tab h i)"
proof -
  obtain q k E1 h' where r: "free_extent os (page_addr p) h = Some h'" "replaced E q k E1" "q \<le> p" "p + n \<le> q + k"
    "if q + k = ph_end h then ph_end h' = q \<and> pool_ok h' (E1(q := None)) else ph_end h' = ph_end h \<and> pool_ok h' E1"
    "if q = p then \<nexists>a k. E a = Some (k, True) \<and> a + k = p else E q = Some (p - q, True)"
    "if p + n = q + k then \<nexists>k. E (p + n) = Some (k, True) else E (p + n) = Some (q + k - (p + n), True)"
    using free_extent_run [OF ok os p] by blast
  obtain h0 f h1 where f: "LOCK NUMSMALL h = Some h0" "free_pages p h0 = Some (f, h1)" "ph_tab h' = ph_tab h1"
    "hp_next h' = hp_next h1" "hp_local h' = hp_local h1" "hp_freechunks h' = hp_freechunks h1"
    using free_extent_frame [OF r(1)] by (auto simp: page_of_def page_addr_def PAGESIZE_def)
  have h0: "h0 = h\<lparr>hp_locks := (hp_locks h)[NUMSMALL := 1]\<rparr>" using f(1) by (simp add: LOCK_def split: if_splits)
  have m: "pheap.more h1 = pheap.more h0" by (rule free_pages_more [OF f(2)])
  have fr: "hp_next h' = hp_next h" "hp_local h' = hp_local h" "hp_freechunks h' = hp_freechunks h"
    using m unfolding f(4-6) h0 by (cases h; cases h1; simp)+
  have lk: "hp_locks h' = hp_locks h" using kept_free_extent [OF r(1)] by (simp add: kept_def)
  have lay0: "layout h0 E" using ok by (simp add: h0 pool_ok_def layout_def)
  have tab: "ph_tab h' i = ph_tab h i" if "\<not> inside E i" for i
    using free_pages_tab [OF lay0 p f(2) that] f(3) by (simp add: h0)
  define E' where "E' = (if q + k = ph_end h then E1(q := None) else E1)"
  have E': "pool_ok h' E'" "E' = (if q + k = ph_end h then E1(q := None) else E1)" using r(5) by (auto simp: E'_def split: if_splits)
  have k: "0 < k" using r(3,4) p ok table_extent [of "ph_tab h" "ph_end h" E p n False] by (simp add: pool_ok_def layout_def extent_ok_def)
  have in1: "inside E i" if "q \<le> i" "i < q + k" for i
  proof -
    consider "i < p" | "p \<le> i" "i < p + n" | "p + n \<le> i" by linarith
    then show ?thesis
    proof cases
      case 1
      then have "E q = Some (p - q, True)" using r(6) that by (simp split: if_splits)
      then show ?thesis using 1 that by (intro insideI [of E q "p - q" True]) auto
    next
      case 2
      then show ?thesis using p by (intro insideI)
    next
      case 3
      then have "E (p + n) = Some (q + k - (p + n), True)" using r(7) that by (simp split: if_splits)
      then show ?thesis using 3 that by (intro insideI [of E "p + n" "q + k - (p + n)" True]) auto
    qed
  qed
  have in2: "inside E' i \<or> ph_end h' \<le> i" if i: "inside E i" for i
  proof -
    have "\<exists>r0 k0 f0. E r0 = Some (k0, f0) \<and> r0 + k0 = q + k \<and> q \<le> r0"
    proof (cases "p + n = q + k")
      case True
      then show ?thesis using p r(3) by blast
    next
      case False
      then show ?thesis using r(3,4,7) by (intro exI [of _ "p + n"] exI [of _ "q + k - (p + n)"] exI [of _ True]) auto
    qed
    then obtain r0 k0 f0 where last: "E r0 = Some (k0, f0)" "r0 + k0 = q + k" "q \<le> r0" by blast
    obtain p0 n0 g where p0: "E p0 = Some (n0, g)" "p0 \<le> i" "i < p0 + n0" using i by (auto simp: inside_def)
    have t: "table_ok (ph_tab h) (ph_end h) E" using ok by (simp add: pool_ok_def layout_def)
    show ?thesis
    proof (cases "q \<le> i \<and> i < q + k")
      case True
      then show ?thesis using r(2,5) E' by (auto simp: replaced_def inside_def split: if_splits)
    next
      case False
      have "\<not> (q \<le> p0 \<and> p0 < q + k)"
      proof
        assume a: "q \<le> p0 \<and> p0 < q + k"
        then have "q + k \<le> i" using False p0(2) by auto
        then show False using table_disjoint [OF t p0(1) last(1)] table_disjoint [OF t last(1) p0(1)] p0 last a
          by (cases p0 r0 rule: linorder_cases) auto
      qed
      then have "E1 p0 = Some (n0, g)" "p0 \<noteq> q" using r(2) p0(1) k by (auto simp: replaced_def)
      then show ?thesis using E' p0(2,3) by (auto simp: inside_def split: if_splits)
    qed
  qed
  have "chunk_page_of h' l i = chunk_page_of h l i" for l i
  proof (cases "inside E i")
    case False
    then have "\<not> (q \<le> i \<and> i < q + k)" using in1 by blast
    moreover have "q + k \<le> ph_end h"
      using r(2,5) table_extent [of "ph_tab h'" "ph_end h'" E1 q k True] by (auto simp: replaced_def pool_ok_def layout_def split: if_splits)
    ultimately show ?thesis using tab [OF False] r(5) by (auto simp: chunk_page_of_def split: if_splits)
  next
    case True
    then have "\<not> chunk_page_of h l i" using chunk_not_inside [OF ok] by blast
    moreover have "\<not> chunk_page_of h' l i" using in2 [OF True] chunk_not_inside [OF E'(1), of l i] by (auto simp: chunk_page_of_def)
    ultimately show ?thesis by simp
  qed
  then show ?thesis using r(1) E'(1) fr lk tab chunk_not_inside [OF ok] by blast
qed

section \<open>Giving empty pages back\<close>

lemma pool_uncut:
  assumes ok: "pool_ok h E" and c: "chunk_page_of h l pn" "3 \<le> pn" and q: "pg_code q = BIG" "pg_page q = pn + 1"
    and h': "h' = h\<lparr>ph_tab := (ph_tab h)(pn := q), hp_freechunks := fc\<rparr>"
  shows "pool_ok h' (E(pn := Some (1, False)))"
proof -
  let ?E = "E(pn := Some (1, False))"
  have t: "table_ok (ph_tab h) (ph_end h) E" and st: "store_ok (ph_fp h) E {}" using ok by (simp_all add: pool_ok_def layout_def)
  have ni: "\<not> inside E pn" by (rule chunk_not_inside [OF ok c(1)])
  have out: "pn < p \<or> p + n \<le> pn" if "E p = Some (n, f)" for p n f using ni that insideI [of E p n f pn] by (meson not_le)
  have N: "E pn = None"
  proof (rule ccontr)
    assume "E pn \<noteq> None"
    then obtain n f where e: "E pn = Some (n, f)" by (cases "E pn") auto
    then have "0 < n" using table_extent [OF t e] by (simp add: extent_ok_def)
    then show False using out [OF e] by simp
  qed
  have x: "extent_ok ((ph_tab h)(pn := q)) p n f \<and> p + n \<le> ph_end h" if "?E p = Some (n, f)" for p n f
  proof (cases "p = pn")
    case True
    then show ?thesis using that q c by (auto simp: extent_ok_def chunk_page_of_def)
  next
    case False
    then have e: "E p = Some (n, f)" using that by simp
    have "((ph_tab h)(pn := q)) i = ph_tab h i" if "p \<le> i" "i < p + n" for i using out [OF e] that by auto
    then show ?thesis using table_extent [OF t e] by (simp add: extent_ok_def)
  qed
  have d: "disjoint_extents ?E" unfolding disjoint_extents_def
  proof (intro allI impI)
    fix a n f b m g assume ab: "?E a = Some (n, f) \<and> ?E b = Some (m, g) \<and> a < b"
    show "a + n \<le> b"
    proof (cases "a = pn")
      case True
      then show ?thesis using ab by auto
    next
      case a: False
      then show ?thesis using ab out [of a n f] table_disjoint [OF t, of a n f b m g] by (cases "b = pn") auto
    qed
  qed
  have "i \<noteq> pn \<and> \<not> inside E i" if i: "\<not> inside ?E i" for i
  proof -
    have "i \<noteq> pn" using i insideI [of ?E pn 1 False i] by auto
    moreover have "\<not> inside E i"
    proof
      assume "inside E i"
      then obtain p n f where "E p = Some (n, f)" "p \<le> i" "i < p + n" by (auto simp: inside_def)
      then show False using i insideI [of ?E p n f i] N by (cases "p = pn") auto
    qed
    ultimately show ?thesis by simp
  qed
  then have "table_ok ((ph_tab h)(pn := q)) (ph_end h) ?E" using t x d unfolding table_ok_def by auto
  moreover have "free_starts ?E = free_starts E" using N by (auto simp: free_starts_def)
  then have "store_ok (ph_fp h) ?E {}" using st by (auto simp: store_ok_def split: if_splits)
  ultimately show ?thesis using ok c(2) by (auto simp: pool_ok_def layout_def h' brk_inv_def)
qed

text \<open>Three of the facts in \<open>global_ok\<close>, for use.\<close>

lemma global_okD:
  assumes "global_ok h pns cs"
  shows "chunk_page_of h l pn \<Longrightarrow> page_free h l pn (cs pn)" "cs pn \<noteq> [] \<Longrightarrow> \<exists>l. chunk_page_of h l pn"
    "l < NUMSMALL \<Longrightarrow> plist (ph_tab h) (hp_freechunks h l) (pns l)" "l < NUMSMALL \<Longrightarrow> distinct (pns l)"
    "l < NUMSMALL \<Longrightarrow> set (pns l) = {pn. chunk_page_of h l pn \<and> cs pn \<noteq> []}"
  using assms unfolding global_ok_def by blast+

text \<open>One page all of whose chunks are free goes back to the page allocator.\<close>

lemma release_step:
  assumes ok: "pool_ok h E" and os: "os_ok os" and g: "global_ok h pns cs" and l: "l < NUMSMALL" and pn: "pns l = pn # rest"
    and n: "pg_count (ph_tab h pn) < 0"
  shows "\<exists>h' E'. release_loop os l h = release_loop os l h' \<and> pool_ok h' E' \<and> global_ok h' (pns(l := rest)) (cs(pn := [])) \<and>
    hp_next h' = hp_next h \<and> hp_local h' = hp_local h \<and> hp_locks h' = hp_locks h \<and>
    (\<forall>l'. busy h' (cs(pn := [])) l' = busy h cs l') \<and> (\<forall>l' i. chunk_page_of h' l' i \<longleftrightarrow> chunk_page_of h l' i \<and> i \<noteq> pn) \<and>
    (\<forall>l' i. chunk_page_of h' l' i \<longrightarrow> ph_tab h' i = ph_tab h i)"
proof -
  note G = global_okD [OF g]
  have cp: "chunk_page_of h l pn" using G(5) [OF l] pn by auto
  have pf: "page_free h l pn (cs pn)" by (rule G(1) [OF cp])
  have p3: "3 \<le> pn" "length (cs pn) = PERPAGE l" using pf n by (auto simp: page_free_def split: if_splits)
  define p where "p = (ph_tab h pn)\<lparr>pg_code := BIG, pg_count := 0, pg_free := 0, pg_page := pn + 1\<rparr>"
  define h1 where "h1 = h\<lparr>ph_tab := (ph_tab h)(pn := p), hp_freechunks := (hp_freechunks h)(l := pg_page (ph_tab h pn))\<rparr>"
  have ok1: "pool_ok h1 (E(pn := Some (1, False)))" by (rule pool_uncut [OF ok cp p3(1) _ _ h1_def]) (simp_all add: p_def)
  have "(E(pn := Some (1, False))) pn = Some (1, False)" by simp
  from free_extent_chunks [OF ok1 os this] obtain h' E' where
    r: "free_extent os (page_addr pn) h1 = Some h'" "pool_ok h' E'" "hp_next h' = hp_next h1" "hp_local h' = hp_local h1"
    "hp_freechunks h' = hp_freechunks h1" "hp_locks h' = hp_locks h1"
    "\<forall>l i. chunk_page_of h' l i = chunk_page_of h1 l i" "\<forall>l i. chunk_page_of h1 l i \<longrightarrow> ph_tab h' i = ph_tab h1 i" by blast
  have cp1: "chunk_page_of h1 l' i \<longleftrightarrow> chunk_page_of h l' i \<and> i \<noteq> pn" for l' i
    by (auto simp: h1_def p_def chunk_page_of_def code_defs NUMSMALL_def size256_def)
  have cp': "chunk_page_of h' l' i \<longleftrightarrow> chunk_page_of h l' i \<and> i \<noteq> pn" for l' i using r(7) cp1 by simp
  have tab: "ph_tab h' i = ph_tab h i" if "chunk_page_of h' l' i" for l' i
    using r(8) that cp' [of l' i] cp1 [of l' i] by (auto simp: h1_def)
  have nx: "hp_next h' = hp_next h" "hp_freechunks h' = (hp_freechunks h)(l := pg_page (ph_tab h pn))" using r(3,5) by (simp_all add: h1_def)
  have pl: "hp_freechunks h l = pn" "pn \<noteq> 0" "plist (ph_tab h) (pg_page (ph_tab h pn)) rest" "pn \<notin> set rest" "distinct rest"
    using G(3,4) [OF l] pn by auto
  have "h1 = h\<lparr>hp_freechunks := (hp_freechunks h)(l := pg_page (ph_tab h pn)), ph_tab := (ph_tab h)(pn := p)\<rparr>"
    by (cases h) (simp add: h1_def)
  then have run: "release_loop os l h = release_loop os l h'"
    using r(1) pl(1,2) n by (subst release_loop.simps) (simp add: Let_def p_def)
  have gl: "global_ok h' (pns(l := rest)) (cs(pn := []))" unfolding global_ok_def
  proof (intro conjI allI impI)
    fix l' i assume c: "chunk_page_of h' l' i"
    then have "page_free h l' i (cs i)" "i \<noteq> pn" using G(1) cp' by blast+
    then show "page_free h' l' i ((cs(pn := [])) i)" using page_free_cong [of h' i h "cs i" l'] tab [OF c] nx(1) by simp
  next
    fix i assume "(cs(pn := [])) i \<noteq> []"
    then show "\<exists>l. chunk_page_of h' l i" using G(2) [of i] cp' by (auto split: if_splits)
  next
    fix l' assume l': "l' < NUMSMALL"
    have s: "set ((pns(l := rest)) l') = {i. chunk_page_of h' l' i \<and> (cs(pn := [])) i \<noteq> []}"
    proof (cases "l' = l")
      case True
      then show ?thesis using G(5) [OF l] pn pl(4) cp' by auto
    next
      case False
      then have "\<not> chunk_page_of h l' pn" using cp by (auto simp: chunk_page_of_def)
      then show ?thesis using G(5) [OF l'] False cp' by auto
    qed
    then show "set ((pns(l := rest)) l') = {i. chunk_page_of h' l' i \<and> (cs(pn := [])) i \<noteq> []}" .
    have "plist (ph_tab h) (hp_freechunks h' l') ((pns(l := rest)) l')" using G(3) [OF l'] pl(3) nx(2) by simp
    moreover have "ph_tab h' i = ph_tab h i" if "i \<in> set ((pns(l := rest)) l')" for i using s that tab by blast
    ultimately show "plist (ph_tab h') (hp_freechunks h' l') ((pns(l := rest)) l')"
      using plist_frame [of "(pns(l := rest)) l'" "ph_tab h'" "ph_tab h"] by blast
    show "distinct ((pns(l := rest)) l')" using G(4) [OF l'] pl(5) by simp
  qed
  have all: "a \<in> set (cs pn)" if x: "is_chunk h l' a" "page_of a = pn" for l' a
  proof -
    have "l' = l" using x cp by (simp add: is_chunk_def chunk_page_of_def)
    then obtain k where k: "a = chunk pn l k" "k < PERPAGE l" using x by (auto simp: is_chunk_def)
    show ?thesis using page_free_room [OF l pf k(2)] p3(2) k(1) by auto
  qed
  have "busy h' (cs(pn := [])) l' = busy h cs l'" for l'
    using all unfolding busy_def is_chunk_def cp' by (auto simp: is_chunk_def)
  then show ?thesis using run r(2,4,6) gl nx(1) cp' tab by (intro exI [of _ h'] exI [of _ E']) (auto simp: h1_def)
qed

text \<open>What a change does to the small blocks: nothing to the lists of the thread, the locks and the chunks that are busy.\<close>

definition same_blocks :: "heap \<Rightarrow> (nat \<Rightarrow> nat list) \<Rightarrow> heap \<Rightarrow> (nat \<Rightarrow> nat list) \<Rightarrow> bool" where
  "same_blocks h cs h' cs' \<longleftrightarrow> hp_next h' = hp_next h \<and> hp_local h' = hp_local h \<and> hp_locks h' = hp_locks h \<and> (\<forall>l. busy h' cs' l = busy h cs l)"

text \<open>No page of the class is complete.\<close>

definition open_pages :: "heap \<Rightarrow> (nat \<Rightarrow> nat list) \<Rightarrow> nat \<Rightarrow> bool" where
  "open_pages h cs l \<longleftrightarrow> (\<forall>pn. chunk_page_of h l pn \<longrightarrow> length (cs pn) < PERPAGE l)"

lemma release_loop_global:
  assumes "pool_ok h E" "os_ok os" "global_ok h pns cs" "l < NUMSMALL" "sorted_wrt (page_le (ph_tab h)) (pns l)"
  shows "\<exists>h' E' pns' cs'. release_loop os l h = Some h' \<and> pool_ok h' E' \<and> global_ok h' pns' cs' \<and> same_blocks h cs h' cs' \<and>
    open_pages h' cs' l \<and> (\<forall>l'. l' \<noteq> l \<and> open_pages h cs l' \<longrightarrow> open_pages h' cs' l')"
  using assms
proof (induction "pns l" arbitrary: h E pns cs)
  case Nil
  note G = global_okD [OF Nil.prems(3)]
  have "cs pn = []" if "chunk_page_of h l pn" for pn using G(5) [OF Nil.prems(4)] Nil.hyps that by auto
  then have "open_pages h cs l" using SIZE_PERPAGE [OF Nil.prems(4)] by (simp add: open_pages_def)
  moreover have "release_loop os l h = Some h" using G(3) [OF Nil.prems(4)] Nil.hyps by (subst release_loop.simps) simp
  ultimately show ?case using Nil.prems by (auto simp: same_blocks_def)
next
  case (Cons pn rest)
  note G = global_okD [OF Cons.prems(3)] and pn = Cons.hyps(2) [symmetric]
  show ?case
  proof (cases "pg_count (ph_tab h pn) < 0")
    case True
    obtain h1 E1 where r: "release_loop os l h = release_loop os l h1" "pool_ok h1 E1" "global_ok h1 (pns(l := rest)) (cs(pn := []))"
      "hp_next h1 = hp_next h" "hp_local h1 = hp_local h" "hp_locks h1 = hp_locks h" "\<forall>l'. busy h1 (cs(pn := [])) l' = busy h cs l'"
      "\<forall>l' i. chunk_page_of h1 l' i \<longleftrightarrow> chunk_page_of h l' i \<and> i \<noteq> pn" "\<forall>l' i. chunk_page_of h1 l' i \<longrightarrow> ph_tab h1 i = ph_tab h i"
      using release_step [OF Cons.prems(1-4) pn True] by blast
    have "ph_tab h1 i = ph_tab h i" if "i \<in> set rest" for i
      using global_okD(5) [OF r(3) Cons.prems(4)] r(9) that by auto
    moreover have "sorted_wrt (page_le (ph_tab h)) rest" using Cons.prems(5) pn by simp
    ultimately have "sorted_wrt (page_le (ph_tab h1)) rest" by (auto simp: page_le_def elim!: sorted_wrt_mono_rel [rotated])
    then obtain h' E' pns' cs' where h': "release_loop os l h1 = Some h'" "pool_ok h' E'" "global_ok h' pns' cs'" "same_blocks h1 (cs(pn := [])) h' cs'"
      "open_pages h' cs' l" "\<forall>l'. l' \<noteq> l \<and> open_pages h1 (cs(pn := [])) l' \<longrightarrow> open_pages h' cs' l'"
      using Cons.hyps(1) [of "pns(l := rest)" h1 E1 "cs(pn := [])"] Cons.prems(2,4) r(2,3) by auto
    have "same_blocks h cs h' cs'" using h'(4) r(4-7) by (simp add: same_blocks_def)
    moreover have "open_pages h1 (cs(pn := [])) l'" if "open_pages h cs l'" for l' using that r(8) by (auto simp: open_pages_def)
    ultimately show ?thesis using r(1) h' by auto
  next
    case False
    have "length (cs i) < PERPAGE l" if i: "chunk_page_of h l i" for i
    proof (cases "cs i = []")
      case True
      then show ?thesis using SIZE_PERPAGE [OF Cons.prems(4)] by simp
    next
      case c: False
      then have "i \<in> set (pn # rest)" using G(5) [OF Cons.prems(4)] i pn by auto
      then have "0 \<le> pg_count (ph_tab h i)" using Cons.prems(5) pn False by (auto simp: page_le_def)
      then have "length (cs i) \<noteq> PERPAGE l" using G(1) [OF i] by (auto simp: page_free_def)
      then show ?thesis using page_free_len [OF Cons.prems(4) G(1) [OF i]] by simp
    qed
    then have "open_pages h cs l" by (simp add: open_pages_def)
    moreover have "release_loop os l h = Some h"
      using G(3) [OF Cons.prems(4)] pn False by (subst release_loop.simps) (auto simp: Let_def)
    ultimately show ?thesis using Cons.prems by (auto simp: same_blocks_def)
  qed
qed

section \<open>The flush\<close>

lemma same_keys_fields:
  assumes "same_keys X m m'"
  shows "pg_code (m' x) = pg_code (m x)" "pg_free (m' x) = pg_free (m x)" "pg_count (m' x) = pg_count (m x)"
proof -
  have e: "m' x = (m x)\<lparr>pg_page := pg_page (m' x)\<rparr>" using assms by (simp add: same_keys_def)
  show "pg_code (m' x) = pg_code (m x)" "pg_free (m' x) = pg_free (m x)" "pg_count (m' x) = pg_count (m x)" by (subst e, simp)+
qed

text \<open>The sort of the pages of a class changes their links only.\<close>

lemma sort_global:
  assumes g: "global_ok h pns cs" and l: "l < NUMSMALL" and s: "plist m pn ys" "mset ys = mset (pns l)" "same_keys (set (pns l)) (ph_tab h) m"
    and h': "h' = h\<lparr>ph_tab := m, hp_freechunks := (hp_freechunks h)(l := pn)\<rparr>"
  shows "global_ok h' (pns(l := ys)) cs \<and> chunk_upd {} h h'"
proof
  note G = global_okD [OF g] and k = same_keys_fields [OF s(3)]
  have cp: "chunk_page_of h' l' i = chunk_page_of h l' i" for l' i by (simp add: chunk_page_of_def h' k)
  have pf: "page_free h' l' i c = page_free h l' i c" for l' i c by (simp add: page_free_def h' k)
  have st: "set ys = set (pns l)" "distinct ys = distinct (pns l)"
    using mset_eq_setD [OF s(2)] mset_eq_imp_distinct_iff [OF s(2)] by simp_all
  have "plist m (hp_freechunks h l') (pns l')" if l': "l' < NUMSMALL" "l' \<noteq> l" for l'
  proof -
    have "i \<notin> set (pns l)" if "i \<in> set (pns l')" for i using that l' G(5) [OF l] G(5) [OF l'(1)] by (auto simp: chunk_page_of_def)
    then have "m i = ph_tab h i" if "i \<in> set (pns l')" for i using same_keys_out [OF s(3)] that by blast
    then show ?thesis using G(3) [OF l'(1)] plist_frame [of "pns l'" m "ph_tab h"] by simp
  qed
  then show "global_ok h' (pns(l := ys)) cs" unfolding global_ok_def cp pf using G s(1) st l by (auto simp: h')
  have "m i = ph_tab h i" if "\<not> pg_code (ph_tab h i) < NUMSMALL" for i
    using that G(5) [OF l] by (intro same_keys_out [OF s(3)]) (auto simp: chunk_page_of_def)
  then show "chunk_upd {} h h'" unfolding chunk_upd_def by (cases h) (simp add: h' k)
qed

lemma chunk_upd_open: "chunk_upd X h h' \<Longrightarrow> open_pages h' cs l = open_pages h cs l"
  by (simp add: open_pages_def chunk_updD(6))

lemma chunk_upd_lock: "chunk_upd X h h' \<Longrightarrow> chunk_upd X (h\<lparr>hp_locks := lk\<rparr>) (h'\<lparr>hp_locks := lk\<rparr>)"
  by (cases h; cases h') (simp add: chunk_upd_def)

text \<open>The lock of the class does not matter for the lists.\<close>

lemma lock_blocks [simp]:
  "global_ok (h\<lparr>hp_locks := lk\<rparr>) pns cs = global_ok h pns cs" "busy (h\<lparr>hp_locks := lk\<rparr>) cs l = busy h cs l"
  "open_pages (h\<lparr>hp_locks := lk\<rparr>) cs l = open_pages h cs l" "is_chunk (h\<lparr>hp_locks := lk\<rparr>) l a = is_chunk h l a"
  "chunk_page_of (h\<lparr>hp_locks := lk\<rparr>) l pn = chunk_page_of h l pn"
  by (simp_all add: global_ok_def busy_def open_pages_def is_chunk_def chunk_page_of_def page_free_def)

lemma given_open:
  assumes "given as cs cs'" "\<forall>a \<in> set as. is_chunk h l a" "chunk_page_of h l' pn" "l' \<noteq> l"
  shows "set (cs' pn) = set (cs pn)"
  using assms unfolding given_def by (auto simp: is_chunk_def chunk_page_of_def)

lemma flush_global:
  assumes ok: "pool_ok h E" and os: "os_ok os" and g: "global_ok h pns cs" and l: "l < NUMSMALL" and lk: "hp_locks h ! l = 0"
    and as: "clist (hp_next h) p as" "as \<noteq> []" "distinct as" "set as \<subseteq> busy h cs l"
  shows "\<exists>h' E' pns' cs'. flush_to_global_freelist os l p 0 h = Some h' \<and> pool_ok h' E' \<and> global_ok h' pns' cs' \<and>
    hp_local h' = hp_local h \<and> hp_locks h' = hp_locks h \<and> (\<forall>x. x \<notin> set as \<longrightarrow> hp_next h' x = hp_next h x) \<and>
    (\<forall>l'. busy h' cs' l' = (if l' = l then busy h cs l - set as else busy h cs l')) \<and>
    open_pages h' cs' l \<and> (\<forall>l'. l' \<noteq> l \<and> open_pages h cs l' \<longrightarrow> open_pages h' cs' l')"
proof -
  let ?lk = "(hp_locks h)[l := 1]" let ?h0 = "h\<lparr>hp_locks := ?lk\<rparr>"
  have L: "LOCK l h = Some ?h0" using lk by (simp add: LOCK_def)
  have p0: "p \<noteq> 0" using as(1,2) by (cases as) auto
  have ch: "\<forall>a \<in> set as. is_chunk ?h0 l a \<and> a \<notin> set (cs (page_of a))" using as(4) by (auto simp: busy_def)
  from give_loop_global [of ?h0 pns cs p as l] g as ch obtain h1 pns1 cs1 where
    h1: "give_loop l p 0 ?h0 = Some h1" "global_ok h1 pns1 cs1" "given as cs cs1" "chunk_upd (set as) ?h0 h1" by auto
  note u = chunk_updD [OF h1(4)]
  have ok1: "pool_ok h1 E" by (rule pool_chunks [OF pool_lock [OF ok l] h1(4)])
  have lt: "\<forall>x \<in> set (pns1 l). x < 2 ^ 31"
    using global_okD(5) [OF h1(2) l] ok1 by (auto simp: chunk_page_of_def pool_ok_def layout_def)
  obtain pn m ys where s: "page_list_sort (hp_freechunks h1 l) (ph_tab h1) = Some (pn, m)" "plist m pn ys" "mset ys = mset (pns1 l)"
    "sorted_wrt (page_le (ph_tab h1)) ys" "same_keys (set (pns1 l)) (ph_tab h1) m"
    using page_list_sort_list [OF global_okD(3) [OF h1(2) l] global_okD(4) [OF h1(2) l] lt] unfolding sorts_to_def by blast
  define h2 where "h2 = h1\<lparr>ph_tab := m, hp_freechunks := (hp_freechunks h1)(l := pn)\<rparr>"
  have g2: "global_ok h2 (pns1(l := ys)) cs1" "chunk_upd {} h1 h2" using sort_global [OF h1(2) l s(2,3,5) h2_def] by simp_all
  note u2 = chunk_updD [OF g2(2)]
  have ok2: "pool_ok h2 E" by (rule pool_chunks [OF ok1 g2(2)])
  have so: "sorted_wrt (page_le (ph_tab h2)) ((pns1(l := ys)) l)" using s(4) same_keys_le [OF s(5)] by (simp add: h2_def)
  obtain h3 E3 pns3 cs3 where h3: "release_loop os l h2 = Some h3" "pool_ok h3 E3" "global_ok h3 pns3 cs3" "same_blocks h2 cs1 h3 cs3"
    "open_pages h3 cs3 l" "\<forall>l'. l' \<noteq> l \<and> open_pages h2 cs1 l' \<longrightarrow> open_pages h3 cs3 l'"
    using release_loop_global [OF ok2 os g2(1) l so] by blast
  have run: "flush_to_global_freelist os l p 0 h = Some (UNLOCK l h3)"
    using L p0 h1(1) s(1) h3(1) by (simp add: flush_to_global_freelist_def h2_def)
  have lk3: "hp_locks h3 = ?lk" using h3(4) u2(3) u(3) by (simp add: same_blocks_def)
  have "hp_locks (UNLOCK l h3) = hp_locks h" using lk3 lk by (simp add: UNLOCK_def) (metis list_update_id)
  moreover have "pool_ok (UNLOCK l h3) E3" using pool_lock [OF h3(2) l] by (simp add: UNLOCK_def)
  moreover have "global_ok (UNLOCK l h3) pns3 cs3" "open_pages (UNLOCK l h3) cs3 l" using h3(3,5) by (simp_all add: UNLOCK_def)
  moreover have "hp_local (UNLOCK l h3) = hp_local h" using h3(4) u2(2) u(2) by (simp add: same_blocks_def UNLOCK_def)
  moreover have "hp_next (UNLOCK l h3) x = hp_next h x" if "x \<notin> set as" for x
    using h3(4) u2(5) [of x] u(5) [OF that] by (simp add: same_blocks_def UNLOCK_def)
  moreover have "busy (UNLOCK l h3) cs3 l' = (if l' = l then busy h cs l - set as else busy h cs l')" for l'
  proof -
    have "busy h3 cs3 l' = busy h2 cs1 l'" using h3(4) by (simp add: same_blocks_def)
    also have "\<dots> = busy h1 cs1 l'" by (simp add: busy_def u2(7))
    also have "\<dots> = (if l' = l then busy ?h0 cs l - set as else busy ?h0 cs l')" using busy_given [OF h1(3,4), of l l'] ch by blast
    finally show ?thesis by (simp add: UNLOCK_def)
  qed
  moreover have "open_pages (UNLOCK l h3) cs3 l'" if o: "l' \<noteq> l" "open_pages h cs l'" for l'
  proof -
    have "length (cs1 pn) = length (cs pn)" if c: "chunk_page_of h l' pn" for pn
    proof -
      have "set (cs1 pn) = set (cs pn)" using given_open [OF h1(3) _ _ o(1), of ?h0 pn] ch c by simp
      moreover have "chunk_page_of h1 l' pn" using c u(6) by simp
      then have "distinct (cs1 pn)" "distinct (cs pn)" using global_okD(1) [OF h1(2)] global_okD(1) [OF g c] by (auto simp: page_free_def)
      ultimately show ?thesis by (metis distinct_card)
    qed
    then have "open_pages h2 cs1 l'" using o(2) u(6) u2(6) by (simp add: open_pages_def)
    then show ?thesis using h3(6) o(1) by (simp add: UNLOCK_def)
  qed
  ultimately show ?thesis using run by blast
qed

end
