(* ===== verification/Small_Alloc.thy ===== *)
theory Small_Alloc
  imports Small_Blocks
begin

text \<open>
  Small blocks, continued: \<open>take_chunk\<close> and the loop of \<open>malloc_small\<close> on the lists of all pages, with a new page from the page allocator,
  from a free extent or from the end of the pool, when a class has no free chunk.
\<close>

section \<open>Taking a chunk\<close>

lemma take_page_free:
  assumes has: "page_has h l pn (x # c)" and pn: "hp_freechunks h l = pn" "3 \<le> pn"
  shows "\<exists>p. pg_page p = pg_page (ph_tab h pn) \<and> pg_code p = l \<and>
    take_chunk l h = Some (x, h\<lparr>ph_tab := (ph_tab h)(pn := p),
      hp_freechunks := (if c = [] then (hp_freechunks h)(l := pg_page p) else hp_freechunks h)\<rparr>) \<and>
    (\<forall>h'. ph_tab h' = (ph_tab h)(pn := p) \<and> hp_next h' = hp_next h \<longrightarrow> page_free h' l pn c)"
proof (cases c)
  case Nil
  then have x: "chunk pn l (pg_free (ph_tab h pn)) = x" "hp_next h x = 0" "pg_count (ph_tab h pn) = 1" "pg_code (ph_tab h pn) = l" "l < NUMSMALL"
    using has by (auto simp: page_has_def)
  let ?p = "(ph_tab h pn)\<lparr>pg_free := 0, pg_count := 0\<rparr>"
  have "page_addr pn + pg_free (ph_tab h pn) * SIZE l = x" using x(1) by (simp add: chunk_def)
  moreover have "bits12 (1 - 1) = 0" by (simp add: bits12_def)
  ultimately have "take_chunk l h = Some (x, h\<lparr>ph_tab := (ph_tab h)(pn := ?p), hp_freechunks := (hp_freechunks h)(l := pg_page ?p)\<rparr>)"
    using x by (simp add: take_chunk_def pn(1) Let_def)
  moreover have "page_free h' l pn []" if "ph_tab h' = (ph_tab h)(pn := ?p)" for h'
    using that pn(2) SIZE_PERPAGE [OF x(5)] by (simp add: page_free_def)
  ultimately show ?thesis using Nil x(4) by (intro exI [of _ ?p]) simp
next
  case (Cons y ys)
  have "length (x # c) \<le> PERPAGE l" using has by (simp add: page_has_def)
  then have len: "length c \<noteq> PERPAGE l" by simp
  obtain p where p: "pg_page p = pg_page (ph_tab h pn)" "pg_code p = l"
    "take_chunk l h = Some (x, h\<lparr>ph_tab := (ph_tab h)(pn := p), hp_freechunks := (if c = [] then (hp_freechunks h)(l := pg_page p) else hp_freechunks h)\<rparr>)"
    "c \<noteq> [] \<longrightarrow> (\<forall>h'. ph_tab h' = (ph_tab h)(pn := p) \<and> (\<forall>y \<in> set c. hp_next h' y = hp_next h y) \<longrightarrow> page_has h' l pn c)"
    using take_chunk_has [OF has pn(1)] by blast
  have "page_free h' l pn c" if "ph_tab h' = (ph_tab h)(pn := p) \<and> hp_next h' = hp_next h" for h'
  proof -
    have "page_has h' l pn c" using p(4) that Cons by simp
    then show ?thesis using pn(2) len by (simp add: page_has_def page_free_def)
  qed
  then show ?thesis using p by blast
qed

text \<open>
  The lists of all pages after a chunk was taken from the first page of a class. All other pages are in order; the page itself may have
  been cut just before.
\<close>

lemma take_global_at:
  assumes l: "l < NUMSMALL" and pg: "pns l = pn # rest" "cs pn = x # c" "page_has h l pn (x # c)" "3 \<le> pn" "pn < ph_end h"
    and other: "\<And>l' i. chunk_page_of h l' i \<Longrightarrow> i \<noteq> pn \<Longrightarrow> page_free h l' i (cs i)" "\<And>i. cs i \<noteq> [] \<Longrightarrow> \<exists>l'. chunk_page_of h l' i"
    and lists: "\<And>l'. l' < NUMSMALL \<Longrightarrow> plist (ph_tab h) (hp_freechunks h l') (pns l')" "\<And>l'. l' < NUMSMALL \<Longrightarrow> distinct (pns l')"
      "\<And>l'. l' < NUMSMALL \<Longrightarrow> set (pns l') = {i. chunk_page_of h l' i \<and> cs i \<noteq> []}"
  shows "\<exists>h'. take_chunk l h = Some (x, h') \<and> global_ok h' (pns(l := (if c = [] then rest else pn # rest))) (cs(pn := c)) \<and> chunk_upd {} h h'"
proof -
  have fc: "hp_freechunks h l = pn" "pn \<noteq> 0" "plist (ph_tab h) (pg_page (ph_tab h pn)) rest" using lists(1) [OF l] pg(1) by auto
  have d: "pn \<notin> set rest" "distinct rest" using lists(2) [OF l] pg(1) by auto
  have cp: "chunk_page_of h l pn" using pg(3,5) l by (simp add: page_has_def chunk_page_of_def)
  obtain p where p: "pg_page p = pg_page (ph_tab h pn)" "pg_code p = l"
    "take_chunk l h = Some (x, h\<lparr>ph_tab := (ph_tab h)(pn := p), hp_freechunks := (if c = [] then (hp_freechunks h)(l := pg_page p) else hp_freechunks h)\<rparr>)"
    "\<forall>h'. ph_tab h' = (ph_tab h)(pn := p) \<and> hp_next h' = hp_next h \<longrightarrow> page_free h' l pn c"
    using take_page_free [OF pg(3) fc(1) pg(4)] by blast
  define h' where "h' = h\<lparr>ph_tab := (ph_tab h)(pn := p), hp_freechunks := (if c = [] then (hp_freechunks h)(l := pg_page p) else hp_freechunks h)\<rparr>"
  have cp': "chunk_page_of h' l' i = chunk_page_of h l' i" for l' i using p(2) cp by (auto simp: h'_def chunk_page_of_def)
  have pl: "plist (ph_tab h') q xs = plist (ph_tab h) q xs" for q xs by (induction xs arbitrary: q) (auto simp: h'_def p(1))
  have "chunk_upd {} h h'" using p(2) cp by (cases h) (auto simp: chunk_upd_def h'_def chunk_page_of_def)
  moreover have "global_ok h' (pns(l := (if c = [] then rest else pn # rest))) (cs(pn := c))" unfolding global_ok_def cp' pl
  proof (intro conjI allI impI)
    fix l' i assume ci: "chunk_page_of h l' i"
    show "page_free h' l' i ((cs(pn := c)) i)"
    proof (cases "i = pn")
      case True
      then have "l' = l" using ci cp by (simp add: chunk_page_of_def)
      then show ?thesis using True p(4) by (simp add: h'_def)
    next
      case False
      then have "page_free h' l' i (cs i) = page_free h l' i (cs i)" by (intro page_free_cong) (simp_all add: h'_def)
      then show ?thesis using False other(1) [OF ci] by simp
    qed
  next
    fix i assume "(cs(pn := c)) i \<noteq> []"
    then show "\<exists>l. chunk_page_of h l i" using other(2) [of i] cp by (auto split: if_splits)
  next
    fix l' assume l': "l' < NUMSMALL"
    have o: "pn \<notin> set (pns l')" if "l' \<noteq> l" using lists(3) [OF l'] cp that by (auto simp: chunk_page_of_def)
    show "plist (ph_tab h) (hp_freechunks h' l') ((pns(l := (if c = [] then rest else pn # rest))) l')"
      using lists(1) [OF l'] fc pg(1) p(1) by (auto simp: h'_def)
    show "distinct ((pns(l := (if c = [] then rest else pn # rest))) l')" using lists(2) [OF l'] d by simp
    show "set ((pns(l := (if c = [] then rest else pn # rest))) l') = {i. chunk_page_of h l' i \<and> (cs(pn := c)) i \<noteq> []}"
    proof (cases "l' = l")
      case True
      then show ?thesis using lists(3) [OF l] pg(1,2) d cp by auto
    next
      case False
      then have "\<not> chunk_page_of h l' pn" using cp by (auto simp: chunk_page_of_def)
      then show ?thesis using lists(3) [OF l'] False by auto
    qed
  qed
  ultimately show ?thesis using p(3) by (auto simp: h'_def)
qed

text \<open>The number of free chunks of a class.\<close>

definition free_chunks :: "(nat \<Rightarrow> nat list) \<Rightarrow> (nat \<Rightarrow> nat list) \<Rightarrow> nat \<Rightarrow> nat" where
  "free_chunks pns cs l = sum_list (map (\<lambda>i. length (cs i)) (pns l))"

lemma busy_take:
  assumes "chunk_upd {} h h'" "chunk_page_of h l pn" "cs pn = x # c" "distinct (x # c)" "set (x # c) \<subseteq> chunk pn l ` {..<PERPAGE l}"
  shows "busy h' (cs(pn := c)) l' = (if l' = l then insert x (busy h cs l) else busy h cs l')" "x \<notin> busy h cs l"
proof -
  have l: "l < NUMSMALL" using assms(2) by (simp add: chunk_page_of_def)
  have pg: "page_of a = pn" if "a \<in> set (x # c)" for a using that assms(5) chunk_page [OF l] by auto
  have x: "is_chunk h l x" "page_of x = pn" using pg [of x] assms(2,5) by (auto simp: is_chunk_def)
  show "busy h' (cs(pn := c)) l' = (if l' = l then insert x (busy h cs l) else busy h cs l')"
  proof (rule set_eqI)
    fix a
    have i: "is_chunk h' l' a = is_chunk h l' a" by (rule chunk_updD(7) [OF assms(1)])
    show "a \<in> busy h' (cs(pn := c)) l' \<longleftrightarrow> a \<in> (if l' = l then insert x (busy h cs l) else busy h cs l')"
    proof (cases "page_of a = pn \<and> is_chunk h l' a")
      case True
      then have "l' = l" using assms(2) by (auto simp: is_chunk_def chunk_page_of_def)
      then show ?thesis using True assms(3,4) i by (auto simp: busy_def)
    next
      case False
      then show ?thesis using x i by (auto simp: busy_def)
    qed
  qed
  show "x \<notin> busy h cs l" using x assms(3) by (simp add: busy_def)
qed

lemma free_chunks_take:
  assumes "pns l = pn # rest" "cs pn = x # c" "distinct (pns l)"
  shows "free_chunks pns cs l = Suc (free_chunks (pns(l := (if c = [] then rest else pn # rest))) (cs(pn := c)) l)"
proof -
  have "map (\<lambda>i. length ((cs(pn := c)) i)) rest = map (\<lambda>i. length (cs i)) rest" using assms(1,3) by auto
  then have "sum_list (map (\<lambda>i. length ((cs(pn := c)) i)) rest) = sum_list (map (\<lambda>i. length (cs i)) rest)" by (rule arg_cong)
  then show ?thesis unfolding free_chunks_def using assms(1,2) by (cases "c = []") (simp_all add: fun_upd_same del: fun_upd_apply)
qed

section \<open>A page from the page allocator\<close>

lemma alloc_pages_frame:
  assumes r: "alloc_pages (int n) h = Some (Some p, h')" and e: "pg_page (ph_tab h p) = p + k" "0 < n" "n \<le> k" "p + k < 2 ^ 31"
  shows "pheap.more h' = pheap.more h" "i < p \<or> p + k \<le> i \<Longrightarrow> ph_tab h' i = ph_tab h i"
proof -
  have u: "to_int (int n) = int n" "to_unsigned (int n) = n" "to_unsigned (int p + int n) = p + n" "usub (p + k) p = k" "usub (p + k) (p + n) = k - n"
    "n < k \<Longrightarrow> usub (k - n) (Suc 0) = k - n - 1"
    using e by (simp_all add: to_int_small to_unsigned_small usub_small nat_add_distrib)
  show "pheap.more h' = pheap.more h" using r by (auto simp: alloc_pages_def Let_def split: if_splits bind_splits option.splits)
  have pg: "pg_page (set_code p c (ph_tab h) p) = p + k" for c using e(1) by (simp add: set_code_def)
  show "ph_tab h' i = ph_tab h i" if i: "i < p \<or> p + k \<le> i"
  proof (cases "n < k")
    case True
    then show ?thesis using r i e u
      by (auto simp: alloc_pages_def Let_def back_loop_eq set_code_def set_page_def split: if_splits bind_splits option.splits)
  next
    case False
    then show ?thesis using r i e u by (auto simp: alloc_pages_def Let_def set_code_def split: if_splits bind_splits option.splits)
  qed
qed

text \<open>There is a page to have: a free extent, or room at the end of the pool.\<close>

definition room :: "heap \<Rightarrow> bool" where
  "room h \<longleftrightarrow> (\<exists>p < ph_end h. pg_code (ph_tab h p) = BIG + FREE) \<or> ((ph_end h + 1) * PAGESIZE < 2 ^ 31 \<and> I1 (ph_end h) = I1 (ph_end h - 1))"

text \<open>Page \<open>pn\<close> is new in \<open>h1\<close>: no page of chunks in \<open>h\<close>, and an extent of its own once its descriptor is in order.\<close>

definition new_page :: "heap \<Rightarrow> nat \<Rightarrow> heap \<Rightarrow> extents \<Rightarrow> bool" where
  "new_page h pn h1 E' \<longleftrightarrow> 3 \<le> pn \<and> pn < ph_end h1 \<and> (\<forall>l. \<not> chunk_page_of h l pn) \<and>
     hp_next h1 = hp_next h \<and> hp_local h1 = hp_local h \<and> hp_freechunks h1 = hp_freechunks h \<and> hp_locks h1 = hp_locks h \<and>
     (\<forall>l i. i \<noteq> pn \<longrightarrow> chunk_page_of h1 l i = chunk_page_of h l i) \<and> (\<forall>l i. chunk_page_of h l i \<longrightarrow> ph_tab h1 i = ph_tab h i) \<and>
     E' pn = None \<and> (\<exists>v. pool_ok (h1\<lparr>ph_tab := (ph_tab h1)(pn := v)\<rparr>) (E'(pn := Some (1, False))))"

lemma page_from_end:
  assumes ok: "pool_ok h E" and os: "os_ok os" and free: "\<forall>x k. E x \<noteq> Some (k, True)"
    and small: "(ph_end h + 1) * PAGESIZE < 2 ^ 31" "I1 (ph_end h) = I1 (ph_end h - 1)"
  shows "\<exists>h1. valloc os PAGESIZE h = Some (page_addr (ph_end h), h1) \<and> new_page h (ph_end h) h1 E"
proof -
  let ?pn = "ph_end h"
  have one: "1 = valloc_pages PAGESIZE" "page_addr (?pn + 1) < 2 ^ 31" "I1 (?pn + 1 - 1) = I1 (?pn - 1)"
    using small by (simp_all add: valloc_pages_def PAGESIZE_def page_addr_def)
  obtain g h1 where v: "valloc os PAGESIZE h = Some (page_addr ?pn, h1)" and g: "brk_frame h g" "brk_inv g"
      "hp_brk g = int (page_addr (?pn + 1))" "hp_brk g \<le> hp_localbrk g"
    and h1: "h1 = setup_extent_descriptor ?pn (int 1) (g\<lparr>ph_end := ?pn + 1\<rparr>)"
    using valloc_grow_run [OF ok os one(1) _ one(2,3)] free by blast
  have ok1: "pool_ok h1 (E(?pn := Some (1, False)))" by (rule pool_ok_grown [OF ok _ one(2) g h1]) simp
  have E: "E ?pn = None"
    using ok table_extent [of "ph_tab h" ?pn E ?pn] unfolding pool_ok_def layout_def
    by (cases "E ?pn") (fastforce simp: extent_ok_def)+
  have "hp_next g = hp_next h" using arg_cong [OF g(1) [unfolded brk_frame_def], of hp_next] by simp
  moreover have "hp_locks g = hp_locks h" "hp_local g = hp_local h" "hp_freechunks g = hp_freechunks h" "ph_tab g = ph_tab h"
    using brk_frame_fields(1,4) [OF g(1)] brk_frame_lists [OF g(1)] by simp_all
  moreover have "3 \<le> ?pn" using ok by (simp add: pool_ok_def)
  moreover have "h1\<lparr>ph_tab := (ph_tab h1)(?pn := ph_tab h1 ?pn)\<rparr> = h1" by simp
  then have "\<exists>v. pool_ok (h1\<lparr>ph_tab := (ph_tab h1)(?pn := v)\<rparr>) (E(?pn := Some (1, False)))" using ok1 by metis
  ultimately show ?thesis using v E
    unfolding new_page_def by (auto simp: h1 setup_extent_descriptor_def chunk_page_of_def set_code_def set_page_def)
qed

text \<open>The extents after a page was taken from the free extent \<open>p\<close>.\<close>

definition without_page :: "nat \<Rightarrow> nat \<Rightarrow> extents \<Rightarrow> extents" where
  "without_page p k E = (if k = 1 then E(p := None) else E(p := None, p + 1 := Some (k - 1, True)))"

lemma alloc_one:
  assumes lay: "layout h E" and y: "E y = Some (k', True)"
  shows "\<exists>p k h1 v. alloc_pages 1 h = Some (Some p, h1) \<and> E p = Some (k, True) \<and> 0 < k \<and> p + k \<le> ph_end h \<and> ph_end h1 = ph_end h \<and>
    pheap.more h1 = pheap.more h \<and> (\<forall>i. i < p \<or> p + k \<le> i \<longrightarrow> ph_tab h1 i = ph_tab h i) \<and>
    layout (h1\<lparr>ph_tab := (ph_tab h1)(p := v)\<rparr>) ((without_page p k E)(p := Some (1, False)))"
proof -
  have t: "table_ok (ph_tab h) (ph_end h) E" and e: "ph_end h < 2 ^ 31" using lay by (auto simp: layout_def)
  have "1 \<le> k'" using table_extent [OF t y] by (simp add: extent_ok_def)
  then obtain p k fp where p: "fp_find (int 1) (ph_fp h) = Some (Some p, fp)" "E p = Some (k, True)" "1 \<le> k" "store_ok fp E {p}"
    using find_extent [OF lay y, of 1] by blast
  have x: "pg_page (ph_tab h p) = p + k" "p + k \<le> ph_end h" "0 < k" using table_extent [OF t p(2)] by (auto simp: extent_ok_def)
  have "\<exists>h1 v. alloc_pages 1 h = Some (Some p, h1) \<and> ph_end h1 = ph_end h \<and>
      layout (h1\<lparr>ph_tab := (ph_tab h1)(p := v)\<rparr>) ((without_page p k E)(p := Some (1, False)))"
  proof (cases "k = 1")
    case True
    obtain h1 where "alloc_pages (int 1) h = Some (Some p, h1)" "ph_end h1 = ph_end h" "layout h1 (E(p := Some (1, False)))"
      using alloc_exact_run [OF lay _ p(1,4)] p(2) True by auto
    then show ?thesis using True by (intro exI [of _ h1] exI [of _ "ph_tab h1 p"]) (simp add: without_page_def)
  next
    case False
    then have k: "1 < k" using p(3) by simp
    obtain h1 where h1: "alloc_pages (int 1) h = Some (Some p, h1)" "ph_end h1 = ph_end h"
      "layout (h1\<lparr>ph_tab := set_page p (p + 1) (ph_tab h1)\<rparr>) (split_at p 1 k False True E)"
      using alloc_split_run [OF lay p(2) _ k p(1,4)] by auto
    have "split_at p 1 k False True E = (without_page p k E)(p := Some (1, False))" using False by (auto simp: split_at_def without_page_def)
    then show ?thesis using h1 by (intro exI [of _ h1] exI [of _ "(ph_tab h1 p)\<lparr>pg_page := p + 1\<rparr>"]) (simp add: set_page_def)
  qed
  then obtain h1 v where h1: "alloc_pages 1 h = Some (Some p, h1)" "ph_end h1 = ph_end h"
    "layout (h1\<lparr>ph_tab := (ph_tab h1)(p := v)\<rparr>) ((without_page p k E)(p := Some (1, False)))" by blast
  have "(0 :: nat) < 1" "p + k < 2 ^ 31" using x e by simp_all
  note fr = alloc_pages_frame [of 1 h p h1 k, unfolded of_nat_1, OF h1(1) x(1) this(1) p(3) this(2)]
  show ?thesis using h1 fr p(2) x(2,3) by blast
qed

lemma page_from_extent:
  assumes ok: "pool_ok h E" and y: "E y = Some (k', True)"
  shows "\<exists>p k h1. valloc os PAGESIZE h = Some (page_addr p, h1) \<and> E p = Some (k, True) \<and> new_page h p h1 (without_page p k E)"
proof -
  let ?h0 = "h\<lparr>hp_locks := (hp_locks h)[NUMSMALL := 1]\<rparr>"
  have lk: "length (hp_locks h) = NUMSMALL + 1" "hp_locks h ! NUMSMALL = 0" using ok by (auto simp: pool_ok_def)
  have L: "LOCK NUMSMALL h = Some ?h0" using lk by (simp add: LOCK_def)
  have lay: "layout ?h0 E" using ok by (auto simp: pool_ok_def layout_def)
  obtain p k h1 v where h1: "alloc_pages 1 ?h0 = Some (Some p, h1)" and p: "E p = Some (k, True)" and x: "0 < k" "p + k \<le> ph_end ?h0"
    and e1: "ph_end h1 = ph_end ?h0" and m: "pheap.more h1 = pheap.more ?h0"
    and tab0: "\<forall>i. i < p \<or> p + k \<le> i \<longrightarrow> ph_tab h1 i = ph_tab ?h0 i"
    and lay1: "layout (h1\<lparr>ph_tab := (ph_tab h1)(p := v)\<rparr>) ((without_page p k E)(p := Some (1, False)))"
    using alloc_one [OF lay y] by blast
  have tab: "ph_tab h1 i = ph_tab h i" if "i < p \<or> p + k \<le> i" for i using tab0 that by auto
  let ?u = "UNLOCK NUMSMALL h1" and ?E = "without_page p k E"
  have V: "valloc os PAGESIZE h = Some (page_addr p, ?u)"
    using L h1 by (simp add: valloc_def valloc_pages_def PAGESIZE_def)
  have f: "hp_next h1 = hp_next h" "hp_local h1 = hp_local h" "hp_freechunks h1 = hp_freechunks h" "hp_locks h1 = (hp_locks h)[NUMSMALL := 1]"
    "hp_brk h1 = hp_brk h" "hp_eof h1 = hp_eof h" "hp_localbrk h1 = hp_localbrk h" "hp_mapped h1 = hp_mapped h" "hp_mfd h1 = hp_mfd h"
    using m by (cases h; cases h1; simp)+
  have lk1: "hp_locks ?u = hp_locks h" using lk list_update_id [of "hp_locks h" NUMSMALL] by (simp add: UNLOCK_def f)
  have uf: "ph_tab ?u = ph_tab h1" "ph_end ?u = ph_end h" "ph_fp ?u = ph_fp h1" "hp_next ?u = hp_next h" "hp_local ?u = hp_local h"
    "hp_freechunks ?u = hp_freechunks h" by (simp_all add: UNLOCK_def f e1)
  have ge: "\<forall>q n g. E q = Some (n, g) \<longrightarrow> 3 \<le> q" "3 \<le> p" using ok p by (auto simp: pool_ok_def)
  have "\<forall>q n g. (?E(p := Some (1, False))) q = Some (n, g) \<longrightarrow> 3 \<le> q" using ge by (auto simp: without_page_def split: if_splits)
  moreover have "layout (?u\<lparr>ph_tab := (ph_tab ?u)(p := v)\<rparr>) (?E(p := Some (1, False)))"
    using lay1 uf(1-3) e1 by (simp add: layout_def)
  ultimately have ok1: "pool_ok (?u\<lparr>ph_tab := (ph_tab ?u)(p := v)\<rparr>) (?E(p := Some (1, False)))"
    using ok lk1 f e1 unfolding pool_ok_def brk_inv_def by (simp add: UNLOCK_def)
  have ch: "i < p \<or> p + k \<le> i" if "chunk_page_of h l i" for l i
    using chunk_not_inside [OF ok that] insideI [of E p k True i] p by (meson not_le)
  have ch1: "i < p \<or> p + k \<le> i" if c: "chunk_page_of ?u l i" "i \<noteq> p" for l i
  proof (rule ccontr)
    assume n: "\<not> (i < p \<or> p + k \<le> i)"
    then have "(?E(p := Some (1, False))) (p + 1) = Some (k - 1, True)" "p + 1 \<le> i" "i < p + 1 + (k - 1)"
      using c(2) by (auto simp: without_page_def)
    moreover have "chunk_page_of (?u\<lparr>ph_tab := (ph_tab ?u)(p := v)\<rparr>) l i" using c by (simp add: chunk_page_of_def)
    ultimately show False using chunk_not_inside [OF ok1] insideI by blast
  qed
  have pp: "\<not> chunk_page_of h l p" for l using ch [of l p] x(1) by auto
  have "chunk_page_of ?u l i = chunk_page_of h l i" if i: "i \<noteq> p" for l i
  proof (cases "i < p \<or> p + k \<le> i")
    case True
    then show ?thesis using tab uf(1,2) by (simp add: chunk_page_of_def)
  next
    case False
    then show ?thesis using ch [of l i] ch1 [of l i] i by blast
  qed
  moreover have "ph_tab ?u i = ph_tab h i" if "chunk_page_of h l i" for l i using ch [OF that] tab by (simp add: uf)
  moreover have "?E p = None" by (simp add: without_page_def)
  moreover have "p < ph_end ?u" using x uf(2) by simp
  ultimately have "new_page h p ?u ?E" unfolding new_page_def using ge(2) pp uf lk1 ok1 by blast
  then show ?thesis using V p by blast
qed

lemma valloc_page:
  assumes "pool_ok h E" "os_ok os" "room h"
  shows "\<exists>pn h1 E'. valloc os PAGESIZE h = Some (page_addr pn, h1) \<and> new_page h pn h1 E'"
proof (cases "\<exists>y k. E y = Some (k, True)")
  case True
  then obtain y k where "E y = Some (k, True)" by blast
  from page_from_extent [OF assms(1) this] show ?thesis by blast
next
  case False
  then have "\<not> (\<exists>p < ph_end h. pg_code (ph_tab h p) = BIG + FREE)"
    using table_free [of "ph_tab h" "ph_end h" E] assms(1) unfolding pool_ok_def layout_def by blast
  then show ?thesis using page_from_end [OF assms(1,2)] assms(3) False unfolding room_def by blast
qed

section \<open>The loop of malloc\_small\<close>

text \<open>Chunk \<open>x\<close> of class \<open>l\<close> has been taken: it is the only chunk that is busy now and was not, and no link of a chunk changed.\<close>

definition took :: "nat \<Rightarrow> nat \<Rightarrow> heap \<Rightarrow> (nat \<Rightarrow> nat list) \<Rightarrow> heap \<Rightarrow> (nat \<Rightarrow> nat list) \<Rightarrow> bool" where
  "took l x h cs h' cs' \<longleftrightarrow> x \<notin> busy h cs l \<and> x \<noteq> 0 \<and> (\<forall>l'. busy h' cs' l' = (if l' = l then insert x (busy h cs l) else busy h cs l')) \<and>
     (\<forall>l' a. is_chunk h l' a \<longrightarrow> hp_next h' a = hp_next h a) \<and> hp_local h' = hp_local h \<and> hp_locks h' = hp_locks h"

lemma page_has_free: "page_free h l pn c \<Longrightarrow> chunk_page_of h l pn \<Longrightarrow> c \<noteq> [] \<Longrightarrow> length c < PERPAGE l \<Longrightarrow> page_has h l pn c"
  by (auto simp: page_free_def page_has_def chunk_page_of_def)

lemma page_has_pos: "page_has h l pn (x # c) \<Longrightarrow> x \<noteq> 0"
  by (auto simp: page_has_def)

lemma take_old:
  assumes g: "global_ok h pns cs" and o: "\<And>l'. l' < NUMSMALL \<Longrightarrow> open_pages h cs l'" and l: "l < NUMSMALL" and fc: "hp_freechunks h l \<noteq> 0"
  shows "\<exists>x h' pns' cs'. take_chunk l h = Some (x, h') \<and> global_ok h' pns' cs' \<and> chunk_upd {} h h' \<and> took l x h cs h' cs' \<and>
    free_chunks pns cs l = Suc (free_chunks pns' cs' l) \<and> (\<forall>l' < NUMSMALL. open_pages h' cs' l')"
proof -
  note G = global_okD [OF g]
  obtain pn rest where pns: "pns l = pn # rest" using G(3) [OF l] fc by (cases "pns l") auto
  then have cp: "chunk_page_of h l pn" "cs pn \<noteq> []" using G(5) [OF l] by auto
  then obtain x c where c: "cs pn = x # c" by (cases "cs pn") auto
  have pf: "page_free h l pn (x # c)" using G(1) [OF cp(1)] c by simp
  have has: "page_has h l pn (x # c)" using page_has_free [OF pf cp(1)] o [OF l] cp(1) c by (auto simp: open_pages_def)
  have p3: "3 \<le> pn" "pn < ph_end h" using pf cp(1) by (simp_all add: page_free_def chunk_page_of_def)
  let ?pns = "pns(l := (if c = [] then rest else pn # rest))" and ?cs = "cs(pn := c)"
  obtain h' where h': "take_chunk l h = Some (x, h')" "global_ok h' ?pns ?cs" "chunk_upd {} h h'"
    using take_global_at [OF l pns c has p3 G(1) G(2) G(3) G(4) G(5)] by blast
  have b: "busy h' ?cs l' = (if l' = l then insert x (busy h cs l) else busy h cs l')" "x \<notin> busy h cs l" for l'
    using busy_take [of h h' l pn cs x c, OF h'(3) cp(1) c] has unfolding page_has_def by blast+
  have "took l x h cs h' ?cs" using b page_has_pos [OF has] chunk_updD(2,3,5) [OF h'(3)] by (simp add: took_def)
  moreover have "free_chunks pns cs l = Suc (free_chunks ?pns ?cs l)" by (rule free_chunks_take [of pns l pn rest cs x c, OF pns c G(4) [OF l]])
  moreover have "open_pages h' ?cs l'" if "l' < NUMSMALL" for l'
  proof -
    have "open_pages h ?cs l'" using o [OF that] c unfolding open_pages_def by fastforce
    then show ?thesis by (simp add: chunk_upd_open [OF h'(3)])
  qed
  ultimately show ?thesis using h' by blast
qed

lemma link_chunks_other: "0 < sz \<Longrightarrow> (\<forall>i \<le> j. x \<noteq> new + i * sz) \<Longrightarrow> link_chunks j new sz nx x = nx x"
proof -
  assume a: "0 < sz" "\<forall>i \<le> j. x \<noteq> new + i * sz"
  then have "\<not> (\<exists>i < j. x = new + i * sz)" "x \<noteq> new + j * sz" by (blast intro: less_imp_le)+
  then show ?thesis using link_chunks_eq [OF a(1), of j new nx x] by (simp only: if_False)
qed

text \<open>The page is cut: the other pages of chunks are as before.\<close>

lemma cut_new:
  assumes n: "new_page h pn h1 E'" and l: "l < NUMSMALL" and h2: "h2 = cut_page l (page_addr pn) h1"
  shows "chunk_page_of h2 l' i \<longleftrightarrow> chunk_page_of h l' i \<or> (l' = l \<and> i = pn)" "chunk_page_of h l' i \<Longrightarrow> ph_tab h2 i = ph_tab h i \<and> i \<noteq> pn"
    "page_of a \<noteq> pn \<Longrightarrow> hp_next h2 a = hp_next h a" "hp_local h2 = hp_local h \<and> hp_locks h2 = hp_locks h \<and> hp_freechunks h2 = (hp_freechunks h)(l := pn)"
    "pg_page (ph_tab h2 pn) = 0" "pn < ph_end h2" "pool_ok h2 E'"
proof -
  note n' = n [unfolded new_page_def] and sz = SIZE_PERPAGE [OF l]
  have other: "ph_tab h2 i = ph_tab h1 i" if "i \<noteq> pn" for i using that by (simp add: h2 cut_page_def Let_def extent_addr)
  have e: "ph_end h2 = ph_end h1" "pg_code (ph_tab h2 pn) = l" by (simp_all add: h2 cut_page_def Let_def extent_addr)
  show "chunk_page_of h2 l' i \<longleftrightarrow> chunk_page_of h l' i \<or> (l' = l \<and> i = pn)"
  proof (cases "i = pn")
    case True
    then show ?thesis using n' e l by (auto simp: chunk_page_of_def)
  next
    case False
    then have "chunk_page_of h2 l' i = chunk_page_of h1 l' i" using other by (simp add: chunk_page_of_def e(1))
    then show ?thesis using n' False by simp
  qed
  show "ph_tab h2 i = ph_tab h i \<and> i \<noteq> pn" if c: "chunk_page_of h l' i"
  proof -
    have "i \<noteq> pn" using n' c by blast
    then show ?thesis using n' c other by metis
  qed
  show "hp_local h2 = hp_local h \<and> hp_locks h2 = hp_locks h \<and> hp_freechunks h2 = (hp_freechunks h)(l := pn)" "pg_page (ph_tab h2 pn) = 0"
    using n' by (simp_all add: h2 cut_page_def Let_def extent_addr)
  show "pn < ph_end h2" using n' e(1) by simp
  show "hp_next h2 a = hp_next h a" if a: "page_of a \<noteq> pn"
  proof -
    have "\<forall>i \<le> PERPAGE l - 1. a \<noteq> page_addr pn + i * SIZE l"
    proof (intro allI impI notI)
      fix i assume "i \<le> PERPAGE l - 1" "a = page_addr pn + i * SIZE l"
      then have "i < PERPAGE l" "a = chunk pn l i" using sz by (auto simp: chunk_def)
      then have "page_of a = pn" using chunk_page [OF l] by simp
      then show False using a by simp
    qed
    then have "link_chunks (PERPAGE l - 1) (page_addr pn) (SIZE l) (hp_next h1) a = hp_next h1 a"
      by (rule link_chunks_other [OF SIZE_pos(1)])
    then show ?thesis using n' by (simp add: h2 cut_page_def Let_def)
  qed
  obtain v where v: "pool_ok (h1\<lparr>ph_tab := (ph_tab h1)(pn := v)\<rparr>) (E'(pn := Some (1, False)))" using n' by blast
  show "pool_ok h2 E'"
  proof (rule pool_cut [OF v _ l e(2)])
    show "E' pn = None" using n' by blast
    show "ph_tab h2 = (ph_tab (h1\<lparr>ph_tab := (ph_tab h1)(pn := v)\<rparr>))(pn := ph_tab h2 pn)"
      by (auto simp: h2 cut_page_def Let_def extent_addr)
  qed (simp_all add: h2 cut_page_def Let_def)
qed

lemma in_page:
  assumes "global_ok h pns cs" "chunk_page_of h l i" "a \<in> set (cs i)"
  shows "page_of a = i"
  using global_okD(1) [OF assms(1,2)] assms(2,3) chunk_page [of l] by (auto simp: page_free_def chunk_page_of_def)

text \<open>The lists with the new page, which has all of its chunks \<open>c\<close>, in front.\<close>

lemma cut_lists:
  assumes g: "global_ok h pns cs" and n: "new_page h pn h1 E'" and l: "l < NUMSMALL" and fc: "hp_freechunks h l = 0"
    and h2: "h2 = cut_page l (page_addr pn) h1" and c: "c = map (chunk pn l) [0..<PERPAGE l]"
  shows "chunk_page_of h2 l' i \<Longrightarrow> i \<noteq> pn \<Longrightarrow> page_free h2 l' i ((cs(pn := c)) i)" "(cs(pn := c)) i \<noteq> [] \<Longrightarrow> \<exists>l'. chunk_page_of h2 l' i"
    "l' < NUMSMALL \<Longrightarrow> plist (ph_tab h2) (hp_freechunks h2 l') ((pns(l := [pn])) l')" "l' < NUMSMALL \<Longrightarrow> distinct ((pns(l := [pn])) l')"
    "l' < NUMSMALL \<Longrightarrow> set ((pns(l := [pn])) l') = {i. chunk_page_of h2 l' i \<and> (cs(pn := c)) i \<noteq> []}" "busy h2 (cs(pn := c)) l' = busy h cs l'"
proof -
  note G = global_okD [OF g] and C = cut_new [OF n l h2]
  have pns: "pns l = []" using G(3) [OF l] fc by (cases "pns l") auto
  have ne: "c \<noteq> []" "0 < pn" using SIZE_PERPAGE [OF l] n by (auto simp: c new_page_def)
  show "page_free h2 l' i ((cs(pn := c)) i)" if x: "chunk_page_of h2 l' i" "i \<noteq> pn"
  proof -
    have ci: "chunk_page_of h l' i" using x C(1) by blast
    have "page_free h2 l' i (cs i) = page_free h l' i (cs i)"
      by (rule page_free_cong) (use C(2) [OF ci] in_page [OF g ci] x(2) C(3) in auto)
    then show ?thesis using G(1) [OF ci] x(2) by simp
  qed
  show "\<exists>l'. chunk_page_of h2 l' i" if "(cs(pn := c)) i \<noteq> []" using that G(2) [of i] C(1) by (cases "i = pn") auto
  show "distinct ((pns(l := [pn])) l')" if "l' < NUMSMALL" using G(4) [OF that] by simp
  show "set ((pns(l := [pn])) l') = {i. chunk_page_of h2 l' i \<and> (cs(pn := c)) i \<noteq> []}" if "l' < NUMSMALL"
  proof (cases "l' = l")
    case True
    then show ?thesis using G(5) [OF l] pns C(1,2) ne by auto
  next
    case False
    have "\<not> chunk_page_of h l' pn" using C(2) by blast
    then show ?thesis using G(5) [OF that] C(1) False by auto
  qed
  show "plist (ph_tab h2) (hp_freechunks h2 l') ((pns(l := [pn])) l')" if l': "l' < NUMSMALL"
  proof (cases "l' = l")
    case True
    then show ?thesis using ne C(4,5) by simp
  next
    case False
    have "ph_tab h2 i = ph_tab h i" if "i \<in> set (pns l')" for i using G(5) [OF l'] that C(2) by auto
    then show ?thesis using False C(4) G(3) [OF l'] plist_frame [of "pns l'" "ph_tab h2" "ph_tab h"] by simp
  qed
  show "busy h2 (cs(pn := c)) l' = busy h cs l'"
  proof (rule set_eqI)
    fix a
    have "a \<in> set c" if "a \<in> chunk pn l ` {..<PERPAGE l}" using that by (auto simp: c)
    moreover have "\<not> chunk_page_of h l' pn" using C(2) by blast
    ultimately show "a \<in> busy h2 (cs(pn := c)) l' \<longleftrightarrow> a \<in> busy h cs l'" by (cases "page_of a = pn") (auto simp: busy_def is_chunk_def C(1))
  qed
qed

lemma take_new:
  assumes ok: "pool_ok h E" "os_ok os" "room h" and g: "global_ok h pns cs" and o: "\<And>l'. l' < NUMSMALL \<Longrightarrow> open_pages h cs l'"
    and l: "l < NUMSMALL" and fc: "hp_freechunks h l = 0"
  shows "\<exists>pn h1 x h' pns' cs' E'. valloc os PAGESIZE h = Some (page_addr pn, h1) \<and> 0 < pn \<and>
    take_chunk l (cut_page l (page_addr pn) h1) = Some (x, h') \<and> pool_ok h' E' \<and> global_ok h' pns' cs' \<and> took l x h cs h' cs' \<and>
    free_chunks pns' cs' l = PERPAGE l - 1 \<and> (\<forall>l' < NUMSMALL. open_pages h' cs' l')"
proof -
  note sz = SIZE_PERPAGE [OF l]
  obtain pn h1 E' where v: "valloc os PAGESIZE h = Some (page_addr pn, h1)" and n: "new_page h pn h1 E'" using valloc_page [OF ok] by blast
  have p3: "3 \<le> pn" "0 < pn" using n by (auto simp: new_page_def)
  define h2 where "h2 = cut_page l (page_addr pn) h1"
  define full where "full = map (chunk pn l) [0..<PERPAGE l]"
  note C = cut_new [OF n l h2_def] and T = cut_lists [OF g n l fc h2_def full_def]
  have has: "page_has h2 l pn full" unfolding h2_def full_def by (rule cut_page_has [OF l p3(2)])
  then obtain x c where c: "full = x # c" by (cases full) (auto simp: page_has_def)
  have lenc: "length c = PERPAGE l - 1" using c sz unfolding full_def by (metis diff_Suc_1 length_Cons length_map length_upt minus_nat.diff_0)
  let ?pns = "pns(l := [pn])" and ?cs = "cs(pn := full)"
  let ?pns' = "?pns(l := (if c = [] then [] else pn # []))" and ?cs' = "?cs(pn := c)"
  have e: "?pns l = pn # []" "?cs pn = x # c" using c by simp_all
  obtain h' where h': "take_chunk l h2 = Some (x, h')" "global_ok h' ?pns' ?cs'" "chunk_upd {} h2 h'"
    using take_global_at [of l ?pns pn "[]" ?cs x c h2, OF l e has [unfolded c] p3(1) C(6) T(1-5)] by blast
  have "chunk_page_of h2 l pn" by (simp add: C(1))
  then have b: "busy h' ?cs' l' = (if l' = l then insert x (busy h cs l) else busy h cs l')" "x \<notin> busy h cs l" for l'
    using busy_take [of h2 h' l pn ?cs x c, OF h'(3) _ e(2)] has [unfolded c] unfolding page_has_def T(6) by blast+
  have "hp_next h' a = hp_next h a" if "is_chunk h l' a" for l' a
    using C(3) [of a] chunk_updD(5) [OF h'(3), of a] C(2) that by (auto simp: is_chunk_def)
  then have "took l x h cs h' ?cs'" unfolding took_def using b page_has_pos [OF has [unfolded c]] chunk_updD(2,3) [OF h'(3)] C(4) by simp
  moreover have "pool_ok h' E'" by (rule pool_chunks [OF C(7) h'(3)])
  moreover have "free_chunks ?pns' ?cs' l = PERPAGE l - 1" using lenc by (cases c) (simp_all add: free_chunks_def)
  moreover have "open_pages h' ?cs' l'" if "l' < NUMSMALL" for l'
  proof -
    have "\<not> chunk_page_of h l' pn" using C(2) by blast
    then have "open_pages h2 ?cs' l'" using o [OF that] lenc sz unfolding open_pages_def C(1) by auto
    then show ?thesis by (simp add: chunk_upd_open [OF h'(3)])
  qed
  ultimately show ?thesis using v p3(2) h'(1,2) unfolding h2_def by blast
qed

text \<open>A link in a chunk that is busy.\<close>

lemma set_next_blocks [simp]:
  "busy (h\<lparr>hp_next := nx\<rparr>) cs l = busy h cs l" "open_pages (h\<lparr>hp_next := nx\<rparr>) cs l = open_pages h cs l"
  "is_chunk (h\<lparr>hp_next := nx\<rparr>) l a = is_chunk h l a" "chunk_page_of (h\<lparr>hp_next := nx\<rparr>) l pn = chunk_page_of h l pn"
  "pool_ok (h\<lparr>hp_next := nx\<rparr>) E = pool_ok h E" "room (h\<lparr>hp_next := nx\<rparr>) = room h"
  by (simp_all add: busy_def open_pages_def is_chunk_def chunk_page_of_def pool_ok_def layout_def brk_inv_def room_def)

lemma set_next_global:
  assumes g: "global_ok h pns cs" and a: "a \<in> busy h cs l"
  shows "global_ok (h\<lparr>hp_next := (hp_next h)(a := v)\<rparr>) pns cs"
proof -
  have "page_free (h\<lparr>hp_next := (hp_next h)(a := v)\<rparr>) l' i (cs i) = page_free h l' i (cs i)" if "chunk_page_of h l' i" for l' i
  proof (rule page_free_cong)
    fix x assume "x \<in> set (cs i)"
    then have "x \<noteq> a" using in_page [OF g that] a by (auto simp: busy_def)
    then show "hp_next (h\<lparr>hp_next := (hp_next h)(a := v)\<rparr>) x = hp_next h x" by simp
  qed simp
  then show ?thesis using g unfolding global_ok_def by simp
qed

lemma room_chunk_upd: "chunk_upd X h h' \<Longrightarrow> room h' = room h"
  by (simp add: room_def chunk_updD(1,4))

lemma freechunks_0: "global_ok h pns cs \<Longrightarrow> l < NUMSMALL \<Longrightarrow> hp_freechunks h l = 0 \<Longrightarrow> free_chunks pns cs l = 0"
  using global_okD(3) [of h pns cs l] by (cases "pns l") (auto simp: free_chunks_def)

text \<open>One round of the loop.\<close>

lemma refill_step:
  assumes ok: "pool_ok h E" "os_ok os" and g: "global_ok h pns cs" and o: "\<And>l'. l' < NUMSMALL \<Longrightarrow> open_pages h cs l'" and l: "l < NUMSMALL"
    and i: "Suc i \<le> free_chunks pns cs l \<or> room h" "Suc i \<le> PERPAGE l"
  shows "\<exists>x h1 E' pns' cs'. refill os l (Suc i) fl h = refill os l i x (h1\<lparr>hp_next := (hp_next h1)(x := fl)\<rparr>) \<and> pool_ok h1 E' \<and>
    global_ok h1 pns' cs' \<and> took l x h cs h1 cs' \<and> (\<forall>l' < NUMSMALL. open_pages h1 cs' l') \<and> (i \<le> free_chunks pns' cs' l \<or> room h1)"
proof (cases "hp_freechunks h l = 0")
  case True
  then have r: "room h" using i(1) freechunks_0 [OF g l] by simp
  obtain pn h1 x h' pns' cs' E' where t: "valloc os PAGESIZE h = Some (page_addr pn, h1)" "0 < pn"
    "take_chunk l (cut_page l (page_addr pn) h1) = Some (x, h')" "pool_ok h' E'" "global_ok h' pns' cs'" "took l x h cs h' cs'"
    "free_chunks pns' cs' l = PERPAGE l - 1" "\<forall>l' < NUMSMALL. open_pages h' cs' l'"
    using take_new [OF ok r g o l True] by blast
  have "refill os l (Suc i) fl h = refill os l i x (h'\<lparr>hp_next := (hp_next h')(x := fl)\<rparr>)"
    using True t(1,2,3) by (simp add: extent_addr)
  moreover have "i \<le> free_chunks pns' cs' l" using t(7) i(2) by simp
  ultimately show ?thesis using t(4,5,6,8) by blast
next
  case False
  obtain x h' pns' cs' where t: "take_chunk l h = Some (x, h')" "global_ok h' pns' cs'" "chunk_upd {} h h'" "took l x h cs h' cs'"
    "free_chunks pns cs l = Suc (free_chunks pns' cs' l)" "\<forall>l' < NUMSMALL. open_pages h' cs' l'"
    using take_old [OF g o l False] by blast
  have "refill os l (Suc i) fl h = refill os l i x (h'\<lparr>hp_next := (hp_next h')(x := fl)\<rparr>)" using False t(1) by simp
  moreover have "pool_ok h' E" by (rule pool_chunks [OF ok(1) t(3)])
  moreover have "i \<le> free_chunks pns' cs' l \<or> room h'" using i(1) t(5) room_chunk_upd [OF t(3)] by simp
  ultimately show ?thesis using t(2,4,6) by blast
qed

lemma refill_global:
  assumes "pool_ok h E" "os_ok os" "global_ok h pns cs" "\<forall>l' < NUMSMALL. open_pages h cs l'" "l < NUMSMALL"
    and "i \<le> free_chunks pns cs l \<or> room h" "i \<le> PERPAGE l" and "clist (hp_next h) fl fs" "distinct fs" "set fs \<subseteq> busy h cs l"
  shows "\<exists>xs fl' h' E' pns' cs'. refill os l i fl h = Some (Some fl', h') \<and> pool_ok h' E' \<and> global_ok h' pns' cs' \<and>
    (\<forall>l' < NUMSMALL. open_pages h' cs' l') \<and> hp_local h' = hp_local h \<and> hp_locks h' = hp_locks h \<and>
    length xs = i \<and> distinct (xs @ fs) \<and> clist (hp_next h') fl' (xs @ fs) \<and> set xs \<inter> busy h cs l = {} \<and>
    (\<forall>l'. busy h' cs' l' = (if l' = l then set xs \<union> busy h cs l else busy h cs l')) \<and> (\<forall>l' a. a \<in> busy h cs l' \<longrightarrow> hp_next h' a = hp_next h a)"
  using assms
proof (induction i arbitrary: h E pns cs fl fs)
  case 0
  then show ?case by (intro exI [of _ "[]"] exI [of _ fl] exI [of _ h] exI [of _ E] exI [of _ pns] exI [of _ cs]) auto
next
  case (Suc i)
  obtain x h1 E1 pns1 cs1 where s: "refill os l (Suc i) fl h = refill os l i x (h1\<lparr>hp_next := (hp_next h1)(x := fl)\<rparr>)" "pool_ok h1 E1"
    "global_ok h1 pns1 cs1" "took l x h cs h1 cs1" "\<forall>l' < NUMSMALL. open_pages h1 cs1 l'" "i \<le> free_chunks pns1 cs1 l \<or> room h1"
    using refill_step [OF Suc.prems(1-3) _ Suc.prems(5-7)] Suc.prems(4) by blast
  let ?h = "h1\<lparr>hp_next := (hp_next h1)(x := fl)\<rparr>"
  have t: "x \<notin> busy h cs l" "x \<noteq> 0" "\<And>l'. busy h1 cs1 l' = (if l' = l then insert x (busy h cs l) else busy h cs l')"
    "\<And>l' a. is_chunk h l' a \<Longrightarrow> hp_next h1 a = hp_next h a" "hp_local h1 = hp_local h" "hp_locks h1 = hp_locks h"
    using s(4) by (simp_all add: took_def)
  have xb: "x \<in> busy h1 cs1 l" by (simp add: t(3))
  have nb: "x \<notin> busy h cs l'" for l'
  proof
    assume "x \<in> busy h cs l'"
    then have "x \<in> busy h1 cs1 l'" by (simp add: t(3))
    then have "l' = l" using xb is_chunk_class [of h1] by (auto simp: busy_def)
    then show False using \<open>x \<in> busy h cs l'\<close> t(1) by simp
  qed
  have keep: "hp_next ?h a = hp_next h a" if "a \<in> busy h cs l'" for l' a
    using that t(4) [of l' a] nb [of l'] by (cases "a = x") (auto simp: busy_def)
  have xf: "x \<notin> set fs" using Suc.prems(10) t(1) by blast
  have "hp_next ?h a = hp_next h a" if "a \<in> set fs" for a using keep Suc.prems(10) that by blast
  then have "clist (hp_next ?h) fl fs" using Suc.prems(8) clist_cong [of fs "hp_next ?h" "hp_next h" fl] by blast
  then have cl: "clist (hp_next ?h) x (x # fs)" using t(2) by simp
  have pre: "pool_ok ?h E1" "global_ok ?h pns1 cs1" "\<forall>l' < NUMSMALL. open_pages ?h cs1 l'" "i \<le> free_chunks pns1 cs1 l \<or> room ?h" "i \<le> PERPAGE l"
    "distinct (x # fs)" "set (x # fs) \<subseteq> busy ?h cs1 l"
    using s set_next_global [OF s(3) xb] Suc.prems(7,9,10) xf t(3) by auto
  obtain xs fl' h' E' pns' cs' where r: "refill os l i x ?h = Some (Some fl', h')" "pool_ok h' E'" "global_ok h' pns' cs'"
    "\<forall>l' < NUMSMALL. open_pages h' cs' l'" "hp_local h' = hp_local ?h" "hp_locks h' = hp_locks ?h" "length xs = i" "distinct (xs @ x # fs)"
    "clist (hp_next h') fl' (xs @ x # fs)" "set xs \<inter> busy ?h cs1 l = {}"
    "\<forall>l'. busy h' cs' l' = (if l' = l then set xs \<union> busy ?h cs1 l else busy ?h cs1 l')" "\<forall>l' a. a \<in> busy ?h cs1 l' \<longrightarrow> hp_next h' a = hp_next ?h a"
    using Suc.IH [OF pre(1) Suc.prems(2) pre(2,3) Suc.prems(5) pre(4,5) cl pre(6,7)] by blast
  have "hp_next h' a = hp_next h a" if a: "a \<in> busy h cs l'" for l' a
  proof -
    have "a \<in> busy ?h cs1 l'" using a by (auto simp: t(3))
    then show ?thesis using r(12) keep [OF a] by metis
  qed
  moreover have "set (xs @ [x]) \<inter> busy h cs l = {}" using r(10) t(1,3) by auto
  moreover have "\<forall>l'. busy h' cs' l' = (if l' = l then set (xs @ [x]) \<union> busy h cs l else busy h cs l')" using r(11) t(3) by auto
  ultimately show ?case using s(1) r(1-9) t(5,6)
    by (intro exI [of _ "xs @ [x]"] exI [of _ fl'] exI [of _ h'] exI [of _ E'] exI [of _ pns'] exI [of _ cs']) simp
qed

end
