(* ===== verification/Small_Client.thy ===== *)
theory Small_Client
  imports Small_Alloc
begin

text \<open>
  The small blocks of one thread: the invariant that \<open>malloc\<close> and \<open>free\<close> keep, the contract of an allocator of blocks as a locale, its
  interpretation on the functions of \<open>malloc.c\<close>, and what it gives to every client.
\<close>

section \<open>The lists of the thread\<close>

text \<open>
  The busy chunks of class \<open>l\<close> are those in the two lists of the thread and the blocks \<open>X\<close> of the user. The counter is right, the second list is
  empty or full; a thread that never asked for a block of the class has the target 0.
\<close>

definition local_ok :: "heap \<Rightarrow> (nat \<Rightarrow> nat list) \<Rightarrow> nat \<Rightarrow> nat set \<Rightarrow> nat list \<Rightarrow> nat list \<Rightarrow> bool" where
  "local_ok h cs l X fs as \<longleftrightarrow>
     clist (hp_next h) (lf_free (hp_local h l)) fs \<and> clist (hp_next h) (lf_aux (hp_local h l)) as \<and> lf_count (hp_local h l) = length fs \<and>
     distinct (fs @ as) \<and> set (fs @ as) \<inter> X = {} \<and> busy h cs l = set (fs @ as) \<union> X \<and>
     (if lf_target (hp_local h l) = 0 then fs = [] \<and> as = [] \<and> X = {}
      else lf_target (hp_local h l) = TARGET l \<and> length fs \<le> TARGET l \<and> (as = [] \<or> length as = TARGET l))"

definition small_inv :: "heap \<Rightarrow> extents \<Rightarrow> (nat \<Rightarrow> nat set) \<Rightarrow> bool" where
  "small_inv h E L \<longleftrightarrow> pool_ok h E \<and> (\<exists>pns cs. global_ok h pns cs \<and>
     (\<forall>l < NUMSMALL. open_pages h cs l \<and> hp_locks h ! l = 0 \<and> (\<exists>fs as. local_ok h cs l (L l) fs as)))"

lemma local_ok_cong:
  assumes "hp_local h' l = hp_local h l" "busy h' cs' l = busy h cs l" "\<And>a. a \<in> busy h cs l \<Longrightarrow> hp_next h' a = hp_next h a" "local_ok h cs l X fs as"
  shows "local_ok h' cs' l X fs as"
proof -
  have "\<And>a. a \<in> set fs \<Longrightarrow> hp_next h' a = hp_next h a" "\<And>a. a \<in> set as \<Longrightarrow> hp_next h' a = hp_next h a"
    using assms(3,4) by (auto simp: local_ok_def)
  then have e: "clist (hp_next h') p fs = clist (hp_next h) p fs" "clist (hp_next h') p as = clist (hp_next h) p as" for p
    using clist_cong [of fs "hp_next h'" "hp_next h"] clist_cong [of as "hp_next h'" "hp_next h"] by blast+
  show ?thesis using assms(4) unfolding local_ok_def assms(1,2) e .
qed

lemma busy_apart: "a \<in> busy h cs l \<Longrightarrow> a \<in> busy h cs l' \<Longrightarrow> l' = l"
  using is_chunk_class [of h l a l'] by (simp add: busy_def)

lemma busy_pos: "global_ok h pns cs \<Longrightarrow> a \<in> busy h cs l \<Longrightarrow> a \<noteq> 0 \<and> pg_code (ph_tab h (page_of a)) = l \<and> l < NUMSMALL"
proof -
  assume g: "global_ok h pns cs" and a: "a \<in> busy h cs l"
  then have c: "chunk_page_of h l (page_of a)" by (simp add: busy_def is_chunk_def)
  then have "3 \<le> page_of a" using global_okD(1) [OF g c] by (simp add: page_free_def)
  then have "a \<noteq> 0" by (cases "a = 0") (simp_all add: page_of_def)
  then show ?thesis using c by (simp add: chunk_page_of_def)
qed

text \<open>The lists of the thread do not matter for those of the pages.\<close>

lemma set_local_blocks [simp]:
  "global_ok (set_local l f h) pns cs = global_ok h pns cs" "busy (set_local l f h) cs l' = busy h cs l'"
  "open_pages (set_local l f h) cs l' = open_pages h cs l'" "is_chunk (set_local l f h) l' a = is_chunk h l' a"
  "hp_next (set_local l f h) = hp_next h" "hp_locks (set_local l f h) = hp_locks h" "hp_local (set_local l f h) = (hp_local h)(l := f)"
  "room (set_local l f h) = room h" "ph_tab (set_local l f h) = ph_tab h"
  by (simp_all add: set_local_def global_ok_def busy_def open_pages_def is_chunk_def chunk_page_of_def page_free_def room_def)

lemma local_ok_other [simp]: "l' \<noteq> l \<Longrightarrow> local_ok (set_local l f h) cs l' X fs as = local_ok h cs l' X fs as"
  by (simp only: local_ok_def set_local_blocks fun_upd_other simp_thms)

text \<open>A change in one class: the others are as before.\<close>

lemma small_inv_upd:
  assumes h: "\<forall>l' < NUMSMALL. open_pages h cs l' \<and> hp_locks h ! l' = 0 \<and> (\<exists>fs as. local_ok h cs l' (L l') fs as)"
    and l: "l < NUMSMALL" "local_ok h' cs' l X fs as"
    and h': "pool_ok h' E'" "global_ok h' pns' cs'" "\<forall>l' < NUMSMALL. open_pages h' cs' l'" "hp_locks h' = hp_locks h"
    and o: "\<And>l'. l' \<noteq> l \<Longrightarrow> hp_local h' l' = hp_local h l'" "\<And>l'. l' \<noteq> l \<Longrightarrow> busy h' cs' l' = busy h cs l'"
      "\<And>l' a. l' \<noteq> l \<Longrightarrow> a \<in> busy h cs l' \<Longrightarrow> hp_next h' a = hp_next h a"
  shows "small_inv h' E' (L(l := X))"
proof -
  have "\<exists>fs as. local_ok h' cs' l' ((L(l := X)) l') fs as" if l': "l' < NUMSMALL" for l'
  proof (cases "l' = l")
    case False
    then obtain fs' as' where "local_ok h cs l' (L l') fs' as'" using h l' by blast
    from local_ok_cong [OF o(1) [OF False] o(2) [OF False] o(3) [OF False] this] show ?thesis using False by auto
  qed (use l(2) in auto)
  then show ?thesis unfolding small_inv_def using h' h by metis
qed

section \<open>malloc\_small\<close>

text \<open>The end of \<open>malloc_small\<close>: the first chunk of the list goes to the user.\<close>

lemma pop_local_ok:
  assumes ok: "local_ok h cs l X (a # fs) as" and l: "l < NUMSMALL" and p: "pop_local l h = (b, h')"
  shows "b = a \<and> h' = set_local l ((hp_local h l)\<lparr>lf_free := hp_next h a, lf_count := length fs\<rparr>) h \<and>
    local_ok h' cs l (insert a X) fs as \<and> a \<notin> X"
proof -
  have f: "lf_free (hp_local h l) = a" "lf_count (hp_local h l) = Suc (length fs)" "lf_target (hp_local h l) = TARGET l"
    "Suc (length fs) \<le> TARGET l" using ok by (auto simp: local_ok_def split: if_splits)
  then have "to_ushort (int (Suc (length fs)) - 1) = length fs" using SIZE_PERPAGE [OF l] by (simp add: to_ushort_def)
  then have h': "b = a" "h' = set_local l ((hp_local h l)\<lparr>lf_free := hp_next h a, lf_count := length fs\<rparr>) h"
    using p f by (auto simp: pop_local_def Let_def)
  moreover have "local_ok h' cs l (insert a X) fs as" "a \<notin> X" using ok f SIZE_PERPAGE [OF l]
    unfolding h' local_ok_def by (auto split: if_splits)
  ultimately show ?thesis by blast
qed

lemma pop_inv:
  assumes "small_inv h0 E0 L" and h: "pool_ok h E" "global_ok h pns cs" "\<forall>l < NUMSMALL. open_pages h cs l \<and> hp_locks h ! l = 0"
    and o: "\<forall>l' < NUMSMALL. l' \<noteq> l \<longrightarrow> (\<exists>fs as. local_ok h cs l' (L l') fs as)"
    and l: "l < NUMSMALL" "local_ok h cs l (L l) (a # fs) as"
  shows "\<exists>h'. pop_local l h = (a, h') \<and> small_inv h' E (L(l := insert a (L l))) \<and> a \<notin> L l \<and> is_chunk h' l a"
proof -
  obtain b h' where p: "pop_local l h = (b, h')" by (cases "pop_local l h")
  note q = pop_local_ok [OF l(2,1) p]
  have all: "\<forall>l' < NUMSMALL. open_pages h cs l' \<and> hp_locks h ! l' = 0 \<and> (\<exists>fs as. local_ok h cs l' (L l') fs as)"
    using h(3) o l by (metis (full_types))
  have "small_inv h' E (L(l := insert a (L l)))"
    by (rule small_inv_upd [OF all l(1), of h' cs _ fs as _ pns]) (use q h in auto)
  moreover have "a \<in> busy h cs l" using l(2) by (simp add: local_ok_def)
  then have "is_chunk h' l a" using q by (simp add: busy_def)
  ultimately show ?thesis using p q by blast
qed


text \<open>The state after the loop, with the new list in place.\<close>

lemma refill_inv:
  assumes inv: "small_inv h E L" and os: "os_ok os" and l: "l < NUMSMALL" and room: "room h"
    and e: "lf_free (hp_local h l) = 0" "lf_aux (hp_local h l) = 0"
    and f1: "f1 = (hp_local h l)\<lparr>lf_target := TARGET l\<rparr>" and h1: "h1 = (set_local l f1 h)\<lparr>hp_locks := (hp_locks h)[l := 1]\<rparr>"
  shows "\<exists>fl h2 E' pns' cs' x xs. refill os l (TARGET l) 0 h1 = Some (Some fl, h2) \<and>
    (let h3 = set_local l (f1\<lparr>lf_free := fl, lf_count := TARGET l\<rparr>) (UNLOCK l h2)
     in pool_ok h3 E' \<and> global_ok h3 pns' cs' \<and> (\<forall>l < NUMSMALL. open_pages h3 cs' l \<and> hp_locks h3 ! l = 0) \<and>
       (\<forall>l' < NUMSMALL. l' \<noteq> l \<longrightarrow> (\<exists>fs as. local_ok h3 cs' l' (L l') fs as)) \<and> local_ok h3 cs' l (L l) (x # xs) [])"
proof -
  note sz = SIZE_PERPAGE [OF l]
  obtain pns cs where g: "global_ok h pns cs" and ok: "pool_ok h E"
    and a: "\<forall>l < NUMSMALL. open_pages h cs l \<and> hp_locks h ! l = 0 \<and> (\<exists>fs as. local_ok h cs l (L l) fs as)"
    using inv unfolding small_inv_def by blast
  obtain fs as where "local_ok h cs l (L l) fs as" using a l by blast
  then have loc: "local_ok h cs l (L l) [] []" using e by (cases fs; cases as) (auto simp: local_ok_def)
  have n: "hp_next h1 = hp_next h" "hp_locks h1 = (hp_locks h)[l := 1]" "hp_local h1 = (hp_local h)(l := f1)" "busy h1 cs l' = busy h cs l'"
    "\<forall>l' < NUMSMALL. open_pages h1 cs l'" "global_ok h1 pns cs" "pool_ok h1 E" "room h1" for l'
    using a g room pool_lock [of "set_local l f1 h" E l 1] ok l by (simp_all add: h1) (simp add: room_def set_local_def)
  obtain xs fl h2 E' pns' cs' where r: "refill os l (TARGET l) 0 h1 = Some (Some fl, h2)" "pool_ok h2 E'" "global_ok h2 pns' cs'"
    "\<forall>l' < NUMSMALL. open_pages h2 cs' l'" "hp_local h2 = hp_local h1" "hp_locks h2 = hp_locks h1" "length xs = TARGET l" "distinct (xs @ [])"
    "clist (hp_next h2) fl (xs @ [])" "set xs \<inter> busy h1 cs l = {}"
    "\<forall>l'. busy h2 cs' l' = (if l' = l then set xs \<union> busy h1 cs l else busy h1 cs l')" "\<forall>l' a. a \<in> busy h1 cs l' \<longrightarrow> hp_next h2 a = hp_next h1 a"
    using refill_global [OF n(7) os n(6,5) l, of "TARGET l" 0 "[]"] n(8) sz by auto
  obtain x ys where xs: "xs = x # ys" using r(7) sz by (cases xs) auto
  define h3 where "h3 = set_local l (f1\<lparr>lf_free := fl, lf_count := TARGET l\<rparr>) (UNLOCK l h2)"
  have m: "hp_next h3 = hp_next h2" "hp_locks h3 = hp_locks h" "hp_local h3 = (hp_local h)(l := f1\<lparr>lf_free := fl, lf_count := TARGET l\<rparr>)"
    "busy h3 cs' l' = busy h2 cs' l'" "open_pages h3 cs' l' = open_pages h2 cs' l'" "global_ok h3 pns' cs'" "pool_ok h3 E'" for l'
    using r(2,3,5,6) n(2,3) a l pool_lock [OF r(2) l, of 0] list_update_id [of "hp_locks h" l] by (simp_all add: h3_def UNLOCK_def)
  have "\<exists>fs as. local_ok h3 cs' l' (L l') fs as" if l': "l' < NUMSMALL" "l' \<noteq> l" for l'
  proof -
    obtain fs as where "local_ok h cs l' (L l') fs as" using a l' by blast
    then have "local_ok h3 cs' l' (L l') fs as"
      by (rule local_ok_cong [rotated 3]) (use l' m r(11,12) n in auto)
    then show ?thesis by blast
  qed
  moreover have "local_ok h3 cs' l (L l) (x # ys) []"
    using loc r(7-11) m(1,3,4) n(4) sz f1 xs unfolding local_ok_def by auto
  ultimately show ?thesis using r(1,4) m a unfolding Let_def h3_def [symmetric]
    by (intro exI [of _ fl] exI [of _ h2] exI [of _ E'] exI [of _ pns'] exI [of _ cs'] exI [of _ x] exI [of _ ys]) (simp add: h3_def [symmetric])
qed

lemma malloc_small_inv:
  assumes inv: "small_inv h E L" and os: "os_ok os" and l: "l < NUMSMALL" and room: "room h"
  shows "\<exists>a h' E'. malloc_small os l h = Some (a, h') \<and> small_inv h' E' (L(l := insert a (L l))) \<and> a \<notin> L l \<and> is_chunk h' l a"
proof -
  note sz = SIZE_PERPAGE [OF l]
  obtain pns cs where g: "global_ok h pns cs" and ok: "pool_ok h E"
    and a: "\<forall>l < NUMSMALL. open_pages h cs l \<and> hp_locks h ! l = 0 \<and> (\<exists>fs as. local_ok h cs l (L l) fs as)"
    using inv unfolding small_inv_def by blast
  obtain fs as where loc: "local_ok h cs l (L l) fs as" using a l by blast
  let ?f = "hp_local h l"
  consider "lf_free ?f \<noteq> 0" | "lf_free ?f = 0" "lf_aux ?f \<noteq> 0" | "lf_free ?f = 0" "lf_aux ?f = 0" by blast
  then show ?thesis
  proof cases
    case 1
    then obtain x xs where "fs = x # xs" using loc by (cases fs) (auto simp: local_ok_def)
    then obtain h' where "pop_local l h = (x, h')" "small_inv h' E (L(l := insert x (L l)))" "x \<notin> L l" "is_chunk h' l x"
      using pop_inv [OF inv ok g _ _ l] loc a by blast
    then show ?thesis using 1 l by (auto simp: malloc_small_def)
  next
    case 2
    then obtain x xs where x: "as = x # xs" "fs = []" using loc by (cases as; cases fs) (auto simp: local_ok_def)
    define h1 where "h1 = set_local l (?f\<lparr>lf_free := lf_aux ?f, lf_aux := 0, lf_count := lf_target ?f\<rparr>) h"
    have "local_ok h1 cs l (L l) (x # xs) []" using loc x sz by (auto simp: local_ok_def h1_def split: if_splits)
    moreover have "\<forall>l' < NUMSMALL. l' \<noteq> l \<longrightarrow> (\<exists>fs as. local_ok h1 cs l' (L l') fs as)" using a by (simp add: h1_def)
    ultimately obtain h' where "pop_local l h1 = (x, h')" "small_inv h' E (L(l := insert x (L l)))" "x \<notin> L l" "is_chunk h' l x"
      using pop_inv [OF inv, of h1 E pns cs l x xs "[]"] ok g a l by (auto simp: h1_def)
    then show ?thesis using 2 l by (auto simp: malloc_small_def h1_def Let_def)
  next
    case 3
    let ?f1 = "?f\<lparr>lf_target := TARGET l\<rparr>" and ?h1 = "(set_local l (?f\<lparr>lf_target := TARGET l\<rparr>) h)\<lparr>hp_locks := (hp_locks h)[l := 1]\<rparr>"
    obtain fl h2 E' pns' cs' x xs where r: "refill os l (TARGET l) 0 ?h1 = Some (Some fl, h2)"
      and s: "let h3 = set_local l (?f1\<lparr>lf_free := fl, lf_count := TARGET l\<rparr>) (UNLOCK l h2)
       in pool_ok h3 E' \<and> global_ok h3 pns' cs' \<and> (\<forall>l < NUMSMALL. open_pages h3 cs' l \<and> hp_locks h3 ! l = 0) \<and>
         (\<forall>l' < NUMSMALL. l' \<noteq> l \<longrightarrow> (\<exists>fs as. local_ok h3 cs' l' (L l') fs as)) \<and> local_ok h3 cs' l (L l) (x # xs) []"
      using refill_inv [OF inv os l room 3 refl refl] by blast
    define h3 where "h3 = set_local l (?f1\<lparr>lf_free := fl, lf_count := TARGET l\<rparr>) (UNLOCK l h2)"
    obtain h' where h': "pop_local l h3 = (x, h')" "small_inv h' E' (L(l := insert x (L l)))" "x \<notin> L l" "is_chunk h' l x"
      using pop_inv [OF inv, of h3 E' pns' cs' l x xs "[]"] s l unfolding Let_def h3_def [symmetric] by blast
    have tg: "to_ushort (int (TARGET l)) = TARGET l" using sz by (simp add: to_ushort_def)
    have "(if lf_target ?f = 0 then ?f\<lparr>lf_target := to_ushort (int (TARGET l))\<rparr> else ?f) = ?f1"
      using loc unfolding tg local_ok_def by (cases ?f) (auto split: if_splits)
    moreover have "LOCK l (set_local l ?f1 h) = Some ?h1" using a l by (simp add: LOCK_def)
    ultimately have "malloc_small os l h = Some (x, h')" using 3 l r h'(1) unfolding h3_def
      by (simp add: malloc_small_def Let_def del: refill.simps)
    then show ?thesis using h' by blast
  qed
qed

section \<open>free of a small block\<close>

text \<open>The block goes to the front of a list that is not full.\<close>

lemma push_local_ok:
  assumes ok: "local_ok h cs l X fs as" and g: "global_ok h pns cs" and a: "a \<in> X" "length fs < TARGET l" and l: "l < NUMSMALL"
    and h': "h' = set_local l ((hp_local h l)\<lparr>lf_count := to_ushort (int (lf_count (hp_local h l)) + 1), lf_free := a\<rparr>)
      (h\<lparr>hp_next := (hp_next h)(a := lf_free (hp_local h l))\<rparr>)"
  shows "local_ok h' cs l (X - {a}) (a # fs) as"
proof -
  have n: "a \<notin> set fs" "a \<notin> set as" "a \<in> busy h cs l" using ok a(1) by (auto simp: local_ok_def)
  have "to_ushort (int (length fs) + 1) = Suc (length fs)" using a(2) SIZE_PERPAGE [OF l] by (simp add: to_ushort_def nat_add_distrib)
  moreover have "a \<noteq> 0" using busy_pos [OF g n(3)] by simp
  ultimately show ?thesis using ok a n SIZE_PERPAGE [OF l] unfolding h' local_ok_def by (auto split: if_splits)
qed

lemma push_inv:
  assumes ok: "pool_ok h E" and g: "global_ok h pns cs" and a: "a \<in> L l" "length fs < TARGET l" and l: "l < NUMSMALL"
    and all: "\<forall>l' < NUMSMALL. open_pages h cs l' \<and> hp_locks h ! l' = 0 \<and> (\<exists>fs as. local_ok h cs l' (L l') fs as)"
    and loc: "local_ok h cs l (L l) fs as"
    and h': "h' = set_local l ((hp_local h l)\<lparr>lf_count := to_ushort (int (lf_count (hp_local h l)) + 1), lf_free := a\<rparr>)
      (h\<lparr>hp_next := (hp_next h)(a := lf_free (hp_local h l))\<rparr>)"
  shows "small_inv h' E (L(l := L l - {a}))"
proof (rule small_inv_upd [OF all l push_local_ok [OF loc g a l h']])
  have b: "a \<in> busy h cs l" using loc a(1) by (auto simp: local_ok_def)
  show "pool_ok h' E" using ok by (simp add: h')
  show "global_ok h' pns cs" using set_next_global [OF g b] by (simp add: h')
  show "\<forall>l' < NUMSMALL. open_pages h' cs l'" "hp_locks h' = hp_locks h" using all by (simp_all add: h')
  fix l' assume d: "l' \<noteq> l"
  then show "hp_local h' l' = hp_local h l'" "busy h' cs l' = busy h cs l'" by (simp_all add: h')
  fix x assume "x \<in> busy h cs l'"
  then show "hp_next h' x = hp_next h x" using busy_apart [OF b] d by (auto simp: h')
qed

text \<open>A full list becomes the second one, after that one was given back.\<close>

lemma make_room:
  assumes inv: "small_inv h E L" and os: "os_ok os" and l: "l < NUMSMALL" and X: "L l \<noteq> {}"
    and full: "lf_count (hp_local h l) = lf_target (hp_local h l)"
  shows "\<exists>h1 E' pns' cs' as'. (if lf_aux (hp_local h l) \<noteq> 0
      then flush_to_global_freelist os l (lf_aux (hp_local h l)) 0 (set_local l ((hp_local h l)\<lparr>lf_aux := 0\<rparr>) h) else Some h) = Some h1 \<and>
    (let h2 = set_local l ((hp_local h1 l)\<lparr>lf_aux := lf_free (hp_local h1 l), lf_free := 0, lf_count := 0\<rparr>) h1
     in pool_ok h2 E' \<and> global_ok h2 pns' cs' \<and>
       (\<forall>l' < NUMSMALL. open_pages h2 cs' l' \<and> hp_locks h2 ! l' = 0 \<and> (\<exists>fs as. local_ok h2 cs' l' (L l') fs as)) \<and>
       local_ok h2 cs' l (L l) [] as')"
proof -
  note sz = SIZE_PERPAGE [OF l]
  obtain pns cs where g: "global_ok h pns cs" and ok: "pool_ok h E"
    and a: "\<forall>l < NUMSMALL. open_pages h cs l \<and> hp_locks h ! l = 0 \<and> (\<exists>fs as. local_ok h cs l (L l) fs as)"
    using inv unfolding small_inv_def by blast
  obtain fs as where loc: "local_ok h cs l (L l) fs as" using a l by blast
  let ?f = "hp_local h l"
  have tg: "lf_target ?f = TARGET l" "length fs = TARGET l" using loc X full by (auto simp: local_ok_def split: if_splits)
  have fin: ?thesis if r: "(if lf_aux ?f \<noteq> 0 then flush_to_global_freelist os l (lf_aux ?f) 0 (set_local l (?f\<lparr>lf_aux := 0\<rparr>) h) else Some h) = Some h1"
    and h1: "pool_ok h1 E'" "global_ok h1 pns' cs'" "\<forall>l' < NUMSMALL. open_pages h1 cs' l' \<and> hp_locks h1 ! l' = 0"
      "\<forall>l' < NUMSMALL. l' \<noteq> l \<longrightarrow> (\<exists>fs as. local_ok h1 cs' l' (L l') fs as)" "local_ok h1 cs' l (L l) fs []" for h1 E' pns' cs'
  proof -
    define h2 where "h2 = set_local l ((hp_local h1 l)\<lparr>lf_aux := lf_free (hp_local h1 l), lf_free := 0, lf_count := 0\<rparr>) h1"
    have l2: "local_ok h2 cs' l (L l) [] fs" using h1(5) tg(2) sz unfolding h2_def local_ok_def by (auto split: if_splits)
    moreover have "\<exists>fs as. local_ok h2 cs' l' (L l') fs as" if "l' < NUMSMALL" for l'
      using h1(4) that l2 by (cases "l' = l") (auto simp: h2_def)
    moreover have "pool_ok h2 E'" "global_ok h2 pns' cs'" "\<forall>l' < NUMSMALL. open_pages h2 cs' l' \<and> hp_locks h2 ! l' = 0"
      using h1(1-3) by (simp_all add: h2_def)
    ultimately show ?thesis using r unfolding Let_def
      by (intro exI [of _ h1] exI [of _ E'] exI [of _ pns'] exI [of _ cs'] exI [of _ fs]) (simp add: h2_def [symmetric])
  qed
  show ?thesis
  proof (cases "lf_aux ?f = 0")
    case True
    then have "as = []" using loc by (cases as) (auto simp: local_ok_def)
    then show ?thesis using fin [OF _ ok g] a loc True by auto
  next
    case False
    let ?h = "set_local l (?f\<lparr>lf_aux := 0\<rparr>) h"
    have as: "as \<noteq> []" "clist (hp_next ?h) (lf_aux ?f) as" "distinct as" "set as \<subseteq> busy ?h cs l" "set fs \<inter> set as = {}"
      using loc False by (auto simp: local_ok_def)
    have pre: "pool_ok ?h E" "global_ok ?h pns cs" "hp_locks ?h ! l = 0" using ok g a l by simp_all
    obtain h1 E' pns' cs' where r: "flush_to_global_freelist os l (lf_aux ?f) 0 ?h = Some h1" "pool_ok h1 E'" "global_ok h1 pns' cs'"
      "hp_local h1 = hp_local ?h" "hp_locks h1 = hp_locks ?h" "\<forall>x. x \<notin> set as \<longrightarrow> hp_next h1 x = hp_next ?h x"
      "\<forall>l'. busy h1 cs' l' = (if l' = l then busy ?h cs l - set as else busy ?h cs l')" "open_pages h1 cs' l"
      "\<forall>l'. l' \<noteq> l \<and> open_pages ?h cs l' \<longrightarrow> open_pages h1 cs' l'"
      using flush_global [OF pre(1) os pre(2) l pre(3) as(2,1,3,4)] by blast
    have "\<exists>fs as. local_ok h1 cs' l' (L l') fs as" if l': "l' < NUMSMALL" "l' \<noteq> l" for l'
    proof -
      obtain fs' as' where o: "local_ok h cs l' (L l') fs' as'" using a l' by blast
      have "hp_next h1 x = hp_next h x" if "x \<in> busy h cs l'" for x using that as(4) busy_apart [of x h cs l l'] l'(2) r(6) by auto
      then have "local_ok h1 cs' l' (L l') fs' as'" by (intro local_ok_cong [OF _ _ _ o]) (use l' r in auto)
      then show ?thesis by blast
    qed
    moreover have "local_ok h1 cs' l (L l) fs []"
    proof -
      have "clist (hp_next h1) (lf_free ?f) fs = clist (hp_next h) (lf_free ?f) fs" using r(6) as(5) by (intro clist_cong) auto
      moreover have "busy h1 cs' l = set fs \<union> L l" using r(7) loc by (auto simp: local_ok_def)
      ultimately show ?thesis using loc r(4) tg sz by (simp add: local_ok_def) blast
    qed
    moreover have "open_pages h1 cs' l' \<and> hp_locks h1 ! l' = 0" if "l' < NUMSMALL" for l'
      using a that r(5,8,9) by (cases "l' = l") auto
    moreover have "(if lf_aux ?f \<noteq> 0 then flush_to_global_freelist os l (lf_aux ?f) 0 ?h else Some h) = Some h1" using False r(1) by simp
    ultimately show ?thesis using fin [of h1 E' pns' cs'] r(2,3) by blast
  qed
qed

lemma free_small_inv:
  assumes inv: "small_inv h E L" and os: "os_ok os" and l: "l < NUMSMALL" and x: "a \<in> L l"
  shows "\<exists>h' E'. free os a h = Some h' \<and> small_inv h' E' (L(l := L l - {a}))"
proof -
  obtain pns cs where g: "global_ok h pns cs" and ok: "pool_ok h E"
    and a: "\<forall>l < NUMSMALL. open_pages h cs l \<and> hp_locks h ! l = 0 \<and> (\<exists>fs as. local_ok h cs l (L l) fs as)"
    using inv unfolding small_inv_def by blast
  obtain fs as where loc: "local_ok h cs l (L l) fs as" using a l by blast
  have b: "a \<in> busy h cs l" using loc x by (auto simp: local_ok_def)
  note p = busy_pos [OF g b]
  let ?f = "hp_local h l"
  show ?thesis
  proof (cases "lf_count ?f = lf_target ?f")
    case False
    then have "length fs < TARGET l" using loc x by (auto simp: local_ok_def split: if_splits)
    from push_inv [OF ok g x this l a loc refl] show ?thesis using p False by (auto simp: free_def Let_def)
  next
    case True
    obtain h1 E' pns' cs' as' where r: "(if lf_aux ?f \<noteq> 0 then flush_to_global_freelist os l (lf_aux ?f) 0 (set_local l (?f\<lparr>lf_aux := 0\<rparr>) h) else Some h) = Some h1"
      and s: "let h2 = set_local l ((hp_local h1 l)\<lparr>lf_aux := lf_free (hp_local h1 l), lf_free := 0, lf_count := 0\<rparr>) h1
        in pool_ok h2 E' \<and> global_ok h2 pns' cs' \<and>
          (\<forall>l' < NUMSMALL. open_pages h2 cs' l' \<and> hp_locks h2 ! l' = 0 \<and> (\<exists>fs as. local_ok h2 cs' l' (L l') fs as)) \<and>
          local_ok h2 cs' l (L l) [] as'"
      using make_room [OF inv os l _ True] x by blast
    define h2 where "h2 = set_local l ((hp_local h1 l)\<lparr>lf_aux := lf_free (hp_local h1 l), lf_free := 0, lf_count := 0\<rparr>) h1"
    have "length ([] :: nat list) < TARGET l" using SIZE_PERPAGE [OF l] by simp
    moreover have "pool_ok h2 E'" "global_ok h2 pns' cs'" "local_ok h2 cs' l (L l) [] as'"
      "\<forall>l' < NUMSMALL. open_pages h2 cs' l' \<and> hp_locks h2 ! l' = 0 \<and> (\<exists>fs as. local_ok h2 cs' l' (L l') fs as)"
      using s unfolding Let_def h2_def [symmetric] by blast+
    moreover define h3 where "h3 = set_local l ((hp_local h2 l)\<lparr>lf_count := to_ushort (int (lf_count (hp_local h2 l)) + 1), lf_free := a\<rparr>)
      (h2\<lparr>hp_next := (hp_next h2)(a := lf_free (hp_local h2 l))\<rparr>)"
    ultimately have "small_inv h3 E' (L(l := L l - {a}))" using push_inv [of h2 E' pns' cs' a L l "[]" as' h3] x l by blast
    moreover have "free os a h = Some h3" using p True r unfolding free_def h3_def h2_def Let_def by (simp cong: if_cong)
    ultimately show ?thesis by blast
  qed
qed

section \<open>Clients of an allocator\<close>

text \<open>
  What a client does with an allocator: it asks for blocks, writes into the ones that it has (the first word of a block is where the allocator
  keeps its link while the block is free), and gives them back. \<open>B\<close> holds its blocks, with the sizes that it asked for.
\<close>

inductive client :: "('s \<Rightarrow> bool) \<Rightarrow> (nat \<Rightarrow> bool) \<Rightarrow> (nat \<Rightarrow> 's \<Rightarrow> (nat \<times> 's) option) \<Rightarrow> (nat \<Rightarrow> 's \<Rightarrow> 's option) \<Rightarrow>
    (nat \<Rightarrow> nat \<Rightarrow> 's \<Rightarrow> 's) \<Rightarrow> 's \<Rightarrow> 's \<Rightarrow> (nat \<times> nat) set \<Rightarrow> bool"
  for ready small alloc release store s0 where
  start: "client ready small alloc release store s0 s0 {}"
| alloc: "client ready small alloc release store s0 s B \<Longrightarrow> ready s \<Longrightarrow> small n \<Longrightarrow> alloc n s = Some (a, s') \<Longrightarrow>
    client ready small alloc release store s0 s' (insert (a, n) B)"
| release: "client ready small alloc release store s0 s B \<Longrightarrow> (a, n) \<in> B \<Longrightarrow> release a s = Some s' \<Longrightarrow>
    client ready small alloc release store s0 s' (B - {(a, n)})"
| store: "client ready small alloc release store s0 s B \<Longrightarrow> (a, n) \<in> B \<Longrightarrow> client ready small alloc release store s0 (store a v s) B"

text \<open>The contract of an allocator of blocks, for an operating system that \<open>ok\<close> describes.\<close>

locale block_allocator =
  fixes ok :: "'o \<Rightarrow> bool" and unused :: "'s \<Rightarrow> bool" and inv :: "'s \<Rightarrow> (nat \<times> nat) set \<Rightarrow> bool"
    and ready :: "'s \<Rightarrow> bool" and small :: "nat \<Rightarrow> bool"
    and alloc :: "'o \<Rightarrow> nat \<Rightarrow> 's \<Rightarrow> (nat \<times> 's) option" and release :: "'o \<Rightarrow> nat \<Rightarrow> 's \<Rightarrow> 's option" and store :: "nat \<Rightarrow> nat \<Rightarrow> 's \<Rightarrow> 's"
    and usable :: "nat \<Rightarrow> 's \<Rightarrow> nat option"
  assumes inv_unused: "unused s \<Longrightarrow> inv s {}"
    and inv_alloc: "ok os \<Longrightarrow> inv s B \<Longrightarrow> ready s \<Longrightarrow> small n \<Longrightarrow>
      \<exists>a s'. alloc os n s = Some (a, s') \<and> a \<noteq> 0 \<and> (a, n) \<notin> B \<and> inv s' (insert (a, n) B)"
    and inv_release: "ok os \<Longrightarrow> inv s B \<Longrightarrow> (a, n) \<in> B \<Longrightarrow> \<exists>s'. release os a s = Some s' \<and> inv s' (B - {(a, n)})"
    and inv_store: "inv s B \<Longrightarrow> (a, n) \<in> B \<Longrightarrow> inv (store a v s) B"
    and inv_apart: "inv s B \<Longrightarrow> (a, n) \<in> B \<Longrightarrow> (b, m) \<in> B \<Longrightarrow> (a, n) \<noteq> (b, m) \<Longrightarrow> a + n \<le> b \<or> b + m \<le> a"
    and inv_usable: "inv s B \<Longrightarrow> (a, n) \<in> B \<Longrightarrow> \<exists>k. usable a s = Some k \<and> n \<le> k"
begin

lemma client_inv:
  assumes "client ready small (alloc os) (release os) store s0 s B" "ok os" "unused s0"
  shows "inv s B"
  using assms
proof induction
  case start
  then show ?case by (intro inv_unused)
next
  case (alloc s B n a s')
  then show ?case using inv_alloc [of os s B n] by auto
next
  case (release s B a n s')
  then show ?case using inv_release [of os s B a n] by auto
next
  case (store s B a n v)
  then show ?case by (intro inv_store) auto
qed

lemma client_apart:
  assumes "client ready small (alloc os) (release os) store s0 s B" "ok os" "unused s0" "(a, n) \<in> B" "(b, m) \<in> B" "(a, n) \<noteq> (b, m)"
  shows "a + n \<le> b \<or> b + m \<le> a"
  using inv_apart [OF client_inv [OF assms(1-3)] assms(4-6)] .

lemma client_usable:
  assumes "client ready small (alloc os) (release os) store s0 s B" "ok os" "unused s0" "(a, n) \<in> B"
  shows "\<exists>k. usable a s = Some k \<and> n \<le> k"
  using inv_usable [OF client_inv [OF assms(1-3)] assms(4)] .

lemma client_alloc:
  assumes "client ready small (alloc os) (release os) store s0 s B" "ok os" "unused s0" "ready s" "small n"
  shows "\<exists>a s'. alloc os n s = Some (a, s') \<and> a \<noteq> 0 \<and> client ready small (alloc os) (release os) store s0 s' (insert (a, n) B)"
  using inv_alloc [OF assms(2) client_inv [OF assms(1-3)] assms(4,5)] client.alloc [OF assms(1,4,5)] by blast

lemma client_release:
  assumes "client ready small (alloc os) (release os) store s0 s B" "ok os" "unused s0" "(a, n) \<in> B"
  shows "\<exists>s'. release os a s = Some s'"
  using inv_release [OF assms(2) client_inv [OF assms(1-3)] assms(4)] by blast

end

section \<open>Small blocks by their sizes\<close>

definition small_size :: "nat \<Rightarrow> bool" where
  "small_size n \<longleftrightarrow> 0 < n \<and> n \<le> 2048"

definition block_class :: "nat \<Rightarrow> nat" where
  "block_class n = nat (SMLIST (ucast (of_nat n :: u64)))"

definition store_word :: "nat \<Rightarrow> nat \<Rightarrow> heap \<Rightarrow> heap" where
  "store_word a v h = h\<lparr>hp_next := (hp_next h)(a := v)\<rparr>"

text \<open>A pool without small blocks.\<close>

definition unused_pool :: "heap \<Rightarrow> bool" where
  "unused_pool h \<longleftrightarrow> (\<exists>E. pool_ok h E) \<and> (\<forall>p < ph_end h. \<not> pg_code (ph_tab h p) < NUMSMALL) \<and>
     (\<forall>l < NUMSMALL. hp_freechunks h l = 0 \<and> hp_local h l = empty_local \<and> hp_locks h ! l = 0)"

definition blocks_of :: "(nat \<times> nat) set \<Rightarrow> nat \<Rightarrow> nat set" where
  "blocks_of B l = {a. \<exists>n. (a, n) \<in> B \<and> block_class n = l}"

definition blocks_inv :: "heap \<Rightarrow> (nat \<times> nat) set \<Rightarrow> bool" where
  "blocks_inv h B \<longleftrightarrow> (\<exists>E. small_inv h E (blocks_of B)) \<and> (\<forall>a n. (a, n) \<in> B \<longrightarrow> small_size n) \<and> inj_on fst B"

lemma small_class:
  assumes "small_size n"
  shows "malloc os n h = malloc_small os (block_class n) h" "block_class n < NUMSMALL" "n \<le> SIZE (block_class n)"
proof -
  have n: "0 < n" "n \<le> 2048" using assms by (simp_all add: small_size_def)
  then have u: "unat (ucast (of_nat n :: u64) :: u32) = n" by (simp add: unat_ucast_32 unat_of_nat_64)
  then have "(ucast (of_nat n :: u64) :: u32) \<noteq> 0" using n by auto
  then have s: "SMLIST (ucast (of_nat n :: u64)) = SMLIST_macro n" using SMLIST_eq_macro u by metis
  show "malloc os n h = malloc_small os (block_class n) h" "block_class n < NUMSMALL" "n \<le> SIZE (block_class n)"
    using n unfolding malloc_def block_class_def s by (auto simp: SMLIST_macro_def SIZE_eq NUMSMALL_def Let_def)
qed

lemma unused_inv:
  assumes "unused_pool h"
  shows "blocks_inv h {}"
proof -
  obtain E where ok: "pool_ok h E" using assms by (auto simp: unused_pool_def)
  have u: "\<not> pg_code (ph_tab h p) < NUMSMALL" if "p < ph_end h" for p using assms that by (simp add: unused_pool_def)
  have v: "hp_freechunks h l = 0 \<and> hp_local h l = empty_local \<and> hp_locks h ! l = 0" if "l < NUMSMALL" for l
    using assms that by (simp add: unused_pool_def)
  have no: "\<not> chunk_page_of h l p" for l p using u by (auto simp: chunk_page_of_def)
  then have "global_ok h (\<lambda>_. []) (\<lambda>_. [])" using v by (simp add: global_ok_def)
  moreover have b: "busy h (\<lambda>_. []) l = {}" for l using no by (simp add: busy_def is_chunk_def)
  have "open_pages h (\<lambda>_. []) l" "local_ok h (\<lambda>_. []) l (blocks_of {} l) [] []" if "l < NUMSMALL" for l
    using no b v [OF that] by (simp_all add: open_pages_def local_ok_def blocks_of_def empty_local_def)
  ultimately have "small_inv h E (blocks_of {})" using ok v unfolding small_inv_def by blast
  then show ?thesis by (auto simp: blocks_inv_def)
qed

text \<open>A block is a busy chunk of its class.\<close>

lemma block_chunk:
  assumes "small_inv h E L" "a \<in> L l" "l < NUMSMALL"
  shows "\<exists>k. a = chunk (page_of a) l k \<and> k < PERPAGE l \<and> pg_code (ph_tab h (page_of a)) = l \<and> a \<noteq> 0"
proof -
  obtain pns cs fs as where g: "global_ok h pns cs" and "local_ok h cs l (L l) fs as" using assms(1,3) unfolding small_inv_def by blast
  then have b: "a \<in> busy h cs l" using assms(2) by (auto simp: local_ok_def)
  then show ?thesis using busy_pos [OF g b] by (auto simp: busy_def is_chunk_def)
qed

lemma chunk_bounds:
  assumes "l < NUMSMALL" "k < PERPAGE l"
  shows "page_addr pn \<le> chunk pn l k" "chunk pn l k + SIZE l \<le> page_addr (pn + 1)"
proof -
  have "(k + 1) * SIZE l \<le> PAGESIZE" using assms SIZE_PERPAGE [OF assms(1)] by (metis Suc_eq_plus1 Suc_leI mult.commute mult_le_mono2)
  then show "chunk pn l k + SIZE l \<le> page_addr (pn + 1)" by (simp add: chunk_def page_addr_def algebra_simps)
qed (simp add: chunk_def)

lemma chunks_apart:
  assumes "l < NUMSMALL" "k < PERPAGE l" "l' < NUMSMALL" "k' < PERPAGE l'" "chunk p l k \<noteq> chunk p' l' k'" "p = p' \<longrightarrow> l = l'"
  shows "chunk p l k + SIZE l \<le> chunk p' l' k' \<or> chunk p' l' k' + SIZE l' \<le> chunk p l k"
proof -
  note b = chunk_bounds [OF assms(1,2), of p] chunk_bounds [OF assms(3,4), of p']
  have m: "page_addr (i + 1) \<le> page_addr j" if "i < j" for i j using that by (simp add: page_addr_def mult_le_mono1 flip: mult_Suc)
  consider "p < p'" | "p' < p" | "p = p'" by linarith
  then show ?thesis
  proof cases
    case 3
    have "chunk p l i + SIZE l \<le> chunk p l j" if "i < j" for i j
      using that mult_le_mono1 [of "Suc i" j "SIZE l"] by (simp add: chunk_def)
    then show ?thesis using 3 assms(5,6) by (metis linorder_neqE_nat)
  qed (use b m in fastforce)+
qed

lemma blocks_of_insert: "blocks_of (insert (a, n) B) = (blocks_of B)(block_class n := insert a (blocks_of B (block_class n)))"
  by (rule ext) (auto simp: blocks_of_def)

lemma blocks_of_remove:
  assumes "inj_on fst B" "(a, n) \<in> B"
  shows "blocks_of (B - {(a, n)}) = (blocks_of B)(block_class n := blocks_of B (block_class n) - {a})"
proof -
  have u: "m = n" if "(a, m) \<in> B" for m using inj_onD [OF assms(1), of "(a, m)" "(a, n)"] that assms(2) by simp
  show ?thesis
  proof (intro ext set_eqI)
    fix l x
    show "x \<in> blocks_of (B - {(a, n)}) l \<longleftrightarrow> x \<in> ((blocks_of B)(block_class n := blocks_of B (block_class n) - {a})) l"
    proof (cases "x = a")
      case True
      have "a \<notin> blocks_of (B - {(a, n)}) l" unfolding blocks_of_def using u by blast
      moreover have "a \<in> blocks_of B l \<longrightarrow> l = block_class n" unfolding blocks_of_def using u by blast
      ultimately show ?thesis using True by auto
    qed (auto simp: blocks_of_def)
  qed
qed

lemma blocks_malloc:
  assumes os: "os_ok os" and inv: "blocks_inv h B" and r: "room h" "small_size n"
  shows "\<exists>a h'. malloc os n h = Some (a, h') \<and> a \<noteq> 0 \<and> (a, n) \<notin> B \<and> blocks_inv h' (insert (a, n) B)"
proof -
  note c = small_class [OF r(2)]
  obtain E where E: "small_inv h E (blocks_of B)" using inv by (auto simp: blocks_inv_def)
  obtain a h' E' where a: "malloc_small os (block_class n) h = Some (a, h')" "a \<notin> blocks_of B (block_class n)"
    "small_inv h' E' (blocks_of (insert (a, n) B))"
    using malloc_small_inv [OF E os c(2) r(1)] unfolding blocks_of_insert by blast
  have chunk: "pg_code (ph_tab h' (page_of b)) = block_class m \<and> b \<noteq> 0" if "(b, m) \<in> insert (a, n) B" for b m
    using block_chunk [OF a(3), of b "block_class m"] that inv r(2) small_class(2) [of m] unfolding blocks_inv_def blocks_of_def by blast
  have "a \<noteq> b" if "(b, m) \<in> B" for b m
  proof
    assume "a = b"
    then have "block_class m = block_class n" using chunk [of a n] chunk [of b m] that by simp
    then show False using a(2) that \<open>a = b\<close> by (auto simp: blocks_of_def)
  qed
  then have "inj_on fst (insert (a, n) B)" "(a, n) \<notin> B" using inv by (force simp: blocks_inv_def)+
  then have "blocks_inv h' (insert (a, n) B)" using a(3) inv r(2) by (auto simp: blocks_inv_def)
  then show ?thesis using a(1) c(1) chunk [of a n] \<open>(a, n) \<notin> B\<close> by auto
qed

lemma blocks_free:
  assumes os: "os_ok os" and inv: "blocks_inv h B" and a: "(a, n) \<in> B"
  shows "\<exists>h'. free os a h = Some h' \<and> blocks_inv h' (B - {(a, n)})"
proof -
  obtain E where E: "small_inv h E (blocks_of B)" and i: "inj_on fst B" and s: "\<forall>a n. (a, n) \<in> B \<longrightarrow> small_size n"
    using inv by (auto simp: blocks_inv_def)
  have "block_class n < NUMSMALL" "a \<in> blocks_of B (block_class n)" using small_class(2) s a by (auto simp: blocks_of_def)
  then obtain h' E' where "free os a h = Some h'" "small_inv h' E' (blocks_of (B - {(a, n)}))"
    using free_small_inv [OF E os] unfolding blocks_of_remove [OF i a] by blast
  moreover have "inj_on fst (B - {(a, n)})" using i by (rule inj_on_subset) blast
  ultimately show ?thesis using s by (auto simp: blocks_inv_def)
qed

lemma blocks_store:
  assumes inv: "blocks_inv h B" and a: "(a, n) \<in> B"
  shows "blocks_inv (store_word a v h) B"
proof -
  let ?h = "store_word a v h"
  obtain E where E: "small_inv h E (blocks_of B)" and s: "\<forall>a n. (a, n) \<in> B \<longrightarrow> small_size n" using inv by (auto simp: blocks_inv_def)
  obtain pns cs where g: "global_ok h pns cs" and ok: "pool_ok h E"
    and al: "\<forall>l < NUMSMALL. open_pages h cs l \<and> hp_locks h ! l = 0 \<and> (\<exists>fs as. local_ok h cs l (blocks_of B l) fs as)"
    using E unfolding small_inv_def by blast
  have l: "block_class n < NUMSMALL" "a \<in> blocks_of B (block_class n)" using small_class(2) s a by (auto simp: blocks_of_def)
  then obtain fs as where loc: "local_ok h cs (block_class n) (blocks_of B (block_class n)) fs as" using al by blast
  have b: "a \<in> busy h cs (block_class n)" "a \<notin> set fs" "a \<notin> set as" using loc l(2) by (auto simp: local_ok_def)
  have loc': "local_ok ?h cs (block_class n) (blocks_of B (block_class n)) fs as"
    using loc b(2,3) unfolding local_ok_def store_word_def by (auto split: if_splits)
  have "small_inv ?h E ((blocks_of B)(block_class n := blocks_of B (block_class n)))"
    by (rule small_inv_upd [OF al l(1) loc']) (use ok al set_next_global [OF g b(1)] busy_apart [OF b(1)] in \<open>auto simp: store_word_def\<close>)
  then show ?thesis using inv by (auto simp: blocks_inv_def)
qed

lemma blocks_chunk:
  assumes inv: "blocks_inv h B" and a: "(a, n) \<in> B"
  shows "\<exists>k. a = chunk (page_of a) (block_class n) k \<and> k < PERPAGE (block_class n) \<and> pg_code (ph_tab h (page_of a)) = block_class n \<and>
    block_class n < NUMSMALL \<and> n \<le> SIZE (block_class n)"
proof -
  obtain E where E: "small_inv h E (blocks_of B)" using inv by (auto simp: blocks_inv_def)
  have s: "small_size n" using inv a by (auto simp: blocks_inv_def)
  have "a \<in> blocks_of B (block_class n)" using a by (auto simp: blocks_of_def)
  from block_chunk [OF E this small_class(2) [OF s]] show ?thesis using small_class [OF s] by blast
qed

lemma blocks_apart:
  assumes inv: "blocks_inv h B" and a: "(a, n) \<in> B" "(b, m) \<in> B" "(a, n) \<noteq> (b, m)"
  shows "a + n \<le> b \<or> b + m \<le> a"
proof -
  obtain k where k: "a = chunk (page_of a) (block_class n) k" "k < PERPAGE (block_class n)" "pg_code (ph_tab h (page_of a)) = block_class n"
    "block_class n < NUMSMALL" "n \<le> SIZE (block_class n)" using blocks_chunk [OF inv a(1)] by blast
  obtain j where j: "b = chunk (page_of b) (block_class m) j" "j < PERPAGE (block_class m)" "pg_code (ph_tab h (page_of b)) = block_class m"
    "block_class m < NUMSMALL" "m \<le> SIZE (block_class m)" using blocks_chunk [OF inv a(2)] by blast
  have "a \<noteq> b" using inv a inj_onD [of fst B "(a, n)" "(b, m)"] by (auto simp: blocks_inv_def)
  then have "a + SIZE (block_class n) \<le> b \<or> b + SIZE (block_class m) \<le> a"
    using chunks_apart [OF k(4,2) j(4,2), of "page_of a" "page_of b"] k(1,3) j(1,3) by metis
  then show ?thesis using k(5) j(5) by linarith
qed

lemma blocks_msize:
  assumes "blocks_inv h B" "(a, n) \<in> B"
  shows "\<exists>k. msize a h = Some k \<and> n \<le> k"
proof -
  obtain k where k: "a = chunk (page_of a) (block_class n) k" "k < PERPAGE (block_class n)" "pg_code (ph_tab h (page_of a)) = block_class n"
    "block_class n < NUMSMALL" "n \<le> SIZE (block_class n)" using blocks_chunk [OF assms] by blast
  have "a mod SIZE (block_class n) = 0" using chunk_page [OF k(4,2)] k(1) by metis
  then show ?thesis using k(3-5) by (simp add: msize_def Let_def)
qed

interpretation sb: block_allocator os_ok unused_pool blocks_inv room small_size malloc free store_word msize
proof
  show "unused_pool s \<Longrightarrow> blocks_inv s {}" for s by (rule unused_inv)
qed (fact blocks_malloc blocks_free blocks_store blocks_apart blocks_msize)+

section \<open>A thread that only frees\<close>

text \<open>
  The target of a list is set by the first request. A thread that gives back blocks of others and never asks for one has the target 0, and its list
  grows: the test for a full list comes true again only when the counter, 16 bits wide, has wrapped around. Up to then no block goes back to its page.
\<close>

lemma local_aux0: "lf_aux f = 0 \<Longrightarrow> f\<lparr>lf_aux := 0, lf_count := c, lf_free := x\<rparr> = f\<lparr>lf_count := c, lf_free := x\<rparr>"
  by (cases f) simp

lemma free_hoards:
  assumes "lf_target (hp_local h l) = 0" "lf_count (hp_local h l) = k" "k = 0 \<longrightarrow> lf_free (hp_local h l) = 0" "lf_aux (hp_local h l) = 0" "l < NUMSMALL"
    and "\<forall>a \<in> set as. a \<noteq> 0 \<and> pg_code (ph_tab h (page_of a)) = l" "k + length as < 2 ^ 16"
  shows "\<exists>h'. foldl (\<lambda>r a. Option.bind r (free os a)) (Some h) as = Some h' \<and> lf_count (hp_local h' l) = k + length as \<and>
    lf_aux (hp_local h' l) = 0 \<and> ph_tab h' = ph_tab h \<and> hp_freechunks h' = hp_freechunks h"
  using assms
proof (induction as arbitrary: h k)
  case (Cons a as)
  define h1 where "h1 = set_local l ((hp_local h l)\<lparr>lf_count := Suc k, lf_free := a\<rparr>) (h\<lparr>hp_next := (hp_next h)(a := lf_free (hp_local h l))\<rparr>)"
  have us: "to_ushort (int k + 1) = Suc k" using Cons.prems(7) by (simp add: to_ushort_def nat_add_distrib)
  have "free os a h = Some h1"
  proof (cases "k = 0")
    case True
    then show ?thesis using Cons.prems us by (cases h) (simp add: local_aux0 free_def Let_def h1_def set_local_def to_ushort_def)
  next
    case False
    then show ?thesis using Cons.prems us by (simp add: free_def Let_def h1_def)
  qed
  moreover have "ph_tab h1 = ph_tab h" "hp_freechunks h1 = hp_freechunks h" "hp_local h1 l = (hp_local h l)\<lparr>lf_count := Suc k, lf_free := a\<rparr>"
    by (simp_all add: h1_def set_local_def)
  moreover have "\<forall>a \<in> set as. a \<noteq> 0 \<and> pg_code (ph_tab h1 (page_of a)) = l" "Suc k + length as < 2 ^ 16" using Cons.prems(6,7) by (simp_all add: h1_def set_local_def)
  ultimately show ?case using Cons.IH [of h1 "Suc k"] Cons.prems(1,4,5) by simp
qed auto

section \<open>A client of a new pool\<close>

lemma fresh_codes: "p < 3 \<Longrightarrow> pg_code (ph_tab fresh p) = BASE"
proof -
  assume "p < 3"
  then have "p = 0 \<or> p = 1 \<or> p = 2" by auto
  then show ?thesis
    by (auto simp: fresh_def blank_def good_os_def shm_create_def shm_ready_def do_mmap_def do_ftruncate_def msetup_def Let_def PAGESIZE_def set_code_def)
qed

lemma fresh_unused: "unused_pool fresh"
proof -
  have "hp_locks fresh ! l = 0" if "l < NUMSMALL" for l unfolding fresh_simps using that by (subst nth_replicate) simp_all
  moreover have "\<not> BASE < NUMSMALL" by (simp add: code_defs NUMSMALL_def size256_def)
  ultimately show ?thesis using fresh_pool(1) fresh_codes by (auto simp: unused_pool_def fresh_simps)
qed

text \<open>Two blocks of 64 bytes from a new pool.\<close>

lemma two_blocks:
  "\<exists>h a b. client room small_size (malloc good_os) (free good_os) store_word fresh h {(b, 64), (a, 64)} \<and> b \<noteq> a"
proof -
  have none: "\<forall>x k. (Map.empty :: extents) x \<noteq> Some (k, True)" by simp
  have s: "small_size 64" "block_class 64 = 3"
    using SMLIST_eq_macro [of 64] by (simp_all add: small_size_def block_class_def SMLIST_macro_def)
  obtain h1 a where h1: "malloc_small good_os 3 fresh = Some (a, h1)" "ph_end h1 = ph_end fresh + 1"
    using small_malloc_refills [OF fresh_pool fresh_small(6,1,2,3) none fresh_small(4,5)] by blast
  have r: "room fresh" "room h1" using h1(2) by (auto simp: room_def fresh_simps PAGESIZE_def I1_def sizeof_page_def)
  note st = client.start [of room small_size "malloc good_os" "free good_os" store_word fresh]
  have m: "malloc good_os 64 fresh = Some (a, h1)" using small_class(1) [OF s(1)] s(2) h1(1) by simp
  note c1 = client.alloc [OF st r(1) s(1) m]
  obtain b h2 where "malloc good_os 64 h1 = Some (b, h2)" "(b, 64) \<notin> {(a, 64)}"
    using blocks_malloc [OF fresh_pool(2) sb.client_inv [OF c1 fresh_pool(2) fresh_unused] r(2) s(1)] by blast
  then show ?thesis using client.alloc [OF c1 r(2) s(1)] by fastforce
qed

section \<open>Properties\<close>





end
