(* ===== verification/Spec2Isabelle.thy ===== *)
theory Spec2Isabelle
  imports Elcrq Concurrent Debug_Checks Heap_Types Reclaim Scrq Driver Cpp_Driver Page_Quicksort Heapdump Lock_Configs Pool_Configs Driver_Main Small_Client
begin

text \<open>
  Verification of ELCRQ, a blocking multi-producer multi-consumer queue for threads of several processes that share
  memory, with its allocator, its C++ version and the two simulation programs.

  \<^bold>\<open>The program and its parts.\<close> In C (\<open>src/c\<close>): \<open>primitives.h\<close> has the atomic operations; \<open>ELCRQ.h\<close> has a ring of cells (CRQ), a
  list of rings (LCRQ) with \<open>enq\<close> and \<open>deq\<close>, and the public \<open>enqueue\<close>, \<open>dequeue\<close>, \<open>spinEnqueue\<close>, \<open>spinDequeue\<close>, which use the event count
  of \<open>EventCount.h\<close> to sleep and to wake; \<open>malloc.c\<close> and \<open>malloc.h\<close> are an allocator in a file mapped by all processes, from which rings come;
  \<open>main.c\<close> runs three processes that pass messages along four queues. In C++ (\<open>src/c++\<close>): \<open>LCRQueue.hpp\<close> is the list of rings, which gives
  rings back with the hazard pointers of \<open>HazardPointers.hpp\<close>; \<open>EventCount.hpp\<close> and \<open>Futex.hpp\<close>, \<open>Futex.cpp\<close> are the event count and its
  system calls; \<open>SCRQueue.hpp\<close> is the blocking queue; \<open>main.cpp\<close> runs two processes that echo messages.

  \<^bold>\<open>The queue in C.\<close>
  \<^item> \<open>Prelude\<close>: machine words, bit 63 as mark, masks, and the lemmas on them that all theories share.
  \<^item> \<open>Primitives\<close> (\<open>primitives.h\<close>): CAS of one and of two words, fetch-and-add, swap and test-and-set.
  \<^item> \<open>Ring\<close>, \<open>Lcrq\<close>, \<open>Fifo\<close>, \<open>Elcrq\<close> (\<open>ELCRQ.h\<close>): records \<open>RingNode\<close>, \<open>RingQueue\<close>, \<open>ELCRQ\<close>; one definition per function, for calls that do
    not overlap. \<open>Fifo\<close> has the interface of a queue as the locale \<open>bounded_fifo\<close>, interpreted on the C queue and on the C++ queue.
    Shown: any sequence of calls refines a list; each call returns; what happens on an empty, a new and a full queue, on
    the value \<open>EMPTY\<close> and without memory.
  \<^item> \<open>EventCount\<close> (\<open>EventCount.h\<close>): the word with epoch and waiters, its operations, and the interleaving of waiters and notifiers, with
    the invariant that no wake-up is lost.
  \<^item> \<open>Threads\<close>, \<open>Thread_Inv\<close>, \<open>Thread_Steps\<close>, \<open>Concurrent\<close>: \<open>enq\<close> and \<open>deq\<close> again, one step per access to shared memory, run by any number of
    threads in any order. The function \<open>tstep\<close> follows the two functions line by line; the invariant and its preservation are
    proved once per kind of access. Shown: no value is lost, repeated or invented, none is left behind, tickets are in order.

  \<^bold>\<open>The allocator in C\<close> (\<open>malloc.c\<close>, \<open>malloc.h\<close>).
  \<^item> \<open>Size_Class\<close>: constants and macros; \<open>Spinlock\<close>: the locks, as a state machine (locale \<open>state_machine\<close> of \<open>Transition\<close>), with mutual exclusion.
  \<^item> \<open>Page_Sort\<close>: page descriptors and \<open>page_list_sort\<close> (merge sort in place); \<open>Free_Pages\<close>: \<open>fp_add\<close>, \<open>fp_remove\<close>, \<open>fp_find\<close> on the list of
    lists, with the locale \<open>extent_store\<close> as their contract; \<open>Extents\<close>: \<open>alloc_pages\<close>, \<open>free_pages\<close>, \<open>setup_extent_descriptor\<close> and the layout of
    the pool; \<open>Shm\<close>: \<open>shm_init\<close>, \<open>shm_brk\<close> and the other \<open>shm_\<close> functions.
  \<^item> \<open>Heap\<close>: \<open>valloc\<close>, \<open>malloc\<close>, \<open>free\<close>, \<open>msize\<close>, \<open>mresize\<close>, \<open>realloc\<close>, \<open>calloc\<close>, \<open>shm_fini\<close>. About them: \<open>Heap_Frame\<close> (what they leave alone),
    \<open>Heap_Props\<close> (extents), \<open>Chunks\<close> (a page of small blocks), \<open>Heap_Types\<close> (widths of the fields).
  \<^item> \<open>Small_Blocks\<close>, \<open>Small_Alloc\<close>, \<open>Small_Client\<close>: who owns the small blocks. Every chunk is in the list of its page, in a list of the thread, or with the user;
    \<open>malloc\<close> and \<open>free\<close> keep this for all classes, with refills, flushes and the return of pages. The locale \<open>block_allocator\<close> is the contract of an
    allocator and is interpreted on \<open>malloc\<close>, \<open>free\<close> and \<open>msize\<close>. Shown for every client: its blocks never overlap and its requests return. The chunks of
    other threads are not part of it, and large blocks are left out, since freeing a part of a split extent breaks the pool (shown in \<open>Extents\<close>).
  \<^item> \<open>Lock_Configs\<close>: the other locks, by semaphore, file lock and mutex. Their calls are steps of one machine with a static request per
    process; the locale \<open>lock_calls\<close> says what a lock has to provide and is interpreted on the three. Shown: mutual exclusion, with one thread
    per process for the first two, and the race without that; the search for a semaphore key.
  \<^item> \<open>Pool_Configs\<close>: the heap without shared memory (\<open>minit\<close>), \<open>brk\<close> for WINNT, \<open>cygwin_mmap\<close>. \<open>Page_Quicksort\<close>: the sorter that is compiled out, which is
    the same function as the merge sort. \<open>Heapdump\<close>: what \<open>heapdump\<close> prints is the abstract state of the pool.
  \<^item> \<open>Debug_Checks\<close>: the checks under \<open>MALLOC_DEBUG\<close> and what they accept: \<open>fp_verify\<close> exactly the well-formed lists, \<open>free\<close> every
    pointer but those of free chunks.

  \<^bold>\<open>The queue in C++.\<close>
  \<^item> \<open>Hazard\<close> (\<open>HazardPointers.hpp\<close>): the member functions; \<open>Reclaim\<close>: the accesses of \<open>LCRQueue.hpp\<close> to ring pointers, hazard pointers and rings,
    interleaved, with the proof that no thread touches a ring that was given back.
  \<^item> \<open>Futex\<close> (\<open>Futex.hpp\<close>, \<open>Futex.cpp\<close>), \<open>Cpp_EventCount\<close> (\<open>EventCount.hpp\<close>): results and deadlines of waits, and the event count, which agrees
    with that of C.
  \<^item> \<open>Cpp_Lcrq\<close> (\<open>LCRQueue.hpp\<close>), \<open>Scrq\<close> (\<open>SCRQueue.hpp\<close>): the queue down to its cells, with retired rings and a memory manager, for
    calls that do not overlap. A cell is seen as one of C whose value is one lower, since an empty cell holds 0 here and
    \<open>EMPTY\<close> there, so that the facts on rings are used again. Shown: first-in first-out, waking, giving up, what the destructor leaves.

  \<^bold>\<open>The programs.\<close> \<open>Driver\<close> (\<open>main.c\<close>) and \<open>Cpp_Driver\<close> (\<open>main.cpp\<close>): the threads as state machines whose steps are whole calls on the queues
  above. Shown for C: the accounts of the messages, and a schedule after which no thread can go on; for C++: the echo is in
  order and every execution completes, but the third process spins in \<open>wait\<close>. \<open>Driver_Main\<close> has what surrounds the loops: start, processes
  and end of \<open>main.c\<close>, the times and statistics of \<open>main.cpp\<close>, pinning, and the \<open>receiver\<close> of \<open>main.cpp\<close>, which is not started.

  \<^bold>\<open>Conventions and bounds.\<close> Words of 64 and 32 bits are \<open>u64\<close> and \<open>u32\<close> and wrap around; the allocator has numbers with the wrap-around
  written out (\<open>to_unsigned\<close>, \<open>to_int\<close>, \<open>usub\<close>, \<open>bits12\<close>). \<^const>\<open>None\<close> as the result of a call means that it does not return or
  that an assertion fails; \<open>Inl\<close> is an error. Loops that may run for ever are partial functions into options. \<open>deq\<close> has fuel,
  since on a new ring it really does run for ever; the number of rings is enough on a queue that has been used, and this is
  proved where it matters. The tickets of a ring have 63 bits and the theorems ask that fewer than \<open>2^62\<close> are
  drawn; the epoch has 32 bits and wraps, which the theorems on waiting allow for or exclude by name. The power of the ring size is an
  argument. The pool is smaller than \<open>2^31\<close> pages. What the sources do not define is an argument: the system calls of the
  allocator (\<open>os\<close>), what others do during a futex wait (\<open>fwait\<close>), the futex system call (\<open>sys\<close>), the memory managers of Boost (\<open>alloc\<close>).
  Hypotheses on them say what their documentation promises, and every theorem with hypotheses has a witness.

  \<^bold>\<open>Not modelled.\<close> The statements under \<open>MALLOC_DEBUG\<close> that keep the copies of the lists up to date; \<open>Likely.hpp\<close>, whose macros are their argument;
  creation and joining of threads, printing, rounding to floating-point numbers and the removal of shared memory objects in the two
  programs; the constructors of Boost's shared memory. Memory is sequentially consistent: the memory orders of the C++ atomics are
  not modelled. The cells of the C++ queue are not interleaved (those of C are); calls of the programs on one queue do not
  overlap. Open: the small blocks of several threads together, and the interleaving of the C++ cells, for which \<open>Thread_Inv\<close> is
  the pattern.
\<close>

end
